(* ===== verification/Prelude.thy ===== *)
theory Prelude
  imports Main "HOL-Library.Word" "HOL-Library.Monad_Syntax"
begin

text \<open>
  Shared vocabulary of the development: machine integers, typed heaps, the monad in which the
  C functions are written, and the generic lemmas the components use.

  A C function that touches memory is a function into \<open>'a option\<close>.  \<open>None\<close> means that the
  execution does not return to its caller: an invalid dereference, a failed \<open>assert\<close>, a call
  of \<open>abort\<close>, a lock that is never released or a loop that never ends.  Every value the
  code returns, its error codes included, is a \<open>Some\<close>; so a theorem whose conclusion is
  \<open>f s = Some r\<close> states that the function returns.
\<close>

unbundle bit_operations_syntax

section \<open>Machine integers and heaps\<close>

type_synonym addr = "64 word"
type_synonym u8 = "8 word"
type_synonym u32 = "32 word"
type_synonym u64 = "64 word"

abbreviation NULL :: addr where
  "NULL \<equiv> 0"

text \<open>
  A typed heap maps the addresses of the live objects of one C type to their values.
  \<^verbatim>\<open>load\<close> and \<^verbatim>\<open>modify\<close> are the dereference \<^verbatim>\<open>*p\<close> and a field assignment \<^verbatim>\<open>p->f = v\<close>: both
  fail on the null pointer and on an address at which no object lives.
\<close>

type_synonym 'a heap = "addr \<rightharpoonup> 'a"

definition load :: "'a heap \<Rightarrow> addr \<Rightarrow> 'a option" where
  "load h p = (if p = NULL then None else h p)"

definition modify :: "'a heap \<Rightarrow> addr \<Rightarrow> ('a \<Rightarrow> 'a) \<Rightarrow> 'a heap option" where
  "modify h p f = Option.bind (load h p) (\<lambda>v. Some (h(p \<mapsto> f v)))"

text \<open>The C macro \<^verbatim>\<open>assert\<close>: it aborts the process when its argument is false.\<close>

definition c_assert :: "bool \<Rightarrow> unit option" where
  "c_assert b = (if b then Some () else None)"

named_theorems heap_simps \<open>evaluation of heap accesses\<close>

lemma load_eq_Some [heap_simps]: "load h p = Some v \<longleftrightarrow> p \<noteq> NULL \<and> h p = Some v"
  by (simp add: load_def)

lemma load_NULL [simp]: "load h NULL = None"
  by (simp add: load_def)

lemma load_upd: "load (h(p := w)) q = (if q = p \<and> p \<noteq> NULL then w else load h q)"
  by (simp add: load_def)

lemma load_upd_same [simp]: "p \<noteq> NULL \<Longrightarrow> load (h(p := w)) p = w"
  by (simp add: load_def)

lemma load_upd_other [simp]: "q \<noteq> p \<Longrightarrow> load (h(p := w)) q = load h q"
  by (simp add: load_def)

lemma modify_Some: "load h p = Some v \<Longrightarrow> modify h p f = Some (h(p \<mapsto> f v))"
  by (simp add: modify_def)

lemma modify_eq_Some:
  "modify h p f = Some h' \<longleftrightarrow> (\<exists>v. load h p = Some v \<and> h' = h(p \<mapsto> f v))"
  by (auto simp: modify_def bind_eq_Some_conv)

lemma modify_None: "load h p = None \<Longrightarrow> modify h p f = None"
  by (simp add: modify_def)

lemma c_assert_True [simp]: "c_assert True = Some ()"
  by (simp add: c_assert_def)

lemma c_assert_False [simp]: "c_assert False = None"
  by (simp add: c_assert_def)

lemma c_assert_eq_Some [simp]: "c_assert b = Some u \<longleftrightarrow> b"
  by (simp add: c_assert_def)

section \<open>Locks\<close>

text \<open>
  A mutex is a boolean, true while it is held.  The functions of the library are modelled as
  they run when no other thread interferes; taking a mutex that is already held then waits for
  ever.
\<close>

definition mutex_lock :: "bool \<Rightarrow> bool option" where
  "mutex_lock m = (if m then None else Some True)"

definition mutex_unlock :: "bool \<Rightarrow> bool option" where
  "mutex_unlock m = (if m then Some False else None)"

lemma mutex_lock_free [simp]: "mutex_lock False = Some True"
  by (simp add: mutex_lock_def)

lemma mutex_lock_held [simp]: "mutex_lock True = None"
  by (simp add: mutex_lock_def)

lemma mutex_unlock_held [simp]: "mutex_unlock True = Some False"
  by (simp add: mutex_unlock_def)

section \<open>Lists\<close>

lemma distinct_middle_unique:
  assumes "distinct (as @ x # bs)" and "as @ x # bs = cs @ x # ds"
  shows "as = cs \<and> bs = ds"
proof -
  have "x \<notin> set as" "x \<notin> set bs" using assms(1) by auto
  with assms(2) show ?thesis by (simp add: append_Cons_eq_iff)
qed

lemma find_SomeD: "List.find P xs = Some x \<Longrightarrow> x \<in> set xs \<and> P x"
  by (auto simp: find_Some_iff)

lemma find_exists: "\<exists>x \<in> set xs. P x \<Longrightarrow> \<exists>x. List.find P xs = Some x"
  by (induction xs) auto

lemma find_append: "List.find P (xs @ ys) = (case List.find P xs of None \<Rightarrow> List.find P ys | Some x \<Rightarrow> Some x)"
  by (induction xs) auto

lemma find_unique:
  assumes "x \<in> set xs" and "P x" and "\<And>y. y \<in> set xs \<Longrightarrow> P y \<Longrightarrow> y = x"
  shows "List.find P xs = Some x"
proof (cases "List.find P xs")
  case None
  with assms(1,2) show ?thesis by (simp add: find_None_iff)
next
  case (Some y)
  with assms(3) show ?thesis by (auto dest: find_SomeD)
qed

end
