(* ===== verification/Rb_Node.thy ===== *)
theory Rb_Node
  imports Prelude
begin

text \<open>
  The nodes of the red-black trees, \<^verbatim>\<open>signal_test/rbtree.h\<close>.  A node keeps the address of its
  parent and its colour in one machine word: the colour is bit 0 of \<^verbatim>\<open>rb_parent_color\<close>, and
  \<^verbatim>\<open>rb_parent\<close> masks the two low bits.  The lemmas show that this packing is lossless for
  addresses that are multiples of four, which the \<^verbatim>\<open>aligned\<close> attribute of the struct ensures.
\<close>

record rb_node =
  rb_parent_color :: u64
  rb_right :: addr
  rb_left :: addr

definition RB_RED :: u64 where
  "RB_RED = 0"

definition RB_BLACK :: u64 where
  "RB_BLACK = 1"

definition rb_parent :: "rb_node \<Rightarrow> addr" where
  "rb_parent r = rb_parent_color r AND NOT 3"

definition rb_color :: "rb_node \<Rightarrow> u64" where
  "rb_color r = rb_parent_color r AND 1"

definition rb_is_red :: "rb_node \<Rightarrow> bool" where
  "rb_is_red r \<longleftrightarrow> rb_color r = 0"

definition rb_is_black :: "rb_node \<Rightarrow> bool" where
  "rb_is_black r \<longleftrightarrow> rb_color r \<noteq> 0"

definition rb_set_red :: "rb_node \<Rightarrow> rb_node" where
  "rb_set_red r = r\<lparr>rb_parent_color := rb_parent_color r AND NOT 1\<rparr>"

definition rb_set_black :: "rb_node \<Rightarrow> rb_node" where
  "rb_set_black r = r\<lparr>rb_parent_color := rb_parent_color r OR 1\<rparr>"

definition rb_set_parent :: "addr \<Rightarrow> rb_node \<Rightarrow> rb_node" where
  "rb_set_parent p rb = rb\<lparr>rb_parent_color := (rb_parent_color rb AND 3) OR p\<rparr>"

definition rb_set_color :: "u64 \<Rightarrow> rb_node \<Rightarrow> rb_node" where
  "rb_set_color color rb = rb\<lparr>rb_parent_color := (rb_parent_color rb AND NOT 1) OR color\<rparr>"

text \<open>
  \<^verbatim>\<open>RB_EMPTY_NODE\<close>, \<^verbatim>\<open>RB_CLEAR_NODE\<close> and \<^verbatim>\<open>rb_init_node\<close> compare a node with its own address, so they
  take the address as an argument.
\<close>

definition RB_EMPTY_NODE :: "addr \<Rightarrow> rb_node \<Rightarrow> bool" where
  "RB_EMPTY_NODE p r \<longleftrightarrow> rb_parent r = p"

definition RB_CLEAR_NODE :: "addr \<Rightarrow> rb_node \<Rightarrow> rb_node" where
  "RB_CLEAR_NODE p r = rb_set_parent p r"

definition rb_init_node :: "addr \<Rightarrow> rb_node \<Rightarrow> rb_node" where
  "rb_init_node p rb =
     RB_CLEAR_NODE p (rb\<lparr>rb_parent_color := 0, rb_right := NULL, rb_left := NULL\<rparr>)"

section \<open>The packed word\<close>

datatype color = Red | Black

fun color_bit :: "color \<Rightarrow> u64" where
  "color_bit Red = RB_RED"
| "color_bit Black = RB_BLACK"

definition aligned :: "addr \<Rightarrow> bool" where
  "aligned p \<longleftrightarrow> p AND 3 = 0"

text \<open>The node with parent \<^verbatim>\<open>p\<close>, colour \<^verbatim>\<open>c\<close> and children \<^verbatim>\<open>l\<close> and \<^verbatim>\<open>r\<close>.\<close>

definition mk_node :: "addr \<Rightarrow> color \<Rightarrow> addr \<Rightarrow> addr \<Rightarrow> rb_node" where
  "mk_node p c l r = \<lparr>rb_parent_color = p OR color_bit c, rb_right = r, rb_left = l\<rparr>"

named_theorems rb_simps \<open>field access to packed nodes\<close>

lemma bit_three_int: "bit (3 :: int) n \<longleftrightarrow> n < 2"
  using bit_mask_iff[of 2 n, where 'a = int] by (simp add: mask_eq_exp_minus_1)

lemma bit_three_word: "bit (3 :: u64) n \<longleftrightarrow> n < 2"
  using bit_three_int[of n] by auto

lemmas bit_three = bit_three_int bit_three_word

lemma bit_one: "bit (1 :: u64) n \<longleftrightarrow> n = 0"
  by (simp add: bit_1_iff)

lemma aligned_bits: "aligned p \<longleftrightarrow> \<not> bit p 0 \<and> \<not> bit p 1"
proof
  assume "aligned p"
  then have "\<not> bit (p AND 3) 0" "\<not> bit (p AND 3) 1" by (simp_all add: aligned_def)
  then show "\<not> bit p 0 \<and> \<not> bit p 1" by (simp add: bit_and_iff bit_three)
next
  assume "\<not> bit p 0 \<and> \<not> bit p 1"
  then show "aligned p"
    unfolding aligned_def
    by (intro bit_word_eqI) (auto simp: bit_and_iff bit_three less_2_cases_iff intro!: gr0I)
qed

lemma aligned_NULL [simp]: "aligned NULL"
  by (simp add: aligned_def)

lemma aligned_cases: "aligned p \<Longrightarrow> bit p n \<Longrightarrow> 2 \<le> n"
  by (cases "n = 0 \<or> n = 1") (auto simp: aligned_bits)

lemma rb_node_eqI:
  fixes a b :: rb_node
  shows "\<lbrakk>rb_parent_color a = rb_parent_color b; rb_right a = rb_right b; rb_left a = rb_left b\<rbrakk> \<Longrightarrow> a = b"
  by simp

lemma mk_node_sel [simp, rb_simps]:
  "rb_left (mk_node p c l r) = l" "rb_right (mk_node p c l r) = r"
  by (simp_all add: mk_node_def)

lemma mk_node_upd [simp, rb_simps]:
  "(mk_node p c l r)\<lparr>rb_left := l'\<rparr> = mk_node p c l' r"
  "(mk_node p c l r)\<lparr>rb_right := r'\<rparr> = mk_node p c l r'"
  by (simp_all add: mk_node_def)

lemma mk_node_copy_color [simp, rb_simps]:
  "(mk_node p c l r)\<lparr>rb_parent_color := rb_parent_color (mk_node q d l' r')\<rparr> = mk_node q d l r"
  by (simp add: mk_node_def)

lemma rb_parent_mk_node [simp, rb_simps]: "aligned p \<Longrightarrow> rb_parent (mk_node p c l r) = p"
  by (cases c; intro rb_node_eqI bit_word_eqI)
    (auto simp: rb_parent_def mk_node_def RB_RED_def RB_BLACK_def bit_simps bit_three
      bit_one dest: aligned_cases)

lemma rb_color_mk_node [simp, rb_simps]: "aligned p \<Longrightarrow> rb_color (mk_node p c l r) = color_bit c"
  by (cases c; intro rb_node_eqI bit_word_eqI)
    (auto simp: rb_color_def mk_node_def RB_RED_def RB_BLACK_def bit_simps
      bit_one dest: aligned_cases)

lemma rb_is_red_mk_node [simp, rb_simps]: "aligned p \<Longrightarrow> rb_is_red (mk_node p c l r) \<longleftrightarrow> c = Red"
  by (cases c) (simp_all add: rb_is_red_def RB_RED_def RB_BLACK_def)

lemma rb_is_black_mk_node [simp, rb_simps]: "aligned p \<Longrightarrow> rb_is_black (mk_node p c l r) \<longleftrightarrow> c = Black"
  by (cases c) (simp_all add: rb_is_black_def RB_RED_def RB_BLACK_def)

lemma rb_set_red_mk_node [simp, rb_simps]:
  "aligned p \<Longrightarrow> rb_set_red (mk_node p c l r) = mk_node p Red l r"
  by (cases c; intro rb_node_eqI bit_word_eqI)
    (auto simp: rb_set_red_def mk_node_def RB_RED_def RB_BLACK_def bit_simps bit_one
      dest: aligned_cases)

lemma rb_set_black_mk_node [simp, rb_simps]:
  "rb_set_black (mk_node p c l r) = mk_node p Black l r"
  by (cases c) (simp_all add: rb_set_black_def mk_node_def RB_RED_def RB_BLACK_def)

lemma rb_set_parent_mk_node [simp, rb_simps]:
  "aligned p \<Longrightarrow> rb_set_parent q (mk_node p c l r) = mk_node q c l r"
  by (cases c; intro rb_node_eqI bit_word_eqI)
    (auto simp: rb_set_parent_def mk_node_def RB_RED_def RB_BLACK_def bit_simps
      bit_three bit_one dest: aligned_cases)

lemma rb_set_color_mk_node [simp, rb_simps]:
  "aligned p \<Longrightarrow> rb_set_color (color_bit d) (mk_node p c l r) = mk_node p d l r"
  by (cases c; cases d; intro rb_node_eqI bit_word_eqI)
    (auto simp: rb_set_color_def mk_node_def RB_RED_def RB_BLACK_def bit_simps
      bit_one dest: aligned_cases)

lemma rb_init_node_mk_node: "rb_init_node p r = mk_node p Red NULL NULL"
  by (cases r)
    (simp add: rb_init_node_def RB_CLEAR_NODE_def rb_set_parent_def mk_node_def RB_RED_def)

lemma RB_EMPTY_NODE_mk_node [simp, rb_simps]: "aligned p \<Longrightarrow> RB_EMPTY_NODE x (mk_node p c l r) \<longleftrightarrow> p = x"
  by (simp add: RB_EMPTY_NODE_def)

end
