(* ===== verification/Rb_Spec.thy ===== *)
theory Rb_Spec
  imports Rb_Node
begin

text \<open>
  The red-black trees of \<^verbatim>\<open>signal_test/rbtree.c\<close> as values: trees whose nodes are the addresses of
  the C nodes, contexts (the path from a node up to the root) for the loops that climb, the
  functional counterparts of \<^verbatim>\<open>rb_insert_color\<close>, \<^verbatim>\<open>__rb_erase_color\<close> and \<^verbatim>\<open>rb_erase\<close>, and the proof that
  these keep the in-order sequence and restore the red-black invariants.  Theory \<open>Rb_Tree\<close> shows
  that the pointer code computes these functions.
\<close>

section \<open>Trees and contexts\<close>

datatype rbtree = E | T color rbtree addr rbtree

text \<open>
  A frame is a node seen from one of its children: \<^verbatim>\<open>FL c x r\<close> has the hole on the left, \<^verbatim>\<open>FR c l x\<close>
  on the right.  A context lists the frames from the hole up to the root.
\<close>

datatype frame = FL color addr rbtree | FR color rbtree addr

fun fill :: "frame \<Rightarrow> rbtree \<Rightarrow> rbtree" where
  "fill (FL c x r) t = T c t x r"
| "fill (FR c l x) t = T c l x t"

fun plug :: "rbtree \<Rightarrow> frame list \<Rightarrow> rbtree" where
  "plug t [] = t"
| "plug t (f # fs) = plug (fill f t) fs"

fun root_of :: "rbtree \<Rightarrow> addr" where
  "root_of E = NULL"
| "root_of (T c l x r) = x"

fun frame_addr :: "frame \<Rightarrow> addr" where
  "frame_addr (FL c x r) = x"
| "frame_addr (FR c l x) = x"

fun frame_color :: "frame \<Rightarrow> color" where
  "frame_color (FL c x r) = c"
| "frame_color (FR c l x) = c"

fun parent_of :: "frame list \<Rightarrow> addr" where
  "parent_of [] = NULL"
| "parent_of (f # fs) = frame_addr f"

fun color_of :: "rbtree \<Rightarrow> color" where
  "color_of E = Black"
| "color_of (T c l x r) = c"

abbreviation is_red :: "rbtree \<Rightarrow> bool" where
  "is_red t \<equiv> color_of t = Red"

fun paint :: "color \<Rightarrow> rbtree \<Rightarrow> rbtree" where
  "paint c E = E"
| "paint c (T d l x r) = T c l x r"

fun left_of :: "rbtree \<Rightarrow> rbtree" where
  "left_of E = E"
| "left_of (T c l x r) = l"

fun right_of :: "rbtree \<Rightarrow> rbtree" where
  "right_of E = E"
| "right_of (T c l x r) = r"

fun inorder :: "rbtree \<Rightarrow> addr list" where
  "inorder E = []"
| "inorder (T c l x r) = inorder l @ x # inorder r"

text \<open>The in-order sequences before and after the hole of a context.\<close>

fun ctx_before :: "frame list \<Rightarrow> addr list" where
  "ctx_before [] = []"
| "ctx_before (FL c x r # fs) = ctx_before fs"
| "ctx_before (FR c l x # fs) = ctx_before fs @ inorder l @ [x]"

fun ctx_after :: "frame list \<Rightarrow> addr list" where
  "ctx_after [] = []"
| "ctx_after (FL c x r # fs) = x # inorder r @ ctx_after fs"
| "ctx_after (FR c l x # fs) = ctx_after fs"

lemma inorder_plug [simp]: "inorder (plug t fs) = ctx_before fs @ inorder t @ ctx_after fs"
  by (induction fs arbitrary: t rule: ctx_before.induct) auto

lemma inorder_paint [simp]: "inorder (paint c t) = inorder t"
  by (cases t) auto

lemma plug_append [simp]: "plug t (fs @ gs) = plug (plug t fs) gs"
  by (induction fs arbitrary: t) auto

lemma ctx_before_append [simp]: "ctx_before (fs @ gs) = ctx_before gs @ ctx_before fs"
  by (induction fs rule: ctx_before.induct) auto

lemma ctx_after_append [simp]: "ctx_after (fs @ gs) = ctx_after fs @ ctx_after gs"
  by (induction fs rule: ctx_after.induct) auto

lemma is_redE: "is_red t \<Longrightarrow> (\<And>l x r. t = T Red l x r \<Longrightarrow> P) \<Longrightarrow> P"
  by (cases t) auto

lemma color_not_Red [simp]: "c \<noteq> Red \<longleftrightarrow> c = Black"
  by (cases c) auto

lemma color_not_Black [simp]: "c \<noteq> Black \<longleftrightarrow> c = Red"
  by (cases c) auto

lemma paint_paint [simp]: "paint c (paint d t) = paint c t"
  by (cases t) auto

lemma color_paint_Black [simp]: "color_of (paint Black t) = Black"
  by (cases t) auto

lemma paint_Black_id [simp]: "\<not> is_red t \<Longrightarrow> paint Black t = t"
  by (cases t) auto

section \<open>Red-black invariants\<close>

definition weight :: "color \<Rightarrow> nat" where
  "weight c = (if c = Black then 1 else 0)"

lemma weight_simps [simp]: "weight Black = 1" "weight Red = 0"
  by (simp_all add: weight_def)

fun black_height :: "rbtree \<Rightarrow> nat" where
  "black_height E = 0"
| "black_height (T c l x r) = black_height l + weight c"

fun height_ok :: "rbtree \<Rightarrow> bool" where
  "height_ok E \<longleftrightarrow> True"
| "height_ok (T c l x r) \<longleftrightarrow> height_ok l \<and> height_ok r \<and> black_height l = black_height r"

fun color_ok :: "rbtree \<Rightarrow> bool" where
  "color_ok E \<longleftrightarrow> True"
| "color_ok (T c l x r) \<longleftrightarrow> color_ok l \<and> color_ok r \<and> (c = Red \<longrightarrow> \<not> is_red l \<and> \<not> is_red r)"

definition rb_inv :: "rbtree \<Rightarrow> bool" where
  "rb_inv t \<longleftrightarrow> color_ok t \<and> height_ok t \<and> \<not> is_red t"

text \<open>
  The same conditions for contexts: \<^verbatim>\<open>ctx_height_ok fs n\<close> allows a subtree of black height \<^verbatim>\<open>n\<close> in the
  hole, \<^verbatim>\<open>ctx_color_ok fs c\<close> one whose root has colour \<^verbatim>\<open>c\<close>.
\<close>

fun ctx_height_ok :: "frame list \<Rightarrow> nat \<Rightarrow> bool" where
  "ctx_height_ok [] n \<longleftrightarrow> True"
| "ctx_height_ok (FL c x r # fs) n \<longleftrightarrow>
     height_ok r \<and> black_height r = n \<and> ctx_height_ok fs (n + weight c)"
| "ctx_height_ok (FR c l x # fs) n \<longleftrightarrow>
     height_ok l \<and> black_height l = n \<and> ctx_height_ok fs (n + weight c)"

fun ctx_color_ok :: "frame list \<Rightarrow> color \<Rightarrow> bool" where
  "ctx_color_ok [] k \<longleftrightarrow> k = Black"
| "ctx_color_ok (FL c x r # fs) k \<longleftrightarrow>
     color_ok r \<and> (c = Red \<longrightarrow> k = Black \<and> \<not> is_red r) \<and> ctx_color_ok fs c"
| "ctx_color_ok (FR c l x # fs) k \<longleftrightarrow>
     color_ok l \<and> (c = Red \<longrightarrow> k = Black \<and> \<not> is_red l) \<and> ctx_color_ok fs c"

lemma height_ok_plug: "height_ok (plug t fs) \<longleftrightarrow> height_ok t \<and> ctx_height_ok fs (black_height t)"
  by (induction fs arbitrary: t rule: ctx_before.induct) auto

lemma color_ok_plug:
  "color_ok (plug t fs) \<and> \<not> is_red (plug t fs) \<longleftrightarrow> color_ok t \<and> ctx_color_ok fs (color_of t)"
  by (induction fs arbitrary: t rule: ctx_before.induct) auto

lemma rb_inv_plug:
  "rb_inv (plug t fs) \<longleftrightarrow>
     color_ok t \<and> height_ok t \<and> ctx_color_ok fs (color_of t) \<and> ctx_height_ok fs (black_height t)"
  using color_ok_plug[of t fs] by (auto simp: rb_inv_def height_ok_plug)

lemma ctx_color_ok_Black: "ctx_color_ok fs k \<Longrightarrow> ctx_color_ok fs Black"
  by (cases fs rule: ctx_before.cases) auto

lemma height_ok_paint [simp]: "height_ok (paint c t) = height_ok t"
  by (cases t) auto

lemma color_ok_paint_Black: "color_ok t \<Longrightarrow> color_ok (paint Black t)"
  by (cases t) auto

lemma black_height_paint [simp]: "is_red t \<Longrightarrow> black_height (paint Black t) = Suc (black_height t)"
  by (cases t) auto

lemma rb_inv_E [simp]: "rb_inv E"
  by (simp add: rb_inv_def)

lemma rb_inv_paint_plug: "rb_inv (plug t fs) \<Longrightarrow> rb_inv (paint Black (plug t fs))"
  by (simp add: rb_inv_def)

section \<open>Rebalancing after insertion\<close>

text \<open>
  \<^verbatim>\<open>ins_fix t fs\<close>: the loop of \<^verbatim>\<open>rb_insert_color\<close> with \<^verbatim>\<open>node\<close> the root of \<^verbatim>\<open>t\<close>, whose ancestors are the
  frames \<^verbatim>\<open>fs\<close>.
\<close>

fun ins_fix :: "rbtree \<Rightarrow> frame list \<Rightarrow> rbtree" where
  "ins_fix t (FL Red p s # FL gc g u # fs) =
     (if is_red u then ins_fix (T Red (T Black t p s) g (paint Black u)) fs
      else plug (T Black t p (T Red s g u)) fs)"
| "ins_fix t (FR Red s p # FL gc g u # fs) =
     (if is_red u then ins_fix (T Red (T Black s p t) g (paint Black u)) fs
      else plug (T Black (T Red s p (left_of t)) (root_of t) (T Red (right_of t) g u)) fs)"
| "ins_fix t (FR Red s p # FR gc u g # fs) =
     (if is_red u then ins_fix (T Red (paint Black u) g (T Black s p t)) fs
      else plug (T Black (T Red u g s) p t) fs)"
| "ins_fix t (FL Red p s # FR gc u g # fs) =
     (if is_red u then ins_fix (T Red (paint Black u) g (T Black t p s)) fs
      else plug (T Black (T Red u g (left_of t)) (root_of t) (T Red (right_of t) p s)) fs)"
| "ins_fix t (FL Black p s # f # fs) = plug t (FL Black p s # f # fs)"
| "ins_fix t (FR Black s p # f # fs) = plug t (FR Black s p # f # fs)"
| "ins_fix t [f] = plug t [f]"
| "ins_fix t [] = plug t []"

lemma inorder_ins_fix: "t \<noteq> E \<Longrightarrow> inorder (ins_fix t fs) = inorder (plug t fs)"
proof (induction t fs rule: ins_fix.induct)
  case (2 t s p gc g u fs)
  then show ?case by (cases t) auto
next
  case (4 t p s gc u g fs)
  then show ?case by (cases t) auto
qed auto

lemma ins_fix_inv:
  assumes "color_ok t" "height_ok t" "is_red t" "ctx_color_ok fs Black" "ctx_height_ok fs (black_height t)"
  shows "rb_inv (paint Black (ins_fix t fs))"
  using assms
proof (induction t fs rule: ins_fix.induct)
  case (1 t p s gc g u fs)
  then show ?case
    by (cases "is_red u") (auto simp: rb_inv_plug elim!: is_redE dest: ctx_color_ok_Black intro!: rb_inv_paint_plug)
next
  case (2 t s p gc g u fs)
  then show ?case
    by (cases "is_red u") (auto simp: rb_inv_plug elim!: is_redE dest: ctx_color_ok_Black intro!: rb_inv_paint_plug)
next
  case (3 t s p gc u g fs)
  then show ?case
    by (cases "is_red u") (auto simp: rb_inv_plug elim!: is_redE dest: ctx_color_ok_Black intro!: rb_inv_paint_plug)
next
  case (4 t p s gc u g fs)
  then show ?case
    by (cases "is_red u") (auto simp: rb_inv_plug elim!: is_redE dest: ctx_color_ok_Black intro!: rb_inv_paint_plug)
next
  case (5 t p s f fs)
  then show ?case by (cases f) (auto simp: rb_inv_plug elim!: is_redE intro!: rb_inv_paint_plug)
next
  case (6 t s p f fs)
  then show ?case by (cases f) (auto simp: rb_inv_plug elim!: is_redE intro!: rb_inv_paint_plug)
next
  case (7 t f)
  then show ?case by (cases f) (auto simp: rb_inv_def)
qed (auto simp: rb_inv_def elim!: is_redE)

section \<open>Rebalancing after removal\<close>

text \<open>
  One step of \<^verbatim>\<open>__rb_erase_color\<close> below a parent \<^verbatim>\<open>p\<close> of colour \<^verbatim>\<open>c\<close>, when the sibling is black: the new
  subtree, and whether the loop stops with \<^verbatim>\<open>break\<close>.  \<^verbatim>\<open>del_step_l\<close> is the case of a left child that
  lacks one black node, \<^verbatim>\<open>del_step_r\<close> its mirror image.
\<close>

fun del_step_l :: "rbtree \<Rightarrow> color \<Rightarrow> addr \<Rightarrow> rbtree \<Rightarrow> rbtree \<times> bool" where
  "del_step_l t c p (T k sl x sr) =
     (if \<not> is_red sl \<and> \<not> is_red sr then (T c t p (T Red sl x sr), False)
      else if \<not> is_red sr
      then (T c (T Black t p (left_of sl)) (root_of sl) (T Black (right_of sl) x sr), True)
      else (T c (T Black t p sl) x (paint Black sr), True))"
| "del_step_l t c p E = (T c t p E, False)"

fun del_step_r :: "rbtree \<Rightarrow> color \<Rightarrow> addr \<Rightarrow> rbtree \<Rightarrow> rbtree \<times> bool" where
  "del_step_r (T k sl x sr) c p t =
     (if \<not> is_red sl \<and> \<not> is_red sr then (T c (T Red sl x sr) p t, False)
      else if \<not> is_red sl
      then (T c (T Black sl x (left_of sr)) (root_of sr) (T Black (right_of sr) p t), True)
      else (T c (paint Black sl) x (T Black sr p t), True))"
| "del_step_r E c p t = (T c E p t, False)"

text \<open>
  The loop: it ends at a red node or at the root, which are painted black, or with \<^verbatim>\<open>break\<close>, after
  which the root is painted black.  A red sibling is first rotated above the parent, which then
  is red, so that the loop ends in the same round or the next.
\<close>

fun del_fix :: "rbtree \<Rightarrow> frame list \<Rightarrow> rbtree" where
  "del_fix t [] = paint Black t"
| "del_fix t (FL c p s # fs) =
     (if is_red t then plug (paint Black t) (FL c p s # fs)
      else if is_red s
      then (let (u, brk) = del_step_l t Red p (left_of s); gs = FL Black (root_of s) (right_of s) # fs
            in if brk then paint Black (plug u gs) else plug (paint Black u) gs)
      else (let (u, brk) = del_step_l t c p s
            in if brk then paint Black (plug u fs) else del_fix u fs))"
| "del_fix t (FR c s p # fs) =
     (if is_red t then plug (paint Black t) (FR c s p # fs)
      else if is_red s
      then (let (u, brk) = del_step_r (right_of s) Red p t; gs = FR Black (left_of s) (root_of s) # fs
            in if brk then paint Black (plug u gs) else plug (paint Black u) gs)
      else (let (u, brk) = del_step_r s c p t
            in if brk then paint Black (plug u fs) else del_fix u fs))"

lemma inorder_del_step_l: "inorder (fst (del_step_l t c p s)) = inorder t @ p # inorder s"
  by (cases s) (auto elim!: is_redE)

lemma inorder_del_step_r: "inorder (fst (del_step_r s c p t)) = inorder s @ p # inorder t"
  by (cases s) (auto elim!: is_redE)

lemma inorder_del_fix: "inorder (del_fix t fs) = inorder (plug t fs)"
proof (induction t fs rule: del_fix.induct)
  case (2 t c p s fs)
  show ?case
    using inorder_del_step_l[of t Red p "left_of s"] inorder_del_step_l[of t c p s] "2.IH"
    by (cases "del_step_l t c p s"; cases "del_step_l t Red p (left_of s)") (auto simp: Let_def elim!: is_redE)
next
  case (3 t c s p fs)
  show ?case
    using inorder_del_step_r[of "right_of s" Red p t] inorder_del_step_r[of s c p t] "3.IH"
    by (cases "del_step_r s c p t"; cases "del_step_r (right_of s) Red p t") (auto simp: Let_def elim!: is_redE)
qed auto

text \<open>
  What one step establishes.  The subtree in the hole is one black node short: its sibling has the
  next black height.  If the loop stops, the new subtree is a correct red-black tree of the
  height the sibling's side had; if not, it is still one short, and its root may be red with a
  red child.
\<close>

lemma del_step_l_inv:
  assumes "color_ok t" "height_ok t" "\<not> is_red t" "color_ok s" "height_ok s" "\<not> is_red s"
    and "black_height s = Suc (black_height t)" and "del_step_l t c p s = (u, brk)"
  shows "height_ok u" "brk \<Longrightarrow> color_ok u \<and> color_of u = c \<and> black_height u = Suc (black_height t) + weight c"
    "\<not> brk \<Longrightarrow> color_ok (paint Black u) \<and> black_height u = black_height t + weight c \<and> color_of u = c"
  using assms by (cases s; auto split: if_splits elim!: is_redE)+

lemma del_step_r_inv:
  assumes "color_ok t" "height_ok t" "\<not> is_red t" "color_ok s" "height_ok s" "\<not> is_red s"
    and "black_height s = Suc (black_height t)" and "del_step_r s c p t = (u, brk)"
  shows "height_ok u" "brk \<Longrightarrow> color_ok u \<and> color_of u = c \<and> black_height u = Suc (black_height t) + weight c"
    "\<not> brk \<Longrightarrow> color_ok (paint Black u) \<and> black_height u = black_height t + weight c \<and> color_of u = c"
  using assms by (cases s; auto split: if_splits elim!: is_redE)+

lemma del_fix_inv:
  assumes "color_ok (paint Black t)" "height_ok t" "ctx_color_ok fs Black"
    "ctx_height_ok fs (Suc (black_height t))"
  shows "rb_inv (del_fix t fs)"
  using assms
proof (induction t fs rule: del_fix.induct)
  case (1 t)
  then show ?case by (simp add: rb_inv_def)
next
  case (2 t c p s fs)
  consider (red) "is_red t" | (red_sibling) "\<not> is_red t" "is_red s" | (black_sibling) "\<not> is_red t" "\<not> is_red s"
    by blast
  then show ?case
  proof cases
    case red
    with "2.prems" show ?thesis by (auto simp: rb_inv_plug elim!: is_redE)
  next
    case red_sibling
    then obtain sl x sr where s: "s = T Red sl x sr" by (auto elim: is_redE)
    obtain u brk where st: "del_step_l t Red p sl = (u, brk)" by fastforce
    have pre: "color_ok t" "height_ok t" "\<not> is_red t" "color_ok sl" "height_ok sl" "\<not> is_red sl"
      "black_height sl = Suc (black_height t)"
      using "2.prems" red_sibling s by auto
    have "height_ok u" "brk \<Longrightarrow> color_ok u \<and> color_of u = Red \<and> black_height u = Suc (black_height t)"
      "\<not> brk \<Longrightarrow> color_ok (paint Black u) \<and> black_height u = black_height t \<and> color_of u = Red"
      using del_step_l_inv[OF pre st] by auto
    then show ?thesis
      using "2.prems" red_sibling s st
      by (cases brk) (auto simp: rb_inv_plug Let_def intro!: rb_inv_paint_plug)
  next
    case black_sibling
    obtain u brk where st: "del_step_l t c p s = (u, brk)" by fastforce
    have pre: "color_ok t" "height_ok t" "\<not> is_red t" "color_ok s" "height_ok s" "\<not> is_red s"
      "black_height s = Suc (black_height t)"
      using "2.prems" black_sibling by auto
    have u: "height_ok u" "brk \<Longrightarrow> color_ok u \<and> color_of u = c \<and> black_height u = Suc (black_height t) + weight c"
      "\<not> brk \<Longrightarrow> color_ok (paint Black u) \<and> black_height u = black_height t + weight c \<and> color_of u = c"
      using del_step_l_inv[OF pre st] by auto
    then show ?thesis
    proof (cases brk)
      case True
      with u "2.prems" black_sibling st show ?thesis by (auto simp: rb_inv_plug intro!: rb_inv_paint_plug)
    next
      case False
      then have "rb_inv (del_fix u fs)"
        using "2.IH"[OF _ _ st[symmetric]] u "2.prems" black_sibling by (auto dest: ctx_color_ok_Black)
      with False black_sibling st show ?thesis by simp
    qed
  qed
next
  case (3 t c s p fs)
  consider (red) "is_red t" | (red_sibling) "\<not> is_red t" "is_red s" | (black_sibling) "\<not> is_red t" "\<not> is_red s"
    by blast
  then show ?case
  proof cases
    case red
    with "3.prems" show ?thesis by (auto simp: rb_inv_plug elim!: is_redE)
  next
    case red_sibling
    then obtain sl x sr where s: "s = T Red sl x sr" by (auto elim: is_redE)
    obtain u brk where st: "del_step_r sr Red p t = (u, brk)" by fastforce
    have pre: "color_ok t" "height_ok t" "\<not> is_red t" "color_ok sr" "height_ok sr" "\<not> is_red sr"
      "black_height sr = Suc (black_height t)"
      using "3.prems" red_sibling s by auto
    have "height_ok u" "brk \<Longrightarrow> color_ok u \<and> color_of u = Red \<and> black_height u = Suc (black_height t)"
      "\<not> brk \<Longrightarrow> color_ok (paint Black u) \<and> black_height u = black_height t \<and> color_of u = Red"
      using del_step_r_inv[OF pre st] by auto
    then show ?thesis
      using "3.prems" red_sibling s st
      by (cases brk) (auto simp: rb_inv_plug Let_def intro!: rb_inv_paint_plug)
  next
    case black_sibling
    obtain u brk where st: "del_step_r s c p t = (u, brk)" by fastforce
    have pre: "color_ok t" "height_ok t" "\<not> is_red t" "color_ok s" "height_ok s" "\<not> is_red s"
      "black_height s = Suc (black_height t)"
      using "3.prems" black_sibling by auto
    have u: "height_ok u" "brk \<Longrightarrow> color_ok u \<and> color_of u = c \<and> black_height u = Suc (black_height t) + weight c"
      "\<not> brk \<Longrightarrow> color_ok (paint Black u) \<and> black_height u = black_height t + weight c \<and> color_of u = c"
      using del_step_r_inv[OF pre st] by auto
    then show ?thesis
    proof (cases brk)
      case True
      with u "3.prems" black_sibling st show ?thesis by (auto simp: rb_inv_plug intro!: rb_inv_paint_plug)
    next
      case False
      then have "rb_inv (del_fix u fs)"
        using "3.IH"[OF _ _ st[symmetric]] u "3.prems" black_sibling by (auto dest: ctx_color_ok_Black)
      with False black_sibling st show ?thesis by simp
    qed
  qed
qed

section \<open>Removal\<close>

text \<open>The leftmost node of a subtree, with the frames passed on the way down.\<close>

fun leftmost :: "rbtree \<Rightarrow> frame list \<Rightarrow> rbtree \<times> frame list" where
  "leftmost (T c l x r) fs = (if l = E then (T c l x r, fs) else leftmost l (FL c x r # fs))"
| "leftmost E fs = (E, fs)"

definition splice_out :: "color \<Rightarrow> rbtree \<Rightarrow> frame list \<Rightarrow> rbtree" where
  "splice_out c t fs = (if c = Black then del_fix t fs else plug t fs)"

text \<open>
  \<^verbatim>\<open>rb_erase\<close> of the node at the root of the first argument.  With two children, the successor \<^verbatim>\<open>m\<close>
  takes over the place and the colour of the erased node and its own place is closed.
\<close>

fun del_node :: "rbtree \<Rightarrow> frame list \<Rightarrow> rbtree" where
  "del_node (T c l x r) fs =
     (if l = E then splice_out c r fs
      else if r = E then splice_out c l fs
      else (let (t, gs) = leftmost r []
            in splice_out (color_of t) (right_of t) (gs @ FR c l (root_of t) # fs)))"
| "del_node E fs = plug E fs"

lemma leftmost_shape:
  "t \<noteq> E \<Longrightarrow> \<exists>c x r gs. leftmost t fs = (T c E x r, gs @ fs) \<and> plug (T c E x r) gs = t \<and> ctx_before gs = []"
proof (induction t arbitrary: fs)
  case (T c l x r)
  show ?case
  proof (cases "l = E")
    case False
    then obtain k y s gs where "leftmost l (FL c x r # fs) = (T k E y s, gs @ FL c x r # fs)"
      "plug (T k E y s) gs = l" "ctx_before gs = []"
      using T.IH(1) by blast
    with False show ?thesis
      by (intro exI[of _ k] exI[of _ y] exI[of _ s] exI[of _ "gs @ [FL c x r]"]) auto
  qed (auto intro: exI[of _ "[]"])
qed simp

lemma inorder_splice_out: "inorder (splice_out c t fs) = inorder (plug t fs)"
  by (simp add: splice_out_def inorder_del_fix)

lemma splice_out_inv:
  assumes "rb_inv (plug (T c l x r) fs)" "l = E \<or> r = E"
  shows "rb_inv (splice_out c (if l = E then r else l) fs)"
proof -
  have "color_ok l" "color_ok r" "height_ok l" "height_ok r" "black_height l = 0" "black_height r = 0"
    "c = Red \<Longrightarrow> \<not> is_red l \<and> \<not> is_red r" "ctx_color_ok fs c" "ctx_height_ok fs (weight c)"
    using assms by (auto simp: rb_inv_plug)
  then show ?thesis
    by (cases c)
      (auto simp: splice_out_def rb_inv_plug intro!: del_fix_inv color_ok_paint_Black
        dest: ctx_color_ok_Black)
qed

lemma ctx_color_ok_swap: "ctx_color_ok (gs @ FR c l x # fs) k = ctx_color_ok (gs @ FR c l y # fs) k"
  by (induction gs k rule: ctx_color_ok.induct) auto

lemma ctx_height_ok_swap: "ctx_height_ok (gs @ FR c l x # fs) n = ctx_height_ok (gs @ FR c l y # fs) n"
  by (induction gs n rule: ctx_height_ok.induct) auto

lemma inorder_del_node:
  "inorder (del_node (T c l x r) fs) = ctx_before fs @ inorder l @ inorder r @ ctx_after fs"
proof (cases "l = E \<or> r = E")
  case True
  then show ?thesis by (auto simp: inorder_splice_out)
next
  case False
  then obtain k m s gs where "leftmost r [] = (T k E m s, gs @ [])" "plug (T k E m s) gs = r"
    "ctx_before gs = []"
    using leftmost_shape by blast
  moreover from this have "inorder r = m # inorder s @ ctx_after gs" by auto
  ultimately show ?thesis using False by (simp add: inorder_splice_out)
qed

lemma del_node_inv:
  assumes "rb_inv (plug (T c l x r) fs)"
  shows "rb_inv (del_node (T c l x r) fs)"
proof (cases "l = E \<or> r = E")
  case True
  then show ?thesis using splice_out_inv[OF assms True] by (auto split: if_splits)
next
  case False
  then obtain k m s gs where m: "leftmost r [] = (T k E m s, gs @ [])" "plug (T k E m s) gs = r"
    using leftmost_shape by blast
  have "rb_inv (plug (T k E m s) (gs @ FR c l x # fs))" using assms m(2) by simp
  then have "rb_inv (plug (T k E m s) (gs @ FR c l m # fs))"
    unfolding rb_inv_plug using ctx_color_ok_swap ctx_height_ok_swap by metis
  then have "rb_inv (splice_out k s (gs @ FR c l m # fs))"
    using splice_out_inv by fastforce
  then show ?thesis using False m(1) by simp
qed

section \<open>Search trees\<close>

definition sorted_keys :: "(addr \<Rightarrow> 'k::linorder) \<Rightarrow> addr list \<Rightarrow> bool" where
  "sorted_keys key xs \<longleftrightarrow> sorted_wrt (<) (map key xs)"

definition bst :: "(addr \<Rightarrow> 'k::linorder) \<Rightarrow> rbtree \<Rightarrow> bool" where
  "bst key t \<longleftrightarrow> sorted_keys key (inorder t)"

fun find_node :: "(addr \<Rightarrow> 'k::linorder) \<Rightarrow> 'k \<Rightarrow> rbtree \<Rightarrow> addr option" where
  "find_node key k E = None"
| "find_node key k (T c l x r) =
     (if k < key x then find_node key k l else if key x < k then find_node key k r else Some x)"

text \<open>The empty position where a key is to be linked, or \<^verbatim>\<open>None\<close> if the key is present.\<close>

fun ins_pos :: "(addr \<Rightarrow> 'k::linorder) \<Rightarrow> 'k \<Rightarrow> rbtree \<Rightarrow> frame list \<Rightarrow> frame list option" where
  "ins_pos key k E fs = Some fs"
| "ins_pos key k (T c l x r) fs =
     (if k < key x then ins_pos key k l (FL c x r # fs)
      else if key x < k then ins_pos key k r (FR c l x # fs)
      else None)"

lemma sorted_keys_append:
  "sorted_keys key (xs @ ys) \<longleftrightarrow>
     sorted_keys key xs \<and> sorted_keys key ys \<and> (\<forall>x \<in> set xs. \<forall>y \<in> set ys. key x < key y)"
  by (auto simp: sorted_keys_def sorted_wrt_append)

lemma sorted_keys_Cons: "sorted_keys key (x # xs) \<longleftrightarrow> (\<forall>y \<in> set xs. key x < key y) \<and> sorted_keys key xs"
  by (auto simp: sorted_keys_def)

lemma sorted_keys_Nil [simp]: "sorted_keys key []"
  by (simp add: sorted_keys_def)

lemma sorted_keys_inj: "\<lbrakk>sorted_keys key xs; x \<in> set xs; y \<in> set xs; key x = key y\<rbrakk> \<Longrightarrow> x = y"
  by (auto simp: sorted_keys_def strict_sorted_iff distinct_map dest: inj_onD)

lemma find_node_iff:
  "bst key t \<Longrightarrow> find_node key k t = Some x \<longleftrightarrow> x \<in> set (inorder t) \<and> key x = k"
  by (induction t) (auto simp: bst_def sorted_keys_append sorted_keys_Cons)

lemma find_node_None: "bst key t \<Longrightarrow> find_node key k t = None \<longleftrightarrow> (\<forall>x \<in> set (inorder t). key x \<noteq> k)"
  using find_node_iff[of key t k] by (cases "find_node key k t") auto

lemma ins_pos_None: "bst key t \<Longrightarrow> ins_pos key k t fs = None \<longleftrightarrow> k \<in> key ` set (inorder t)"
  by (induction t arbitrary: fs)
    (auto simp: bst_def sorted_keys_append sorted_keys_Cons dest: less_asym order.strict_implies_not_eq)

lemma ins_pos_plug: "ins_pos key k t fs = Some gs \<Longrightarrow> plug E gs = plug t fs"
  by (induction t arbitrary: fs) (auto split: if_splits)

lemma ins_pos_sorted:
  assumes "ins_pos key k t fs = Some gs" "sorted_keys key (inorder t)"
    and "\<forall>y \<in> set (ctx_before fs). key y < k" "\<forall>y \<in> set (ctx_after fs). k < key y"
  shows "(\<forall>y \<in> set (ctx_before gs). key y < k) \<and> (\<forall>y \<in> set (ctx_after gs). k < key y)"
  using assms
proof (induction t arbitrary: fs)
  case E
  then show ?case by simp
next
  case (T c l x r)
  have srt: "sorted_keys key (inorder l)" "sorted_keys key (inorder r)"
    "\<forall>y \<in> set (inorder l). key y < key x" "\<forall>y \<in> set (inorder r). key x < key y"
    using T.prems(2) by (auto simp: sorted_keys_append sorted_keys_Cons)
  show ?case
  proof (cases "k < key x")
    case True
    with T.prems(1) have a: "ins_pos key k l (FL c x r # fs) = Some gs" by simp
    have b: "\<forall>y \<in> set (ctx_after (FL c x r # fs)). k < key y"
      using True srt(4) T.prems(4) by (auto intro: order.strict_trans[OF True])
    show ?thesis by (rule T.IH(1)[OF a srt(1) _ b]) (use T.prems(3) in simp)
  next
    case False
    with T.prems(1) have x: "key x < k" "ins_pos key k r (FR c l x # fs) = Some gs"
      by (auto split: if_splits)
    have b: "\<forall>y \<in> set (ctx_before (FR c l x # fs)). key y < k"
      using x(1) srt(3) T.prems(3) by (auto intro: order.strict_trans[OF _ x(1)])
    show ?thesis by (rule T.IH(2)[OF x(2) srt(2) b]) (use T.prems(4) in simp)
  qed
qed

text \<open>The tree after linking a new red leaf \<^verbatim>\<open>n\<close> at the position found for its key.\<close>

lemma bst_insert:
  assumes "bst key t" "ins_pos key (key n) t [] = Some fs"
  shows "sorted_keys key (ctx_before fs @ n # ctx_after fs)"
proof -
  have "plug E fs = t" using ins_pos_plug[OF assms(2)] by simp
  then have "inorder t = ctx_before fs @ ctx_after fs" using inorder_plug[of E fs] by simp
  then show ?thesis
    using assms ins_pos_sorted[OF assms(2)]
    by (auto simp: bst_def sorted_keys_append sorted_keys_Cons)
qed

section \<open>Balance\<close>

fun depth :: "rbtree \<Rightarrow> nat" where
  "depth E = 0"
| "depth (T c l x r) = Suc (max (depth l) (depth r))"

lemma depth_black_height:
  "\<lbrakk>color_ok t; height_ok t\<rbrakk> \<Longrightarrow> depth t \<le> 2 * black_height t + (if is_red t then 1 else 0)"
  by (induction t) (auto split: if_splits simp: weight_def)

lemma black_height_size: "height_ok t \<Longrightarrow> 2 ^ black_height t \<le> Suc (length (inorder t))"
  by (induction t) (auto simp: weight_def)

lemma depth_size:
  assumes "rb_inv t"
  shows "2 ^ depth t \<le> (Suc (length (inorder t)))\<^sup>2"
proof -
  have "depth t \<le> 2 * black_height t" using assms depth_black_height[of t] by (auto simp: rb_inv_def)
  then have "(2::nat) ^ depth t \<le> 2 ^ (2 * black_height t)" by (intro power_increasing) auto
  also have "\<dots> = (2 ^ black_height t)\<^sup>2" by (simp add: power_mult mult.commute)
  also have "\<dots> \<le> (Suc (length (inorder t)))\<^sup>2"
    using assms black_height_size[of t] by (intro power_mono) (auto simp: rb_inv_def)
  finally show ?thesis .
qed

end
