(* ===== verification/Rb_Tree.thy ===== *)
theory Rb_Tree
  imports Rb_Spec
begin

text \<open>
  The pointer code of \<^verbatim>\<open>signal_test/rbtree.c\<close> and its refinement to theory \<open>Rb_Spec\<close>.  The state is
  the heap of nodes together with the root pointer.  A zipper (a subtree and the frames above it)
  says what the heap around one node looks like; every operation of the code is a lemma that takes
  a zipper to a zipper, and the loops follow by induction.
\<close>

section \<open>State and field access\<close>

record rb_state =
  rb_nodes :: "rb_node heap"
  rb_root :: addr

definition rd :: "(rb_node \<Rightarrow> 'a) \<Rightarrow> addr \<Rightarrow> rb_state \<Rightarrow> 'a option" where
  "rd f p s = map_option f (load (rb_nodes s) p)"

definition wr :: "(rb_node \<Rightarrow> rb_node) \<Rightarrow> addr \<Rightarrow> rb_state \<Rightarrow> rb_state option" where
  "wr f p s = map_option (\<lambda>h. s\<lparr>rb_nodes := h\<rparr>) (modify (rb_nodes s) p f)"

abbreviation set_left :: "addr \<Rightarrow> rb_node \<Rightarrow> rb_node" where
  "set_left v n \<equiv> n\<lparr>rb_left := v\<rparr>"

abbreviation set_right :: "addr \<Rightarrow> rb_node \<Rightarrow> rb_node" where
  "set_right v n \<equiv> n\<lparr>rb_right := v\<rparr>"

section \<open>The operations of rbtree.c\<close>

text \<open>
  The statements \<^verbatim>\<open>if (parent) { if (old == parent->rb_left) parent->rb_left = new; else
  parent->rb_right = new; } else root->rb_node = new;\<close>, which occur in several functions of the file, and
  the mirrored ones of \<^verbatim>\<open>__rb_rotate_right\<close>.
\<close>

definition change_child :: "addr \<Rightarrow> addr \<Rightarrow> addr \<Rightarrow> rb_state \<Rightarrow> rb_state option" where
  "change_child old new parent s =
     (if parent \<noteq> NULL then do {
        pl \<leftarrow> rd rb_left parent s;
        if old = pl then wr (set_left new) parent s
        else wr (set_right new) parent s }
      else Some (s\<lparr>rb_root := new\<rparr>))"

definition change_child_mirror :: "addr \<Rightarrow> addr \<Rightarrow> addr \<Rightarrow> rb_state \<Rightarrow> rb_state option" where
  "change_child_mirror old new parent s =
     (if parent \<noteq> NULL then do {
        pr \<leftarrow> rd rb_right parent s;
        if old = pr then wr (set_right new) parent s
        else wr (set_left new) parent s }
      else Some (s\<lparr>rb_root := new\<rparr>))"

text \<open>The statement \<^verbatim>\<open>if (child) rb_set_parent(child, p);\<close>.\<close>

definition set_parent_opt :: "addr \<Rightarrow> addr \<Rightarrow> rb_state \<Rightarrow> rb_state option" where
  "set_parent_opt child p s = (if child \<noteq> NULL then wr (rb_set_parent p) child s else Some s)"

definition rb_rotate_left :: "addr \<Rightarrow> rb_state \<Rightarrow> rb_state option" where
  "rb_rotate_left node s = do {
     right \<leftarrow> rd rb_right node s;
     parent \<leftarrow> rd rb_parent node s;
     rl \<leftarrow> rd rb_left right s;
     s \<leftarrow> wr (set_right rl) node s;
     s \<leftarrow> set_parent_opt rl node s;
     s \<leftarrow> wr (set_left node) right s;
     s \<leftarrow> wr (rb_set_parent parent) right s;
     s \<leftarrow> change_child node right parent s;
     wr (rb_set_parent right) node s }"

definition rb_rotate_right :: "addr \<Rightarrow> rb_state \<Rightarrow> rb_state option" where
  "rb_rotate_right node s = do {
     left \<leftarrow> rd rb_left node s;
     parent \<leftarrow> rd rb_parent node s;
     lr \<leftarrow> rd rb_right left s;
     s \<leftarrow> wr (set_left lr) node s;
     s \<leftarrow> set_parent_opt lr node s;
     s \<leftarrow> wr (set_right node) left s;
     s \<leftarrow> wr (rb_set_parent parent) left s;
     s \<leftarrow> change_child_mirror node left parent s;
     wr (rb_set_parent left) node s }"

text \<open>The tests \<^verbatim>\<open>p && rb_is_red(p)\<close> and \<^verbatim>\<open>!p || rb_is_black(p)\<close>.\<close>

definition is_red_ptr :: "addr \<Rightarrow> rb_state \<Rightarrow> bool option" where
  "is_red_ptr p s = (if p = NULL then Some False else rd rb_is_red p s)"

definition is_black_ptr :: "addr \<Rightarrow> rb_state \<Rightarrow> bool option" where
  "is_black_ptr p s = (if p = NULL then Some True else rd rb_is_black p s)"

partial_function (option) rb_insert_loop :: "addr \<Rightarrow> rb_state \<Rightarrow> rb_state option" where
  "rb_insert_loop node s = do {
     parent \<leftarrow> rd rb_parent node s;
     red \<leftarrow> is_red_ptr parent s;
     if \<not> red then Some s
     else do {
       gparent \<leftarrow> rd rb_parent parent s;
       gl \<leftarrow> rd rb_left gparent s;
       if parent = gl then do {
         uncle \<leftarrow> rd rb_right gparent s;
         ured \<leftarrow> is_red_ptr uncle s;
         if ured then do {
           s \<leftarrow> wr rb_set_black uncle s;
           s \<leftarrow> wr rb_set_black parent s;
           s \<leftarrow> wr rb_set_red gparent s;
           rb_insert_loop gparent s }
         else do {
           pr \<leftarrow> rd rb_right parent s;
           (s, parent, node) \<leftarrow> (if pr = node then do {
               s \<leftarrow> rb_rotate_left parent s;
               Some (s, node, parent) }
             else Some (s, parent, node));
           s \<leftarrow> wr rb_set_black parent s;
           s \<leftarrow> wr rb_set_red gparent s;
           s \<leftarrow> rb_rotate_right gparent s;
           rb_insert_loop node s } }
       else do {
         uncle \<leftarrow> rd rb_left gparent s;
         ured \<leftarrow> is_red_ptr uncle s;
         if ured then do {
           s \<leftarrow> wr rb_set_black uncle s;
           s \<leftarrow> wr rb_set_black parent s;
           s \<leftarrow> wr rb_set_red gparent s;
           rb_insert_loop gparent s }
         else do {
           pl \<leftarrow> rd rb_left parent s;
           (s, parent, node) \<leftarrow> (if pl = node then do {
               s \<leftarrow> rb_rotate_right parent s;
               Some (s, node, parent) }
             else Some (s, parent, node));
           s \<leftarrow> wr rb_set_black parent s;
           s \<leftarrow> wr rb_set_red gparent s;
           s \<leftarrow> rb_rotate_left gparent s;
           rb_insert_loop node s } } } }"

definition rb_insert_color :: "addr \<Rightarrow> rb_state \<Rightarrow> rb_state option" where
  "rb_insert_color node s = do {
     s \<leftarrow> rb_insert_loop node s;
     wr rb_set_black (rb_root s) s }"

section \<open>Heap shape\<close>

text \<open>
  \<^verbatim>\<open>tree_at ns p t\<close>: the heap holds the tree \<^verbatim>\<open>t\<close>, whose root has parent \<^verbatim>\<open>p\<close>.  \<^verbatim>\<open>ctx_at ns rt fs q\<close>: the heap
  holds the frames \<^verbatim>\<open>fs\<close>, with \<^verbatim>\<open>q\<close> the child pointer in the hole and \<^verbatim>\<open>rt\<close> the root of the tree.
\<close>

fun tree_at :: "rb_node heap \<Rightarrow> addr \<Rightarrow> rbtree \<Rightarrow> bool" where
  "tree_at ns p E \<longleftrightarrow> True"
| "tree_at ns p (T c l x r) \<longleftrightarrow>
     x \<noteq> NULL \<and> aligned x \<and> aligned p \<and> ns x = Some (mk_node p c (root_of l) (root_of r)) \<and>
     tree_at ns x l \<and> tree_at ns x r"

fun ctx_at :: "rb_node heap \<Rightarrow> addr \<Rightarrow> frame list \<Rightarrow> addr \<Rightarrow> bool" where
  "ctx_at ns rt [] q \<longleftrightarrow> rt = q"
| "ctx_at ns rt (FL c x r # fs) q \<longleftrightarrow>
     x \<noteq> NULL \<and> aligned x \<and> aligned (parent_of fs) \<and> ns x = Some (mk_node (parent_of fs) c q (root_of r)) \<and>
     tree_at ns x r \<and> ctx_at ns rt fs x"
| "ctx_at ns rt (FR c l x # fs) q \<longleftrightarrow>
     x \<noteq> NULL \<and> aligned x \<and> aligned (parent_of fs) \<and> ns x = Some (mk_node (parent_of fs) c (root_of l) q) \<and>
     tree_at ns x l \<and> ctx_at ns rt fs x"

fun ctx_addrs :: "frame list \<Rightarrow> addr list" where
  "ctx_addrs [] = []"
| "ctx_addrs (FL c x r # fs) = x # inorder r @ ctx_addrs fs"
| "ctx_addrs (FR c l x # fs) = inorder l @ x # ctx_addrs fs"

text \<open>
  \<^verbatim>\<open>zipper H A s t fs\<close>: the state \<^verbatim>\<open>s\<close> holds the tree \<^verbatim>\<open>plug t fs\<close>, focused at the subtree \<^verbatim>\<open>t\<close>; its nodes are
  the addresses \<^verbatim>\<open>A\<close>, and everything else in the heap is as in \<^verbatim>\<open>H\<close>.
\<close>

definition zipper :: "rb_node heap \<Rightarrow> addr set \<Rightarrow> rb_state \<Rightarrow> rbtree \<Rightarrow> frame list \<Rightarrow> bool" where
  "zipper H A s t fs \<longleftrightarrow>
     tree_at (rb_nodes s) (parent_of fs) t \<and> ctx_at (rb_nodes s) (rb_root s) fs (root_of t) \<and>
     distinct (inorder t @ ctx_addrs fs) \<and> set (inorder t @ ctx_addrs fs) = A \<and>
     (\<forall>p. p \<notin> A \<longrightarrow> rb_nodes s p = H p)"

lemma tree_at_upd [simp]: "x \<notin> set (inorder t) \<Longrightarrow> tree_at (ns(x := v)) p t = tree_at ns p t"
  by (induction t arbitrary: p) auto

lemma ctx_at_upd [simp]: "x \<notin> set (ctx_addrs fs) \<Longrightarrow> ctx_at (ns(x := v)) rt fs q = ctx_at ns rt fs q"
  by (induction ns rt fs q rule: ctx_at.induct) auto

lemma root_of_in [simp]: "root_of t \<in> set (inorder t) \<longleftrightarrow> t \<noteq> E"
  by (cases t) auto

lemma root_of_neq [simp]: "\<lbrakk>p \<notin> set (inorder t); p \<noteq> NULL\<rbrakk> \<Longrightarrow> root_of t \<noteq> p"
  by (cases t) auto

lemma frame_addr_in: "fs \<noteq> [] \<Longrightarrow> parent_of fs \<in> set (ctx_addrs fs)"
  by (cases fs rule: ctx_addrs.cases) auto

lemma tree_at_not_NULL: "tree_at ns p t \<Longrightarrow> NULL \<notin> set (inorder t)"
  by (induction t arbitrary: p) auto

lemma ctx_at_not_NULL: "ctx_at ns rt fs q \<Longrightarrow> NULL \<notin> set (ctx_addrs fs)"
  by (induction ns rt fs q rule: ctx_at.induct) (auto dest: tree_at_not_NULL)

text \<open>Moving the focus between a node and its children changes nothing in the heap.\<close>

lemma zipper_fill: "zipper H A s t (f # fs) \<longleftrightarrow> zipper H A s (fill f t) fs"
  by (cases f; cases fs rule: ctx_addrs.cases) (auto simp: zipper_def)

section \<open>Steps on zippers\<close>

lemma rd_Some: "\<lbrakk>p \<noteq> NULL; rb_nodes s p = Some n\<rbrakk> \<Longrightarrow> rd f p s = Some (f n)"
  by (simp add: rd_def load_def)

lemma wr_Some: "\<lbrakk>p \<noteq> NULL; rb_nodes s p = Some n\<rbrakk> \<Longrightarrow> wr f p s = Some (s\<lparr>rb_nodes := (rb_nodes s)(p \<mapsto> f n)\<rparr>)"
  by (simp add: wr_def modify_def load_def)

text \<open>A node write at the focus.\<close>

lemma zipper_recolor:
  assumes "zipper H A s (T c l x r) fs"
    and "f (mk_node (parent_of fs) c (root_of l) (root_of r)) = mk_node (parent_of fs) d (root_of l) (root_of r)"
  shows "\<exists>s'. wr f x s = Some s' \<and> zipper H A s' (T d l x r) fs"
  using assms by (auto simp: zipper_def wr_Some)

lemma zipper_set_black:
  "zipper H A s (T c l x r) fs \<Longrightarrow> \<exists>s'. wr rb_set_black x s = Some s' \<and> zipper H A s' (T Black l x r) fs"
  by (rule zipper_recolor) simp_all

lemma zipper_aligned: "zipper H A s (T c l x r) fs \<Longrightarrow> aligned (parent_of fs) \<and> aligned x \<and> x \<noteq> NULL"
  by (simp add: zipper_def)

lemma zipper_set_red:
  "zipper H A s (T c l x r) fs \<Longrightarrow> \<exists>s'. wr rb_set_red x s = Some s' \<and> zipper H A s' (T Red l x r) fs"
  by (rule zipper_recolor) (auto dest: zipper_aligned)

lemma zipper_set_color:
  "zipper H A s (T c l x r) fs \<Longrightarrow>
     \<exists>s'. wr (rb_set_color (color_bit d)) x s = Some s' \<and> zipper H A s' (T d l x r) fs"
  by (rule zipper_recolor) (auto dest: zipper_aligned)

lemma zipper_node:
  "zipper H A s (T c l x r) fs \<Longrightarrow> rd f x s = Some (f (mk_node (parent_of fs) c (root_of l) (root_of r)))"
  by (simp add: zipper_def rd_Some)

text \<open>
  Reparenting a subtree and relinking the hole of a context, as functions on the state; the
  statements \<^verbatim>\<open>set_parent_opt\<close> and \<^verbatim>\<open>change_child\<close> compute them.
\<close>

fun reparent :: "rbtree \<Rightarrow> addr \<Rightarrow> rb_state \<Rightarrow> rb_state" where
  "reparent E q s = s"
| "reparent (T c l x r) q s = s\<lparr>rb_nodes := (rb_nodes s)(x \<mapsto> mk_node q c (root_of l) (root_of r))\<rparr>"

fun relink :: "frame list \<Rightarrow> addr \<Rightarrow> rb_state \<Rightarrow> rb_state" where
  "relink [] q s = s\<lparr>rb_root := q\<rparr>"
| "relink (FL c x r # fs) q s = s\<lparr>rb_nodes := (rb_nodes s)(x \<mapsto> mk_node (parent_of fs) c q (root_of r))\<rparr>"
| "relink (FR c l x # fs) q s = s\<lparr>rb_nodes := (rb_nodes s)(x \<mapsto> mk_node (parent_of fs) c (root_of l) q)\<rparr>"

lemma set_parent_opt_eq:
  "tree_at (rb_nodes s) p t \<Longrightarrow> set_parent_opt (root_of t) q s = Some (reparent t q s)"
  by (cases t) (auto simp: set_parent_opt_def wr_Some)

lemma change_child_eq:
  assumes "ctx_at (rb_nodes s) rt fs old" "old \<notin> set (ctx_addrs fs)" "old \<noteq> NULL"
  shows "change_child old q (parent_of fs) s = Some (relink fs q s)"
  using assms by (cases fs rule: ctx_addrs.cases) (auto simp: change_child_def rd_Some wr_Some)

lemma change_child_mirror_eq:
  assumes "ctx_at (rb_nodes s) rt fs old" "old \<notin> set (ctx_addrs fs)" "old \<noteq> NULL"
  shows "change_child_mirror old q (parent_of fs) s = Some (relink fs q s)"
  using assms by (cases fs rule: ctx_addrs.cases) (auto simp: change_child_mirror_def rd_Some wr_Some)

lemma ctx_at_relink:
  "\<lbrakk>ctx_at (rb_nodes s) (rb_root s) fs old; distinct (ctx_addrs fs)\<rbrakk> \<Longrightarrow>
     ctx_at (rb_nodes (relink fs q s)) (rb_root (relink fs q s)) fs q"
  by (cases fs rule: ctx_addrs.cases) auto

lemma tree_at_reparent:
  "\<lbrakk>tree_at (rb_nodes s) p t; distinct (inorder t); aligned q\<rbrakk> \<Longrightarrow> tree_at (rb_nodes (reparent t q s)) q t"
  by (cases t) auto

lemma relink_other [simp]: "p \<notin> set (ctx_addrs fs) \<Longrightarrow> rb_nodes (relink fs q s) p = rb_nodes s p"
  by (cases fs rule: ctx_addrs.cases) auto

lemma reparent_other [simp]: "p \<notin> set (inorder t) \<Longrightarrow> rb_nodes (reparent t q s) p = rb_nodes s p"
  by (cases t) auto

lemma rb_root_reparent [simp]: "rb_root (reparent t q s) = rb_root s"
  by (cases t) auto

lemma tree_at_relink [simp]:
  "set (ctx_addrs fs) \<inter> set (inorder t) = {} \<Longrightarrow> tree_at (rb_nodes (relink fs q s)) p t = tree_at (rb_nodes s) p t"
  by (cases fs rule: ctx_addrs.cases) auto

lemma tree_at_reparent_other [simp]:
  "set (inorder u) \<inter> set (inorder t) = {} \<Longrightarrow> tree_at (rb_nodes (reparent u q s)) p t = tree_at (rb_nodes s) p t"
  by (cases u) auto

lemma ctx_at_reparent [simp]:
  "set (inorder u) \<inter> set (ctx_addrs fs) = {} \<Longrightarrow>
     ctx_at (rb_nodes (reparent u q s)) rt fs p = ctx_at (rb_nodes s) rt fs p"
  by (cases u) auto

lemma rb_root_upd_nodes [simp]: "rb_root (s\<lparr>rb_nodes := h\<rparr>) = rb_root s"
  by simp

lemma zipper_not_NULL: "zipper H A s t fs \<Longrightarrow> NULL \<notin> A"
  by (auto simp: zipper_def dest: tree_at_not_NULL ctx_at_not_NULL)

lemma zipper_rotate_left:
  assumes z: "zipper H A s (T c a x (T k b y d)) fs"
  shows "\<exists>s'. rb_rotate_left x s = Some s' \<and> zipper H A s' (T k (T c a x b) y d) fs"
proof -
  let ?p = "parent_of fs"
  let ?s1 = "s\<lparr>rb_nodes := (rb_nodes s)(x \<mapsto> mk_node ?p c (root_of a) (root_of b))\<rparr>"
  let ?s2 = "reparent b x ?s1"
  let ?s3 = "?s2\<lparr>rb_nodes := (rb_nodes ?s2)(y \<mapsto> mk_node ?p k x (root_of d))\<rparr>"
  let ?s4 = "relink fs y ?s3"
  let ?s5 = "?s4\<lparr>rb_nodes := (rb_nodes ?s4)(x \<mapsto> mk_node y c (root_of a) (root_of b))\<rparr>"
  have d: "x \<noteq> NULL" "y \<noteq> NULL" "aligned x" "aligned y" "aligned ?p" "x \<noteq> y"
    "x \<notin> set (inorder a @ inorder b @ inorder d @ ctx_addrs fs)"
    "y \<notin> set (inorder a @ inorder b @ inorder d @ ctx_addrs fs)"
    "distinct (inorder a)" "distinct (inorder b)" "distinct (inorder d)" "distinct (ctx_addrs fs)"
    "set (inorder b) \<inter> set (inorder a) = {}" "set (inorder b) \<inter> set (inorder d) = {}"
    "set (inorder b) \<inter> set (ctx_addrs fs) = {}" "set (ctx_addrs fs) \<inter> set (inorder a) = {}"
    "set (ctx_addrs fs) \<inter> set (inorder b) = {}" "set (ctx_addrs fs) \<inter> set (inorder d) = {}"
    using z by (auto simp: zipper_def)
  have h: "rb_nodes s x = Some (mk_node ?p c (root_of a) y)" "rb_nodes s y = Some (mk_node x k (root_of b) (root_of d))"
    "tree_at (rb_nodes s) x a" "tree_at (rb_nodes s) y b" "tree_at (rb_nodes s) y d"
    "ctx_at (rb_nodes s) (rb_root s) fs x"
    using z by (auto simp: zipper_def)
  have b: "set_parent_opt (root_of b) x ?s1 = Some ?s2"
    using h d by (intro set_parent_opt_eq[where p = y]) auto
  have "ctx_at (rb_nodes ?s3) (rb_root ?s3) fs x" using h d by auto
  then have c: "change_child x y ?p ?s3 = Some ?s4" "ctx_at (rb_nodes ?s4) (rb_root ?s4) fs y"
    using d by (auto intro: change_child_eq ctx_at_relink)
  have "rb_rotate_left x s = Some ?s5"
    using h d b c by (simp add: rb_rotate_left_def rd_Some wr_Some)
  moreover have "tree_at (rb_nodes ?s2) x b" using h d by (intro tree_at_reparent) auto
  then have "tree_at (rb_nodes ?s5) ?p (T k (T c a x b) y d)" using h d by simp
  moreover have "ctx_at (rb_nodes ?s5) (rb_root ?s5) fs y" using c(2) d by simp
  moreover have "\<forall>p. p \<notin> A \<longrightarrow> rb_nodes ?s5 p = H p" using z by (auto simp: zipper_def)
  ultimately show ?thesis using z by (auto simp: zipper_def)
qed

lemma zipper_rotate_right:
  assumes z: "zipper H A s (T c (T k d y b) x a) fs"
  shows "\<exists>s'. rb_rotate_right x s = Some s' \<and> zipper H A s' (T k d y (T c b x a)) fs"
proof -
  let ?p = "parent_of fs"
  let ?s1 = "s\<lparr>rb_nodes := (rb_nodes s)(x \<mapsto> mk_node ?p c (root_of b) (root_of a))\<rparr>"
  let ?s2 = "reparent b x ?s1"
  let ?s3 = "?s2\<lparr>rb_nodes := (rb_nodes ?s2)(y \<mapsto> mk_node ?p k (root_of d) x)\<rparr>"
  let ?s4 = "relink fs y ?s3"
  let ?s5 = "?s4\<lparr>rb_nodes := (rb_nodes ?s4)(x \<mapsto> mk_node y c (root_of b) (root_of a))\<rparr>"
  have d: "x \<noteq> NULL" "y \<noteq> NULL" "aligned x" "aligned y" "aligned ?p" "x \<noteq> y"
    "x \<notin> set (inorder a @ inorder b @ inorder d @ ctx_addrs fs)"
    "y \<notin> set (inorder a @ inorder b @ inorder d @ ctx_addrs fs)"
    "distinct (inorder a)" "distinct (inorder b)" "distinct (inorder d)" "distinct (ctx_addrs fs)"
    "set (inorder b) \<inter> set (inorder a) = {}" "set (inorder b) \<inter> set (inorder d) = {}"
    "set (inorder b) \<inter> set (ctx_addrs fs) = {}" "set (ctx_addrs fs) \<inter> set (inorder a) = {}"
    "set (ctx_addrs fs) \<inter> set (inorder b) = {}" "set (ctx_addrs fs) \<inter> set (inorder d) = {}"
    using z by (auto simp: zipper_def)
  have h: "rb_nodes s x = Some (mk_node ?p c y (root_of a))" "rb_nodes s y = Some (mk_node x k (root_of d) (root_of b))"
    "tree_at (rb_nodes s) x a" "tree_at (rb_nodes s) y b" "tree_at (rb_nodes s) y d"
    "ctx_at (rb_nodes s) (rb_root s) fs x"
    using z by (auto simp: zipper_def)
  have b: "set_parent_opt (root_of b) x ?s1 = Some ?s2"
    using h d by (intro set_parent_opt_eq[where p = y]) auto
  have "ctx_at (rb_nodes ?s3) (rb_root ?s3) fs x" using h d by auto
  then have c: "change_child_mirror x y ?p ?s3 = Some ?s4" "ctx_at (rb_nodes ?s4) (rb_root ?s4) fs y"
    using d by (auto intro: change_child_mirror_eq ctx_at_relink)
  have "rb_rotate_right x s = Some ?s5"
    using h d b c by (simp add: rb_rotate_right_def rd_Some wr_Some)
  moreover have "tree_at (rb_nodes ?s2) x b" using h d by (intro tree_at_reparent) auto
  then have "tree_at (rb_nodes ?s5) ?p (T k d y (T c b x a))" using h d by simp
  moreover have "ctx_at (rb_nodes ?s5) (rb_root ?s5) fs y" using c(2) d by simp
  moreover have "\<forall>p. p \<notin> A \<longrightarrow> rb_nodes ?s5 p = H p" using z by (auto simp: zipper_def)
  ultimately show ?thesis using z by (auto simp: zipper_def)
qed

lemma zipper_plug: "zipper H A s (plug t fs) [] \<longleftrightarrow> zipper H A s t fs"
  by (induction fs arbitrary: t) (auto simp: zipper_fill)

lemma zipper_is_red: "zipper H A s t fs \<Longrightarrow> is_red_ptr (root_of t) s = Some (is_red t)"
  by (cases t) (auto simp: is_red_ptr_def zipper_node dest: zipper_aligned)

lemma zipper_is_black: "zipper H A s t fs \<Longrightarrow> is_black_ptr (root_of t) s = Some (\<not> is_red t)"
  by (cases t) (auto simp: is_black_ptr_def zipper_node dest: zipper_aligned)

section \<open>Insertion\<close>

lemma recolor_step_l:
  assumes "zipper H A s (T gc (T k a p b) g (T k' ul ux ur)) fs"
  shows "\<exists>s1 s2 s3. wr rb_set_black ux s = Some s1 \<and> wr rb_set_black p s1 = Some s2 \<and>
    wr rb_set_red g s2 = Some s3 \<and> zipper H A s3 (T Red (T Black a p b) g (T Black ul ux ur)) fs"
proof -
  obtain s1 where 1: "wr rb_set_black ux s = Some s1" "zipper H A s1 (T gc (T k a p b) g (T Black ul ux ur)) fs"
    using zipper_set_black[of H A s k' ul ux ur "FR gc (T k a p b) g # fs"] assms by (auto simp: zipper_fill)
  obtain s2 where 2: "wr rb_set_black p s1 = Some s2" "zipper H A s2 (T gc (T Black a p b) g (T Black ul ux ur)) fs"
    using zipper_set_black[of H A s1 k a p b "FL gc g (T Black ul ux ur) # fs"] 1(2) by (auto simp: zipper_fill)
  show ?thesis using 1(1) 2(1) zipper_set_red[OF 2(2)] by blast
qed

lemma recolor_step_r:
  assumes "zipper H A s (T gc (T k' ul ux ur) g (T k a p b)) fs"
  shows "\<exists>s1 s2 s3. wr rb_set_black ux s = Some s1 \<and> wr rb_set_black p s1 = Some s2 \<and>
    wr rb_set_red g s2 = Some s3 \<and> zipper H A s3 (T Red (T Black ul ux ur) g (T Black a p b)) fs"
proof -
  obtain s1 where 1: "wr rb_set_black ux s = Some s1" "zipper H A s1 (T gc (T Black ul ux ur) g (T k a p b)) fs"
    using zipper_set_black[of H A s k' ul ux ur "FL gc g (T k a p b) # fs"] assms by (auto simp: zipper_fill)
  obtain s2 where 2: "wr rb_set_black p s1 = Some s2" "zipper H A s2 (T gc (T Black ul ux ur) g (T Black a p b)) fs"
    using zipper_set_black[of H A s1 k a p b "FR gc (T Black ul ux ur) g # fs"] 1(2) by (auto simp: zipper_fill)
  show ?thesis using 1(1) 2(1) zipper_set_red[OF 2(2)] by blast
qed

lemma final_step_l:
  assumes "zipper H A s (T gc (T k a p b) g u) fs"
  shows "\<exists>s1 s2 s3. wr rb_set_black p s = Some s1 \<and> wr rb_set_red g s1 = Some s2 \<and>
    rb_rotate_right g s2 = Some s3 \<and> zipper H A s3 (T Black a p (T Red b g u)) fs"
proof -
  obtain s1 where 1: "wr rb_set_black p s = Some s1" "zipper H A s1 (T gc (T Black a p b) g u) fs"
    using zipper_set_black[of H A s k a p b "FL gc g u # fs"] assms by (auto simp: zipper_fill)
  obtain s2 where 2: "wr rb_set_red g s1 = Some s2" "zipper H A s2 (T Red (T Black a p b) g u) fs"
    using zipper_set_red[OF 1(2)] by blast
  show ?thesis using 1(1) 2(1) zipper_rotate_right[OF 2(2)] by blast
qed

lemma final_step_r:
  assumes "zipper H A s (T gc u g (T k a p b)) fs"
  shows "\<exists>s1 s2 s3. wr rb_set_black p s = Some s1 \<and> wr rb_set_red g s1 = Some s2 \<and>
    rb_rotate_left g s2 = Some s3 \<and> zipper H A s3 (T Black (T Red u g a) p b) fs"
proof -
  obtain s1 where 1: "wr rb_set_black p s = Some s1" "zipper H A s1 (T gc u g (T Black a p b)) fs"
    using zipper_set_black[of H A s k a p b "FR gc u g # fs"] assms by (auto simp: zipper_fill)
  obtain s2 where 2: "wr rb_set_red g s1 = Some s2" "zipper H A s2 (T Red u g (T Black a p b)) fs"
    using zipper_set_red[OF 1(2)] by blast
  show ?thesis using 1(1) 2(1) zipper_rotate_left[OF 2(2)] by blast
qed

text \<open>The loop stops at the root and below a black parent.\<close>

lemma insert_loop_stop:
  assumes z: "zipper H A s (T c l x r) fs" and stop: "fs = [] \<or> frame_color (hd fs) = Black"
  shows "rb_insert_loop x s = Some s"
proof (cases fs)
  case Nil
  then show ?thesis
    by (subst rb_insert_loop.simps) (simp add: is_red_ptr_def zipper_node[OF z])
next
  case (Cons f gs)
  have "zipper H A s (fill f (T c l x r)) gs" using z Cons by (simp add: zipper_fill)
  then have "is_red_ptr (frame_addr f) s = Some False"
    using zipper_is_red[of H A s "fill f (T c l x r)" gs] stop Cons by (cases f) auto
  then show ?thesis
    using zipper_aligned[OF z] Cons by (subst rb_insert_loop.simps) (simp add: zipper_node[OF z])
qed

text \<open>One round of the loop below a red parent, for the four positions of parent and node.\<close>

lemma insert_round_ll:
  assumes z: "zipper H A s (T Red l x r) (FL Red p sb # FL gc g u # fs)"
  shows "\<exists>s'. rb_insert_loop x s = (if is_red u then rb_insert_loop g s' else Some s') \<and>
    zipper H A s' (if is_red u then T Red (T Black (T Red l x r) p sb) g (paint Black u)
      else T Black (T Red l x r) p (T Red sb g u)) fs"
proof -
  have zp: "zipper H A s (T Red (T Red l x r) p sb) (FL gc g u # fs)"
    and zg: "zipper H A s (T gc (T Red (T Red l x r) p sb) g u) fs"
    and zu: "zipper H A s u (FR gc (T Red (T Red l x r) p sb) g # fs)"
    using z by (simp_all add: zipper_fill)
  have al: "aligned p" "aligned g" "aligned (parent_of fs)" "p \<noteq> NULL" "x \<noteq> p" "root_of sb \<noteq> x"
    using z by (auto simp: zipper_def)
  note rds = zipper_node[OF z] zipper_node[OF zp] zipper_node[OF zg] zipper_is_red[OF zu]
    zipper_is_red[OF zp, simplified] al
  show ?thesis
  proof (cases "is_red u")
    case True
    then obtain ul ux ur where u: "u = T Red ul ux ur" by (auto elim: is_redE)
    obtain s1 s2 s3 where "wr rb_set_black ux s = Some s1" "wr rb_set_black p s1 = Some s2"
      "wr rb_set_red g s2 = Some s3"
      "zipper H A s3 (T Red (T Black (T Red l x r) p sb) g (T Black ul ux ur)) fs"
      using recolor_step_l zg u by blast
    moreover have "is_red_ptr ux s = Some True" using zipper_is_red[OF zu] u by simp
    ultimately show ?thesis using u by (subst rb_insert_loop.simps) (auto simp: rds)
  next
    case False
    obtain s1 s2 s3 where st: "wr rb_set_black p s = Some s1" "wr rb_set_red g s1 = Some s2"
      "rb_rotate_right g s2 = Some s3" and z3: "zipper H A s3 (T Black (T Red l x r) p (T Red sb g u)) fs"
      using final_step_l zg by blast
    have "rb_insert_loop x s3 = Some s3"
      using insert_loop_stop[of H A s3 Red l x r "FL Black p (T Red sb g u) # fs"] z3 by (simp add: zipper_fill)
    then have "rb_insert_loop x s = Some s3"
      using st False by (subst rb_insert_loop.simps) (simp add: rds)
    then show ?thesis using z3 False by auto
  qed
qed

lemma insert_round_lr:
  assumes z: "zipper H A s (T Red l x r) (FR Red sb p # FL gc g u # fs)"
  shows "\<exists>s'. rb_insert_loop x s = (if is_red u then rb_insert_loop g s' else Some s') \<and>
    zipper H A s' (if is_red u then T Red (T Black sb p (T Red l x r)) g (paint Black u)
      else T Black (T Red sb p l) x (T Red r g u)) fs"
proof -
  have zp: "zipper H A s (T Red sb p (T Red l x r)) (FL gc g u # fs)"
    and zg: "zipper H A s (T gc (T Red sb p (T Red l x r)) g u) fs"
    and zu: "zipper H A s u (FR gc (T Red sb p (T Red l x r)) g # fs)"
    using z by (simp_all add: zipper_fill)
  have al: "aligned p" "aligned g" "aligned (parent_of fs)" "p \<noteq> NULL" "x \<noteq> p" "root_of sb \<noteq> x"
    using z by (auto simp: zipper_def)
  note rds = zipper_node[OF z] zipper_node[OF zp] zipper_node[OF zg] zipper_is_red[OF zu]
    zipper_is_red[OF zp, simplified] al
  show ?thesis
  proof (cases "is_red u")
    case True
    then obtain ul ux ur where u: "u = T Red ul ux ur" by (auto elim: is_redE)
    obtain s1 s2 s3 where "wr rb_set_black ux s = Some s1" "wr rb_set_black p s1 = Some s2"
      "wr rb_set_red g s2 = Some s3"
      "zipper H A s3 (T Red (T Black sb p (T Red l x r)) g (T Black ul ux ur)) fs"
      using recolor_step_l zg u by blast
    moreover have "is_red_ptr ux s = Some True" using zipper_is_red[OF zu] u by simp
    ultimately show ?thesis using u by (subst rb_insert_loop.simps) (auto simp: rds)
  next
    case False
    obtain s0 where s0: "rb_rotate_left p s = Some s0" and "zipper H A s0 (T Red (T Red sb p l) x r) (FL gc g u # fs)"
      using zipper_rotate_left[OF zp] by blast
    then have "zipper H A s0 (T gc (T Red (T Red sb p l) x r) g u) fs" by (simp add: zipper_fill)
    then obtain s1 s2 s3 where st: "wr rb_set_black x s0 = Some s1" "wr rb_set_red g s1 = Some s2"
      "rb_rotate_right g s2 = Some s3" and z3: "zipper H A s3 (T Black (T Red sb p l) x (T Red r g u)) fs"
      using final_step_l by blast
    have "rb_insert_loop p s3 = Some s3"
      using insert_loop_stop[of H A s3 Red sb p l "FL Black x (T Red r g u) # fs"] z3 by (simp add: zipper_fill)
    then have "rb_insert_loop x s = Some s3"
      using st s0 False by (subst rb_insert_loop.simps) (simp add: rds)
    then show ?thesis using z3 False by auto
  qed
qed

lemma insert_round_rr:
  assumes z: "zipper H A s (T Red l x r) (FR Red sb p # FR gc u g # fs)"
  shows "\<exists>s'. rb_insert_loop x s = (if is_red u then rb_insert_loop g s' else Some s') \<and>
    zipper H A s' (if is_red u then T Red (paint Black u) g (T Black sb p (T Red l x r))
      else T Black (T Red u g sb) p (T Red l x r)) fs"
proof -
  have zp: "zipper H A s (T Red sb p (T Red l x r)) (FR gc u g # fs)"
    and zg: "zipper H A s (T gc u g (T Red sb p (T Red l x r))) fs"
    and zu: "zipper H A s u (FL gc g (T Red sb p (T Red l x r)) # fs)"
    using z by (simp_all add: zipper_fill)
  have al: "aligned p" "aligned g" "aligned (parent_of fs)" "p \<noteq> NULL" "x \<noteq> p" "root_of sb \<noteq> x" "root_of u \<noteq> p" "p \<noteq> root_of u"
    using z by (auto simp: zipper_def)
  note rds = zipper_node[OF z] zipper_node[OF zp] zipper_node[OF zg] zipper_is_red[OF zu]
    zipper_is_red[OF zp, simplified] al
  show ?thesis
  proof (cases "is_red u")
    case True
    then obtain ul ux ur where u: "u = T Red ul ux ur" by (auto elim: is_redE)
    obtain s1 s2 s3 where "wr rb_set_black ux s = Some s1" "wr rb_set_black p s1 = Some s2"
      "wr rb_set_red g s2 = Some s3"
      "zipper H A s3 (T Red (T Black ul ux ur) g (T Black sb p (T Red l x r))) fs"
      using recolor_step_r zg u by blast
    moreover have "is_red_ptr ux s = Some True" using zipper_is_red[OF zu] u by simp
    ultimately show ?thesis using u by (subst rb_insert_loop.simps) (auto simp: rds)
  next
    case False
    obtain s1 s2 s3 where st: "wr rb_set_black p s = Some s1" "wr rb_set_red g s1 = Some s2"
      "rb_rotate_left g s2 = Some s3" and z3: "zipper H A s3 (T Black (T Red u g sb) p (T Red l x r)) fs"
      using final_step_r zg by blast
    have "rb_insert_loop x s3 = Some s3"
      using insert_loop_stop[of H A s3 Red l x r "FR Black (T Red u g sb) p # fs"] z3 by (simp add: zipper_fill)
    then have "rb_insert_loop x s = Some s3"
      using st False by (subst rb_insert_loop.simps) (simp add: rds)
    then show ?thesis using z3 False by auto
  qed
qed

lemma insert_round_rl:
  assumes z: "zipper H A s (T Red l x r) (FL Red p sb # FR gc u g # fs)"
  shows "\<exists>s'. rb_insert_loop x s = (if is_red u then rb_insert_loop g s' else Some s') \<and>
    zipper H A s' (if is_red u then T Red (paint Black u) g (T Black (T Red l x r) p sb)
      else T Black (T Red u g l) x (T Red r p sb)) fs"
proof -
  have zp: "zipper H A s (T Red (T Red l x r) p sb) (FR gc u g # fs)"
    and zg: "zipper H A s (T gc u g (T Red (T Red l x r) p sb)) fs"
    and zu: "zipper H A s u (FL gc g (T Red (T Red l x r) p sb) # fs)"
    using z by (simp_all add: zipper_fill)
  have al: "aligned p" "aligned g" "aligned (parent_of fs)" "p \<noteq> NULL" "x \<noteq> p" "root_of sb \<noteq> x" "root_of u \<noteq> p" "p \<noteq> root_of u"
    using z by (auto simp: zipper_def)
  note rds = zipper_node[OF z] zipper_node[OF zp] zipper_node[OF zg] zipper_is_red[OF zu]
    zipper_is_red[OF zp, simplified] al
  show ?thesis
  proof (cases "is_red u")
    case True
    then obtain ul ux ur where u: "u = T Red ul ux ur" by (auto elim: is_redE)
    obtain s1 s2 s3 where "wr rb_set_black ux s = Some s1" "wr rb_set_black p s1 = Some s2"
      "wr rb_set_red g s2 = Some s3"
      "zipper H A s3 (T Red (T Black ul ux ur) g (T Black (T Red l x r) p sb)) fs"
      using recolor_step_r zg u by blast
    moreover have "is_red_ptr ux s = Some True" using zipper_is_red[OF zu] u by simp
    ultimately show ?thesis using u by (subst rb_insert_loop.simps) (auto simp: rds)
  next
    case False
    obtain s0 where s0: "rb_rotate_right p s = Some s0" and "zipper H A s0 (T Red l x (T Red r p sb)) (FR gc u g # fs)"
      using zipper_rotate_right[OF zp] by blast
    then have "zipper H A s0 (T gc u g (T Red l x (T Red r p sb))) fs" by (simp add: zipper_fill)
    then obtain s1 s2 s3 where st: "wr rb_set_black x s0 = Some s1" "wr rb_set_red g s1 = Some s2"
      "rb_rotate_left g s2 = Some s3" and z3: "zipper H A s3 (T Black (T Red u g l) x (T Red r p sb)) fs"
      using final_step_r by blast
    have "rb_insert_loop p s3 = Some s3"
      using insert_loop_stop[of H A s3 Red r p sb "FR Black (T Red u g l) x # fs"] z3 by (simp add: zipper_fill)
    then have "rb_insert_loop x s = Some s3"
      using st s0 False by (subst rb_insert_loop.simps) (simp add: rds)
    then show ?thesis using z3 False by auto
  qed
qed

lemma insert_loop_zipper:
  assumes "zipper H A s (T Red l x r) fs" "ctx_color_ok fs Black"
  shows "\<exists>s'. rb_insert_loop x s = Some s' \<and> zipper H A s' (ins_fix (T Red l x r) fs) []"
  using assms
proof (induction "T Red l x r" fs arbitrary: s l x r rule: ins_fix.induct)
  case (1 p sb gc g u fs)
  then obtain s' where "rb_insert_loop x s = (if is_red u then rb_insert_loop g s' else Some s')"
    "zipper H A s' (if is_red u then T Red (T Black (T Red l x r) p sb) g (paint Black u)
      else T Black (T Red l x r) p (T Red sb g u)) fs"
    using insert_round_ll by blast
  with 1 show ?case by (cases "is_red u") (auto simp: zipper_plug dest: ctx_color_ok_Black)
next
  case (2 sb p gc g u fs)
  then obtain s' where "rb_insert_loop x s = (if is_red u then rb_insert_loop g s' else Some s')"
    "zipper H A s' (if is_red u then T Red (T Black sb p (T Red l x r)) g (paint Black u)
      else T Black (T Red sb p l) x (T Red r g u)) fs"
    using insert_round_lr by blast
  with 2 show ?case by (cases "is_red u") (auto simp: zipper_plug dest: ctx_color_ok_Black)
next
  case (3 sb p gc u g fs)
  then obtain s' where "rb_insert_loop x s = (if is_red u then rb_insert_loop g s' else Some s')"
    "zipper H A s' (if is_red u then T Red (paint Black u) g (T Black sb p (T Red l x r))
      else T Black (T Red u g sb) p (T Red l x r)) fs"
    using insert_round_rr by blast
  with 3 show ?case by (cases "is_red u") (auto simp: zipper_plug dest: ctx_color_ok_Black)
next
  case (4 p sb gc u g fs)
  then obtain s' where "rb_insert_loop x s = (if is_red u then rb_insert_loop g s' else Some s')"
    "zipper H A s' (if is_red u then T Red (paint Black u) g (T Black (T Red l x r) p sb)
      else T Black (T Red u g l) x (T Red r p sb)) fs"
    using insert_round_rl by blast
  with 4 show ?case by (cases "is_red u") (auto simp: zipper_plug dest: ctx_color_ok_Black)
next
  case (5 p sb f fs)
  then show ?case
    using insert_loop_stop[OF 5(1)] by (simp only: ins_fix.simps zipper_plug) auto
next
  case (6 sb p f fs)
  then show ?case
    using insert_loop_stop[OF 6(1)] by (simp only: ins_fix.simps zipper_plug) auto
next
  case (7 f)
  then have "frame_color f = Black" by (cases f) auto
  then show ?case
    using 7 insert_loop_stop[OF 7(1)] by (simp only: ins_fix.simps zipper_plug) auto
next
  case 8
  then show ?case
    using insert_loop_stop[OF 8(1)] by (simp only: ins_fix.simps zipper_plug) auto
qed

theorem rb_insert_color_refines:
  assumes z: "zipper H A s (T Red l x r) fs" and c: "ctx_color_ok fs Black"
  shows "\<exists>s'. rb_insert_color x s = Some s' \<and> zipper H A s' (paint Black (ins_fix (T Red l x r) fs)) []"
proof -
  obtain s1 where s1: "rb_insert_loop x s = Some s1" "zipper H A s1 (ins_fix (T Red l x r) fs) []"
    using insert_loop_zipper[OF z c] by blast
  have "inorder (ins_fix (T Red l x r) fs) \<noteq> []" by (simp add: inorder_ins_fix)
  then obtain k a y b where t: "ins_fix (T Red l x r) fs = T k a y b"
    by (cases "ins_fix (T Red l x r) fs") auto
  then have "rb_root s1 = y" using s1(2) by (simp add: zipper_def)
  then show ?thesis using s1 t zipper_set_black[of H A s1 k a y b "[]"] by (auto simp: rb_insert_color_def)
qed

end
