(* ===== verification/Rb_Erase.thy ===== *)
theory Rb_Erase
  imports Rb_Tree
begin

text \<open>
  Removal from the red-black trees of \<^verbatim>\<open>signal_test/rbtree.c\<close>: \<^verbatim>\<open>__rb_erase_color\<close>, \<^verbatim>\<open>rb_erase\<close> and
  \<^verbatim>\<open>rb_replace_node\<close>, and their refinement to theory \<open>Rb_Spec\<close>.
\<close>

section \<open>Operations\<close>

text \<open>
  The loop body of \<^verbatim>\<open>__rb_erase_color\<close> in three parts, for a left child and mirrored for a right
  child: rotating a red sibling away, closing the case that ends with \<^verbatim>\<open>break\<close>, and the choice
  between recolouring and closing.  The last one also says whether the loop breaks.
\<close>

definition erase_red_left :: "addr \<Rightarrow> addr \<Rightarrow> rb_state \<Rightarrow> (addr \<times> rb_state) option" where
  "erase_red_left parent other s = do {
     red \<leftarrow> rd rb_is_red other s;
     if red then do {
       s \<leftarrow> wr rb_set_black other s;
       s \<leftarrow> wr rb_set_red parent s;
       s \<leftarrow> rb_rotate_left parent s;
       other \<leftarrow> rd rb_right parent s;
       Some (other, s) }
     else Some (other, s) }"

definition erase_red_right :: "addr \<Rightarrow> addr \<Rightarrow> rb_state \<Rightarrow> (addr \<times> rb_state) option" where
  "erase_red_right parent other s = do {
     red \<leftarrow> rd rb_is_red other s;
     if red then do {
       s \<leftarrow> wr rb_set_black other s;
       s \<leftarrow> wr rb_set_red parent s;
       s \<leftarrow> rb_rotate_right parent s;
       other \<leftarrow> rd rb_left parent s;
       Some (other, s) }
     else Some (other, s) }"

definition erase_close_left :: "addr \<Rightarrow> addr \<Rightarrow> rb_state \<Rightarrow> rb_state option" where
  "erase_close_left parent other s = do {
     pc \<leftarrow> rd rb_color parent s;
     s \<leftarrow> wr (rb_set_color pc) other s;
     s \<leftarrow> wr rb_set_black parent s;
     r \<leftarrow> rd rb_right other s;
     s \<leftarrow> wr rb_set_black r s;
     rb_rotate_left parent s }"

definition erase_close_right :: "addr \<Rightarrow> addr \<Rightarrow> rb_state \<Rightarrow> rb_state option" where
  "erase_close_right parent other s = do {
     pc \<leftarrow> rd rb_color parent s;
     s \<leftarrow> wr (rb_set_color pc) other s;
     s \<leftarrow> wr rb_set_black parent s;
     l \<leftarrow> rd rb_left other s;
     s \<leftarrow> wr rb_set_black l s;
     rb_rotate_right parent s }"

definition children_black :: "addr \<Rightarrow> rb_state \<Rightarrow> bool option" where
  "children_black other s = do {
     l \<leftarrow> rd rb_left other s;
     lb \<leftarrow> is_black_ptr l s;
     if lb then do {
       r \<leftarrow> rd rb_right other s;
       is_black_ptr r s }
     else Some False }"

definition erase_body_left :: "addr \<Rightarrow> addr \<Rightarrow> rb_state \<Rightarrow> (bool \<times> rb_state) option" where
  "erase_body_left parent other s = do {
     both \<leftarrow> children_black other s;
     if both then do {
       s \<leftarrow> wr rb_set_red other s;
       Some (False, s) }
     else do {
       r \<leftarrow> rd rb_right other s;
       rblack \<leftarrow> is_black_ptr r s;
       (other, s) \<leftarrow> (if rblack then do {
           l \<leftarrow> rd rb_left other s;
           s \<leftarrow> wr rb_set_black l s;
           s \<leftarrow> wr rb_set_red other s;
           s \<leftarrow> rb_rotate_right other s;
           other \<leftarrow> rd rb_right parent s;
           Some (other, s) }
         else Some (other, s));
       s \<leftarrow> erase_close_left parent other s;
       Some (True, s) } }"

definition erase_body_right :: "addr \<Rightarrow> addr \<Rightarrow> rb_state \<Rightarrow> (bool \<times> rb_state) option" where
  "erase_body_right parent other s = do {
     both \<leftarrow> children_black other s;
     if both then do {
       s \<leftarrow> wr rb_set_red other s;
       Some (False, s) }
     else do {
       l \<leftarrow> rd rb_left other s;
       lblack \<leftarrow> is_black_ptr l s;
       (other, s) \<leftarrow> (if lblack then do {
           r \<leftarrow> rd rb_right other s;
           s \<leftarrow> wr rb_set_black r s;
           s \<leftarrow> wr rb_set_red other s;
           s \<leftarrow> rb_rotate_left other s;
           other \<leftarrow> rd rb_left parent s;
           Some (other, s) }
         else Some (other, s));
       s \<leftarrow> erase_close_right parent other s;
       Some (True, s) } }"

partial_function (option) rb_erase_loop :: "addr \<Rightarrow> addr \<Rightarrow> rb_state \<Rightarrow> (addr \<times> rb_state) option" where
  "rb_erase_loop node parent s = do {
     black \<leftarrow> is_black_ptr node s;
     if \<not> (black \<and> node \<noteq> rb_root s) then Some (node, s)
     else do {
       pl \<leftarrow> rd rb_left parent s;
       if pl = node then do {
         other \<leftarrow> rd rb_right parent s;
         (other, s) \<leftarrow> erase_red_left parent other s;
         (brk, s) \<leftarrow> erase_body_left parent other s;
         if brk then Some (rb_root s, s)
         else do {
           gparent \<leftarrow> rd rb_parent parent s;
           rb_erase_loop parent gparent s } }
       else do {
         other \<leftarrow> rd rb_left parent s;
         (other, s) \<leftarrow> erase_red_right parent other s;
         (brk, s) \<leftarrow> erase_body_right parent other s;
         if brk then Some (rb_root s, s)
         else do {
           gparent \<leftarrow> rd rb_parent parent s;
           rb_erase_loop parent gparent s } } } }"

definition rb_erase_color :: "addr \<Rightarrow> addr \<Rightarrow> rb_state \<Rightarrow> rb_state option" where
  "rb_erase_color node parent s = do {
     (node, s) \<leftarrow> rb_erase_loop node parent s;
     if node \<noteq> NULL then wr rb_set_black node s else Some s }"

text \<open>The inner loop of \<^verbatim>\<open>rb_erase\<close> that descends to the leftmost node.\<close>

partial_function (option) rb_leftmost :: "addr \<Rightarrow> rb_state \<Rightarrow> addr option" where
  "rb_leftmost node s = do {
     left \<leftarrow> rd rb_left node s;
     if left \<noteq> NULL then rb_leftmost left s else Some node }"

text \<open>
  \<^verbatim>\<open>rb_erase\<close>: \<^verbatim>\<open>erase_two\<close> is its branch for a node with two children, \<^verbatim>\<open>erase_one\<close> the code for at most
  one child.  Both yield the values of \<^verbatim>\<open>child\<close>, \<^verbatim>\<open>parent\<close> and \<^verbatim>\<open>color\<close> at the label \<^verbatim>\<open>color\<close>.
\<close>

definition erase_two :: "addr \<Rightarrow> rb_state \<Rightarrow> (addr \<times> addr \<times> u64 \<times> rb_state) option" where
  "erase_two old s = do {
     right \<leftarrow> rd rb_right old s;
     node \<leftarrow> rb_leftmost right s;
     op \<leftarrow> rd rb_parent old s;
     s \<leftarrow> change_child old node op s;
     child \<leftarrow> rd rb_right node s;
     parent \<leftarrow> rd rb_parent node s;
     color \<leftarrow> rd rb_color node s;
     (parent, s) \<leftarrow> (if parent = old then Some (node, s)
       else do {
         s \<leftarrow> set_parent_opt child parent s;
         s \<leftarrow> wr (set_left child) parent s;
         oldr \<leftarrow> rd rb_right old s;
         s \<leftarrow> wr (set_right oldr) node s;
         s \<leftarrow> wr (rb_set_parent node) oldr s;
         Some (parent, s) });
     oldpc \<leftarrow> rd rb_parent_color old s;
     s \<leftarrow> wr (\<lambda>n. n\<lparr>rb_parent_color := oldpc\<rparr>) node s;
     oldl \<leftarrow> rd rb_left old s;
     s \<leftarrow> wr (set_left oldl) node s;
     s \<leftarrow> wr (rb_set_parent node) oldl s;
     Some (child, parent, color, s) }"

definition erase_one :: "addr \<Rightarrow> addr \<Rightarrow> rb_state \<Rightarrow> (addr \<times> addr \<times> u64 \<times> rb_state) option" where
  "erase_one child node s = do {
     parent \<leftarrow> rd rb_parent node s;
     color \<leftarrow> rd rb_color node s;
     s \<leftarrow> set_parent_opt child parent s;
     s \<leftarrow> change_child node child parent s;
     Some (child, parent, color, s) }"

definition rb_erase :: "addr \<Rightarrow> rb_state \<Rightarrow> rb_state option" where
  "rb_erase node s = do {
     left \<leftarrow> rd rb_left node s;
     right \<leftarrow> rd rb_right node s;
     (child, parent, color, s) \<leftarrow>
       (if left = NULL then erase_one right node s
        else if right = NULL then erase_one left node s
        else erase_two node s);
     if color = RB_BLACK then rb_erase_color child parent s else Some s }"

definition rb_replace_node :: "addr \<Rightarrow> addr \<Rightarrow> rb_state \<Rightarrow> rb_state option" where
  "rb_replace_node victim new s = do {
     parent \<leftarrow> rd rb_parent victim s;
     s \<leftarrow> change_child victim new parent s;
     left \<leftarrow> rd rb_left victim s;
     s \<leftarrow> set_parent_opt left new s;
     right \<leftarrow> rd rb_right victim s;
     s \<leftarrow> set_parent_opt right new s;
     v \<leftarrow> rd id victim s;
     wr (\<lambda>_. v) new s }"

section \<open>The rebalancing loop\<close>

lemma zipper_root_neq: "zipper H A s t (f # fs) \<Longrightarrow> rb_root s \<noteq> root_of t"
proof -
  assume z: "zipper H A s t (f # fs)"
  have "ctx_at ns rt gs q \<Longrightarrow> gs \<noteq> [] \<Longrightarrow> rt \<in> set (ctx_addrs gs)" for ns rt gs q
    by (induction ns rt gs q rule: ctx_at.induct) (auto, (case_tac fs; auto)+)
  then have "rb_root s \<in> set (ctx_addrs (f # fs))" using z by (auto simp: zipper_def)
  moreover have "root_of t \<notin> set (ctx_addrs (f # fs))"
    using z by (cases t) (auto simp: zipper_def dest: ctx_at_not_NULL)
  ultimately show ?thesis by metis
qed

lemma erase_red_left_zipper:
  assumes z: "zipper H A s (T c t p (T Red sl x sr)) fs"
  shows "\<exists>s'. erase_red_left p x s = Some (root_of sl, s') \<and> zipper H A s' (T Black (T Red t p sl) x sr) fs"
proof -
  have zx: "zipper H A s (T Red sl x sr) (FR c t p # fs)" using z by (simp add: zipper_fill)
  obtain s1 where 1: "wr rb_set_black x s = Some s1" "zipper H A s1 (T c t p (T Black sl x sr)) fs"
    using zipper_set_black[OF zx] by (auto simp: zipper_fill)
  obtain s2 where 2: "wr rb_set_red p s1 = Some s2" "zipper H A s2 (T Red t p (T Black sl x sr)) fs"
    using zipper_set_red[OF 1(2)] by blast
  obtain s3 where 3: "rb_rotate_left p s2 = Some s3" "zipper H A s3 (T Black (T Red t p sl) x sr) fs"
    using zipper_rotate_left[OF 2(2)] by blast
  have "zipper H A s3 (T Red t p sl) (FL Black x sr # fs)" using 3(2) by (simp add: zipper_fill)
  then show ?thesis
    using 1 2 3 zipper_aligned[OF z] by (simp add: erase_red_left_def zipper_node[OF zx] zipper_node)
qed

lemma erase_red_right_zipper:
  assumes z: "zipper H A s (T c (T Red sl x sr) p t) fs"
  shows "\<exists>s'. erase_red_right p x s = Some (root_of sr, s') \<and> zipper H A s' (T Black sl x (T Red sr p t)) fs"
proof -
  have zx: "zipper H A s (T Red sl x sr) (FL c p t # fs)" using z by (simp add: zipper_fill)
  obtain s1 where 1: "wr rb_set_black x s = Some s1" "zipper H A s1 (T c (T Black sl x sr) p t) fs"
    using zipper_set_black[OF zx] by (auto simp: zipper_fill)
  obtain s2 where 2: "wr rb_set_red p s1 = Some s2" "zipper H A s2 (T Red (T Black sl x sr) p t) fs"
    using zipper_set_red[OF 1(2)] by blast
  obtain s3 where 3: "rb_rotate_right p s2 = Some s3" "zipper H A s3 (T Black sl x (T Red sr p t)) fs"
    using zipper_rotate_right[OF 2(2)] by blast
  have "zipper H A s3 (T Red sr p t) (FR Black sl x # fs)" using 3(2) by (simp add: zipper_fill)
  then show ?thesis
    using 1 2 3 zipper_aligned[OF z] by (simp add: erase_red_right_def zipper_node[OF zx] zipper_node)
qed

lemma erase_close_left_zipper:
  assumes z: "zipper H A s (T c t p (T k a y (T k' b w d))) fs"
  shows "\<exists>s'. erase_close_left p y s = Some s' \<and> zipper H A s' (T c (T Black t p a) y (T Black b w d)) fs"
proof -
  have zy: "zipper H A s (T k a y (T k' b w d)) (FR c t p # fs)" using z by (simp add: zipper_fill)
  obtain s1 where 1: "wr (rb_set_color (color_bit c)) y s = Some s1"
    "zipper H A s1 (T c t p (T c a y (T k' b w d))) fs"
    using zipper_set_color[OF zy, of c] by (auto simp: zipper_fill)
  obtain s2 where 2: "wr rb_set_black p s1 = Some s2" "zipper H A s2 (T Black t p (T c a y (T k' b w d))) fs"
    using zipper_set_black[OF 1(2)] by blast
  have zw: "zipper H A s2 (T k' b w d) (FR c a y # FR Black t p # fs)"
    and zy2: "zipper H A s2 (T c a y (T k' b w d)) (FR Black t p # fs)"
    using 2(2) by (simp_all add: zipper_fill)
  obtain s3 where 3: "wr rb_set_black w s2 = Some s3" "zipper H A s3 (T Black t p (T c a y (T Black b w d))) fs"
    using zipper_set_black[OF zw] by (auto simp: zipper_fill)
  show ?thesis
    using 1(1) 2(1) 3(1) zipper_rotate_left[OF 3(2)] zipper_aligned[OF z]
    by (simp add: erase_close_left_def zipper_node[OF z] zipper_node[OF zy2])
qed

lemma erase_close_right_zipper:
  assumes z: "zipper H A s (T c (T k (T k' b w d) y a) p t) fs"
  shows "\<exists>s'. erase_close_right p y s = Some s' \<and> zipper H A s' (T c (T Black b w d) y (T Black a p t)) fs"
proof -
  have zy: "zipper H A s (T k (T k' b w d) y a) (FL c p t # fs)" using z by (simp add: zipper_fill)
  obtain s1 where 1: "wr (rb_set_color (color_bit c)) y s = Some s1"
    "zipper H A s1 (T c (T c (T k' b w d) y a) p t) fs"
    using zipper_set_color[OF zy, of c] by (auto simp: zipper_fill)
  obtain s2 where 2: "wr rb_set_black p s1 = Some s2" "zipper H A s2 (T Black (T c (T k' b w d) y a) p t) fs"
    using zipper_set_black[OF 1(2)] by blast
  have zw: "zipper H A s2 (T k' b w d) (FL c y a # FL Black p t # fs)"
    and zy2: "zipper H A s2 (T c (T k' b w d) y a) (FL Black p t # fs)"
    using 2(2) by (simp_all add: zipper_fill)
  obtain s3 where 3: "wr rb_set_black w s2 = Some s3" "zipper H A s3 (T Black (T c (T Black b w d) y a) p t) fs"
    using zipper_set_black[OF zw] by (auto simp: zipper_fill)
  show ?thesis
    using 1(1) 2(1) 3(1) zipper_rotate_right[OF 3(2)] zipper_aligned[OF z]
    by (simp add: erase_close_right_def zipper_node[OF z] zipper_node[OF zy2])
qed

lemma children_black_zipper:
  assumes z: "zipper H A s (T k sl x sr) fs"
  shows "children_black x s = Some (\<not> is_red sl \<and> \<not> is_red sr)"
proof -
  have "zipper H A s sl (FL k x sr # fs)" "zipper H A s sr (FR k sl x # fs)"
    using z by (simp_all add: zipper_fill)
  then show ?thesis by (simp add: children_black_def zipper_node[OF z] zipper_is_black)
qed

lemma erase_body_left_zipper:
  assumes z: "zipper H A s (T c t p (T k sl x sr)) fs" and st: "del_step_l t c p (T k sl x sr) = (u, brk)"
  shows "\<exists>s'. erase_body_left p x s = Some (brk, s') \<and> zipper H A s' u fs"
proof -
  have zx: "zipper H A s (T k sl x sr) (FR c t p # fs)"
    and zr: "zipper H A s sr (FR k sl x # FR c t p # fs)"
    using z by (simp_all add: zipper_fill)
  note body = erase_body_left_def children_black_zipper[OF zx] zipper_node[OF zx] zipper_is_black[OF zr]
  consider (both) "\<not> is_red sl" "\<not> is_red sr" | (inner) "is_red sl" "\<not> is_red sr" | (outer) "is_red sr"
    by blast
  then show ?thesis
  proof cases
    case both
    then show ?thesis using st zipper_set_red[OF zx] by (auto simp: body zipper_fill)
  next
    case inner
    then obtain a y b where sl: "sl = T Red a y b" by (auto elim: is_redE)
    have zl: "zipper H A s (T Red a y b) (FL k x sr # FR c t p # fs)" using zx sl by (simp add: zipper_fill)
    obtain s1 where 1: "wr rb_set_black y s = Some s1" "zipper H A s1 (T k (T Black a y b) x sr) (FR c t p # fs)"
      using zipper_set_black[OF zl] by (auto simp: zipper_fill)
    obtain s2 where 2: "wr rb_set_red x s1 = Some s2" "zipper H A s2 (T Red (T Black a y b) x sr) (FR c t p # fs)"
      using zipper_set_red[OF 1(2)] by blast
    obtain s3 where 3: "rb_rotate_right x s2 = Some s3" "zipper H A s3 (T c t p (T Black a y (T Red b x sr))) fs"
      using zipper_rotate_right[OF 2(2)] by (auto simp: zipper_fill)
    obtain s4 where 4: "erase_close_left p y s3 = Some s4" "zipper H A s4 (T c (T Black t p a) y (T Black b x sr)) fs"
      using erase_close_left_zipper[OF 3(2)] by blast
    show ?thesis
      using inner sl st 1(1) 2(1) 3(1) 4 by (auto simp: body zipper_node[OF 3(2)])
  next
    case outer
    then obtain b w d where sr: "sr = T Red b w d" by (auto elim: is_redE)
    obtain s1 where "erase_close_left p x s = Some s1" "zipper H A s1 (T c (T Black t p sl) x (T Black b w d)) fs"
      using erase_close_left_zipper z sr by blast
    moreover have "is_black_ptr w s = Some False" using zipper_is_black[OF zr] sr by simp
    ultimately show ?thesis using st sr by (auto simp: body)
  qed
qed

lemma erase_body_right_zipper:
  assumes z: "zipper H A s (T c (T k sl x sr) p t) fs" and st: "del_step_r (T k sl x sr) c p t = (u, brk)"
  shows "\<exists>s'. erase_body_right p x s = Some (brk, s') \<and> zipper H A s' u fs"
proof -
  have zx: "zipper H A s (T k sl x sr) (FL c p t # fs)"
    and zl: "zipper H A s sl (FL k x sr # FL c p t # fs)"
    using z by (simp_all add: zipper_fill)
  note body = erase_body_right_def children_black_zipper[OF zx] zipper_node[OF zx] zipper_is_black[OF zl]
  consider (both) "\<not> is_red sl" "\<not> is_red sr" | (inner) "is_red sr" "\<not> is_red sl" | (outer) "is_red sl"
    by blast
  then show ?thesis
  proof cases
    case both
    then show ?thesis using st zipper_set_red[OF zx] by (auto simp: body zipper_fill)
  next
    case inner
    then obtain a y b where sr: "sr = T Red a y b" by (auto elim: is_redE)
    have zr: "zipper H A s (T Red a y b) (FR k sl x # FL c p t # fs)" using zx sr by (simp add: zipper_fill)
    obtain s1 where 1: "wr rb_set_black y s = Some s1" "zipper H A s1 (T k sl x (T Black a y b)) (FL c p t # fs)"
      using zipper_set_black[OF zr] by (auto simp: zipper_fill)
    obtain s2 where 2: "wr rb_set_red x s1 = Some s2" "zipper H A s2 (T Red sl x (T Black a y b)) (FL c p t # fs)"
      using zipper_set_red[OF 1(2)] by blast
    obtain s3 where 3: "rb_rotate_left x s2 = Some s3" "zipper H A s3 (T c (T Black (T Red sl x a) y b) p t) fs"
      using zipper_rotate_left[OF 2(2)] by (auto simp: zipper_fill)
    obtain s4 where 4: "erase_close_right p y s3 = Some s4" "zipper H A s4 (T c (T Black sl x a) y (T Black b p t)) fs"
      using erase_close_right_zipper[OF 3(2)] by blast
    show ?thesis
      using inner sr st 1(1) 2(1) 3(1) 4 by (auto simp: body zipper_node[OF 3(2)])
  next
    case outer
    then obtain b w d where sl: "sl = T Red b w d" by (auto elim: is_redE)
    obtain s1 where "erase_close_right p x s = Some s1" "zipper H A s1 (T c (T Black b w d) x (T Black sr p t)) fs"
      using erase_close_right_zipper z sl by blast
    moreover have "is_black_ptr w s = Some False" using zipper_is_black[OF zl] sl by simp
    ultimately show ?thesis using st sl by (auto simp: body)
  qed
qed

text \<open>The loop stops at a red node and at the root, and paints it black.\<close>

lemma erase_color_stop:
  assumes z: "zipper H A s t fs" and stop: "is_red t \<or> fs = []"
  shows "\<exists>s'. rb_erase_color (root_of t) q s = Some s' \<and> zipper H A s' (plug (paint Black t) fs) []"
proof -
  have "fs = [] \<Longrightarrow> rb_root s = root_of t" using z by (auto simp: zipper_def)
  then have "rb_erase_loop (root_of t) q s = Some (root_of t, s)"
    using stop by (subst rb_erase_loop.simps) (auto simp: zipper_is_black[OF z])
  then show ?thesis
  proof (cases t)
    case E
    then show ?thesis using z stop \<open>rb_erase_loop _ _ _ = _\<close> by (auto simp: rb_erase_color_def)
  next
    case (T c l x r)
    then show ?thesis
      using z zipper_set_black[of H A s c l x r fs] zipper_aligned[of H A s c l x r fs] \<open>rb_erase_loop _ _ _ = _\<close>
      by (auto simp: rb_erase_color_def zipper_plug)
  qed
qed

text \<open>After \<^verbatim>\<open>break\<close> the root is painted black.\<close>

lemma erase_color_break:
  assumes z: "zipper H A s u fs" and ne: "u \<noteq> E"
  shows "\<exists>s'. (if rb_root s \<noteq> NULL then wr rb_set_black (rb_root s) s else Some s) = Some s' \<and>
    zipper H A s' (paint Black (plug u fs)) []"
proof -
  have "inorder (plug u fs) \<noteq> []" using ne by (cases u) auto
  then obtain k a y b where t: "plug u fs = T k a y b" by (cases "plug u fs") auto
  then have z': "zipper H A s (T k a y b) []" using z zipper_plug[of H A s u fs] by simp
  then have "rb_root s = y" "y \<noteq> NULL" by (auto simp: zipper_def)
  then show ?thesis using zipper_set_black[OF z'] t by auto
qed

text \<open>One round of the loop, as an equation between calls of \<^verbatim>\<open>__rb_erase_color\<close>.\<close>

definition erase_round :: "addr \<Rightarrow> (bool \<times> rb_state) option \<Rightarrow> rb_state option" where
  "erase_round p body = do {
     (brk, s) \<leftarrow> body;
     if brk then (if rb_root s \<noteq> NULL then wr rb_set_black (rb_root s) s else Some s)
     else do {
       gp \<leftarrow> rd rb_parent p s;
       rb_erase_color p gp s } }"

lemma erase_color_left:
  assumes z: "zipper H A s t (FL c p sb # fs)" and nr: "\<not> is_red t"
  shows "rb_erase_color (root_of t) p s =
    erase_round p (do { (other, s) \<leftarrow> erase_red_left p (root_of sb) s; erase_body_left p other s })"
proof -
  have zp: "zipper H A s (T c t p sb) fs" using z by (simp add: zipper_fill)
  have nrt: "rb_root s \<noteq> root_of t" using z by (rule zipper_root_neq)
  show ?thesis
    unfolding rb_erase_color_def erase_round_def
    by (subst rb_erase_loop.simps)
      (auto simp: zipper_is_black[OF z] zipper_node[OF zp] nr nrt[symmetric] split: bind_splits)
qed

lemma erase_color_right:
  assumes z: "zipper H A s t (FR c sb p # fs)" and nr: "\<not> is_red t" and ne: "sb \<noteq> E"
  shows "rb_erase_color (root_of t) p s =
    erase_round p (do { (other, s) \<leftarrow> erase_red_right p (root_of sb) s; erase_body_right p other s })"
proof -
  have zp: "zipper H A s (T c sb p t) fs" using z by (simp add: zipper_fill)
  have nrt: "rb_root s \<noteq> root_of t" using z by (rule zipper_root_neq)
  have "root_of sb \<noteq> root_of t" using zp ne by (cases sb; cases t) (auto simp: zipper_def)
  then show ?thesis
    unfolding rb_erase_color_def erase_round_def
    by (subst rb_erase_loop.simps)
      (auto simp: zipper_is_black[OF z] zipper_node[OF zp] nr nrt[symmetric] split: bind_splits)
qed

lemma erase_round_zipper:
  assumes z: "zipper H A s u fs" and ne: "u \<noteq> E" and u: "\<not> brk \<Longrightarrow> root_of u = p"
    and cont: "\<not> brk \<Longrightarrow> \<exists>s'. rb_erase_color (root_of u) (parent_of fs) s = Some s' \<and> zipper H A s' t' []"
    and t': "brk \<Longrightarrow> t' = paint Black (plug u fs)"
  shows "\<exists>s'. erase_round p (Some (brk, s)) = Some s' \<and> zipper H A s' t' []"
proof (cases brk)
  case True
  then show ?thesis using erase_color_break[OF z ne] t' by (simp add: erase_round_def)
next
  case False
  obtain c l r where "u = T c l p r" using ne u[OF False] by (cases u) auto
  then show ?thesis
    using False cont z zipper_aligned[of H A s c l p r fs] zipper_node[of H A s c l p r fs rb_parent]
    by (simp add: erase_round_def)
qed

lemma del_step_l_root: "del_step_l t c p s = (u, brk) \<Longrightarrow> u \<noteq> E \<and> (\<not> brk \<longrightarrow> root_of u = p \<and> color_of u = c)"
  by (cases s) (auto split: if_splits)

lemma del_step_r_root: "del_step_r s c p t = (u, brk) \<Longrightarrow> u \<noteq> E \<and> (\<not> brk \<longrightarrow> root_of u = p \<and> color_of u = c)"
  by (cases s) (auto split: if_splits)

text \<open>A round with a red sibling is the last one.\<close>

lemma erase_red_sibling_l:
  assumes z: "zipper H A s t (FL c p (T Red (T k a y b) x sr) # fs)" and nr: "\<not> is_red t"
  shows "\<exists>s'. rb_erase_color (root_of t) p s = Some s' \<and>
    zipper H A s' (del_fix t (FL c p (T Red (T k a y b) x sr) # fs)) []"
proof -
  obtain u brk where st: "del_step_l t Red p (T k a y b) = (u, brk)" by fastforce
  have "zipper H A s (T c t p (T Red (T k a y b) x sr)) fs" using z by (simp add: zipper_fill)
  then obtain s1 where 1: "erase_red_left p x s = Some (y, s1)"
    "zipper H A s1 (T Red t p (T k a y b)) (FL Black x sr # fs)"
    using erase_red_left_zipper by (fastforce simp: zipper_fill)
  obtain s2 where 2: "erase_body_left p y s1 = Some (brk, s2)" "zipper H A s2 u (FL Black x sr # fs)"
    using erase_body_left_zipper[OF 1(2) st] by blast
  note u = del_step_l_root[OF st]
  have df: "del_fix t (FL c p (T Red (T k a y b) x sr) # fs) =
      (if brk then paint Black (plug u (FL Black x sr # fs)) else plug (paint Black u) (FL Black x sr # fs))"
    using nr by (simp only: del_fix.simps color_of.simps left_of.simps right_of.simps root_of.simps st
        Let_def case_prod_conv if_True if_False simp_thms)
  have "\<exists>s'. erase_round p (Some (brk, s2)) = Some s' \<and>
    zipper H A s' (del_fix t (FL c p (T Red (T k a y b) x sr) # fs)) []"
    by (rule erase_round_zipper[OF 2(2)]) (use u erase_color_stop[OF 2(2)] df in auto)
  then show ?thesis using 1(1) 2(1) by (simp add: erase_color_left[OF z nr])
qed

lemma erase_red_sibling_r:
  assumes z: "zipper H A s t (FR c (T Red sl x (T k a y b)) p # fs)" and nr: "\<not> is_red t"
  shows "\<exists>s'. rb_erase_color (root_of t) p s = Some s' \<and>
    zipper H A s' (del_fix t (FR c (T Red sl x (T k a y b)) p # fs)) []"
proof -
  obtain u brk where st: "del_step_r (T k a y b) Red p t = (u, brk)" by fastforce
  have "zipper H A s (T c (T Red sl x (T k a y b)) p t) fs" using z by (simp add: zipper_fill)
  then obtain s1 where 1: "erase_red_right p x s = Some (y, s1)"
    "zipper H A s1 (T Red (T k a y b) p t) (FR Black sl x # fs)"
    using erase_red_right_zipper by (fastforce simp: zipper_fill)
  obtain s2 where 2: "erase_body_right p y s1 = Some (brk, s2)" "zipper H A s2 u (FR Black sl x # fs)"
    using erase_body_right_zipper[OF 1(2) st] by blast
  note u = del_step_r_root[OF st]
  have df: "del_fix t (FR c (T Red sl x (T k a y b)) p # fs) =
      (if brk then paint Black (plug u (FR Black sl x # fs)) else plug (paint Black u) (FR Black sl x # fs))"
    using nr by (simp only: del_fix.simps color_of.simps left_of.simps right_of.simps root_of.simps st
        Let_def case_prod_conv if_True if_False simp_thms)
  have "\<exists>s'. erase_round p (Some (brk, s2)) = Some s' \<and>
    zipper H A s' (del_fix t (FR c (T Red sl x (T k a y b)) p # fs)) []"
    by (rule erase_round_zipper[OF 2(2)]) (use u erase_color_stop[OF 2(2)] df in auto)
  then show ?thesis using 1(1) 2(1) by (simp add: erase_color_right[OF z nr])
qed

text \<open>A round with a black sibling.\<close>

lemma erase_black_sibling_l:
  assumes z: "zipper H A s t (FL c p (T Black sl x sr) # fs)" and nr: "\<not> is_red t"
    and st: "del_step_l t c p (T Black sl x sr) = (u, brk)"
    and cont: "\<And>s. \<lbrakk>\<not> brk; zipper H A s u fs\<rbrakk> \<Longrightarrow>
      \<exists>s'. rb_erase_color (root_of u) (parent_of fs) s = Some s' \<and> zipper H A s' t' []"
    and t': "brk \<Longrightarrow> t' = paint Black (plug u fs)"
  shows "\<exists>s'. rb_erase_color (root_of t) p s = Some s' \<and> zipper H A s' t' []"
proof -
  have zp: "zipper H A s (T c t p (T Black sl x sr)) fs" using z by (simp add: zipper_fill)
  have zx: "zipper H A s (T Black sl x sr) (FR c t p # fs)" using z by (simp add: zipper_fill)
  have red: "erase_red_left p x s = Some (x, s)"
    using zipper_aligned[OF zx] by (simp add: erase_red_left_def zipper_node[OF zx])
  obtain s2 where 2: "erase_body_left p x s = Some (brk, s2)" "zipper H A s2 u fs"
    using erase_body_left_zipper[OF zp st] by blast
  have "\<exists>s'. erase_round p (Some (brk, s2)) = Some s' \<and> zipper H A s' t' []"
    by (rule erase_round_zipper[OF 2(2)]) (use del_step_l_root[OF st] cont[OF _ 2(2)] t' in auto)
  then show ?thesis using red 2(1) by (simp add: erase_color_left[OF z nr])
qed

lemma erase_black_sibling_r:
  assumes z: "zipper H A s t (FR c (T Black sl x sr) p # fs)" and nr: "\<not> is_red t"
    and st: "del_step_r (T Black sl x sr) c p t = (u, brk)"
    and cont: "\<And>s. \<lbrakk>\<not> brk; zipper H A s u fs\<rbrakk> \<Longrightarrow>
      \<exists>s'. rb_erase_color (root_of u) (parent_of fs) s = Some s' \<and> zipper H A s' t' []"
    and t': "brk \<Longrightarrow> t' = paint Black (plug u fs)"
  shows "\<exists>s'. rb_erase_color (root_of t) p s = Some s' \<and> zipper H A s' t' []"
proof -
  have zp: "zipper H A s (T c (T Black sl x sr) p t) fs" using z by (simp add: zipper_fill)
  have zx: "zipper H A s (T Black sl x sr) (FL c p t # fs)" using z by (simp add: zipper_fill)
  have red: "erase_red_right p x s = Some (x, s)"
    using zipper_aligned[OF zx] by (simp add: erase_red_right_def zipper_node[OF zx])
  obtain s2 where 2: "erase_body_right p x s = Some (brk, s2)" "zipper H A s2 u fs"
    using erase_body_right_zipper[OF zp st] by blast
  have "\<exists>s'. erase_round p (Some (brk, s2)) = Some s' \<and> zipper H A s' t' []"
    by (rule erase_round_zipper[OF 2(2)]) (use del_step_r_root[OF st] cont[OF _ 2(2)] t' in auto)
  then show ?thesis using red 2(1) by (simp add: erase_color_right[OF z nr])
qed

lemma not_E_height: "black_height s = Suc n \<Longrightarrow> \<exists>k a y b. s = T k a y b"
  by (cases s) auto

lemma rb_erase_color_refines:
  assumes "zipper H A s t fs" "color_ok (paint Black t)" "height_ok t" "ctx_color_ok fs Black"
    "ctx_height_ok fs (Suc (black_height t))"
  shows "\<exists>s'. rb_erase_color (root_of t) (parent_of fs) s = Some s' \<and> zipper H A s' (del_fix t fs) []"
  using assms
proof (induction t fs arbitrary: s rule: del_fix.induct)
  case (1 t)
  then show ?case using erase_color_stop[OF "1.prems"(1)] by simp
next
  case (2 t c p sb fs)
  obtain k sl x sr where sb: "sb = T k sl x sr" using "2.prems"(5) not_E_height by fastforce
  show ?case
  proof (cases "is_red t")
    case True
    then show ?thesis using erase_color_stop[OF "2.prems"(1)] by (auto simp: sb)
  next
    case nr: False
    show ?thesis
    proof (cases k)
      case Red
      then have "black_height sl = Suc (black_height t)" using "2.prems"(5) sb by auto
      then obtain k' a y b where "sl = T k' a y b" using not_E_height by blast
      then show ?thesis
        using erase_red_sibling_l[of H A s t c p k' a y b x sr fs] "2.prems"(1) nr sb Red by simp
    next
      case Black
      obtain u brk where st: "del_step_l t c p sb = (u, brk)" by fastforce
      have pre: "color_ok t" "height_ok t" "\<not> is_red t" "color_ok sb" "height_ok sb" "\<not> is_red sb"
        "black_height sb = Suc (black_height t)"
        using "2.prems" nr sb Black by auto
      have u: "height_ok u" "\<not> brk \<Longrightarrow> color_ok (paint Black u) \<and> black_height u = black_height t + weight c"
        using del_step_l_inv[OF pre st] by auto
      have df: "del_fix t (FL c p sb # fs) = (if brk then paint Black (plug u fs) else del_fix u fs)"
        using nr Black sb st by simp
      show ?thesis
        unfolding df parent_of.simps frame_addr.simps
        by (rule erase_black_sibling_l[OF "2.prems"(1)[unfolded sb Black] nr st[unfolded sb Black]])
          (use "2.IH"[OF nr _ st[symmetric]] sb Black u "2.prems" ctx_color_ok_Black in auto)
    qed
  qed
next
  case (3 t c sb p fs)
  obtain k sl x sr where sb: "sb = T k sl x sr" using "3.prems"(5) not_E_height by fastforce
  show ?case
  proof (cases "is_red t")
    case True
    then show ?thesis using erase_color_stop[OF "3.prems"(1)] by (auto simp: sb)
  next
    case nr: False
    show ?thesis
    proof (cases k)
      case Red
      then have "black_height sr = Suc (black_height t)" using "3.prems"(5) sb by auto
      then obtain k' a y b where "sr = T k' a y b" using not_E_height by blast
      then show ?thesis
        using erase_red_sibling_r[of H A s t c sl x k' a y b p fs] "3.prems"(1) nr sb Red by simp
    next
      case Black
      obtain u brk where st: "del_step_r sb c p t = (u, brk)" by fastforce
      have pre: "color_ok t" "height_ok t" "\<not> is_red t" "color_ok sb" "height_ok sb" "\<not> is_red sb"
        "black_height sb = Suc (black_height t)"
        using "3.prems" nr sb Black by auto
      have u: "height_ok u" "\<not> brk \<Longrightarrow> color_ok (paint Black u) \<and> black_height u = black_height t + weight c"
        using del_step_r_inv[OF pre st] by auto
      have df: "del_fix t (FR c sb p # fs) = (if brk then paint Black (plug u fs) else del_fix u fs)"
        using nr Black sb st by simp
      show ?thesis
        unfolding df parent_of.simps frame_addr.simps
        by (rule erase_black_sibling_r[OF "3.prems"(1)[unfolded sb Black] nr st[unfolded sb Black]])
          (use "3.IH"[OF nr _ st[symmetric]] sb Black u "3.prems" ctx_color_ok_Black in auto)
    qed
  qed
qed

section \<open>Unlinking a node\<close>

lemma tree_at_cong: "(\<And>q. q \<in> set (inorder t) \<Longrightarrow> ns' q = ns q) \<Longrightarrow> tree_at ns' p t = tree_at ns p t"
  by (induction t arbitrary: p) auto

lemma root_of_not_NULL: "\<lbrakk>tree_at ns p t; t \<noteq> E\<rbrakk> \<Longrightarrow> root_of t \<noteq> NULL"
  by (cases t) auto

lemma zipper_disjoint:
  assumes "zipper H A s (T c l x r) fs"
  shows "distinct (inorder l)" "distinct (inorder r)" "distinct (ctx_addrs fs)"
    "x \<notin> set (inorder l)" "x \<notin> set (inorder r)" "x \<notin> set (ctx_addrs fs)"
    "set (inorder l) \<inter> set (inorder r) = {}" "set (inorder r) \<inter> set (inorder l) = {}"
    "set (inorder l) \<inter> set (ctx_addrs fs) = {}" "set (ctx_addrs fs) \<inter> set (inorder l) = {}"
    "set (inorder r) \<inter> set (ctx_addrs fs) = {}" "set (ctx_addrs fs) \<inter> set (inorder r) = {}"
    "A = insert x (set (inorder l) \<union> set (inorder r) \<union> set (ctx_addrs fs))"
  using assms by (auto simp: zipper_def)

lemma zipper_parts:
  assumes "zipper H A s (T c l x r) fs"
  shows "rb_nodes s x = Some (mk_node (parent_of fs) c (root_of l) (root_of r))"
    "tree_at (rb_nodes s) x l" "tree_at (rb_nodes s) x r"
    "ctx_at (rb_nodes s) (rb_root s) fs x" "x \<noteq> NULL" "aligned x" "aligned (parent_of fs)"
  using assms by (auto simp: zipper_def)

lemma erase_one_zipper:
  assumes z: "zipper H A s (T c l x r) fs" and t: "l = E \<and> t = r \<or> r = E \<and> t = l"
  shows "\<exists>s'. erase_one (root_of t) x s = Some (root_of t, parent_of fs, color_bit c, s') \<and>
    zipper (H(x := rb_nodes s x)) (A - {x}) s' t fs"
proof -
  note d = zipper_disjoint[OF z] and h = zipper_parts[OF z]
  let ?s1 = "reparent t (parent_of fs) s" and ?s2 = "relink fs (root_of t) (reparent t (parent_of fs) s)"
  have ta: "tree_at (rb_nodes s) x t" and dt: "distinct (inorder t)" "x \<notin> set (inorder t)"
    "set (inorder t) \<inter> set (ctx_addrs fs) = {}" "A - {x} = set (inorder t) \<union> set (ctx_addrs fs)"
    using t d h by auto
  then have 1: "set_parent_opt (root_of t) (parent_of fs) s = Some ?s1" by (intro set_parent_opt_eq)
  have c1: "ctx_at (rb_nodes ?s1) (rb_root ?s1) fs x" using h dt by simp
  then have 2: "change_child x (root_of t) (parent_of fs) ?s1 = Some ?s2"
    using d h by (intro change_child_eq) auto
  have "ctx_at (rb_nodes ?s2) (rb_root ?s2) fs (root_of t)" using c1 d by (intro ctx_at_relink) auto
  moreover have "tree_at (rb_nodes ?s1) (parent_of fs) t" using ta dt h by (intro tree_at_reparent) auto
  then have "tree_at (rb_nodes ?s2) (parent_of fs) t" using dt by (simp add: Int_commute)
  moreover have "\<forall>p. p \<notin> A - {x} \<longrightarrow> rb_nodes ?s2 p = (H(x := rb_nodes s x)) p"
    using z dt d by (auto simp: zipper_def)
  ultimately have "zipper (H(x := rb_nodes s x)) (A - {x}) ?s2 t fs"
    using dt d by (auto simp: zipper_def)
  then show ?thesis
    using 1 2 h by (simp add: erase_one_def zipper_node[OF z])
qed

lemma rb_replace_node_zipper:
  assumes z: "zipper H A s (T c l x r) fs" and m: "m \<notin> A" "aligned m" "m \<noteq> NULL" "rb_nodes s m \<noteq> None"
  shows "\<exists>s'. rb_replace_node x m s = Some s' \<and>
    zipper (H(x := rb_nodes s x)) (insert m (A - {x})) s' (T c l m r) fs"
proof -
  note d = zipper_disjoint[OF z] and h = zipper_parts[OF z]
  let ?n = "mk_node (parent_of fs) c (root_of l) (root_of r)"
  let ?s1 = "relink fs m s"
  let ?s2 = "reparent l m ?s1"
  let ?s3 = "reparent r m ?s2"
  let ?s4 = "?s3\<lparr>rb_nodes := (rb_nodes ?s3)(m \<mapsto> ?n)\<rparr>"
  have m': "m \<notin> set (inorder l)" "m \<notin> set (inorder r)" "m \<notin> set (ctx_addrs fs)" "m \<noteq> x"
    using m d by auto
  have 1: "change_child x m (parent_of fs) s = Some ?s1" using d h by (intro change_child_eq)
  have x1: "rb_nodes ?s1 x = Some ?n" "rb_nodes ?s2 x = Some ?n" "rb_nodes ?s3 x = Some ?n"
    using d h by simp_all
  have 2: "set_parent_opt (root_of l) m ?s1 = Some ?s2"
    using d h by (intro set_parent_opt_eq[where p = x]) simp
  have 3: "set_parent_opt (root_of r) m ?s2 = Some ?s3"
    using d h by (intro set_parent_opt_eq[where p = x]) simp
  obtain v where v: "rb_nodes s m = Some v" using m(4) by auto
  have ex: "rb_replace_node x m s = Some ?s4"
    using 1 2 3 x1 h m m' v by (simp add: rb_replace_node_def rd_Some wr_Some)
  have "tree_at (rb_nodes ?s2) m l" using d h m by (intro tree_at_reparent) auto
  moreover have "tree_at (rb_nodes ?s3) m r" using d h m by (intro tree_at_reparent) auto
  moreover have "ctx_at (rb_nodes ?s1) (rb_root ?s1) fs m" using d h by (intro ctx_at_relink) auto
  ultimately have "zipper (H(x := rb_nodes s x)) (insert m (A - {x})) ?s4 (T c l m r) fs"
    using z m m' d h by (auto simp: zipper_def)
  with ex show ?thesis by blast
qed

lemma rb_leftmost_zipper:
  "\<lbrakk>zipper H A s t fs; leftmost t fs = (T k a m r, gs)\<rbrakk> \<Longrightarrow> rb_leftmost (root_of t) s = Some m"
proof (induction t fs rule: leftmost.induct)
  case (1 c l x r fs)
  have z: "zipper H A s l (FL c x r # fs)" using "1.prems"(1) by (simp add: zipper_fill)
  show ?case
  proof (cases l)
    case E
    then have "m = x" using "1.prems"(2) by simp
    then show ?thesis
      by (subst rb_leftmost.simps) (simp add: zipper_node[OF "1.prems"(1)] E)
  next
    case (T k' l' x' r')
    then have "rb_leftmost (root_of l) s = Some m" using 1 z by simp
    moreover have "root_of l \<noteq> NULL" using T z zipper_aligned by fastforce
    ultimately show ?thesis
      by (subst rb_leftmost.simps) (simp add: zipper_node[OF "1.prems"(1)])
  qed
qed simp

text \<open>
  Moving a context below another node: the frames \<^verbatim>\<open>gs\<close> hang below \<^verbatim>\<open>x\<close> in the heap \<^verbatim>\<open>ns\<close>, and below \<^verbatim>\<open>m\<close> in a
  heap that differs in the parent field of their topmost node.
\<close>

lemma ctx_at_retop:
  assumes "ctx_at ns rt (gs @ FR c l x # fs) q" "gs \<noteq> []" "distinct (ctx_addrs gs)" "aligned m"
    and "\<And>p. \<lbrakk>p \<in> set (ctx_addrs gs); p \<noteq> frame_addr (last gs)\<rbrakk> \<Longrightarrow> ns' p = ns p"
    and "ns' (frame_addr (last gs)) = map_option (rb_set_parent m) (ns (frame_addr (last gs)))"
    and "ctx_at ns' rt' (FR c l m # fs) (frame_addr (last gs))"
  shows "ctx_at ns' rt' (gs @ FR c l m # fs) q"
  using assms
proof (induction gs arbitrary: q)
  case (Cons f gs)
  have top: "frame_addr (last (f # gs)) \<in> set (ctx_addrs gs)" if "gs \<noteq> []"
  proof -
    have "frame_addr (last gs) \<in> set (ctx_addrs gs)"
      using that by (induction gs rule: ctx_addrs.induct) auto
    then show ?thesis using that by simp
  qed
  have sib: "tree_at ns' p t = tree_at ns p t"
    if "set (inorder t) \<subseteq> set (ctx_addrs (f # gs))" "frame_addr (last (f # gs)) \<notin> set (inorder t)" for p t
    using that Cons.prems(5) by (intro tree_at_cong) auto
  have par: "parent_of (gs @ FR c l m # fs) = (if gs = [] then m else parent_of (gs @ FR c l x # fs))"
    by (cases gs) auto
  have ih: "ctx_at ns' rt' (gs @ FR c l m # fs) (frame_addr f)"
  proof (cases "gs = []")
    case True
    then show ?thesis using Cons.prems(7) by simp
  next
    case False
    have "ctx_at ns rt (gs @ FR c l x # fs) (frame_addr f)" using Cons.prems(1) by (cases f) auto
    then show ?thesis
      using False Cons.prems(3-7) by (intro Cons.IH) (cases f; auto)+
  qed
  show ?case
  proof (cases f)
    case (FL k y r)
    then show ?thesis
      using Cons.prems ih par top sib[of r y] by (cases "gs = []") (auto, force+)
  next
    case (FR k r y)
    then show ?thesis
      using Cons.prems ih par top sib[of r y] by (cases "gs = []") (auto, force+)
  qed
qed simp

lemma zipper_rehole:
  assumes "zipper H A s t fs"
  shows "ctx_at (rb_nodes (relink fs q s)) (rb_root (relink fs q s)) fs q"
  using assms by (intro ctx_at_relink) (auto simp: zipper_def)

lemma ctx_addrs_append [simp]: "ctx_addrs (fs @ gs) = ctx_addrs fs @ ctx_addrs gs"
  by (induction fs rule: ctx_addrs.induct) auto

lemma last_frame_in: "fs \<noteq> [] \<Longrightarrow> frame_addr (last fs) \<in> set (ctx_addrs fs)"
  by (induction fs rule: ctx_addrs.induct) auto

lemma root_of_plug: "root_of (plug t fs) = (if fs = [] then root_of t else frame_addr (last fs))"
proof (induction fs arbitrary: t)
  case (Cons f fs)
  then show ?case by (cases f) auto
qed simp

lemma erase_two_child:
  assumes z: "zipper H A s (T c l x (T k E m r)) fs" and l: "l \<noteq> E"
  shows "\<exists>s'. erase_two x s = Some (root_of r, m, color_bit k, s') \<and>
    zipper (H(x := rb_nodes s x)) (A - {x}) s' r (FR c l m # fs)"
proof -
  note d = zipper_disjoint[OF z] and h = zipper_parts[OF z]
  have zm: "zipper H A s (T k E m r) (FR c l x # fs)" using z by (simp add: zipper_fill)
  note dm = zipper_disjoint(1-12)[OF zm] and hm = zipper_parts[OF zm]
  let ?p = "parent_of fs"
  let ?s1 = "relink fs m s"
  let ?s2 = "?s1\<lparr>rb_nodes := (rb_nodes ?s1)(m \<mapsto> mk_node ?p c (root_of l) (root_of r))\<rparr>"
  let ?s3 = "reparent l m ?s2"
  have lm: "rb_leftmost m s = Some m" using rb_leftmost_zipper[OF zm, of k E m r] by simp
  have 1: "change_child x m ?p s = Some ?s1" using d h by (intro change_child_eq)
  have rx: "rb_nodes ?s1 x = Some (mk_node ?p c (root_of l) m)" "rb_nodes ?s1 m = Some (mk_node x k NULL (root_of r))"
    using d(1-12) h(1) dm hm(1) by simp_all
  have ne: "x \<noteq> m" "m \<noteq> x" "m \<noteq> NULL" "root_of l \<noteq> NULL" using dm hm(5) root_of_not_NULL[OF h(2) l] by auto
  have "set_parent_opt (root_of l) m ?s2 = Some ?s3"
    using d h dm by (intro set_parent_opt_eq[where p = x]) simp
  then have 2: "wr (rb_set_parent m) (root_of l) ?s2 = Some ?s3" using ne by (simp add: set_parent_opt_def)
  have ex: "erase_two x s = Some (root_of r, m, color_bit k, ?s3)"
    using 1 2 lm h hm rx ne by (simp add: erase_two_def zipper_node[OF z] rd_Some wr_Some)
  have "tree_at (rb_nodes ?s3) m l" using d h dm hm by (intro tree_at_reparent) auto
  moreover have "ctx_at (rb_nodes ?s1) (rb_root ?s1) fs m" using d h by (intro ctx_at_relink) auto
  moreover have "tree_at (rb_nodes ?s3) m r" using d dm hm by simp
  moreover have "\<forall>p. p \<notin> A - {x} \<longrightarrow> rb_nodes ?s3 p = (H(x := rb_nodes s x)) p"
    using z d dm ne by (auto simp: zipper_def)
  moreover have "set (inorder r @ ctx_addrs (FR c l m # fs)) = A - {x}" using d dm ne by auto
  moreover have "distinct (inorder r @ ctx_addrs (FR c l m # fs))" using d(1-12) dm by auto
  moreover have "ctx_at (rb_nodes ?s3) (rb_root ?s3) (FR c l m # fs) (root_of r)"
    using calculation(1,2) d(1-12) dm hm h(7) ne by simp
  ultimately have "zipper (H(x := rb_nodes s x)) (A - {x}) ?s3 r (FR c l m # fs)"
    unfolding zipper_def by simp
  with ex show ?thesis by blast
qed

text \<open>
  The successor is deeper in the right subtree: below the frames \<^verbatim>\<open>gs\<close>, whose topmost node \<^verbatim>\<open>y\<close> is
  the right child of the erased node.
\<close>

lemma ctx_at_top:
  "\<lbrakk>ctx_at ns rt (gs @ FR c l x # fs) q; gs \<noteq> []\<rbrakk> \<Longrightarrow>
     \<exists>k a b. ns (frame_addr (last gs)) = Some (mk_node x k a b) \<and> aligned x"
proof (induction gs arbitrary: q)
  case (Cons f gs)
  then show ?case by (cases f; cases "gs = []") auto
qed simp

lemma zipper_deep_disjoint:
  assumes "zipper H A s (T k E m r) (gs @ FR c l x # fs)"
  shows "distinct (inorder r)" "distinct (ctx_addrs gs)" "distinct (inorder l)" "distinct (ctx_addrs fs)"
    "m \<noteq> x" "m \<notin> set (inorder r)" "m \<notin> set (ctx_addrs gs)" "m \<notin> set (inorder l)" "m \<notin> set (ctx_addrs fs)"
    "x \<notin> set (inorder r)" "x \<notin> set (ctx_addrs gs)" "x \<notin> set (inorder l)" "x \<notin> set (ctx_addrs fs)"
    "set (inorder r) \<inter> set (ctx_addrs gs) = {}" "set (inorder r) \<inter> set (inorder l) = {}"
    "set (inorder r) \<inter> set (ctx_addrs fs) = {}" "set (ctx_addrs gs) \<inter> set (inorder l) = {}"
    "set (ctx_addrs gs) \<inter> set (ctx_addrs fs) = {}" "set (inorder l) \<inter> set (ctx_addrs fs) = {}"
    "A = {m, x} \<union> set (inorder r) \<union> set (ctx_addrs gs) \<union> set (inorder l) \<union> set (ctx_addrs fs)"
  using assms by (auto simp: zipper_def)

text \<open>The state that \<^verbatim>\<open>rb_erase\<close> reaches then, with the new contents of the three nodes it rewrites.\<close>

definition deep_state ::
  "frame list \<Rightarrow> rbtree \<Rightarrow> rbtree \<Rightarrow> addr \<Rightarrow> rb_node \<Rightarrow> addr \<Rightarrow> rb_node \<Rightarrow> addr \<Rightarrow> rb_node \<Rightarrow> rb_state \<Rightarrow> rb_state" where
  "deep_state fs l r p np y ny m nm s =
     (let s2 = reparent r p (relink fs m s)
      in reparent l m (s2\<lparr>rb_nodes := (rb_nodes s2)(p \<mapsto> np, y \<mapsto> ny, m \<mapsto> nm)\<rparr>))"

lemma erase_two_deep_exec:
  assumes z: "zipper H A s (T k E m r) (gs @ FR c l x # fs)" and l: "l \<noteq> E"
    and zx: "zipper H A s (T c l x t) fs" "root_of t = y" and gs: "gs = FL kh p pr # gs'"
    and yG: "y \<in> set (ctx_addrs gs)" and lm: "rb_leftmost y s = Some m"
    and np: "np = mk_node (parent_of (gs' @ FR c l x # fs)) kh (root_of r) (root_of pr)"
    and y: "((rb_nodes s)(p \<mapsto> np)) y = Some (mk_node x ky a b)"
  shows "erase_two x s = Some (root_of r, p, color_bit k,
    deep_state fs l r p np y (mk_node m ky a b) m (mk_node (parent_of fs) c (root_of l) y) s)"
proof -
  note d = zipper_deep_disjoint(1-19)[OF z] and hx = zipper_parts(1,2,4-7)[OF zx(1)]
    and hm = zipper_parts(1,3,5,6)[OF z]
  have ctx: "ctx_at (rb_nodes s) (rb_root s) (gs @ FR c l x # fs) m" using z by (simp add: zipper_def)
  have hp: "rb_nodes s p = Some (mk_node (parent_of (gs' @ FR c l x # fs)) kh m (root_of pr))" "p \<noteq> NULL"
    "aligned p" using ctx gs by auto
  have ynz: "y \<noteq> NULL" using ctx_at_not_NULL[OF ctx] yG by auto
  have out: "p \<notin> set (inorder r)" "p \<notin> set (inorder l)" "p \<notin> set (ctx_addrs fs)" "p \<noteq> m" "p \<noteq> x"
    "y \<notin> set (inorder r)" "y \<notin> set (inorder l)" "y \<notin> set (ctx_addrs fs)" "y \<noteq> m" "y \<noteq> x"
    using d yG gs by auto
  let ?s1 = "relink fs m s"
  let ?s2 = "reparent r p ?s1"
  have 1: "change_child x m (parent_of fs) s = Some ?s1" using d hx by (intro change_child_eq) auto
  have 2: "set_parent_opt (root_of r) p ?s1 = Some ?s2"
    using d hm by (intro set_parent_opt_eq[where p = m]) (simp add: Int_commute)
  let ?s5 = "?s2\<lparr>rb_nodes := (rb_nodes ?s2)(p \<mapsto> np, y \<mapsto> mk_node m ky a b, m \<mapsto> mk_node (parent_of fs) c (root_of l) y)\<rparr>"
  have "set_parent_opt (root_of l) m ?s5 = Some (reparent l m ?s5)"
    using d hx out by (intro set_parent_opt_eq[where p = x]) (simp add: Int_commute)
  then have 3: "wr (rb_set_parent m) (root_of l) ?s5 = Some (reparent l m ?s5)"
    using root_of_not_NULL[OF hx(2) l] by (simp add: set_parent_opt_def)
  have nodes: "rb_nodes ?s1 m = Some (mk_node p k NULL (root_of r))"
    "rb_nodes ?s2 p = Some (mk_node (parent_of (gs' @ FR c l x # fs)) kh m (root_of pr))"
    "rb_nodes ?s2 x = Some (mk_node (parent_of fs) c (root_of l) y)"
    "rb_nodes ?s2 m = Some (mk_node p k NULL (root_of r))"
    "((rb_nodes ?s2)(p \<mapsto> np)) y = Some (mk_node x ky a b)"
    using d hx hm hp out zx(2) y gs by auto
  show ?thesis
    using 1 2 3 lm nodes hx hm hp out d ynz gs zx(2) np
    by (simp add: erase_two_def rd_Some wr_Some deep_state_def Let_def)
qed

lemma deep_state_zipper:
  assumes z: "zipper H A s (T k E m r) (gs @ FR c l x # fs)"
    and zx: "zipper H A s (T c l x t) fs" and gs: "gs = FL kh p pr # gs'" and yG: "y = frame_addr (last gs)"
    and np: "np = mk_node (parent_of (gs' @ FR c l x # fs)) kh (root_of r) (root_of pr)"
    and y: "((rb_nodes s)(p \<mapsto> np)) y = Some (mk_node x ky a b)"
  shows "zipper (H(x := rb_nodes s x)) (A - {x})
    (deep_state fs l r p np y (mk_node m ky a b) m (mk_node (parent_of fs) c (root_of l) y) s) r (gs @ FR c l m # fs)"
    (is "zipper _ _ ?s _ _")
proof -
  note d = zipper_deep_disjoint(1-19)[OF z] and hx = zipper_parts(1,2,4-7)[OF zx]
    and hm = zipper_parts(1,3,5,6)[OF z]
  have gsn: "gs \<noteq> []" and yin: "y \<in> set (ctx_addrs gs)" using gs yG last_frame_in by auto
  have ctx: "ctx_at (rb_nodes s) (rb_root s) (gs @ FR c l x # fs) m" using z by (simp add: zipper_def)
  have al: "p \<noteq> NULL" "aligned p" using ctx gs by auto
  have out: "p \<notin> set (inorder r)" "p \<notin> set (inorder l)" "p \<notin> set (ctx_addrs fs)" "p \<noteq> m" "p \<noteq> x"
    "y \<notin> set (inorder r)" "y \<notin> set (inorder l)" "y \<notin> set (ctx_addrs fs)" "y \<noteq> m" "y \<noteq> x"
    using d yin gs by auto
  let ?s1 = "relink fs m s"
  let ?s2 = "reparent r p ?s1"
  let ?ns = "(rb_nodes s)(p \<mapsto> np)"
  have "tree_at (rb_nodes ?s1) m r" using d hm by (simp add: Int_commute)
  then have "tree_at (rb_nodes ?s2) p r" using d al by (intro tree_at_reparent)
  then have tr: "tree_at (rb_nodes ?s) (parent_of (gs @ FR c l m # fs)) r"
    using d out gs by (simp add: deep_state_def Let_def Int_commute)
  let ?s3 = "?s2\<lparr>rb_nodes := (rb_nodes ?s2)(p \<mapsto> np, y \<mapsto> mk_node m ky a b, m \<mapsto> mk_node (parent_of fs) c (root_of l) y)\<rparr>"
  have "tree_at (rb_nodes ?s3) x l" using d hx out by (simp add: Int_commute)
  then have tl: "tree_at (rb_nodes ?s) m l"
    unfolding deep_state_def Let_def using d hm by (intro tree_at_reparent)
  have "ctx_at (rb_nodes ?s1) (rb_root ?s1) fs m" using d hx by (intro ctx_at_relink) auto
  then have cf: "ctx_at (rb_nodes ?s) (rb_root ?s) fs m"
    using d out by (simp add: deep_state_def Let_def Int_commute)
  have nm: "rb_nodes ?s m = Some (mk_node (parent_of fs) c (root_of l) y)"
    using d by (simp add: deep_state_def Let_def)
  have rehole: "ctx_at ?ns (rb_root s) (gs @ FR c l x # fs) (root_of r)"
    using zipper_rehole[OF z, of "root_of r"] gs np by simp
  have "ctx_at (rb_nodes ?s) (rb_root ?s) (gs @ FR c l m # fs) (root_of r)"
  proof (rule ctx_at_retop[OF rehole gsn d(2) hm(4)])
    fix q assume "q \<in> set (ctx_addrs gs)" "q \<noteq> frame_addr (last gs)"
    moreover from this have "q \<notin> set (inorder r)" "q \<notin> set (inorder l)" "q \<notin> set (ctx_addrs fs)" "q \<noteq> m"
      using d by auto
    ultimately show "rb_nodes ?s q = ?ns q" using yG by (simp add: deep_state_def Let_def)
  next
    show "rb_nodes ?s (frame_addr (last gs)) = map_option (rb_set_parent m) (?ns (frame_addr (last gs)))"
      using y yG out hx by (simp add: deep_state_def Let_def)
  next
    show "ctx_at (rb_nodes ?s) (rb_root ?s) (FR c l m # fs) (frame_addr (last gs))"
      using nm tl cf yG hm hx by simp
  qed
  moreover have "\<forall>q. q \<notin> A - {x} \<longrightarrow> rb_nodes ?s q = (H(x := rb_nodes s x)) q"
    using z d out yin gs zipper_deep_disjoint(20)[OF z] by (auto simp: zipper_def deep_state_def Let_def)
  moreover have "set (inorder r @ ctx_addrs (gs @ FR c l m # fs)) = A - {x}"
    using zipper_deep_disjoint(20)[OF z] d by auto
  moreover have "distinct (inorder r @ ctx_addrs (gs @ FR c l m # fs))" using d by auto
  ultimately show ?thesis using tr unfolding zipper_def by blast
qed

lemma leftmost_append: "leftmost t fs = (u, gs) \<Longrightarrow> leftmost t (fs @ hs) = (u, gs @ hs)"
  by (induction t fs rule: leftmost.induct) auto

lemma leftmost_frames:
  "leftmost t fs = (u, gs) \<Longrightarrow> \<exists>hs. gs = hs @ fs \<and> (hs \<noteq> [] \<longrightarrow> (\<exists>k p r hs'. hs = FL k p r # hs'))"
proof (induction t fs rule: leftmost.induct)
  case (1 c l x r fs)
  show ?case
  proof (cases "l = E")
    case False
    with 1 obtain hs where "gs = hs @ FL c x r # fs" "hs \<noteq> [] \<longrightarrow> (\<exists>k p r hs'. hs = FL k p r # hs')" by auto
    then show ?thesis by (intro exI[of _ "hs @ [FL c x r]"]) (cases hs; auto)
  qed (use 1 in auto)
qed simp

lemma erase_two_zipper:
  assumes z: "zipper H A s (T c l x t) fs" and ne: "l \<noteq> E" "t \<noteq> E"
    and lm: "leftmost t [] = (T k E m r, gs)"
  shows "\<exists>s'. erase_two x s = Some (root_of r, parent_of (gs @ FR c l m # fs), color_bit k, s') \<and>
    zipper (H(x := rb_nodes s x)) (A - {x}) s' r (gs @ FR c l m # fs)"
proof -
  obtain k' m' r' gs' where "leftmost t [] = (T k' E m' r', gs')" "plug (T k' E m' r') gs' = t"
    using leftmost_shape[OF ne(2), of "[]"] by auto
  with lm have pl: "plug (T k E m r) gs = t" by simp
  show ?thesis
  proof (cases gs)
    case Nil
    then have t: "t = T k E m r" using pl by simp
    then show ?thesis using erase_two_child[OF z[unfolded t] ne(1)] Nil by simp
  next
    case (Cons f gs')
    then obtain kh p pr where gs: "gs = FL kh p pr # gs'" using leftmost_frames[OF lm] by auto
    let ?fs = "gs @ FR c l x # fs"
    have zt: "zipper H A s t (FR c l x # fs)" using z by (simp add: zipper_fill)
    have "zipper H A s (plug (T k E m r) ?fs) []" using z pl by (simp add: zipper_plug)
    then have zm: "zipper H A s (T k E m r) ?fs" by (simp only: zipper_plug)
    let ?np = "mk_node (parent_of (gs' @ FR c l x # fs)) kh (root_of r) (root_of pr)"
    have y: "root_of t = frame_addr (last gs)" "root_of t \<in> set (ctx_addrs gs)"
      using root_of_plug[of "T k E m r" gs] pl gs last_frame_in[of gs] by auto
    have "ctx_at ((rb_nodes s)(p \<mapsto> ?np)) (rb_root s) ?fs (root_of r)"
      using zipper_rehole[OF zm, of "root_of r"] gs by simp
    from ctx_at_top[OF this] obtain ky a b where
      yn: "((rb_nodes s)(p \<mapsto> ?np)) (root_of t) = Some (mk_node x ky a b)" using gs y by auto
    have "leftmost t (FR c l x # fs) = (T k E m r, gs @ FR c l x # fs)" using leftmost_append[OF lm] by simp
    then have lmy: "rb_leftmost (root_of t) s = Some m" by (rule rb_leftmost_zipper[OF zt])
    show ?thesis
      using erase_two_deep_exec[OF zm ne(1) z refl gs y(2) lmy refl yn]
        deep_state_zipper[OF zm z gs y(1) refl yn] gs by auto
  qed
qed


lemma color_bit_Black [simp]: "color_bit k = RB_BLACK \<longleftrightarrow> k = Black"
  by (cases k) (simp_all add: RB_RED_def RB_BLACK_def)

text \<open>The last step of \<^verbatim>\<open>rb_erase\<close>, on the tree from which the node is already unlinked.\<close>

lemma erase_finish:
  assumes "zipper H A s t fs" "rb_inv (plug (T k E m t) fs)"
  shows "\<exists>s'. (if color_bit k = RB_BLACK then rb_erase_color (root_of t) (parent_of fs) s else Some s) = Some s' \<and>
    zipper H A s' (splice_out k t fs) []"
proof (cases k)
  case Red
  then show ?thesis using assms(1) by (simp add: splice_out_def zipper_plug RB_RED_def RB_BLACK_def)
next
  case Black
  have "color_ok (paint Black t)" "height_ok t" "ctx_color_ok fs Black" "ctx_height_ok fs (Suc (black_height t))"
    using assms(2) Black by (auto simp: rb_inv_plug intro: color_ok_paint_Black)
  then show ?thesis using rb_erase_color_refines[OF assms(1)] Black by (simp add: splice_out_def)
qed

lemma rb_inv_mirror: "rb_inv (plug (T k t m E) fs) = rb_inv (plug (T k E m t) fs)"
  by (auto simp: rb_inv_plug)

theorem rb_erase_refines:
  assumes z: "zipper H A s (T c l x r) fs" and inv: "rb_inv (plug (T c l x r) fs)"
  shows "\<exists>s'. rb_erase x s = Some s' \<and> zipper (H(x := rb_nodes s x)) (A - {x}) s' (del_node (T c l x r) fs) []"
proof -
  note h = zipper_parts[OF z]
  have lr: "rd rb_left x s = Some (root_of l)" "rd rb_right x s = Some (root_of r)"
    by (simp_all add: zipper_node[OF z])
  have nul: "root_of l = NULL \<longleftrightarrow> l = E" "root_of r = NULL \<longleftrightarrow> r = E"
    using root_of_not_NULL[OF h(2)] root_of_not_NULL[OF h(3)] by auto
  consider (left) "l = E" | (right) "l \<noteq> E" "r = E" | (two) "l \<noteq> E" "r \<noteq> E" by blast
  then show ?thesis
  proof cases
    case left
    then obtain s1 where s1: "erase_one (root_of r) x s = Some (root_of r, parent_of fs, color_bit c, s1)"
      "zipper (H(x := rb_nodes s x)) (A - {x}) s1 r fs" using erase_one_zipper[OF z] by blast
    show ?thesis using erase_finish[OF s1(2)] inv left s1(1) lr by (simp add: rb_erase_def)
  next
    case right
    then obtain s1 where s1: "erase_one (root_of l) x s = Some (root_of l, parent_of fs, color_bit c, s1)"
      "zipper (H(x := rb_nodes s x)) (A - {x}) s1 l fs" using erase_one_zipper[OF z] by blast
    show ?thesis
      using erase_finish[OF s1(2), of c x] inv right s1(1) lr nul by (simp add: rb_erase_def rb_inv_mirror)
  next
    case two
    then obtain k m t gs where m: "leftmost r [] = (T k E m t, gs)" "plug (T k E m t) gs = r"
      using leftmost_shape[of r "[]"] by auto
    obtain s1 where s1: "erase_two x s = Some (root_of t, parent_of (gs @ FR c l m # fs), color_bit k, s1)"
      "zipper (H(x := rb_nodes s x)) (A - {x}) s1 t (gs @ FR c l m # fs)"
      using erase_two_zipper[OF z two m(1)] by blast
    have "rb_inv (plug (T k E m t) (gs @ FR c l x # fs))" using inv m(2) by simp
    then have "rb_inv (plug (T k E m t) (gs @ FR c l m # fs))"
      unfolding rb_inv_plug using ctx_color_ok_swap ctx_height_ok_swap by metis
    from erase_finish[OF s1(2) this] show ?thesis using two m(1) s1(1) lr nul by (simp add: rb_erase_def)
  qed
qed

end
