(* ===== verification/Rb_Walk.thy ===== *)
theory Rb_Walk
  imports Rb_Erase
begin

text \<open>
  Traversal of the trees of \<^verbatim>\<open>signal_test/rbtree.c\<close> (\<^verbatim>\<open>rb_first\<close>, \<^verbatim>\<open>rb_last\<close>, \<^verbatim>\<open>rb_next\<close>, \<^verbatim>\<open>rb_prev\<close> and the
  \<^verbatim>\<open>rb_augment_*\<close> functions), the linking of a new leaf (\<^verbatim>\<open>rb_link_node\<close>), and the search and descent
  loops that the clients of the trees write by hand, generic in how a client reads the key of a
  node.
\<close>

section \<open>Operations\<close>

partial_function (option) rb_rightmost :: "addr \<Rightarrow> rb_state \<Rightarrow> addr option" where
  "rb_rightmost n s = do {
     right \<leftarrow> rd rb_right n s;
     if right \<noteq> NULL then rb_rightmost right s else Some n }"

definition rb_first :: "rb_state \<Rightarrow> addr option" where
  "rb_first s = (if rb_root s = NULL then Some NULL else rb_leftmost (rb_root s) s)"

definition rb_last :: "rb_state \<Rightarrow> addr option" where
  "rb_last s = (if rb_root s = NULL then Some NULL else rb_rightmost (rb_root s) s)"

text \<open>The loops of \<^verbatim>\<open>rb_next\<close> and \<^verbatim>\<open>rb_prev\<close> that climb towards the root.\<close>

partial_function (option) rb_next_up :: "addr \<Rightarrow> rb_state \<Rightarrow> addr option" where
  "rb_next_up node s = do {
     parent \<leftarrow> rd rb_parent node s;
     if parent = NULL then Some parent
     else do {
       pr \<leftarrow> rd rb_right parent s;
       if node = pr then rb_next_up parent s else Some parent } }"

partial_function (option) rb_prev_up :: "addr \<Rightarrow> rb_state \<Rightarrow> addr option" where
  "rb_prev_up node s = do {
     parent \<leftarrow> rd rb_parent node s;
     if parent = NULL then Some parent
     else do {
       pl \<leftarrow> rd rb_left parent s;
       if node = pl then rb_prev_up parent s else Some parent } }"

definition rb_next :: "addr \<Rightarrow> rb_state \<Rightarrow> addr option" where
  "rb_next node s = do {
     p \<leftarrow> rd rb_parent node s;
     if p = node then Some NULL
     else do {
       right \<leftarrow> rd rb_right node s;
       if right \<noteq> NULL then rb_leftmost right s
       else rb_next_up node s } }"

definition rb_prev :: "addr \<Rightarrow> rb_state \<Rightarrow> addr option" where
  "rb_prev node s = do {
     p \<leftarrow> rd rb_parent node s;
     if p = node then Some NULL
     else do {
       left \<leftarrow> rd rb_left node s;
       if left \<noteq> NULL then rb_rightmost left s
       else rb_prev_up node s } }"

text \<open>
  The augmentation functions take a callback that updates the data kept beside the nodes; it is
  a parameter here, a partial function on the address of the node and that data.
\<close>

partial_function (option) rb_augment_path ::
  "(addr \<Rightarrow> 'd \<Rightarrow> 'd option) \<Rightarrow> addr \<Rightarrow> rb_state \<Rightarrow> 'd \<Rightarrow> 'd option" where
  "rb_augment_path func node s d = do {
     d \<leftarrow> func node d;
     parent \<leftarrow> rd rb_parent node s;
     if parent = NULL then Some d
     else do {
       pl \<leftarrow> rd rb_left parent s;
       pr \<leftarrow> rd rb_right parent s;
       d \<leftarrow> (if node = pl \<and> pr \<noteq> NULL then func pr d
             else if pl \<noteq> NULL then func pl d
             else Some d);
       rb_augment_path func parent s d } }"

definition rb_augment_insert ::
  "(addr \<Rightarrow> 'd \<Rightarrow> 'd option) \<Rightarrow> addr \<Rightarrow> rb_state \<Rightarrow> 'd \<Rightarrow> 'd option" where
  "rb_augment_insert func node s d = do {
     left \<leftarrow> rd rb_left node s;
     right \<leftarrow> rd rb_right node s;
     rb_augment_path func (if left \<noteq> NULL then left else if right \<noteq> NULL then right else node) s d }"

definition rb_augment_erase_begin :: "addr \<Rightarrow> rb_state \<Rightarrow> addr option" where
  "rb_augment_erase_begin node s = do {
     right \<leftarrow> rd rb_right node s;
     left \<leftarrow> rd rb_left node s;
     if right = NULL \<and> left = NULL then rd rb_parent node s
     else if right = NULL then Some left
     else if left = NULL then Some right
     else do {
       deepest \<leftarrow> rb_next node s;
       dr \<leftarrow> rd rb_right deepest s;
       dp \<leftarrow> rd rb_parent deepest s;
       Some (if dr \<noteq> NULL then dr else if dp \<noteq> node then dp else deepest) } }"

definition rb_augment_erase_end ::
  "(addr \<Rightarrow> 'd \<Rightarrow> 'd option) \<Rightarrow> addr \<Rightarrow> rb_state \<Rightarrow> 'd \<Rightarrow> 'd option" where
  "rb_augment_erase_end func node s d = (if node \<noteq> NULL then rb_augment_path func node s d else Some d)"

text \<open>
  A value of type \<^verbatim>\<open>struct rb_node **\<close>, as the insertion loops of the clients use it: the address of
  the root pointer or of a child field.
\<close>

datatype link = RootLink | LeftLink addr | RightLink addr

fun read_link :: "link \<Rightarrow> rb_state \<Rightarrow> addr option" where
  "read_link RootLink s = Some (rb_root s)"
| "read_link (LeftLink p) s = rd rb_left p s"
| "read_link (RightLink p) s = rd rb_right p s"

fun write_link :: "link \<Rightarrow> addr \<Rightarrow> rb_state \<Rightarrow> rb_state option" where
  "write_link RootLink v s = Some (s\<lparr>rb_root := v\<rparr>)"
| "write_link (LeftLink p) v s = wr (set_left v) p s"
| "write_link (RightLink p) v s = wr (set_right v) p s"

definition rb_link_node :: "addr \<Rightarrow> addr \<Rightarrow> link \<Rightarrow> rb_state \<Rightarrow> rb_state option" where
  "rb_link_node node parent rb_link s = do {
     s \<leftarrow> wr (\<lambda>n. n\<lparr>rb_parent_color := parent\<rparr>) node s;
     s \<leftarrow> wr (\<lambda>n. n\<lparr>rb_right := NULL, rb_left := NULL\<rparr>) node s;
     write_link rb_link node s }"

text \<open>
  The search loop of a client and the descent that looks for the place of a new key.  \<^verbatim>\<open>keyof\<close> reads
  the key from the structure that contains a node.
\<close>

partial_function (option) rb_search ::
  "(addr \<Rightarrow> 'k::linorder option) \<Rightarrow> 'k \<Rightarrow> addr \<Rightarrow> rb_state \<Rightarrow> addr option" where
  "rb_search keyof k rbnode s =
     (if rbnode = NULL then Some NULL
      else do {
        nk \<leftarrow> keyof rbnode;
        if k < nk then do { n \<leftarrow> rd rb_left rbnode s; rb_search keyof k n s }
        else if k > nk then do { n \<leftarrow> rd rb_right rbnode s; rb_search keyof k n s }
        else Some rbnode })"

datatype descent = Present | Vacant link addr

partial_function (option) rb_descend ::
  "(addr \<Rightarrow> 'k::linorder option) \<Rightarrow> 'k \<Rightarrow> link \<Rightarrow> addr \<Rightarrow> rb_state \<Rightarrow> descent option" where
  "rb_descend keyof k tmp parent s = do {
     n \<leftarrow> read_link tmp s;
     if n = NULL then Some (Vacant tmp parent)
     else do {
       nk \<leftarrow> keyof n;
       if k < nk then rb_descend keyof k (LeftLink n) n s
       else if k > nk then rb_descend keyof k (RightLink n) n s
       else Some Present } }"

section \<open>Traversal\<close>

definition or_null :: "addr list \<Rightarrow> addr" where
  "or_null xs = (case xs of [] \<Rightarrow> NULL | x # _ \<Rightarrow> x)"

lemma or_null_simps [simp]: "or_null [] = NULL" "or_null (x # xs) = x"
  by (simp_all add: or_null_def)

lemma or_null_append: "or_null (xs @ ys) = (if xs = [] then or_null ys else or_null xs)"
  by (cases xs) auto

lemma inorder_Nil [simp]: "inorder t = [] \<longleftrightarrow> t = E"
  by (cases t) auto

lemma zipper_root_NULL: "zipper H A s t fs \<Longrightarrow> root_of t = NULL \<longleftrightarrow> t = E"
  by (cases t) (auto dest: zipper_aligned)

lemma leftmost_or_null:
  assumes "zipper H A s t fs" "t \<noteq> E"
  shows "rb_leftmost (root_of t) s = Some (or_null (inorder t))"
proof -
  obtain c x r gs where l: "leftmost t fs = (T c E x r, gs @ fs)" "plug (T c E x r) gs = t" "ctx_before gs = []"
    using leftmost_shape[OF assms(2)] by blast
  then have "inorder t = x # inorder r @ ctx_after gs" by auto
  then show ?thesis using rb_leftmost_zipper[OF assms(1) l(1)] by simp
qed

lemma rightmost_or_null:
  "\<lbrakk>zipper H A s t fs; t \<noteq> E\<rbrakk> \<Longrightarrow> rb_rightmost (root_of t) s = Some (or_null (rev (inorder t)))"
proof (induction t arbitrary: fs)
  case (T c l x r)
  have z: "zipper H A s r (FR c l x # fs)" using T.prems by (simp add: zipper_fill)
  then have "r \<noteq> E \<Longrightarrow> rb_rightmost (root_of r) s = Some (or_null (rev (inorder r)))" by (rule T.IH(2))
  then show ?case
    by (subst rb_rightmost.simps) (simp add: zipper_node[OF T.prems(1)] zipper_root_NULL[OF z] or_null_append)
qed simp

lemma next_up_zipper:
  "\<lbrakk>zipper H A s t fs; t \<noteq> E\<rbrakk> \<Longrightarrow> rb_next_up (root_of t) s = Some (or_null (ctx_after fs))"
proof (induction fs arbitrary: t)
  case Nil
  then obtain c l x r where t: "t = T c l x r" by (cases t) auto
  show ?case by (subst rb_next_up.simps) (use Nil t in \<open>simp add: zipper_node\<close>)
next
  case (Cons f fs)
  obtain c l x r where t: "t = T c l x r" using Cons.prems by (cases t) auto
  have z: "zipper H A s (fill f t) fs" using Cons.prems by (simp add: zipper_fill)
  have al: "aligned (parent_of (f # fs))" using zipper_aligned[OF Cons.prems(1)[unfolded t]] by simp
  show ?case
  proof (cases f)
    case (FL k y u)
    then have "x \<noteq> root_of u" "y \<noteq> NULL" using z t by (auto simp: zipper_def)
    then show ?thesis
      using z FL al t by (subst rb_next_up.simps) (simp add: zipper_node[OF Cons.prems(1)[unfolded t]] zipper_node)
  next
    case (FR k u y)
    then have "y \<noteq> NULL" "rb_next_up y s = Some (or_null (ctx_after fs))"
      using z t Cons.IH[OF z] by (auto simp: zipper_def)
    then show ?thesis
      using z FR al t by (subst rb_next_up.simps) (simp add: zipper_node[OF Cons.prems(1)[unfolded t]] zipper_node)
  qed
qed

lemma prev_up_zipper:
  "\<lbrakk>zipper H A s t fs; t \<noteq> E\<rbrakk> \<Longrightarrow> rb_prev_up (root_of t) s = Some (or_null (rev (ctx_before fs)))"
proof (induction fs arbitrary: t)
  case Nil
  then obtain c l x r where t: "t = T c l x r" by (cases t) auto
  show ?case by (subst rb_prev_up.simps) (use Nil t in \<open>simp add: zipper_node\<close>)
next
  case (Cons f fs)
  obtain c l x r where t: "t = T c l x r" using Cons.prems by (cases t) auto
  have z: "zipper H A s (fill f t) fs" using Cons.prems by (simp add: zipper_fill)
  have al: "aligned (parent_of (f # fs))" using zipper_aligned[OF Cons.prems(1)[unfolded t]] by simp
  show ?case
  proof (cases f)
    case (FR k u y)
    then have "x \<noteq> root_of u" "y \<noteq> NULL" using z t by (auto simp: zipper_def)
    then show ?thesis
      using z FR al t by (subst rb_prev_up.simps) (simp add: zipper_node[OF Cons.prems(1)[unfolded t]] zipper_node)
  next
    case (FL k y u)
    then have "y \<noteq> NULL" "rb_prev_up y s = Some (or_null (rev (ctx_before fs)))"
      using z t Cons.IH[OF z] by (auto simp: zipper_def)
    then show ?thesis
      using z FL al t by (subst rb_prev_up.simps) (simp add: zipper_node[OF Cons.prems(1)[unfolded t]] zipper_node)
  qed
qed

lemma zipper_parent_neq: "zipper H A s (T c l x r) fs \<Longrightarrow> parent_of fs \<noteq> x"
  using frame_addr_in[of fs] by (cases fs) (auto simp: zipper_def)

lemma rb_next_zipper:
  assumes z: "zipper H A s (T c l x r) fs"
  shows "rb_next x s = Some (or_null (inorder r @ ctx_after fs))"
proof -
  have zr: "zipper H A s r (FR c l x # fs)" using z by (simp add: zipper_fill)
  show ?thesis
    using zipper_aligned[OF z] leftmost_or_null[OF zr] next_up_zipper[OF z] zipper_parent_neq[OF z]
    by (simp add: rb_next_def zipper_node[OF z] zipper_root_NULL[OF zr] or_null_append)
qed

lemma rb_prev_zipper:
  assumes z: "zipper H A s (T c l x r) fs"
  shows "rb_prev x s = Some (or_null (rev (ctx_before fs @ inorder l)))"
proof -
  have zl: "zipper H A s l (FL c x r # fs)" using z by (simp add: zipper_fill)
  show ?thesis
    using zipper_aligned[OF z] rightmost_or_null[OF zl] prev_up_zipper[OF z] zipper_parent_neq[OF z]
    by (simp add: rb_prev_def zipper_node[OF z] zipper_root_NULL[OF zl] or_null_append)
qed

lemma rb_first_zipper: "zipper H A s t [] \<Longrightarrow> rb_first s = Some (or_null (inorder t))"
  using leftmost_or_null[of H A s t "[]"] zipper_root_NULL[of H A s t "[]"]
  by (cases "t = E") (auto simp: rb_first_def zipper_def)

lemma rb_last_zipper: "zipper H A s t [] \<Longrightarrow> rb_last s = Some (or_null (rev (inorder t)))"
  using rightmost_or_null[of H A s t "[]"] zipper_root_NULL[of H A s t "[]"]
  by (cases "t = E") (auto simp: rb_last_def zipper_def)

section \<open>Augmentation\<close>

text \<open>
  The nodes that the callback visits: from a node up to the root, each followed by its sibling.
  A left child without a sibling is visited twice.
\<close>

fun sibling :: "addr \<Rightarrow> frame \<Rightarrow> addr list" where
  "sibling n (FL c x r) = [if r = E then n else root_of r]"
| "sibling n (FR c l x) = (if l = E then [] else [root_of l])"

fun aug_trace :: "addr \<Rightarrow> frame list \<Rightarrow> addr list" where
  "aug_trace n [] = [n]"
| "aug_trace n (f # fs) = n # sibling n f @ aug_trace (frame_addr f) fs"

fun visit :: "(addr \<Rightarrow> 'd \<Rightarrow> 'd option) \<Rightarrow> addr list \<Rightarrow> 'd \<Rightarrow> 'd option" where
  "visit f [] d = Some d"
| "visit f (x # xs) d = Option.bind (f x d) (visit f xs)"

lemma visit_Cons: "visit f (x # xs) = (\<lambda>d. Option.bind (f x d) (visit f xs))"
  by (rule ext) simp

lemma visit_append: "visit f (xs @ ys) d = Option.bind (visit f xs d) (visit f ys)"
proof (induction xs arbitrary: d)
  case (Cons x xs)
  then show ?case by (cases "f x d") simp_all
qed simp

lemma visit_one [simp]: "visit f [x] d = f x d"
  by (cases "f x d") simp_all

lemma rb_augment_path_zipper:
  "\<lbrakk>zipper H A s t fs; t \<noteq> E\<rbrakk> \<Longrightarrow> rb_augment_path f (root_of t) s d = visit f (aug_trace (root_of t) fs) d"
proof (induction fs arbitrary: t d)
  case Nil
  then obtain c l x r where t: "t = T c l x r" by (cases t) auto
  show ?case by (subst rb_augment_path.simps) (use Nil t in \<open>simp add: zipper_node del: visit.simps\<close>)
next
  case (Cons g fs)
  obtain c l x r where t: "t = T c l x r" using Cons.prems by (cases t) auto
  have z: "zipper H A s (fill g t) fs" using Cons.prems by (simp add: zipper_fill)
  have al: "aligned (parent_of (g # fs))" using zipper_aligned[OF Cons.prems(1)[unfolded t]] by simp
  have ih: "rb_augment_path f (frame_addr g) s = visit f (aug_trace (frame_addr g) fs)"
    using Cons.IH[OF z] by (cases g) (auto simp: fun_eq_iff)
  note node = zipper_node[OF Cons.prems(1)[unfolded t]]
  show ?case
  proof (cases g)
    case (FL k y u)
    then have "zipper H A s u (FR k t y # fs)" using z by (simp add: zipper_fill)
    then have "root_of u = NULL \<longleftrightarrow> u = E" by (rule zipper_root_NULL)
    moreover have "y \<noteq> NULL" "x \<noteq> NULL" using z t FL by (auto simp: zipper_def)
    ultimately show ?thesis
      using z FL al t ih by (subst rb_augment_path.simps) (simp add: node zipper_node visit_Cons)
  next
    case (FR k u y)
    then have "zipper H A s u (FL k y t # fs)" using z by (simp add: zipper_fill)
    then have "root_of u = NULL \<longleftrightarrow> u = E" by (rule zipper_root_NULL)
    moreover have "y \<noteq> NULL" "x \<noteq> NULL" "x \<noteq> root_of u" using z t FR by (auto simp: zipper_def)
    ultimately show ?thesis
      using z FR al t ih by (subst rb_augment_path.simps) (simp add: node zipper_node visit_Cons)
  qed
qed

text \<open>The place of the tree that \<^verbatim>\<open>rb_erase\<close> closes: the subtree moved up and the frames above it.\<close>

fun splice_pos :: "rbtree \<Rightarrow> frame list \<Rightarrow> rbtree \<times> frame list" where
  "splice_pos (T c l x r) fs =
     (if l = E then (r, fs)
      else if r = E then (l, fs)
      else (let (t, gs) = leftmost r [] in (right_of t, gs @ FR c l (root_of t) # fs)))"
| "splice_pos E fs = (E, fs)"

lemma rb_augment_erase_begin_zipper:
  assumes z: "zipper H A s (T c l x r) fs" and sp: "splice_pos (T c l x r) fs = (t, gs)"
  shows "rb_augment_erase_begin x s = Some (if t = E then parent_of gs else root_of t)"
proof -
  have zl: "zipper H A s l (FL c x r # fs)" and zr: "zipper H A s r (FR c l x # fs)"
    using z by (simp_all add: zipper_fill)
  note nul = zipper_root_NULL[OF zl] zipper_root_NULL[OF zr] and al = zipper_aligned[OF z]
  consider "l = E" | "r = E" | (two) "l \<noteq> E" "r \<noteq> E" by blast
  then show ?thesis
  proof cases
    case two
    then obtain k m u hs where m: "leftmost r [] = (T k E m u, hs)" "plug (T k E m u) hs = r" "ctx_before hs = []"
      using leftmost_shape[of r "[]"] by auto
    have "zipper H A s (plug (T k E m u) (hs @ FR c l x # fs)) []" using z m(2) by (simp add: zipper_plug)
    then have zm: "zipper H A s (T k E m u) (hs @ FR c l x # fs)" by (simp only: zipper_plug)
    then have zu: "zipper H A s u (FR k E m # hs @ FR c l x # fs)" by (simp add: zipper_fill)
    have "inorder r = m # inorder u @ ctx_after hs" using m by auto
    then have "rb_next x s = Some m" using rb_next_zipper[OF z] by simp
    moreover have "hs \<noteq> [] \<Longrightarrow> parent_of (hs @ FR c l x # fs) \<noteq> x \<and> parent_of hs \<noteq> x"
      using zipper_deep_disjoint(11)[OF zm] frame_addr_in[of hs] by (cases hs) auto
    ultimately show ?thesis
      using two m(1) sp zipper_root_NULL[OF zu] zipper_aligned[OF zm]
      by (cases hs)
        (auto simp: rb_augment_erase_begin_def zipper_node[OF z] nul zipper_node[OF zm])
  qed (use sp al nul in \<open>auto simp: rb_augment_erase_begin_def zipper_node[OF z]\<close>)
qed

section \<open>Linking a leaf\<close>

fun link_of :: "frame list \<Rightarrow> link" where
  "link_of [] = RootLink"
| "link_of (FL c x r # fs) = LeftLink x"
| "link_of (FR c l x # fs) = RightLink x"

lemma read_link_zipper: "zipper H A s t fs \<Longrightarrow> read_link (link_of fs) s = Some (root_of t)"
  by (cases fs rule: link_of.cases) (auto simp: zipper_def rd_Some)

lemma aligned_parent: "ctx_at ns rt fs q \<Longrightarrow> aligned (parent_of fs)"
  by (cases fs rule: ctx_addrs.cases) auto

lemma rb_link_node_zipper:
  assumes z: "zipper H A s E fs" and n: "n \<notin> A" "n \<noteq> NULL" "aligned n" "rb_nodes s n \<noteq> None"
  shows "\<exists>s'. rb_link_node n (parent_of fs) (link_of fs) s = Some s' \<and> zipper H (insert n A) s' (T Red E n E) fs"
proof -
  obtain v where v: "rb_nodes s n = Some v" using n(4) by blast
  let ?s1 = "s\<lparr>rb_nodes := (rb_nodes s)(n \<mapsto> mk_node (parent_of fs) Red NULL NULL)\<rparr>"
  have node: "v\<lparr>rb_parent_color := p, rb_right := NULL, rb_left := NULL\<rparr> = mk_node p Red NULL NULL" for p
    by (simp add: mk_node_def RB_RED_def)
  have "n \<notin> set (ctx_addrs fs)" and c: "ctx_at (rb_nodes s) (rb_root s) fs NULL" and d: "distinct (ctx_addrs fs)"
    using z n(1) by (auto simp: zipper_def)
  then have c1: "ctx_at (rb_nodes ?s1) (rb_root ?s1) fs NULL" by simp
  have w: "write_link (link_of fs) n ?s1 = Some (relink fs n ?s1)"
    using c1 by (cases fs rule: link_of.cases) (auto simp: wr_Some)
  have "rb_link_node n (parent_of fs) (link_of fs) s = Some (relink fs n ?s1)"
    using n(2) v w by (simp add: rb_link_node_def wr_Some node)
  moreover have "ctx_at (rb_nodes (relink fs n ?s1)) (rb_root (relink fs n ?s1)) fs n"
    using ctx_at_relink[OF c1 d] .
  then have "zipper H (insert n A) (relink fs n ?s1) (T Red E n E) fs"
    using z n \<open>n \<notin> set (ctx_addrs fs)\<close> aligned_parent[OF c] by (auto simp: zipper_def)
  ultimately show ?thesis by blast
qed

section \<open>Search and descent\<close>

lemma rb_search_zipper:
  "\<lbrakk>zipper H A s t fs; \<forall>x \<in> set (inorder t). keyof x = Some (key x)\<rbrakk> \<Longrightarrow>
     rb_search keyof k (root_of t) s = Some (case find_node key k t of None \<Rightarrow> NULL | Some x \<Rightarrow> x)"
proof (induction t arbitrary: fs)
  case E
  then show ?case by (subst rb_search.simps) simp
next
  case (T c l x r)
  have "zipper H A s l (FL c x r # fs)" "zipper H A s r (FR c l x # fs)" using T.prems by (simp_all add: zipper_fill)
  then show ?case
    using T zipper_aligned[OF T.prems(1)] by (subst rb_search.simps) (auto simp: zipper_node[OF T.prems(1)])
qed

lemma rb_descend_zipper:
  "\<lbrakk>zipper H A s t fs; \<forall>x \<in> set (inorder t). keyof x = Some (key x)\<rbrakk> \<Longrightarrow>
     rb_descend keyof k (link_of fs) (parent_of fs) s =
     Some (case ins_pos key k t fs of None \<Rightarrow> Present | Some gs \<Rightarrow> Vacant (link_of gs) (parent_of gs))"
proof (induction t arbitrary: fs)
  case E
  then show ?case by (subst rb_descend.simps) (simp add: read_link_zipper)
next
  case (T c l x r)
  have "zipper H A s l (FL c x r # fs)" "zipper H A s r (FR c l x # fs)" using T.prems by (simp_all add: zipper_fill)
  then show ?case
    using T.IH(1)[of "FL c x r # fs"] T.IH(2)[of "FR c l x # fs"] T.prems zipper_aligned[OF T.prems(1)]
    by (subst rb_descend.simps) (auto simp: read_link_zipper)
qed

end
