(* ===== verification/Rb_Index.thy ===== *)
theory Rb_Index
  imports Rb_Walk
begin

text \<open>
  Keyed red-black trees: the refinements of the theories below combined into one statement per
  operation of a client (search, insertion, deletion), over whole trees and the keys of their
  nodes.
\<close>

section \<open>Whole trees\<close>

text \<open>The state holds the red-black tree \<^verbatim>\<open>t\<close>.\<close>

definition rb_tree :: "rb_state \<Rightarrow> rbtree \<Rightarrow> bool" where
  "rb_tree s t \<longleftrightarrow> tree_at (rb_nodes s) NULL t \<and> rb_root s = root_of t \<and> distinct (inorder t) \<and> rb_inv t"

definition same_outside :: "addr set \<Rightarrow> rb_state \<Rightarrow> rb_state \<Rightarrow> bool" where
  "same_outside A s s' \<longleftrightarrow> (\<forall>p. p \<notin> A \<longrightarrow> rb_nodes s' p = rb_nodes s p)"

lemma rb_tree_zipper: "rb_tree s t \<longleftrightarrow> rb_inv t \<and> zipper (rb_nodes s) (set (inorder t)) s t []"
  by (auto simp: rb_tree_def zipper_def)

lemma zipper_rb_tree:
  "\<lbrakk>zipper H A s t []; rb_inv t\<rbrakk> \<Longrightarrow> rb_tree s t \<and> A = set (inorder t) \<and> (\<forall>p. p \<notin> A \<longrightarrow> rb_nodes s p = H p)"
  by (auto simp: rb_tree_def zipper_def)

lemma rb_tree_E: "rb_root s = NULL \<Longrightarrow> rb_tree s E"
  by (simp add: rb_tree_def)

lemma in_inorder_plug: "x \<in> set (inorder t) \<Longrightarrow> \<exists>c l r fs. t = plug (T c l x r) fs"
proof (induction t)
  case (T c l y r)
  consider "x = y" | "x \<in> set (inorder l)" | "x \<in> set (inorder r)" using T.prems by auto
  then show ?case
  proof cases
    case 1
    then show ?thesis by (metis plug.simps(1))
  next
    case 2
    then obtain k a b fs where "l = plug (T k a x b) fs" using T.IH(1) by blast
    then have "T c l y r = plug (T k a x b) (fs @ [FL c y r])" by simp
    then show ?thesis by blast
  next
    case 3
    then obtain k a b fs where "r = plug (T k a x b) fs" using T.IH(2) by blast
    then have "T c l y r = plug (T k a x b) (fs @ [FR c l y])" by simp
    then show ?thesis by blast
  qed
qed simp

lemma rb_tree_focus:
  assumes "rb_tree s t" "x \<in> set (inorder t)"
  obtains c l r fs where "t = plug (T c l x r) fs" "zipper (rb_nodes s) (set (inorder t)) s (T c l x r) fs"
proof -
  obtain c l r fs where t: "t = plug (T c l x r) fs" using in_inorder_plug[OF assms(2)] by blast
  have "zipper (rb_nodes s) (set (inorder t)) s t []" using assms(1) by (simp add: rb_tree_zipper)
  then have "zipper (rb_nodes s) (set (inorder t)) s (T c l x r) fs" using zipper_plug t by metis
  with t show thesis by (rule that)
qed

lemma rb_tree_member:
  assumes "rb_tree s t" "x \<in> set (inorder t)"
  shows "x \<noteq> NULL" "aligned x" "\<exists>p c l r. rb_nodes s x = Some (mk_node p c l r) \<and> aligned p \<and> p \<noteq> x"
proof -
  obtain c l r fs where z: "zipper (rb_nodes s) (set (inorder t)) s (T c l x r) fs"
    by (rule rb_tree_focus[OF assms])
  show "x \<noteq> NULL" "aligned x" using zipper_aligned[OF z] by blast+
  show "\<exists>p c l r. rb_nodes s x = Some (mk_node p c l r) \<and> aligned p \<and> p \<noteq> x"
    using zipper_aligned[OF z] zipper_parent_neq[OF z] zipper_parts(1)[OF z] by blast
qed

text \<open>The test \<^verbatim>\<open>RB_EMPTY_NODE\<close>, which the insertion asserts, recognises the nodes outside the tree.\<close>

lemma RB_EMPTY_NODE_outside:
  assumes "rb_tree s t" "rb_nodes s x = Some n" "RB_EMPTY_NODE x n"
  shows "x \<notin> set (inorder t)"
  using rb_tree_member(3)[OF assms(1), of x] assms(2,3) by auto

lemma rb_tree_outside_cong:
  assumes "rb_tree s t" "rb_root s' = rb_root s" "\<And>p. p \<in> set (inorder t) \<Longrightarrow> rb_nodes s' p = rb_nodes s p"
  shows "rb_tree s' t"
  using assms tree_at_cong[of t "rb_nodes s'" "rb_nodes s"] by (simp add: rb_tree_def)

section \<open>The three operations\<close>

lemma rb_search_tree:
  assumes "rb_tree s t" "\<forall>x \<in> set (inorder t). keyof x = Some (key x)"
  shows "rb_search keyof k (rb_root s) s = Some (case find_node key k t of None \<Rightarrow> NULL | Some x \<Rightarrow> x)"
  using rb_search_zipper[of "rb_nodes s" "set (inorder t)" s t "[]" keyof key k] assms
  by (simp add: rb_tree_zipper) (simp add: zipper_def)

lemma option_eqI: "(\<And>y. a = Some y \<longleftrightarrow> b = Some y) \<Longrightarrow> a = b"
  by (cases a; cases b) auto

lemma find_node_cong: "(\<And>x. x \<in> set (inorder t) \<Longrightarrow> f x = g x) \<Longrightarrow> find_node f k t = find_node g k t"
  by (induction t) auto

lemma rb_insert_tree:
  assumes t: "rb_tree s t" and keys: "\<forall>x \<in> set (inorder t). keyof x = Some (key x)" and b: "bst key t"
    and n: "n \<notin> set (inorder t)" "n \<noteq> NULL" "aligned n" "rb_nodes s n \<noteq> None"
    and new: "find_node key (key n) t = None"
  shows "\<exists>tmp parent s1 s' t'. rb_descend keyof (key n) RootLink NULL s = Some (Vacant tmp parent) \<and>
    rb_link_node n parent tmp s = Some s1 \<and> rb_insert_color n s1 = Some s' \<and> rb_tree s' t' \<and> bst key t' \<and>
    set (inorder t') = insert n (set (inorder t)) \<and> same_outside (insert n (set (inorder t))) s s' \<and>
    find_node key (key n) t' = Some n \<and> (\<forall>k. k \<noteq> key n \<longrightarrow> find_node key k t' = find_node key k t)"
proof -
  have z: "zipper (rb_nodes s) (set (inorder t)) s t []" and inv: "rb_inv t" using t by (auto simp: rb_tree_zipper)
  have "ins_pos key (key n) t [] \<noteq> None" using new b by (auto simp: ins_pos_None find_node_None)
  then obtain fs where fs: "ins_pos key (key n) t [] = Some fs" by blast
  have pl: "plug E fs = t" using ins_pos_plug[OF fs] by simp
  have d: "rb_descend keyof (key n) RootLink NULL s = Some (Vacant (link_of fs) (parent_of fs))"
    using rb_descend_zipper[OF z keys, of "key n"] fs by simp
  have "zipper (rb_nodes s) (set (inorder t)) s E fs" using z pl zipper_plug by metis
  then obtain s1 where s1: "rb_link_node n (parent_of fs) (link_of fs) s = Some s1"
    "zipper (rb_nodes s) (insert n (set (inorder t))) s1 (T Red E n E) fs"
    using rb_link_node_zipper n by blast
  have c: "ctx_color_ok fs Black" "ctx_height_ok fs 0" using inv pl rb_inv_plug[of E fs] by auto
  let ?t = "paint Black (ins_fix (T Red E n E) fs)"
  obtain s' where s': "rb_insert_color n s1 = Some s'"
    "zipper (rb_nodes s) (insert n (set (inorder t))) s' ?t []"
    using rb_insert_color_refines[OF s1(2) c(1)] by blast
  have "rb_inv ?t" using c by (intro ins_fix_inv) auto
  from zipper_rb_tree[OF s'(2) this] have r: "rb_tree s' ?t" "set (inorder ?t) = insert n (set (inorder t))"
    "same_outside (insert n (set (inorder t))) s s'" by (auto simp: same_outside_def)
  have b': "bst key ?t" using bst_insert[OF b fs] by (simp add: bst_def inorder_ins_fix)
  have "find_node key (key n) ?t = Some n" using r(2) by (simp add: find_node_iff[OF b'])
  moreover have "find_node key k ?t = find_node key k t" if "k \<noteq> key n" for k
    by (rule option_eqI) (use r(2) that in \<open>auto simp: find_node_iff[OF b'] find_node_iff[OF b]\<close>)
  ultimately show ?thesis using d s1(1) s'(1) r b' by blast
qed

lemma rb_descend_present:
  assumes t: "rb_tree s t" and keys: "\<forall>x \<in> set (inorder t). keyof x = Some (key x)" and b: "bst key t"
    and old: "find_node key k t \<noteq> None"
  shows "rb_descend keyof k RootLink NULL s = Some Present"
proof -
  have z: "zipper (rb_nodes s) (set (inorder t)) s t []" using t by (auto simp: rb_tree_zipper)
  have "ins_pos key k t [] = None" using old b by (auto simp: ins_pos_None find_node_None)
  then show ?thesis using rb_descend_zipper[OF z keys, of k] by simp
qed

lemma sorted_keys_remove: "sorted_keys key (xs @ y # ys) \<Longrightarrow> sorted_keys key (xs @ ys)"
  by (auto simp: sorted_keys_append sorted_keys_Cons)

lemma rb_erase_tree:
  assumes t: "rb_tree s t" and b: "bst key t" and x: "x \<in> set (inorder t)"
  shows "\<exists>s' t'. rb_erase x s = Some s' \<and> rb_tree s' t' \<and> bst key t' \<and>
    set (inorder t') = set (inorder t) - {x} \<and> same_outside (set (inorder t) - {x}) s s' \<and>
    find_node key (key x) t' = None \<and> (\<forall>k. k \<noteq> key x \<longrightarrow> find_node key k t' = find_node key k t)"
proof -
  obtain c l r fs where tx: "t = plug (T c l x r) fs"
    and z: "zipper (rb_nodes s) (set (inorder t)) s (T c l x r) fs" by (rule rb_tree_focus[OF t x])
  define t' where "t' = del_node (T c l x r) fs"
  have io: "inorder t' = ctx_before fs @ inorder l @ inorder r @ ctx_after fs"
    unfolding t'_def by (rule inorder_del_node)
  have inv: "rb_inv (plug (T c l x r) fs)" using t tx by (simp add: rb_tree_def)
  obtain s' where s': "rb_erase x s = Some s'"
    "zipper ((rb_nodes s)(x := rb_nodes s x)) (set (inorder t) - {x}) s' t' []"
    using rb_erase_refines[OF z inv] t'_def by blast
  from zipper_rb_tree[OF s'(2)] del_node_inv[OF inv]
  have r: "rb_tree s' t'" "set (inorder t') = set (inorder t) - {x}"
    "same_outside (set (inorder t) - {x}) s s'" unfolding t'_def[symmetric] by (auto simp: same_outside_def)
  have b': "bst key t'"
    using b tx sorted_keys_remove[of key "ctx_before fs @ inorder l" x] by (simp add: bst_def io)
  have "find_node key (key x) t' = None"
    using b x r(2) by (auto simp: find_node_None[OF b'] bst_def dest: sorted_keys_inj)
  moreover have "find_node key k t' = find_node key k t" if "k \<noteq> key x" for k
    by (rule option_eqI) (use r(2) that in \<open>auto simp: find_node_iff[OF b'] find_node_iff[OF b]\<close>)
  ultimately show ?thesis using s'(1) r b' by blast
qed

end
