(* ===== verification/Rb_Properties.thy ===== *)
theory Rb_Properties
  imports Rb_Index
begin

text \<open>
  The red-black trees as their clients see them: insertion and deletion keep the search tree and its
  balance, the iterators run through it in order, and a node may take the place of another.
\<close>

section \<open>Order\<close>

text \<open>Each node is followed by the next one of the sequence, the last one by the null pointer.\<close>

definition rb_enumerates :: "rb_state \<Rightarrow> addr list \<Rightarrow> bool" where
  "rb_enumerates s xs \<longleftrightarrow> rb_first s = Some (or_null xs) \<and> rb_last s = Some (or_null (rev xs)) \<and>
     (\<forall>ys x zs. xs = ys @ x # zs \<longrightarrow> rb_next x s = Some (or_null zs) \<and> rb_prev x s = Some (or_null (rev ys)))"

lemma rb_tree_enumerates:
  assumes "rb_tree s t"
  shows "rb_enumerates s (inorder t)"
proof -
  have z: "zipper (rb_nodes s) (set (inorder t)) s t []" and d: "distinct (inorder t)"
    using assms rb_tree_zipper rb_tree_def by blast+
  have "rb_next x s = Some (or_null zs) \<and> rb_prev x s = Some (or_null (rev ys))" if io: "inorder t = ys @ x # zs" for ys x zs
  proof -
    have "x \<in> set (inorder t)" using io by simp
    then obtain c l r fs where t: "t = plug (T c l x r) fs" and f: "zipper (rb_nodes s) (set (inorder t)) s (T c l x r) fs"
      by (rule rb_tree_focus[OF assms])
    have "(ctx_before fs @ inorder l) @ x # (inorder r @ ctx_after fs) = ys @ x # zs" using t io by simp
    then have "ctx_before fs @ inorder l = ys" "inorder r @ ctx_after fs = zs"
      using distinct_middle_unique[of "ctx_before fs @ inorder l" x "inorder r @ ctx_after fs" ys zs] d io by auto
    then show ?thesis using rb_next_zipper[OF f] rb_prev_zipper[OF f] by simp
  qed
  then show ?thesis using rb_first_zipper[OF z] rb_last_zipper[OF z] by (simp add: rb_enumerates_def)
qed

lemma sorted_keys_unique:
  assumes "sorted_keys key xs" "sorted_keys key ys" "set xs = set ys"
  shows "xs = ys"
proof -
  have "map key xs = map key ys"
    using assms by (intro strict_sorted_equal[symmetric]) (auto simp: sorted_keys_def)
  moreover have "inj_on key (set xs \<union> set ys)" using assms sorted_keys_inj[OF assms(1)] by (auto intro!: inj_onI)
  ultimately show ?thesis by (rule map_inj_on)
qed

section \<open>Properties\<close>

text \<open>Three nodes in a tree, with their addresses for keys, and one node outside it.\<close>

definition sample_rb :: rb_state where
  "sample_rb = \<lparr>rb_nodes = [0x10 \<mapsto> mk_node 0x20 Red NULL NULL, 0x20 \<mapsto> mk_node NULL Black 0x10 0x30,
     0x30 \<mapsto> mk_node 0x20 Red NULL NULL, 0x40 \<mapsto> mk_node 0x40 Red NULL NULL], rb_root = 0x20\<rparr>"

definition sample_tree :: rbtree where
  "sample_tree = T Black (T Red E 0x10 E) 0x20 (T Red E 0x30 E)"

lemma sample_rb_tree: "rb_tree sample_rb sample_tree" "bst uint sample_tree" "inorder sample_tree = [0x10, 0x20, 0x30]"
  by (simp_all add: rb_tree_def sample_rb_def sample_tree_def aligned_def rb_inv_def weight_def bst_def sorted_keys_def)

text \<open>
  C12: insertion of a node whose key is new, by the descent to a leaf, \<^verbatim>\<open>rb_link_node\<close> and \<^verbatim>\<open>rb_insert_color\<close>: the
  code returns, the result is a red-black tree sorted by key that holds the old nodes and the new one, its
  depth is at most twice the logarithm of its size, and no other node of the heap changes.
\<close>

theorem rb_insertion_correct:
  assumes "rb_tree s t" "\<forall>x \<in> set (inorder t). keyof x = Some (key x)" "bst key t"
    and "n \<notin> set (inorder t)" "n \<noteq> NULL" "aligned n" "rb_nodes s n \<noteq> None" "find_node key (key n) t = None"
  shows "\<exists>tmp parent s1 s' t'. rb_descend keyof (key n) RootLink NULL s = Some (Vacant tmp parent) \<and>
    rb_link_node n parent tmp s = Some s1 \<and> rb_insert_color n s1 = Some s' \<and> rb_tree s' t' \<and> bst key t' \<and>
    set (inorder t') = insert n (set (inorder t)) \<and> 2 ^ depth t' \<le> (Suc (length (inorder t')))\<^sup>2 \<and>
    same_outside (insert n (set (inorder t))) s s'"
proof -
  obtain tmp parent s1 s' t' where i: "rb_descend keyof (key n) RootLink NULL s = Some (Vacant tmp parent)"
    "rb_link_node n parent tmp s = Some s1" "rb_insert_color n s1 = Some s'" "rb_tree s' t'" "bst key t'"
    "set (inorder t') = insert n (set (inorder t))" "same_outside (insert n (set (inorder t))) s s'"
    using rb_insert_tree[OF assms] by blast
  have "2 ^ depth t' \<le> (Suc (length (inorder t')))\<^sup>2" using i(4) by (intro depth_size) (simp add: rb_tree_def)
  then show ?thesis using i by blast
qed

theorem rb_insertion_correct_witness:
  "\<exists>tmp parent s1 s' t'. rb_descend (\<lambda>x. Some (uint x)) (uint (0x40 :: addr)) RootLink NULL sample_rb = Some (Vacant tmp parent) \<and>
    rb_link_node 0x40 parent tmp sample_rb = Some s1 \<and> rb_insert_color 0x40 s1 = Some s' \<and> rb_tree s' t' \<and> bst uint t' \<and>
    set (inorder t') = insert 0x40 (set (inorder sample_tree)) \<and> 2 ^ depth t' \<le> (Suc (length (inorder t')))\<^sup>2 \<and>
    same_outside (insert 0x40 (set (inorder sample_tree))) sample_rb s'"
  by (rule rb_insertion_correct[OF sample_rb_tree(1) _ sample_rb_tree(2)])
    (simp_all add: sample_rb_tree(3) aligned_def sample_rb_def find_node_None[OF sample_rb_tree(2)])

text \<open>
  C13: \<^verbatim>\<open>rb_erase\<close> of a node of the tree returns; what remains is a red-black tree, sorted by key, of exactly the
  other nodes in their order, and neither the erased node nor any node outside the tree is written.
\<close>

theorem rb_erase_correct:
  assumes "rb_tree s t" "bst key t" "inorder t = xs @ x # ys"
  shows "\<exists>s' t'. rb_erase x s = Some s' \<and> rb_tree s' t' \<and> bst key t' \<and> inorder t' = xs @ ys \<and>
    same_outside (set (xs @ ys)) s s'"
proof -
  have x: "x \<in> set (inorder t)" and d: "distinct (inorder t)" using assms(1,3) by (auto simp: rb_tree_def)
  obtain s' t' where e: "rb_erase x s = Some s'" "rb_tree s' t'" "bst key t'" "set (inorder t') = set (inorder t) - {x}"
    "same_outside (set (inorder t) - {x}) s s'"
    using rb_erase_tree[OF assms(1,2) x] by blast
  have sub: "set (inorder t) - {x} = set (xs @ ys)" using d assms(3) by auto
  have "sorted_keys key (xs @ ys)" "sorted_keys key (inorder t')"
    using assms(2,3) e(3) sorted_keys_remove[of key xs x ys] by (simp_all add: bst_def)
  then have "inorder t' = xs @ ys" using sorted_keys_unique[of key "inorder t'" "xs @ ys"] e(4) sub by simp
  then show ?thesis using e sub by metis
qed

theorem rb_erase_correct_witness:
  "\<exists>s' t'. rb_erase 0x20 sample_rb = Some s' \<and> rb_tree s' t' \<and> bst uint t' \<and> inorder t' = [0x10, 0x30] \<and>
    same_outside {0x10, 0x30} sample_rb s'"
  using rb_erase_correct[OF sample_rb_tree(1,2), of "[0x10]" "0x20" "[0x30]"] sample_rb_tree(3) by simp

text \<open>
  C38: the iterators.  \<^verbatim>\<open>rb_first\<close> and \<^verbatim>\<open>rb_next\<close> run through the nodes of a tree in order and end with the null
  pointer, and \<^verbatim>\<open>rb_last\<close> and \<^verbatim>\<open>rb_prev\<close> run through them backwards.
\<close>

theorem rb_iteration_in_order:
  assumes "rb_tree s t"
  shows "rb_enumerates s (inorder t)"
  using assms by (rule rb_tree_enumerates)

theorem rb_iteration_in_order_witness: "rb_enumerates sample_rb [0x10, 0x20, 0x30]"
  using rb_iteration_in_order[OF sample_rb_tree(1)] sample_rb_tree(3) by simp

text \<open>
  \<^verbatim>\<open>rb_replace_node\<close> puts a node in the place of another one: the tree keeps its shape and colours, with
  the new node where the old one was.
\<close>

theorem rb_replace_node_in_place:
  assumes "rb_tree s (plug (T c l x r) fs)" "m \<notin> set (inorder (plug (T c l x r) fs))" "aligned m" "m \<noteq> NULL" "rb_nodes s m \<noteq> None"
  shows "\<exists>s'. rb_replace_node x m s = Some s' \<and> rb_tree s' (plug (T c l m r) fs) \<and>
    same_outside (set (inorder (plug (T c l m r) fs))) s s'"
proof -
  let ?t = "plug (T c l x r) fs" and ?u = "plug (T c l m r) fs"
  have inv: "rb_inv ?t" and "zipper (rb_nodes s) (set (inorder ?t)) s ?t []" using assms(1) by (auto simp: rb_tree_zipper)
  then have "zipper (rb_nodes s) (set (inorder ?t)) s (T c l x r) fs" by (simp only: zipper_plug)
  then obtain s' where s': "rb_replace_node x m s = Some s'"
    "zipper ((rb_nodes s)(x := rb_nodes s x)) (insert m (set (inorder ?t) - {x})) s' (T c l m r) fs"
    using rb_replace_node_zipper assms(2-5) by blast
  have "rb_inv ?u" using inv by (auto simp: rb_inv_plug)
  moreover have "zipper (rb_nodes s) (insert m (set (inorder ?t) - {x})) s' ?u []" using s'(2) by (simp add: zipper_plug)
  ultimately show ?thesis using s'(1) zipper_rb_tree[of "rb_nodes s" _ s' ?u] by (auto simp: same_outside_def)
qed

theorem rb_replace_node_in_place_witness:
  "\<exists>s'. rb_replace_node 0x20 0x40 sample_rb = Some s' \<and> rb_tree s' (T Black (T Red E 0x10 E) 0x40 (T Red E 0x30 E)) \<and>
    same_outside {0x10, 0x40, 0x30} sample_rb s'"
  using rb_replace_node_in_place[of sample_rb Black "T Red E 0x10 E" "0x20" "T Red E 0x30 E" "[]" "0x40"] sample_rb_tree(1)
  by (simp add: sample_tree_def aligned_def sample_rb_def)

text \<open>
  The word that holds the parent and the colour.  For aligned addresses, setting the parent keeps the
  colour and setting the colour keeps the parent, and both are read back as they were stored.
\<close>

theorem rb_parent_color_packing:
  assumes "aligned p" "c \<in> {RB_RED, RB_BLACK}"
  shows "rb_parent (rb_set_parent p n) = p \<and> rb_color (rb_set_parent p n) = rb_color n \<and>
    rb_color (rb_set_color c n) = c \<and> rb_parent (rb_set_color c n) = rb_parent n"
proof (intro conjI)
  note bits = rb_parent_def rb_color_def rb_set_parent_def rb_set_color_def RB_RED_def RB_BLACK_def
    bit_simps bit_three_word bit_three_int bit_one
  show "rb_parent (rb_set_parent p n) = p"
    by (rule bit_word_eqI) (auto simp: bits dest: aligned_cases[OF assms(1)])
  show "rb_color (rb_set_parent p n) = rb_color n"
    by (rule bit_word_eqI) (auto simp: bits dest: aligned_cases[OF assms(1)])
  show "rb_color (rb_set_color c n) = c" "rb_parent (rb_set_color c n) = rb_parent n"
    by (rule bit_word_eqI, use assms(2) in \<open>auto simp: bits\<close>)+
qed

theorem rb_parent_color_packing_witness:
  "rb_parent (rb_set_parent 0x7FF0 (mk_node 0x20 Black NULL NULL)) = 0x7FF0 \<and>
   rb_color (rb_set_parent 0x7FF0 (mk_node 0x20 Black NULL NULL)) = rb_color (mk_node 0x20 Black NULL NULL) \<and>
   rb_color (rb_set_color RB_RED (mk_node 0x20 Black NULL NULL)) = RB_RED \<and>
   rb_parent (rb_set_color RB_RED (mk_node 0x20 Black NULL NULL)) = rb_parent (mk_node 0x20 Black NULL NULL)"
  by (rule rb_parent_color_packing) (simp_all add: aligned_def)

text \<open>
  \<^verbatim>\<open>rb_augment_path\<close> calls the callback for the node, then for its sibling, and so on up to the root; a left
  child without a sibling is its own sibling for the code and is visited twice.
\<close>

theorem rb_augment_path_trace:
  assumes "zipper H A s t fs" "t \<noteq> E"
  shows "rb_augment_path f (root_of t) s d = visit f (aug_trace (root_of t) fs) d"
  using assms by (rule rb_augment_path_zipper)

text \<open>A root with a left child only.\<close>

definition sample_left :: rb_state where
  "sample_left = \<lparr>rb_nodes = [0x10 \<mapsto> mk_node 0x20 Red NULL NULL, 0x20 \<mapsto> mk_node NULL Black 0x10 NULL], rb_root = 0x20\<rparr>"

theorem rb_augment_path_trace_witness:
  "rb_augment_path (\<lambda>x d. Some (d @ [x])) 0x10 sample_left [] = Some [0x10, 0x10, 0x20]"
proof -
  have "zipper (rb_nodes sample_left) {0x10, 0x20} sample_left (T Red E 0x10 E) [FL Black 0x20 E]"
    by (auto simp: zipper_def sample_left_def aligned_def)
  from rb_augment_path_trace[OF this, of "\<lambda>x d. Some (d @ [x])" "[]"] show ?thesis by simp
qed

end
