(* ===== verification/Key_Index.thy ===== *)
theory Key_Index
  imports Prelude
begin

text \<open>
  The contract of a table of elements under keys, as its clients use it: \<open>key_index\<close> for a table
  with lookup and insertion (the table of threads), \<open>ordered_index\<close> for one with deletion
  as well, and \<open>reusable_index\<close> for one whose deleted elements may be inserted again (the table of
  breakpoints, and the test program of the red-black trees, whose blocks \<^verbatim>\<open>malloc\<close> may hand out again).
\<close>

section \<open>Commands\<close>

text \<open>
  Commands of a client and their results, their meaning on finite maps, and their execution by the
  operations of a table.  An insertion returns a status, a lookup the element found or \<^verbatim>\<open>NULL\<close>; what a deletion
  returns for the element it removes is the argument \<^verbatim>\<open>ret\<close>.
\<close>

datatype 'k index_op = Insert addr 'k | Delete 'k | Lookup 'k

datatype index_reply = Status int | Elem addr | Done

fun index_spec :: "'k index_op \<Rightarrow> ('k \<rightharpoonup> addr) \<Rightarrow> ('k \<rightharpoonup> addr)" where
  "index_spec (Insert e k) m = (if m k = None \<and> e \<noteq> NULL then m(k \<mapsto> e) else m)"
| "index_spec (Delete k) m = m(k := None)"
| "index_spec (Lookup k) m = m"

definition found :: "('k \<rightharpoonup> addr) \<Rightarrow> 'k \<Rightarrow> addr" where
  "found m k = (case m k of None \<Rightarrow> NULL | Some e \<Rightarrow> e)"

fun index_result :: "(addr \<Rightarrow> index_reply) \<Rightarrow> 'k index_op \<Rightarrow> ('k \<rightharpoonup> addr) \<Rightarrow> index_reply" where
  "index_result ret (Insert e k) m = Status (if m k = None \<and> e \<noteq> NULL then 0 else -1)"
| "index_result ret (Delete k) m = ret (found m k)"
| "index_result ret (Lookup k) m = Elem (found m k)"

fun index_run :: "(addr \<Rightarrow> index_reply) \<Rightarrow> 'k index_op list \<Rightarrow> ('k \<rightharpoonup> addr) \<Rightarrow> index_reply list \<times> ('k \<rightharpoonup> addr)" where
  "index_run ret [] m = ([], m)"
| "index_run ret (op # ops) m = (let (rs, m') = index_run ret ops (index_spec op m) in (index_result ret op m # rs, m'))"

text \<open>
  Which elements a client may insert: \<^verbatim>\<open>R e k\<close> says that \<^verbatim>\<open>e\<close> may be inserted under \<^verbatim>\<open>k\<close>.  An element in the table is
  not inserted a second time; one that has been deleted from under the key \<^verbatim>\<open>k\<close> may be inserted again under the keys \<^verbatim>\<open>k'\<close>
  with \<^verbatim>\<open>reuse k k'\<close>.
\<close>

fun index_avail :: "('k \<Rightarrow> 'k \<Rightarrow> bool) \<Rightarrow> 'k index_op \<Rightarrow> ('k \<rightharpoonup> addr) \<Rightarrow> (addr \<Rightarrow> 'k \<Rightarrow> bool) \<Rightarrow> (addr \<Rightarrow> 'k \<Rightarrow> bool)" where
  "index_avail reuse (Insert e k) m R = (\<lambda>e' k'. R e' k' \<and> (m k = None \<longrightarrow> e' \<noteq> e))"
| "index_avail reuse (Delete k) m R = (\<lambda>e' k'. R e' k' \<or> (m k = Some e' \<and> reuse k k'))"
| "index_avail reuse (Lookup k) m R = R"

fun admissible :: "('k \<Rightarrow> 'k \<Rightarrow> bool) \<Rightarrow> (addr \<Rightarrow> 'k \<Rightarrow> bool) \<Rightarrow> 'k index_op list \<Rightarrow> ('k \<rightharpoonup> addr) \<Rightarrow> bool" where
  "admissible reuse R [] m \<longleftrightarrow> True"
| "admissible reuse R (op # ops) m \<longleftrightarrow>
     (case op of Insert e k \<Rightarrow> R e k | _ \<Rightarrow> True) \<and> admissible reuse (index_avail reuse op m R) ops (index_spec op m)"

fun exec_op ::
  "('k \<Rightarrow> 's \<Rightarrow> (addr \<times> 's) option) \<Rightarrow> (addr \<Rightarrow> 'k \<Rightarrow> 's \<Rightarrow> (int \<times> 's) option) \<Rightarrow>
   ('k \<Rightarrow> 's \<Rightarrow> (index_reply \<times> 's) option) \<Rightarrow> 'k index_op \<Rightarrow> 's \<Rightarrow> (index_reply \<times> 's) option" where
  "exec_op look ins del (Insert e k) s = do { (r, s) \<leftarrow> ins e k s; Some (Status r, s) }"
| "exec_op look ins del (Delete k) s = del k s"
| "exec_op look ins del (Lookup k) s = do { (e, s) \<leftarrow> look k s; Some (Elem e, s) }"

fun exec_ops ::
  "('k \<Rightarrow> 's \<Rightarrow> (addr \<times> 's) option) \<Rightarrow> (addr \<Rightarrow> 'k \<Rightarrow> 's \<Rightarrow> (int \<times> 's) option) \<Rightarrow>
   ('k \<Rightarrow> 's \<Rightarrow> (index_reply \<times> 's) option) \<Rightarrow> 'k index_op list \<Rightarrow> 's \<Rightarrow> (index_reply list \<times> 's) option" where
  "exec_ops look ins del [] s = Some ([], s)"
| "exec_ops look ins del (op # ops) s = do {
     (r, s) \<leftarrow> exec_op look ins del op s;
     (rs, s) \<leftarrow> exec_ops look ins del ops s;
     Some (r # rs, s) }"

section \<open>Contracts\<close>

text \<open>
  \<^verbatim>\<open>rel s m\<close>: the state \<^verbatim>\<open>s\<close> holds the map \<^verbatim>\<open>m\<close>; \<^verbatim>\<open>ready s e k\<close>: the element \<^verbatim>\<open>e\<close> may be inserted under the key \<^verbatim>\<open>k\<close>;
  \<^verbatim>\<open>valid k\<close>: the key may be looked up.  The first contract is that of a table without a deletion.  The insertion
  refuses the null pointer like a key that is present.
\<close>

locale key_index =
  fixes valid :: "'k \<Rightarrow> bool"
    and rel :: "'s \<Rightarrow> ('k \<rightharpoonup> addr) \<Rightarrow> bool"
    and ready :: "'s \<Rightarrow> addr \<Rightarrow> 'k \<Rightarrow> bool"
    and look :: "'k \<Rightarrow> 's \<Rightarrow> (addr \<times> 's) option"
    and ins :: "addr \<Rightarrow> 'k \<Rightarrow> 's \<Rightarrow> (int \<times> 's) option"
  assumes lookup_law: "\<lbrakk>rel s m; valid k\<rbrakk> \<Longrightarrow> look k s = Some (found m k, s)"
    and member_law: "\<lbrakk>rel s m; m k = Some e\<rbrakk> \<Longrightarrow> e \<noteq> NULL"
    and ready_law: "ready s e k \<Longrightarrow> valid k"
    and ins_new_law: "\<lbrakk>rel s m; ready s e k; m k = None; e \<noteq> NULL\<rbrakk> \<Longrightarrow>
      \<exists>s'. ins e k s = Some (0, s') \<and> rel s' (m(k \<mapsto> e)) \<and>
        (\<forall>e' k'. e' \<noteq> e \<longrightarrow> ready s e' k' \<longrightarrow> ready s' e' k')"
    and ins_old_law: "\<lbrakk>rel s m; ready s e k; m k \<noteq> None \<or> e = NULL\<rbrakk> \<Longrightarrow>
      \<exists>s'. ins e k s = Some (-1, s') \<and> rel s' m \<and> (\<forall>e' k'. ready s e' k' \<longrightarrow> ready s' e' k')"
begin

lemma found_NULL_iff: "rel s m \<Longrightarrow> found m k = NULL \<longleftrightarrow> m k = None"
  using member_law[of s m k] by (auto simp: found_def split: option.splits)

lemma lookup_NULL_iff: "\<lbrakk>rel s m; valid k\<rbrakk> \<Longrightarrow> look k s = Some (NULL, s) \<longleftrightarrow> m k = None"
  by (simp add: lookup_law found_NULL_iff)

lemma ins_spec:
  assumes "rel s m" "ready s e k"
  shows "\<exists>r s'. ins e k s = Some (r, s') \<and> Status r = index_result ret (Insert e k) m \<and> rel s' (index_spec (Insert e k) m) \<and>
    (\<forall>e' k'. index_avail reuse (Insert e k) m (ready s) e' k' \<longrightarrow> ready s' e' k')"
proof (cases "m k = None \<and> e \<noteq> NULL")
  case True
  with ins_new_law[OF assms] show ?thesis by auto
next
  case False
  with ins_old_law[OF assms] show ?thesis by fastforce
qed

lemma insert_lookup:
  assumes "rel s m" "ready s e k" "m k = None" "e \<noteq> NULL"
  shows "\<exists>s'. ins e k s = Some (0, s') \<and> look k s' = Some (e, s') \<and>
    (\<forall>k'. valid k' \<longrightarrow> k' \<noteq> k \<longrightarrow> map_option fst (look k' s') = map_option fst (look k' s))"
proof -
  obtain s' where "ins e k s = Some (0, s')" "rel s' (m(k \<mapsto> e))" using ins_new_law[OF assms] by blast
  then show ?thesis using lookup_law[OF assms(1)] lookup_law[of s'] ready_law[OF assms(2)] by (auto simp: found_def)
qed

text \<open>A second element under the same key is refused, and the first one stays.\<close>

lemma insert_twice:
  assumes "rel s m" "ready s e k" "ready s e' k" "e' \<noteq> e" "m k = None" "e \<noteq> NULL"
  shows "\<exists>s' s''. ins e k s = Some (0, s') \<and> ins e' k s' = Some (-1, s'') \<and> look k s'' = Some (e, s'')"
proof -
  obtain s' where s': "ins e k s = Some (0, s')" "rel s' (m(k \<mapsto> e))" "ready s' e' k"
    using ins_new_law[OF assms(1,2,5,6)] assms(3,4) by blast
  obtain s'' where s'': "ins e' k s' = Some (-1, s'')" "rel s'' (m(k \<mapsto> e))"
    using ins_old_law[OF s'(2,3)] by auto
  then show ?thesis using s'(1) lookup_law[OF s''(2)] ready_law[OF assms(2)] by (auto simp: found_def)
qed

end

locale ordered_index = key_index +
  fixes del :: "'k \<Rightarrow> 's \<Rightarrow> (index_reply \<times> 's) option" and ret :: "addr \<Rightarrow> index_reply"
  assumes del_law: "rel s m \<Longrightarrow> \<exists>s'. del k s = Some (ret (found m k), s') \<and> rel s' (m(k := None)) \<and>
      (\<forall>e' k'. ready s e' k' \<longrightarrow> ready s' e' k')"
begin

lemma delete_lookup:
  assumes "rel s m" "valid k"
  shows "\<exists>r s'. del k s = Some (r, s') \<and> look k s' = Some (NULL, s') \<and>
    (\<forall>k'. valid k' \<longrightarrow> k' \<noteq> k \<longrightarrow> map_option fst (look k' s') = map_option fst (look k' s))"
proof -
  obtain s' where "del k s = Some (ret (found m k), s')" "rel s' (m(k := None))" using del_law[OF assms(1), of k] by auto
  then show ?thesis using lookup_law[OF assms(1)] lookup_law[of s'] assms(2) by (auto simp: found_def)
qed

lemma insert_delete:
  assumes "rel s m" "ready s e k" "m k = None" "e \<noteq> NULL"
  shows "\<exists>s' s''. ins e k s = Some (0, s') \<and> del k s' = Some (ret e, s'') \<and> rel s'' m"
proof -
  obtain s' where s': "ins e k s = Some (0, s')" "rel s' (m(k \<mapsto> e))" using ins_new_law[OF assms] by blast
  obtain s'' where "del k s' = Some (ret (found (m(k \<mapsto> e)) k), s'')" "rel s'' ((m(k \<mapsto> e))(k := None))"
    using del_law[OF s'(2), of k] by auto
  moreover have "(m(k \<mapsto> e))(k := None) = m" using assms(3) by auto
  ultimately show ?thesis using s'(1) by (auto simp: found_def)
qed

end

text \<open>
  A table whose deleted elements may be inserted again, as the entries of the breakpoint table (under the same
  key) and the blocks of the test program (under any key).
\<close>

locale reusable_index = ordered_index +
  fixes reuse :: "'k \<Rightarrow> 'k \<Rightarrow> bool"
  assumes del_ready_law: "\<lbrakk>rel s m; m k = Some e; del k s = Some (r, s'); reuse k k'\<rbrakk> \<Longrightarrow> ready s' e k'"
begin

lemma delete_insert:
  assumes "rel s m" "m k = Some e" "reuse k k"
  shows "\<exists>s' s''. del k s = Some (ret e, s') \<and> ins e k s' = Some (0, s'') \<and> rel s'' m"
proof -
  obtain s' where s': "del k s = Some (ret (found m k), s')" "rel s' (m(k := None))" using del_law[OF assms(1)] by blast
  have "ready s' e k" using del_ready_law[OF assms(1,2) s'(1) assms(3)] .
  then obtain s'' where "ins e k s' = Some (0, s'')" "rel s'' ((m(k := None))(k \<mapsto> e))"
    using ins_new_law[OF s'(2), of e k] member_law[OF assms(1,2)] by auto
  then show ?thesis using s'(1) assms(2) by (auto simp: found_def fun_upd_idem)
qed

lemma del_spec:
  assumes "rel s m"
  shows "\<exists>s'. del k s = Some (index_result ret (Delete k) m, s') \<and> rel s' (index_spec (Delete k) m) \<and>
    (\<forall>e' k'. index_avail reuse (Delete k) m (ready s) e' k' \<longrightarrow> ready s' e' k')"
  using del_law[OF assms, of k] del_ready_law[OF assms] by fastforce

text \<open>One command, and then any admissible sequence, with its results.\<close>

lemma exec_op_spec:
  assumes "rel s m" "case op of Insert e k \<Rightarrow> ready s e k | Lookup k \<Rightarrow> valid k | _ \<Rightarrow> True"
  shows "\<exists>s'. exec_op look ins del op s = Some (index_result ret op m, s') \<and> rel s' (index_spec op m) \<and>
    (\<forall>e k. index_avail reuse op m (ready s) e k \<longrightarrow> ready s' e k)"
proof (cases op)
  case (Insert e k)
  then show ?thesis using ins_spec[OF assms(1), of e k ret reuse] assms(2) by fastforce
next
  case (Delete k)
  then show ?thesis using del_spec[OF assms(1), of k] by simp
next
  case (Lookup k)
  then show ?thesis using lookup_law[OF assms(1), of k] assms by simp
qed

lemma admissible_mono:
  "\<lbrakk>admissible reuse R ops m; \<And>e k. R e k \<Longrightarrow> R' e k\<rbrakk> \<Longrightarrow> admissible reuse R' ops m"
proof (induction ops arbitrary: R R' m)
  case (Cons op ops)
  have "index_avail reuse op m R e k \<Longrightarrow> index_avail reuse op m R' e k" for e k
    using Cons.prems(2) by (cases op) auto
  with Cons.IH[of "index_avail reuse op m R"] Cons.prems show ?case by (auto split: index_op.splits)
qed simp

lemma exec_ops_spec:
  assumes "rel s m" "admissible reuse (ready s) ops m" "\<forall>k. Lookup k \<in> set ops \<longrightarrow> valid k"
  shows "\<exists>s'. exec_ops look ins del ops s = Some (fst (index_run ret ops m), s') \<and> rel s' (snd (index_run ret ops m))"
  using assms
proof (induction ops arbitrary: s m)
  case (Cons op ops)
  have "case op of Insert e k \<Rightarrow> ready s e k | Lookup k \<Rightarrow> valid k | _ \<Rightarrow> True"
    using Cons.prems(2,3) by (auto split: index_op.splits)
  from exec_op_spec[OF Cons.prems(1) this] obtain s1 where
    s1: "exec_op look ins del op s = Some (index_result ret op m, s1)" "rel s1 (index_spec op m)"
      "\<And>e k. index_avail reuse op m (ready s) e k \<Longrightarrow> ready s1 e k" by blast
  have "admissible reuse (ready s1) ops (index_spec op m)"
    using Cons.prems(2) by (intro admissible_mono[OF _ s1(3)]) simp_all
  from Cons.IH[OF s1(2) this] Cons.prems(3) s1(1) show ?case by (auto simp: case_prod_unfold Let_def)
qed simp

end

end
