(* ===== verification/Rb_Test.thy ===== *)
theory Rb_Test
  imports Rb_Index Key_Index
begin

text \<open>
  The program \<^verbatim>\<open>signal_test/rbtest.c\<close>, which exercises the red-black tree with integer keys: search,
  insertion of a freshly allocated node, deletion and release of a node.  The result of \<^verbatim>\<open>malloc\<close> (an
  address, \<^verbatim>\<open>NULL\<close> when it fails) and the contents of the block are parameters.
\<close>

record my_tree =
  my_rb :: rb_state
  my_keys :: "32 word heap"

text \<open>The node is the first field of \<^verbatim>\<open>struct my_node\<close>, so that container and node share the address.\<close>

definition my_key :: "my_tree \<Rightarrow> addr \<Rightarrow> int option" where
  "my_key s n = map_option sint (load (my_keys s) n)"

definition my_search :: "32 word \<Rightarrow> my_tree \<Rightarrow> addr option" where
  "my_search key s = rb_search (my_key s) (sint key) (rb_root (my_rb s)) (my_rb s)"

definition my_insert :: "rb_node \<Rightarrow> addr \<Rightarrow> 32 word \<Rightarrow> my_tree \<Rightarrow> (int \<times> my_tree) option" where
  "my_insert block mynode key s = do {
     d \<leftarrow> rb_descend (my_key s) (sint key) RootLink NULL (my_rb s);
     case d of
       Present \<Rightarrow> Some (-1, s)
     | Vacant tmp parent \<Rightarrow>
         if mynode = NULL then Some (-1, s)
         else do {
           let r = (my_rb s)\<lparr>rb_nodes := (rb_nodes (my_rb s))(mynode \<mapsto> block)\<rparr>;
           r \<leftarrow> rb_link_node mynode parent tmp r;
           r \<leftarrow> rb_insert_color mynode r;
           Some (0, s\<lparr>my_rb := r, my_keys := (my_keys s)(mynode \<mapsto> key)\<rparr>) } }"

definition my_delete :: "32 word \<Rightarrow> my_tree \<Rightarrow> my_tree option" where
  "my_delete key s = do {
     mynode \<leftarrow> my_search key s;
     if mynode = NULL then Some s
     else do {
       r \<leftarrow> rb_erase mynode (my_rb s);
       Some (s\<lparr>my_rb := r\<lparr>rb_nodes := (rb_nodes r)(mynode := None)\<rparr>, my_keys := (my_keys s)(mynode := None)\<rparr>) } }"

section \<open>The tree as a finite map\<close>

definition my_val :: "my_tree \<Rightarrow> addr \<Rightarrow> int" where
  "my_val s n = the (my_key s n)"

definition my_rel :: "my_tree \<Rightarrow> (32 word \<rightharpoonup> addr) \<Rightarrow> bool" where
  "my_rel s m \<longleftrightarrow> (\<exists>t. rb_tree (my_rb s) t \<and> (\<forall>x \<in> set (inorder t). my_key s x \<noteq> None) \<and> bst (my_val s) t \<and>
     m = (\<lambda>k. find_node (my_val s) (sint k) t))"

text \<open>A block that \<^verbatim>\<open>malloc\<close> may return: aligned, and no live object is at its address.\<close>

definition my_fresh :: "my_tree \<Rightarrow> addr \<Rightarrow> 32 word \<Rightarrow> bool" where
  "my_fresh s e k \<longleftrightarrow> e \<noteq> NULL \<and> aligned e \<and> rb_nodes (my_rb s) e = None \<and> my_keys s e = None"

text \<open>The result of a \<^verbatim>\<open>malloc\<close>: such a block, or \<^verbatim>\<open>NULL\<close>.\<close>

definition my_block :: "my_tree \<Rightarrow> addr \<Rightarrow> 32 word \<Rightarrow> bool" where
  "my_block s e k \<longleftrightarrow> e = NULL \<or> my_fresh s e k"

text \<open>The live blocks of the program are exactly the nodes of the tree.\<close>

definition my_blocks :: "my_tree \<Rightarrow> addr set" where
  "my_blocks s = dom (rb_nodes (my_rb s)) \<union> dom (my_keys s)"

definition my_owns :: "my_tree \<Rightarrow> (32 word \<rightharpoonup> addr) \<Rightarrow> bool" where
  "my_owns s m \<longleftrightarrow> my_rel s m \<and> my_blocks s = ran m"

lemma my_relE:
  assumes "my_rel s m"
  obtains t where "rb_tree (my_rb s) t" "\<forall>x \<in> set (inorder t). my_key s x = Some (my_val s x)"
    "bst (my_val s) t" "m = (\<lambda>k. find_node (my_val s) (sint k) t)"
  using assms unfolding my_rel_def my_val_def by force

lemma my_search_rel: "my_rel s m \<Longrightarrow> my_search k s = Some (case m k of None \<Rightarrow> NULL | Some e \<Rightarrow> e)"
  by (erule my_relE) (simp add: my_search_def rb_search_tree)

lemma my_rel_NULL: "\<lbrakk>my_rel s m; m k = Some e\<rbrakk> \<Longrightarrow> e \<noteq> NULL"
  by (erule my_relE) (auto simp: find_node_iff dest: rb_tree_member(1))

lemma sint_iff: "sint (a :: 32 word) = sint b \<longleftrightarrow> a = b"
  using signed_word_eqI by blast

lemma my_rel_inj: "\<lbrakk>my_rel s m; m k = Some e; m k' = Some e\<rbrakk> \<Longrightarrow> k' = k"
  by (erule my_relE) (auto simp: find_node_iff sint_iff)

lemma my_rel_ran_delete:
  assumes "my_rel s m" "m k = Some e"
  shows "ran (m(k := None)) = ran m - {e}"
proof -
  have inj: "m j = Some e \<longleftrightarrow> j = k" for j using my_rel_inj[OF assms, of j] assms(2) by blast
  show ?thesis
  proof (intro set_eqI iffI)
    fix x assume "x \<in> ran (m(k := None))"
    then obtain j where "j \<noteq> k" "m j = Some x" by (auto simp: ran_def split: if_splits)
    then show "x \<in> ran m - {e}" using inj[of j] by (auto intro: ranI)
  next
    fix x assume "x \<in> ran m - {e}"
    then obtain j where "x \<noteq> e" "m j = Some x" by (auto simp: ran_def)
    then show "x \<in> ran (m(k := None))" using assms(2) by (intro ranI[of _ j]) auto
  qed
qed

lemma same_outside_dom:
  assumes "same_outside N r r'" "\<forall>x \<in> N. rb_nodes r x \<noteq> None \<and> rb_nodes r' x \<noteq> None"
  shows "dom (rb_nodes r') = dom (rb_nodes r)"
proof -
  have "rb_nodes r' x = None \<longleftrightarrow> rb_nodes r x = None" for x
    using assms by (cases "x \<in> N") (auto simp: same_outside_def)
  then show ?thesis unfolding dom_def by simp
qed

lemma rb_tree_live: "\<lbrakk>rb_tree r t; x \<in> set (inorder t)\<rbrakk> \<Longrightarrow> rb_nodes r x \<noteq> None"
  using rb_tree_member(3) by fastforce

lemma bst_cong: "\<lbrakk>bst f t; \<And>x. x \<in> set (inorder t) \<Longrightarrow> g x = f x\<rbrakk> \<Longrightarrow> bst g t"
proof -
  assume "bst f t" and "\<And>x. x \<in> set (inorder t) \<Longrightarrow> g x = f x"
  moreover from this have "map g (inorder t) = map f (inorder t)" by auto
  ultimately show ?thesis unfolding bst_def sorted_keys_def by (simp only:)
qed

text \<open>
  The keys read by the code are those of the old nodes while it descends; the new key is stored
  in the block before the node is linked.
\<close>

lemma my_insert_new:
  assumes h: "my_rel s m" and e: "my_fresh s e k" and new: "m k = None"
  shows "\<exists>s'. my_insert b e k s = Some (0, s') \<and> my_rel s' (m(k \<mapsto> e)) \<and> my_blocks s' = insert e (my_blocks s) \<and>
    (\<forall>e' k'. e' \<noteq> e \<longrightarrow> my_fresh s e' k' \<longrightarrow> my_fresh s' e' k')"
proof -
  obtain t where t: "rb_tree (my_rb s) t" "\<forall>x \<in> set (inorder t). my_key s x = Some (my_val s x)"
    "bst (my_val s) t" "m = (\<lambda>k. find_node (my_val s) (sint k) t)" using my_relE[OF h] .
  let ?r = "(my_rb s)\<lparr>rb_nodes := (rb_nodes (my_rb s))(e \<mapsto> b)\<rparr>"
  let ?f = "(my_val s)(e := sint k)"
  have n: "e \<notin> set (inorder t)" using rb_tree_member(3)[OF t(1), of e] e by (auto simp: my_fresh_def)
  have t': "rb_tree ?r t" using n by (intro rb_tree_outside_cong[OF t(1)]) auto
  have keys: "\<forall>x \<in> set (inorder t). my_key s x = Some (?f x)" using t(2) n by auto
  have bt: "bst ?f t" using bst_cong[OF t(3)] n by fastforce
  have ft: "find_node ?f j t = find_node (my_val s) j t" for j using n by (intro find_node_cong) auto
  then have fn: "find_node ?f (?f e) t = None" using new t(4) by simp
  obtain tmp parent s1 r u where ex: "rb_descend (my_key s) (sint k) RootLink NULL ?r = Some (Vacant tmp parent)"
      "rb_link_node e parent tmp ?r = Some s1" "rb_insert_color e s1 = Some r"
    and r: "rb_tree r u" "bst ?f u" "set (inorder u) = insert e (set (inorder t))"
      "same_outside (insert e (set (inorder t))) ?r r" "find_node ?f (sint k) u = Some e"
      "\<And>j. j \<noteq> sint k \<Longrightarrow> find_node ?f j u = find_node ?f j t"
    using rb_insert_tree[OF t' keys bt n _ _ _ fn] e by (auto simp: my_fresh_def)
  have "ins_pos (my_val s) (sint k) t [] \<noteq> None"
    using new t(4) by (auto simp: ins_pos_None[OF t(3)] find_node_None[OF t(3)])
  then have d: "rb_descend (my_key s) (sint k) RootLink NULL (my_rb s) = Some (Vacant tmp parent)"
    using ex(1) rb_descend_zipper[of _ _ _ t "[]" "my_key s" "my_val s"] t(1,2) t' by (auto simp: rb_tree_zipper)
  let ?s = "s\<lparr>my_rb := r, my_keys := (my_keys s)(e \<mapsto> k)\<rparr>"
  have "my_insert b e k s = Some (0, ?s)" using d ex e by (simp add: my_insert_def my_fresh_def)
  moreover have kv: "my_key ?s x = Some (?f x) \<and> my_val ?s x = ?f x" if "x \<in> set (inorder u)" for x
    using that t(2) r(3) e by (auto simp: my_key_def my_val_def my_fresh_def load_def split: if_splits)
  then have "bst (my_val ?s) u" "find_node (my_val ?s) j u = find_node ?f j u" for j
    using bst_cong[OF r(2)] find_node_cong[of u "my_val ?s" ?f] by auto
  then have "my_rel ?s (m(k \<mapsto> e))"
    unfolding my_rel_def using r kv t(4) n
    by (intro exI[of _ u]) (auto simp: fun_eq_iff ft sint_iff)
  moreover have "dom (rb_nodes r) = dom (rb_nodes ?r)"
  proof (intro same_outside_dom[OF r(4)] ballI conjI)
    fix x assume x: "x \<in> insert e (set (inorder t))"
    then show "rb_nodes ?r x \<noteq> None" using rb_tree_live[OF t', of x] by (cases "x = e") auto
    show "rb_nodes r x \<noteq> None" using rb_tree_live[OF r(1)] x r(3) by blast
  qed
  then have "my_blocks ?s = insert e (my_blocks s)" by (auto simp: my_blocks_def)
  moreover have "my_fresh ?s e' k'" if "e' \<noteq> e" "my_fresh s e' k'" for e' k'
    using that r(4) rb_tree_member(3)[OF t(1), of e'] by (auto simp: my_fresh_def same_outside_def)
  ultimately show ?thesis by blast
qed

lemma my_insert_old:
  assumes h: "my_rel s m" and old: "m k \<noteq> None"
  shows "my_insert b e k s = Some (-1, s)"
proof -
  obtain t where t: "rb_tree (my_rb s) t" "\<forall>x \<in> set (inorder t). my_key s x = Some (my_val s x)"
    "bst (my_val s) t" "m = (\<lambda>k. find_node (my_val s) (sint k) t)" using my_relE[OF h] .
  then show ?thesis using rb_descend_present[OF t(1-3)] old by (auto simp: my_insert_def)
qed

lemma my_insert_NULL:
  assumes h: "my_rel s m"
  shows "my_insert b NULL k s = Some (-1, s)"
proof (cases "m k")
  case None
  obtain t where t: "rb_tree (my_rb s) t" "\<forall>x \<in> set (inorder t). my_key s x = Some (my_val s x)"
    "bst (my_val s) t" "m = (\<lambda>k. find_node (my_val s) (sint k) t)" using my_relE[OF h] .
  have "ins_pos (my_val s) (sint k) t [] \<noteq> None"
    using None t(4) by (auto simp: ins_pos_None[OF t(3)] find_node_None[OF t(3)])
  then show ?thesis
    using rb_descend_zipper[of _ _ _ t "[]" "my_key s" "my_val s"] t(1,2) by (auto simp: rb_tree_zipper my_insert_def)
qed (use my_insert_old[OF h] in simp)

lemma my_delete_old:
  assumes h: "my_rel s m" and old: "m k = Some e"
  shows "\<exists>s'. my_delete k s = Some s' \<and> my_rel s' (m(k := None)) \<and> my_fresh s' e k \<and> my_blocks s' = my_blocks s - {e} \<and>
    (\<forall>e' k'. my_fresh s e' k' \<longrightarrow> my_fresh s' e' k')"
proof -
  obtain t where t: "rb_tree (my_rb s) t" "\<forall>x \<in> set (inorder t). my_key s x = Some (my_val s x)"
    "bst (my_val s) t" "m = (\<lambda>k. find_node (my_val s) (sint k) t)" using my_relE[OF h] .
  have e: "e \<in> set (inorder t)" "my_val s e = sint k" using old t(4) by (auto simp: find_node_iff[OF t(3)])
  from rb_erase_tree[OF t(1,3) e(1)] e(2) obtain r u where ex: "rb_erase e (my_rb s) = Some r"
    and r: "rb_tree r u" "bst (my_val s) u" "set (inorder u) = set (inorder t) - {e}"
      "same_outside (set (inorder t) - {e}) (my_rb s) r" "find_node (my_val s) (sint k) u = None"
      "\<And>j. j \<noteq> sint k \<Longrightarrow> find_node (my_val s) j u = find_node (my_val s) j t" by auto
  let ?r = "r\<lparr>rb_nodes := (rb_nodes r)(e := None)\<rparr>"
  let ?s = "s\<lparr>my_rb := ?r, my_keys := (my_keys s)(e := None)\<rparr>"
  have "my_delete k s = Some ?s"
    using my_search_rel[OF h, of k] my_rel_NULL[OF h old] old ex by (simp add: my_delete_def)
  moreover have tr: "rb_tree ?r u" using r(3) by (intro rb_tree_outside_cong[OF r(1)]) auto
  have kv: "my_key ?s x = Some (my_val s x) \<and> my_val ?s x = my_val s x" if "x \<in> set (inorder u)" for x
    using that t(2) r(3) by (auto simp: my_key_def my_val_def)
  then have "bst (my_val ?s) u" "find_node (my_val ?s) j u = find_node (my_val s) j u" for j
    using bst_cong[OF r(2)] find_node_cong[of u "my_val ?s" "my_val s"] by auto
  then have "my_rel ?s (m(k := None))"
    unfolding my_rel_def using r(5,6) tr kv t(4) by (intro exI[of _ u]) (auto simp: fun_eq_iff sint_iff)
  moreover have "dom (rb_nodes r) = dom (rb_nodes (my_rb s))"
    using rb_tree_live[OF t(1)] rb_tree_live[OF r(1)] r(3) by (intro same_outside_dom[OF r(4)]) blast
  then have "my_blocks ?s = my_blocks s - {e}" by (auto simp: my_blocks_def)
  moreover have "my_fresh ?s e k" using rb_tree_member(1,2)[OF t(1) e(1)] by (simp add: my_fresh_def)
  moreover have "my_fresh ?s e' k'" if "my_fresh s e' k'" for e' k'
  proof -
    have "e' \<notin> set (inorder t)" using rb_tree_member(3)[OF t(1), of e'] that by (auto simp: my_fresh_def)
    then show ?thesis using that r(4) by (auto simp: my_fresh_def same_outside_def)
  qed
  ultimately show ?thesis by blast
qed

lemma my_delete_new: "\<lbrakk>my_rel s m; m k = None\<rbrakk> \<Longrightarrow> my_delete k s = Some s"
  using my_search_rel[of s m k] by (simp add: my_delete_def)

text \<open>
  The operations as those of an index.  The contents of a block are an arbitrary function of its address and the
  state.  The block of a deleted node is free for any key.
\<close>

abbreviation my_look :: "32 word \<Rightarrow> my_tree \<Rightarrow> (addr \<times> my_tree) option" where
  "my_look k s \<equiv> map_option (\<lambda>e. (e, s)) (my_search k s)"

abbreviation my_ins :: "(addr \<Rightarrow> my_tree \<Rightarrow> rb_node) \<Rightarrow> addr \<Rightarrow> 32 word \<Rightarrow> my_tree \<Rightarrow> (int \<times> my_tree) option" where
  "my_ins block e k s \<equiv> my_insert (block e s) e k s"

abbreviation my_del :: "32 word \<Rightarrow> my_tree \<Rightarrow> (index_reply \<times> my_tree) option" where
  "my_del k s \<equiv> map_option (Pair Done) (my_delete k s)"

lemma my_fresh_any: "my_fresh s e k \<Longrightarrow> my_fresh s e k'"
  by (simp add: my_fresh_def)

interpretation my_index: reusable_index "\<lambda>_. True" my_owns my_block my_look "my_ins block" my_del "\<lambda>_. Done" "\<lambda>_ _. True" for block
proof
  fix s m k e
  show "my_owns s m \<Longrightarrow> my_look k s = Some (found m k, s)" by (simp add: my_owns_def my_search_rel found_def)
  show "\<lbrakk>my_owns s m; m k = Some e\<rbrakk> \<Longrightarrow> e \<noteq> NULL" using my_rel_NULL by (auto simp: my_owns_def)
  show "my_block s e k \<Longrightarrow> True" by simp
  show "\<lbrakk>my_owns s m; my_block s e k; m k = None; e \<noteq> NULL\<rbrakk> \<Longrightarrow> \<exists>s'. my_ins block e k s = Some (0, s') \<and> my_owns s' (m(k \<mapsto> e)) \<and>
    (\<forall>e' k'. e' \<noteq> e \<longrightarrow> my_block s e' k' \<longrightarrow> my_block s' e' k')"
    using my_insert_new[of s m e k "block e s"] unfolding my_block_def my_owns_def by (fastforce simp: ran_map_upd)
  show "\<lbrakk>my_owns s m; my_block s e k; m k \<noteq> None \<or> e = NULL\<rbrakk> \<Longrightarrow> \<exists>s'. my_ins block e k s = Some (-1, s') \<and> my_owns s' m \<and>
    (\<forall>e' k'. my_block s e' k' \<longrightarrow> my_block s' e' k')" using my_insert_old my_insert_NULL unfolding my_owns_def by blast
  show "my_owns s m \<Longrightarrow> \<exists>s'. my_del k s = Some (Done, s') \<and> my_owns s' (m(k := None)) \<and>
    (\<forall>e' k'. my_block s e' k' \<longrightarrow> my_block s' e' k')"
    using my_delete_old[of s m k] my_delete_new[of s m k] my_rel_ran_delete[of s m k]
    by (cases "m k") (fastforce simp: my_block_def my_owns_def fun_upd_idem)+
  show "\<lbrakk>my_owns s m; m k = Some e; my_del k s = Some (r, s'); True\<rbrakk> \<Longrightarrow> my_block s' e k'" for r s' k'
    using my_delete_old[of s m k e] my_fresh_any[of s' e k k'] by (auto simp: my_block_def my_owns_def)
qed

section \<open>Properties\<close>



end
