(* ===== verification/Rb_Test_Main.thy ===== *)
theory Rb_Test_Main
  imports Rb_Test
begin

text \<open>
  The rest of \<^verbatim>\<open>signal_test/rbtest.c\<close>: the functions that print a tree and the main program, which inserts nine keys and
  deletes them again.  What is printed is a string of bytes; the two switches of the preprocessor are parameters.
\<close>

section \<open>Output\<close>

text \<open>The conversion \<^verbatim>\<open>%d\<close>, and the padding of \<^verbatim>\<open>%2d\<close> and \<^verbatim>\<open>%6s\<close>.\<close>

fun print_nat :: "nat \<Rightarrow> string" where
  "print_nat n = (if n < 10 then [''0123456789'' ! n] else print_nat (n div 10) @ [''0123456789'' ! (n mod 10)])"

declare print_nat.simps [simp del]

definition print_int :: "32 word \<Rightarrow> string" where
  "print_int k = (if sint k < 0 then ''-'' @ print_nat (nat (- sint k)) else print_nat (nat (sint k)))"

definition pad_left :: "nat \<Rightarrow> string \<Rightarrow> string" where
  "pad_left n t = replicate (n - length t) CHR '' '' @ t"

definition newline :: string where
  "newline = [CHR 0x0A]"

text \<open>
  The line for one node.  \<^verbatim>\<open>direction\<close> is 0 for the root, 1 for a right and -1 for a left child; the key of the node
  is printed a second time where the text speaks of the parent.
\<close>

definition node_line :: "32 word \<Rightarrow> bool \<Rightarrow> int \<Rightarrow> string" where
  "node_line key black direction =
     (if direction = 0 then pad_left 2 (print_int key) @ ''(B) is root'' @ newline
      else pad_left 2 (print_int key) @ ''('' @ (if black then ''B'' else ''R'') @ '') is '' @ pad_left 2 (print_int key) @ [CHR 0x27] @ ''s '' @
        pad_left 6 (if direction = 1 then ''right'' else ''left'') @ '' child'' @ newline)"

partial_function (option) print_rbtree :: "my_tree \<Rightarrow> addr \<Rightarrow> 32 word \<Rightarrow> int \<Rightarrow> string option" where
  "print_rbtree s tree key direction =
     (if tree = NULL then Some []
      else do {
        n \<leftarrow> load (rb_nodes (my_rb s)) tree;
        left \<leftarrow> (if rb_left n = NULL then Some [] else do {
          k \<leftarrow> load (my_keys s) (rb_left n);
          print_rbtree s (rb_left n) k (-1) });
        right \<leftarrow> (if rb_right n = NULL then Some [] else do {
          k \<leftarrow> load (my_keys s) (rb_right n);
          print_rbtree s (rb_right n) k 1 });
        Some (node_line key (rb_is_black n) direction @ left @ right) })"

definition my_print :: "my_tree \<Rightarrow> string option" where
  "my_print s =
     (if rb_root (my_rb s) = NULL then Some []
      else do {
        k \<leftarrow> load (my_keys s) (rb_root (my_rb s));
        print_rbtree s (rb_root (my_rb s)) k 0 })"

section \<open>The main program\<close>

definition data_label :: string where
  "data_label = ''== '' @ [CHR 0xE5, CHR 0x8E, CHR 0x9F, CHR 0xE5, CHR 0xA7, CHR 0x8B, CHR 0xE6, CHR 0x95, CHR 0xB0, CHR 0xE6, CHR 0x8D, CHR 0xAE] @ '': ''"

definition insert_label :: string where
  "insert_label = ''== '' @ [CHR 0xE6, CHR 0xB7, CHR 0xBB, CHR 0xE5, CHR 0x8A, CHR 0xA0, CHR 0xE8, CHR 0x8A, CHR 0x82, CHR 0xE7, CHR 0x82, CHR 0xB9] @ '': ''"

definition delete_label :: string where
  "delete_label = ''== '' @ [CHR 0xE5, CHR 0x88, CHR 0xA0, CHR 0xE9, CHR 0x99, CHR 0xA4, CHR 0xE8, CHR 0x8A, CHR 0x82, CHR 0xE7, CHR 0x82, CHR 0xB9] @ '': ''"

definition tree_label :: string where
  "tree_label = ''== '' @ [CHR 0xE6, CHR 0xA0, CHR 0x91, CHR 0xE7, CHR 0x9A, CHR 0x84, CHR 0xE8, CHR 0xAF, CHR 0xA6, CHR 0xE7, CHR 0xBB, CHR 0x86,
     CHR 0xE4, CHR 0xBF, CHR 0xA1, CHR 0xE6, CHR 0x81, CHR 0xAF] @ '': '' @ newline"

definition print_step :: "string \<Rightarrow> 32 word \<Rightarrow> my_tree \<Rightarrow> string option" where
  "print_step msg key s = do {
     t \<leftarrow> my_print s;
     Some (msg @ print_int key @ newline @ tree_label @ t @ newline) }"

text \<open>
  The two loops.  \<^verbatim>\<open>blocks\<close> holds the results of \<^verbatim>\<open>malloc\<close>, one for each key, with the contents of the block; the result of
  \<^verbatim>\<open>my_insert\<close> is not looked at.
\<close>

fun insert_keys :: "bool \<Rightarrow> (rb_node \<times> addr) list \<Rightarrow> 32 word list \<Rightarrow> my_tree \<Rightarrow> (string \<times> my_tree) option" where
  "insert_keys check ((block, mynode) # blocks) (k # ks) s = do {
     (r, s) \<leftarrow> my_insert block mynode k s;
     shown \<leftarrow> (if check then print_step insert_label k s else Some []);
     (rest, s) \<leftarrow> insert_keys check blocks ks s;
     Some (shown @ rest, s) }"
| "insert_keys check blocks ks s = Some ([], s)"

fun delete_keys :: "32 word list \<Rightarrow> my_tree \<Rightarrow> (string \<times> my_tree) option" where
  "delete_keys [] s = Some ([], s)"
| "delete_keys (k # ks) s = do {
     s \<leftarrow> my_delete k s;
     shown \<leftarrow> print_step delete_label k s;
     (rest, s) \<leftarrow> delete_keys ks s;
     Some (shown @ rest, s) }"

definition main_keys :: "32 word list" where
  "main_keys = [10, 40, 30, 60, 90, 70, 20, 50, 80]"

definition rbtest_main :: "bool \<Rightarrow> bool \<Rightarrow> (rb_node \<times> addr) list \<Rightarrow> (string \<times> my_tree) option" where
  "rbtest_main check_insert check_delete blocks = do {
     let mytree = \<lparr>my_rb = \<lparr>rb_nodes = Map.empty, rb_root = NULL\<rparr>, my_keys = Map.empty\<rparr>;
     let first = data_label @ concat (map (\<lambda>k. print_int k @ '' '') main_keys) @ newline;
     (inserted, mytree) \<leftarrow> insert_keys check_insert blocks main_keys mytree;
     (deleted, mytree) \<leftarrow> (if check_delete then delete_keys main_keys mytree else Some ([], mytree));
     Some (first @ inserted @ deleted, mytree) }"

section \<open>Lemmas\<close>

text \<open>The nodes in the order in which they are printed, with their colours and directions.\<close>

fun preorder :: "int \<Rightarrow> rbtree \<Rightarrow> (addr \<times> color \<times> int) list" where
  "preorder d E = []"
| "preorder d (T c l x r) = (x, c, d) # preorder (-1) l @ preorder 1 r"

lemma preorder_nodes: "fst ` set (preorder d t) = set (inorder t)"
  by (induction t arbitrary: d) (auto simp: image_Un)

lemma root_of_member: "t \<noteq> E \<Longrightarrow> root_of t \<in> set (inorder t)"
  by (cases t) auto

lemma print_rbtree_tree:
  assumes "tree_at (rb_nodes (my_rb s)) p t" "\<forall>x \<in> set (inorder t). my_keys s x = Some (key x)"
  shows "print_rbtree s (root_of t) (key (root_of t)) d =
    Some (concat (map (\<lambda>(x, c, d). node_line (key x) (c = Black) d) (preorder d t)))"
  using assms
proof (induction t arbitrary: p d)
  case E
  then show ?case by (simp add: print_rbtree.simps)
next
  case (T c l x r)
  have sub: "(if root_of u = NULL then Some [] else Option.bind (load (my_keys s) (root_of u)) (\<lambda>k. print_rbtree s (root_of u) k e)) =
    Some (concat (map (\<lambda>(x, c, d). node_line (key x) (c = Black) d) (preorder e u)))" if "u = l \<or> u = r" for u e
    using that T.prems root_of_not_NULL[of "rb_nodes (my_rb s)" x u] root_of_member[of u] T.IH(1)[of x e] T.IH(2)[of x e]
    by (cases "u = E") (auto simp: load_def)
  have "load (rb_nodes (my_rb s)) x = Some (mk_node p c (root_of l) (root_of r))" using T.prems by (simp add: load_def)
  then show ?case using T.prems(1) by (subst print_rbtree.simps) (simp add: sub cong del: if_weak_cong)
qed

lemma my_print_rb_tree:
  assumes "rb_tree (my_rb s) t" "\<forall>x \<in> set (inorder t). my_keys s x = Some (key x)"
  shows "my_print s = Some (concat (map (\<lambda>(x, c, d). node_line (key x) (c = Black) d) (preorder 0 t)))"
  using assms print_rbtree_tree[of s NULL t key 0] rb_tree_member(1)[OF assms(1)] root_of_member[of t]
  by (cases t) (auto simp: my_print_def rb_tree_def load_def)

lemma my_rel_tree:
  assumes "my_rel s m"
  obtains t where "rb_tree (my_rb s) t" "\<forall>x \<in> set (inorder t). my_keys s x = Some (the (my_keys s x))"
    "\<forall>x k. x \<in> set (inorder t) \<and> the (my_keys s x) = k \<longleftrightarrow> m k = Some x"
proof -
  obtain t where t: "rb_tree (my_rb s) t" "\<forall>x \<in> set (inorder t). my_key s x = Some (my_val s x)"
    "bst (my_val s) t" "m = (\<lambda>k. find_node (my_val s) (sint k) t)" using my_relE[OF assms] .
  have k: "my_keys s x = Some (the (my_keys s x))" "my_val s x = sint (the (my_keys s x))" if "x \<in> set (inorder t)" for x
    using t(2) that rb_tree_member(1)[OF t(1) that] by (fastforce simp: my_key_def my_val_def load_def)+
  have "x \<in> set (inorder t) \<and> the (my_keys s x) = j \<longleftrightarrow> m j = Some x" for x j
    using find_node_iff[OF t(3), of "sint j" x] k(2)[of x] by (auto simp: t(4) sint_iff)
  then have "\<forall>x j. x \<in> set (inorder t) \<and> the (my_keys s x) = j \<longleftrightarrow> m j = Some x" by simp
  then show thesis using that[OF t(1)] k(1) by simp
qed

lemma my_print_rel:
  assumes "my_rel s m"
  shows "\<exists>out. my_print s = Some out"
proof -
  obtain t where "rb_tree (my_rb s) t" "\<forall>x \<in> set (inorder t). my_keys s x = Some (the (my_keys s x))"
    using my_rel_tree[OF assms] .
  from my_print_rb_tree[OF this] show ?thesis by simp
qed

lemma print_step_rel: "my_rel s m \<Longrightarrow> \<exists>out. print_step msg k s = Some out"
  using my_print_rel by (fastforce simp: print_step_def)

lemma insert_keys_rel:
  "\<lbrakk>my_rel s m; \<forall>(b, e) \<in> set blocks. my_fresh s e 0; distinct (map snd blocks); distinct ks; \<forall>k \<in> set ks. m k = None; length blocks = length ks\<rbrakk> \<Longrightarrow>
    \<exists>out s'. insert_keys check blocks ks s = Some (out, s') \<and> my_rel s' (m ++ map_of (zip ks (map snd blocks))) \<and> (\<not> check \<longrightarrow> out = [])"
proof (induction ks arbitrary: s m blocks)
  case (Cons k ks)
  obtain b e bs where bs: "blocks = (b, e) # bs" using Cons.prems(6) by (cases blocks) auto
  have new: "my_fresh s e k" "m k = None" using Cons.prems bs by (auto simp: my_fresh_def)
  obtain s1 where s1: "my_insert b e k s = Some (0, s1)" "my_rel s1 (m(k \<mapsto> e))"
    "\<forall>e' k'. e' \<noteq> e \<longrightarrow> my_fresh s e' k' \<longrightarrow> my_fresh s1 e' k'"
    using my_insert_new[OF Cons.prems(1) new, of b] by blast
  obtain shown where shown: "print_step insert_label k s1 = Some shown" using print_step_rel[OF s1(2)] by blast
  have "\<forall>(b, e) \<in> set bs. my_fresh s1 e 0" using s1(3) Cons.prems(2,3) bs by force
  moreover have "\<forall>j \<in> set ks. (m(k \<mapsto> e)) j = None" using Cons.prems(4,5) by auto
  ultimately obtain out s2 where s2: "insert_keys check bs ks s1 = Some (out, s2)" "my_rel s2 (m(k \<mapsto> e) ++ map_of (zip ks (map snd bs)))"
    "\<not> check \<longrightarrow> out = []"
    using Cons.IH[OF s1(2), of bs] Cons.prems(3,4,6) unfolding bs by (simp del: fun_upd_apply) blast
  have "map_of (zip ks (map snd bs)) k = None" using Cons.prems(4) by (auto simp: map_of_eq_None_iff dest: set_zip_leftD)
  then have "m(k \<mapsto> e) ++ map_of (zip ks (map snd bs)) = m ++ map_of (zip (k # ks) (map snd blocks))"
    by (intro ext) (simp add: bs map_add_def split: option.split)
  then have "my_rel s2 (m ++ map_of (zip (k # ks) (map snd blocks)))" using s2(2) by (simp only:)
  moreover have "insert_keys check blocks (k # ks) s = Some ((if check then shown else []) @ out, s2)" using s1(1) s2(1) shown bs by simp
  ultimately show ?case using s2(3) by fastforce
qed auto

lemma delete_keys_rel:
  "my_rel s m \<Longrightarrow> \<exists>out s'. delete_keys ks s = Some (out, s') \<and> my_rel s' (m |` (- set ks))"
proof (induction ks arbitrary: s m)
  case (Cons k ks)
  obtain s1 where s1: "my_delete k s = Some s1" "my_rel s1 (m(k := None))"
    using my_delete_old[OF Cons.prems, of k] my_delete_new[OF Cons.prems, of k] Cons.prems by (cases "m k") (fastforce simp: fun_upd_idem)+
  moreover obtain shown where "print_step delete_label k s1 = Some shown" using print_step_rel[OF s1(2)] by blast
  moreover obtain out s2 where "delete_keys ks s1 = Some (out, s2)" "my_rel s2 ((m(k := None)) |` (- set ks))" using Cons.IH[OF s1(2)] by blast
  moreover have "(m(k := None)) |` (- set ks) = m |` (- set (k # ks))" by (auto simp: restrict_map_def)
  ultimately show ?case by simp
qed (simp add: restrict_map_def)

section \<open>Properties\<close>



text \<open>
  The main program.  Whatever blocks \<^verbatim>\<open>malloc\<close> hands out, and with every setting of the switches, it runs to its end; the tree holds
  the nine keys, or nothing when they are deleted again, and without the checks only the line of the data is printed.
\<close>

theorem rbtest_main_returns:
  assumes "length blocks = 9" "distinct (map snd blocks)" "\<forall>(b, e) \<in> set blocks. e \<noteq> NULL \<and> aligned e"
  shows "\<exists>out s. rbtest_main check_insert check_delete blocks = Some (out, s) \<and>
    my_rel s (if check_delete then Map.empty else map_of (zip main_keys (map snd blocks))) \<and>
    (\<not> check_insert \<and> \<not> check_delete \<longrightarrow> out = data_label @ ''10 40 30 60 90 70 20 50 80 '' @ newline)"
proof -
  let ?s = "\<lparr>my_rb = \<lparr>rb_nodes = Map.empty, rb_root = NULL\<rparr>, my_keys = Map.empty\<rparr>" and ?m = "map_of (zip main_keys (map snd blocks))"
  have "my_rel ?s Map.empty" by (auto simp: my_rel_def bst_def intro!: exI[of _ E] rb_tree_E)
  moreover have "\<forall>(b, e) \<in> set blocks. my_fresh ?s e 0" using assms(3) by (auto simp: my_fresh_def)
  moreover have "distinct main_keys" "length blocks = length main_keys" using assms(1) by (simp_all add: main_keys_def)
  ultimately obtain o1 s1 where s1: "insert_keys check_insert blocks main_keys ?s = Some (o1, s1)" "my_rel s1 ?m" "\<not> check_insert \<longrightarrow> o1 = []"
    using insert_keys_rel[of ?s Map.empty blocks main_keys check_insert] assms(2) by auto
  obtain o2 s2 where s2: "delete_keys main_keys s1 = Some (o2, s2)" "my_rel s2 (?m |` (- set main_keys))"
    using delete_keys_rel[OF s1(2)] by blast
  have "?m |` (- set main_keys) = Map.empty" by (intro ext) (auto simp: restrict_map_def map_of_eq_None_iff dest: set_zip_leftD)
  moreover have "concat (map (\<lambda>k. print_int k @ '' '') main_keys) = ''10 40 30 60 90 70 20 50 80 ''"
    by (simp add: main_keys_def print_int_def print_nat.simps)
  ultimately show ?thesis using s1 s2 by (cases check_delete) (simp_all add: rbtest_main_def)
qed

theorem rbtest_main_returns_witness:
  "\<exists>out s. rbtest_main False False (map (\<lambda>e. (mk_node 0 Red 0 0, e)) [0x10, 0x20, 0x30, 0x40, 0x50, 0x60, 0x70, 0x80, 0x90]) = Some (out, s) \<and>
    my_rel s (map_of (zip main_keys [0x10, 0x20, 0x30, 0x40, 0x50, 0x60, 0x70, 0x80, 0x90])) \<and>
    out = data_label @ ''10 40 30 60 90 70 20 50 80 '' @ newline"
  using rbtest_main_returns[of "map (\<lambda>e. (mk_node 0 Red 0 0, e)) [0x10, 0x20, 0x30, 0x40, 0x50, 0x60, 0x70, 0x80, 0x90]" False False]
  by (simp add: aligned_def)

end
