(* ===== verification/Bp_Table.thy ===== *)
theory Bp_Table
  imports Rb_Index Key_Index
begin

text \<open>
  The table of breakpoints of \<^verbatim>\<open>signal_test/breakpoint.c\<close>: the red-black tree \<^verbatim>\<open>breakpoints\<close> with its lock,
  whose nodes are embedded in structures of type \<^verbatim>\<open>bp_entry\<close>, at offset 8.  The key of a node is the
  field \<^verbatim>\<open>address\<close> of its entry.
\<close>

section \<open>State\<close>

text \<open>
  The fields of a \<^verbatim>\<open>bp_entry\<close> other than its tree node, which is an object of the node heap at the
  address of the entry plus the offset of the field.
\<close>

record bp_entry =
  be_address :: addr
  be_bkpt :: addr

record bp_table =
  bt_tree :: rb_state
  bt_entries :: "bp_entry heap"
  breakpoint_lock :: bool

definition rb_node_offset :: addr where
  "rb_node_offset = 8"

abbreviation bp_node :: "addr \<Rightarrow> addr" where
  "bp_node e \<equiv> e + rb_node_offset"

abbreviation bp_container :: "addr \<Rightarrow> addr" where
  "bp_container n \<equiv> n - rb_node_offset"

definition entry_address :: "bp_table \<Rightarrow> addr \<Rightarrow> addr option" where
  "entry_address s n = map_option be_address (load (bt_entries s) (bp_container n))"

section \<open>Operations\<close>

definition breakpoint_rb_find_internal :: "addr \<Rightarrow> bp_table \<Rightarrow> addr option" where
  "breakpoint_rb_find_internal addr s = do {
     rbnode \<leftarrow> rb_search (entry_address s) addr (rb_root (bt_tree s)) (bt_tree s);
     Some (if rbnode \<noteq> NULL then bp_container rbnode else NULL) }"

definition breakpoint_rb_find :: "addr \<Rightarrow> bp_table \<Rightarrow> (addr \<times> bp_table) option" where
  "breakpoint_rb_find addr s = do {
     lk \<leftarrow> mutex_lock (breakpoint_lock s);
     let s = s\<lparr>breakpoint_lock := lk\<rparr>;
     bp \<leftarrow> breakpoint_rb_find_internal addr s;
     lk \<leftarrow> mutex_unlock (breakpoint_lock s);
     Some (bp, s\<lparr>breakpoint_lock := lk\<rparr>) }"

definition breakpoint_rb_insert_internal :: "addr \<Rightarrow> bp_table \<Rightarrow> (int \<times> bp_table) option" where
  "breakpoint_rb_insert_internal entry s = do {
     empty \<leftarrow> rd (RB_EMPTY_NODE (bp_node entry)) (bp_node entry) (bt_tree s);
     c_assert empty;
     en \<leftarrow> load (bt_entries s) entry;
     d \<leftarrow> rb_descend (entry_address s) (be_address en) RootLink NULL (bt_tree s);
     case d of
       Present \<Rightarrow> Some (-1, s)
     | Vacant tmp parent \<Rightarrow> do {
         r \<leftarrow> rb_link_node (bp_node entry) parent tmp (bt_tree s);
         r \<leftarrow> rb_insert_color (bp_node entry) r;
         Some (0, s\<lparr>bt_tree := r\<rparr>) } }"

definition breakpoint_rb_insert :: "addr \<Rightarrow> bp_table \<Rightarrow> (int \<times> bp_table) option" where
  "breakpoint_rb_insert entry s = do {
     lk \<leftarrow> mutex_lock (breakpoint_lock s);
     (ret, s) \<leftarrow> breakpoint_rb_insert_internal entry (s\<lparr>breakpoint_lock := lk\<rparr>);
     lk \<leftarrow> mutex_unlock (breakpoint_lock s);
     Some (ret, s\<lparr>breakpoint_lock := lk\<rparr>) }"

definition breakpoint_rb_search_insert :: "addr \<Rightarrow> bp_table \<Rightarrow> (int \<times> bp_table) option" where
  "breakpoint_rb_search_insert entry s = do {
     lk \<leftarrow> mutex_lock (breakpoint_lock s);
     let s = s\<lparr>breakpoint_lock := lk\<rparr>;
     en \<leftarrow> load (bt_entries s) entry;
     exist \<leftarrow> breakpoint_rb_find_internal (be_address en) s;
     if exist \<noteq> NULL then do {
       lk \<leftarrow> mutex_unlock (breakpoint_lock s);
       Some (-1, s\<lparr>breakpoint_lock := lk\<rparr>) }
     else do {
       (_, s) \<leftarrow> breakpoint_rb_insert_internal entry s;
       lk \<leftarrow> mutex_unlock (breakpoint_lock s);
       Some (0, s\<lparr>breakpoint_lock := lk\<rparr>) } }"

definition breakpoint_rb_delete_internal :: "addr \<Rightarrow> bp_table \<Rightarrow> (addr \<times> bp_table) option" where
  "breakpoint_rb_delete_internal addr s = do {
     bp \<leftarrow> breakpoint_rb_find_internal addr s;
     if bp = NULL then Some (NULL, s)
     else do {
       r \<leftarrow> rb_erase (bp_node bp) (bt_tree s);
       r \<leftarrow> wr (RB_CLEAR_NODE (bp_node bp)) (bp_node bp) r;
       Some (bp, s\<lparr>bt_tree := r\<rparr>) } }"

definition breakpoint_rb_delete :: "addr \<Rightarrow> bp_table \<Rightarrow> (addr \<times> bp_table) option" where
  "breakpoint_rb_delete addr s = do {
     lk \<leftarrow> mutex_lock (breakpoint_lock s);
     (bp, s) \<leftarrow> breakpoint_rb_delete_internal addr (s\<lparr>breakpoint_lock := lk\<rparr>);
     lk \<leftarrow> mutex_unlock (breakpoint_lock s);
     Some (bp, s\<lparr>breakpoint_lock := lk\<rparr>) }"

definition breakpoint_find :: "addr \<Rightarrow> bp_table \<Rightarrow> (addr \<times> bp_table) option" where
  "breakpoint_find addr s = do {
     (entry, s) \<leftarrow> breakpoint_rb_find addr s;
     if entry = NULL then Some (NULL, s)
     else do {
       en \<leftarrow> load (bt_entries s) entry;
       Some (be_bkpt en, s) } }"

section \<open>The table as a finite map\<close>

definition entry_key :: "bp_table \<Rightarrow> addr \<Rightarrow> addr" where
  "entry_key s n = the (entry_address s n)"

text \<open>\<^verbatim>\<open>bp_holds s m\<close>: the tree holds the entries \<^verbatim>\<open>m\<close>, each under its address.\<close>

definition bp_holds :: "bp_table \<Rightarrow> (addr \<rightharpoonup> addr) \<Rightarrow> bool" where
  "bp_holds s m \<longleftrightarrow> (\<exists>t. rb_tree (bt_tree s) t \<and> (\<forall>x \<in> set (inorder t). entry_address s x \<noteq> None) \<and>
     bst (entry_key s) t \<and> m = (\<lambda>k. map_option bp_container (find_node (entry_key s) k t)))"

definition bp_rel :: "bp_table \<Rightarrow> (addr \<rightharpoonup> addr) \<Rightarrow> bool" where
  "bp_rel s m \<longleftrightarrow> \<not> breakpoint_lock s \<and> bp_holds s m"

text \<open>An initialised entry that is not in the tree.\<close>

definition bp_ready :: "bp_table \<Rightarrow> addr \<Rightarrow> addr \<Rightarrow> bool" where
  "bp_ready s e k \<longleftrightarrow> e \<noteq> NULL \<and> bp_node e \<noteq> NULL \<and> aligned (bp_node e) \<and>
     (\<exists>n. rb_nodes (bt_tree s) (bp_node e) = Some n \<and> RB_EMPTY_NODE (bp_node e) n) \<and>
     (\<exists>en. bt_entries s e = Some en \<and> be_address en = k)"

lemma entry_address_lock [simp]: "entry_address (s\<lparr>breakpoint_lock := b\<rparr>) = entry_address s"
  by (simp add: entry_address_def fun_eq_iff)

lemma entry_address_tree [simp]: "entry_address (s\<lparr>bt_tree := r\<rparr>) = entry_address s"
  by (simp add: entry_address_def fun_eq_iff)

lemma entry_key_simps [simp]:
  "entry_key (s\<lparr>breakpoint_lock := b\<rparr>) = entry_key s" "entry_key (s\<lparr>bt_tree := r\<rparr>) = entry_key s"
  by (simp_all add: entry_key_def fun_eq_iff)

lemma bp_holds_lock [simp]: "bp_holds (s\<lparr>breakpoint_lock := b\<rparr>) m = bp_holds s m"
  by (simp add: bp_holds_def)

lemma bp_holds_lock_tree [simp]: "bp_holds (s\<lparr>breakpoint_lock := b, bt_tree := r\<rparr>) m = bp_holds (s\<lparr>bt_tree := r\<rparr>) m"
  by (simp add: bp_holds_def)

lemma bp_ready_lock [simp]:
  "bp_ready (s\<lparr>breakpoint_lock := b\<rparr>) e k = bp_ready s e k"
  "bp_ready (s\<lparr>breakpoint_lock := b, bt_tree := r\<rparr>) e k = bp_ready (s\<lparr>bt_tree := r\<rparr>) e k"
  by (simp_all add: bp_ready_def)

lemma entry_keys: "\<forall>x \<in> set (inorder t). entry_address s x \<noteq> None \<Longrightarrow> \<forall>x \<in> set (inorder t). entry_address s x = Some (entry_key s x)"
  by (auto simp: entry_key_def)

lemma bp_holdsE:
  assumes "bp_holds s m"
  obtains t where "rb_tree (bt_tree s) t" "\<forall>x \<in> set (inorder t). entry_address s x = Some (entry_key s x)"
    "bst (entry_key s) t" "m = (\<lambda>k. map_option bp_container (find_node (entry_key s) k t))"
  using assms entry_keys unfolding bp_holds_def by blast

lemma find_internal_holds:
  assumes "bp_holds s m"
  shows "breakpoint_rb_find_internal k s = Some (case m k of None \<Rightarrow> NULL | Some e \<Rightarrow> e)"
    "m k = Some e \<Longrightarrow> e \<noteq> NULL \<and> (\<exists>en. bt_entries s e = Some en \<and> be_address en = k)"
proof -
  obtain t where t: "rb_tree (bt_tree s) t" "\<forall>x \<in> set (inorder t). entry_address s x = Some (entry_key s x)"
    "bst (entry_key s) t" "m = (\<lambda>k. map_option bp_container (find_node (entry_key s) k t))"
    using bp_holdsE[OF assms] .
  have "rb_search (entry_address s) k (rb_root (bt_tree s)) (bt_tree s) =
    Some (case find_node (entry_key s) k t of None \<Rightarrow> NULL | Some x \<Rightarrow> x)"
    using rb_search_tree[OF t(1,2)] .
  moreover have mem: "x \<noteq> NULL \<and> entry_address s x = Some k" if "find_node (entry_key s) k t = Some x" for x
    using that t(1,2) by (auto simp: find_node_iff[OF t(3)] dest: rb_tree_member(1))
  ultimately show "breakpoint_rb_find_internal k s = Some (case m k of None \<Rightarrow> NULL | Some e \<Rightarrow> e)"
    using t(4) by (cases "find_node (entry_key s) k t") (auto simp: breakpoint_rb_find_internal_def)
  show "e \<noteq> NULL \<and> (\<exists>en. bt_entries s e = Some en \<and> be_address en = k)" if "m k = Some e"
    using that t(4) mem by (auto simp: entry_address_def load_def split: if_splits)
qed

lemma entry_key_container: "bp_ready s e k \<Longrightarrow> entry_address s (bp_node e) = Some k \<and> entry_key s (bp_node e) = k"
  by (auto simp: bp_ready_def entry_address_def entry_key_def load_def)

lemma bp_ready_outside: "\<lbrakk>rb_tree (bt_tree s) t; bp_ready s e k\<rbrakk> \<Longrightarrow> bp_node e \<notin> set (inorder t)"
  using RB_EMPTY_NODE_outside[of "bt_tree s" t "bp_node e"] by (auto simp: bp_ready_def)

lemma bp_ready_same:
  assumes "bp_ready s e k" "rb_nodes r (bp_node e) = rb_nodes (bt_tree s) (bp_node e)"
  shows "bp_ready (s\<lparr>bt_tree := r\<rparr>) e k"
  using assms by (simp add: bp_ready_def)

lemma insert_internal_new:
  assumes h: "bp_holds s m" and e: "bp_ready s e k" and new: "m k = None"
  shows "\<exists>r. breakpoint_rb_insert_internal e s = Some (0, s\<lparr>bt_tree := r\<rparr>) \<and> bp_holds (s\<lparr>bt_tree := r\<rparr>) (m(k \<mapsto> e)) \<and>
    (\<forall>e' k'. e' \<noteq> e \<longrightarrow> bp_ready s e' k' \<longrightarrow> bp_ready (s\<lparr>bt_tree := r\<rparr>) e' k')"
proof -
  obtain t where t: "rb_tree (bt_tree s) t" "\<forall>x \<in> set (inorder t). entry_address s x = Some (entry_key s x)"
    "bst (entry_key s) t" "m = (\<lambda>k. map_option bp_container (find_node (entry_key s) k t))"
    using bp_holdsE[OF h] .
  let ?n = "bp_node e"
  have k: "entry_key s ?n = k" "entry_address s ?n = Some k" using entry_key_container[OF e] by auto
  have n: "?n \<notin> set (inorder t)" "?n \<noteq> NULL" "aligned ?n" "rb_nodes (bt_tree s) ?n \<noteq> None"
    using bp_ready_outside[OF t(1) e] e by (auto simp: bp_ready_def)
  have "find_node (entry_key s) (entry_key s ?n) t = None" using new t(4) k by simp
  from rb_insert_tree[OF t(1-3) n this] k(1) obtain tmp parent s1 r t' where
    ex: "rb_descend (entry_address s) k RootLink NULL (bt_tree s) = Some (Vacant tmp parent)"
      "rb_link_node ?n parent tmp (bt_tree s) = Some s1" "rb_insert_color ?n s1 = Some r"
    and r: "rb_tree r t'" "bst (entry_key s) t'" "set (inorder t') = insert ?n (set (inorder t))"
      "same_outside (insert ?n (set (inorder t))) (bt_tree s) r"
      "find_node (entry_key s) k t' = Some ?n"
      "\<And>k'. k' \<noteq> k \<Longrightarrow> find_node (entry_key s) k' t' = find_node (entry_key s) k' t"
    by blast
  have "breakpoint_rb_insert_internal e s = Some (0, s\<lparr>bt_tree := r\<rparr>)"
    using e ex by (auto simp: breakpoint_rb_insert_internal_def bp_ready_def rd_Some load_def)
  moreover have "bp_holds (s\<lparr>bt_tree := r\<rparr>) (m(k \<mapsto> e))"
    unfolding bp_holds_def using r t(2,4) k(2) by (intro exI[of _ t']) (auto simp: fun_eq_iff)
  moreover have "bp_ready (s\<lparr>bt_tree := r\<rparr>) e' k'" if "e' \<noteq> e" "bp_ready s e' k'" for e' k'
    using that bp_ready_outside[OF t(1) that(2)] r(4) by (intro bp_ready_same) (auto simp: same_outside_def)
  ultimately show ?thesis by blast
qed

lemma insert_internal_old:
  assumes h: "bp_holds s m" and e: "bp_ready s e k" and old: "m k \<noteq> None"
  shows "breakpoint_rb_insert_internal e s = Some (-1, s)"
proof -
  obtain t where t: "rb_tree (bt_tree s) t" "\<forall>x \<in> set (inorder t). entry_address s x = Some (entry_key s x)"
    "bst (entry_key s) t" "m = (\<lambda>k. map_option bp_container (find_node (entry_key s) k t))"
    using bp_holdsE[OF h] .
  have "rb_descend (entry_address s) k RootLink NULL (bt_tree s) = Some Present"
    using rb_descend_present[OF t(1-3)] old t(4) by auto
  then show ?thesis using e by (auto simp: breakpoint_rb_insert_internal_def bp_ready_def rd_Some load_def)
qed

lemma delete_internal_old:
  assumes h: "bp_holds s m" and old: "m k = Some e"
  shows "\<exists>r. breakpoint_rb_delete_internal k s = Some (e, s\<lparr>bt_tree := r\<rparr>) \<and>
    bp_holds (s\<lparr>bt_tree := r\<rparr>) (m(k := None)) \<and> bp_ready (s\<lparr>bt_tree := r\<rparr>) e k \<and>
    (\<forall>e' k'. bp_ready s e' k' \<longrightarrow> bp_ready (s\<lparr>bt_tree := r\<rparr>) e' k')"
proof -
  obtain t where t: "rb_tree (bt_tree s) t" "\<forall>x \<in> set (inorder t). entry_address s x = Some (entry_key s x)"
    "bst (entry_key s) t" "m = (\<lambda>k. map_option bp_container (find_node (entry_key s) k t))"
    using bp_holdsE[OF h] .
  let ?n = "bp_node e"
  note find = find_internal_holds(1)[OF h, of k] and mem = find_internal_holds(2)[OF h old]
  have x: "find_node (entry_key s) k t = Some ?n" using old t(4) by auto
  then have n: "?n \<in> set (inorder t)" "entry_key s ?n = k" using find_node_iff[OF t(3)] by auto
  note nm = rb_tree_member[OF t(1) n(1)]
  from rb_erase_tree[OF t(1,3) n(1)] n(2) obtain r1 t' where r1: "rb_erase ?n (bt_tree s) = Some r1"
    and r: "rb_tree r1 t'" "bst (entry_key s) t'" "set (inorder t') = set (inorder t) - {?n}"
      "same_outside (set (inorder t) - {?n}) (bt_tree s) r1" "find_node (entry_key s) k t' = None"
      "\<And>k'. k' \<noteq> k \<Longrightarrow> find_node (entry_key s) k' t' = find_node (entry_key s) k' t"
    by blast
  obtain p c l q where node: "rb_nodes (bt_tree s) ?n = Some (mk_node p c l q)" "aligned p" using nm(3) by blast
  then have node1: "rb_nodes r1 ?n = Some (mk_node p c l q)" using r(4) by (auto simp: same_outside_def)
  let ?r = "r1\<lparr>rb_nodes := (rb_nodes r1)(?n \<mapsto> mk_node ?n c l q)\<rparr>"
  have "breakpoint_rb_delete_internal k s = Some (e, s\<lparr>bt_tree := ?r\<rparr>)"
    using find old mem r1 node1 node(2) nm(1)
    by (simp add: breakpoint_rb_delete_internal_def wr_Some RB_CLEAR_NODE_def)
  moreover have "rb_tree ?r t'" using r(1,3) by (intro rb_tree_outside_cong[OF r(1)]) auto
  then have "bp_holds (s\<lparr>bt_tree := ?r\<rparr>) (m(k := None))"
    unfolding bp_holds_def using r t(2,4) by (intro exI[of _ t']) (auto simp: fun_eq_iff)
  moreover have "bp_ready (s\<lparr>bt_tree := ?r\<rparr>) e k" using mem nm(1,2) by (auto simp: bp_ready_def)
  moreover have "bp_ready (s\<lparr>bt_tree := ?r\<rparr>) e' k'" if "bp_ready s e' k'" for e' k'
    using that bp_ready_outside[OF t(1) that] n(1) r(4)
    by (intro bp_ready_same) (auto simp: same_outside_def)
  ultimately show ?thesis by blast
qed

section \<open>The table is an index\<close>

lemma bp_holds_find: "bp_holds s m \<Longrightarrow> \<not> breakpoint_lock s \<Longrightarrow>
    breakpoint_rb_find k s = Some (case m k of None \<Rightarrow> NULL | Some e \<Rightarrow> e, s)"
  by (simp add: breakpoint_rb_find_def find_internal_holds)

lemma search_insert_eq:
  assumes "bp_rel s m" "bp_ready s e k"
  shows "breakpoint_rb_search_insert e s = breakpoint_rb_insert e s"
proof -
  let ?s = "s\<lparr>breakpoint_lock := True\<rparr>"
  have h: "bp_holds ?s m" "bp_ready ?s e k" "\<not> breakpoint_lock s" using assms by (auto simp: bp_rel_def)
  obtain en where en: "bt_entries s e = Some en" "be_address en = k" "e \<noteq> NULL"
    using assms(2) by (auto simp: bp_ready_def)
  have "m k = Some x \<Longrightarrow> x \<noteq> NULL" for x using find_internal_holds(2)[OF h(1)] by blast
  then show ?thesis
    using h(3) en find_internal_holds(1)[OF h(1), of k] insert_internal_old[OF h(1,2)] insert_internal_new[OF h(1,2)]
    by (cases "m k") (auto simp: breakpoint_rb_search_insert_def breakpoint_rb_insert_def load_def)
qed

abbreviation bp_ins :: "addr \<Rightarrow> addr \<Rightarrow> bp_table \<Rightarrow> (int \<times> bp_table) option" where
  "bp_ins e k s \<equiv> breakpoint_rb_insert e s"

abbreviation bp_del :: "addr \<Rightarrow> bp_table \<Rightarrow> (index_reply \<times> bp_table) option" where
  "bp_del k s \<equiv> map_option (apfst Elem) (breakpoint_rb_delete k s)"

lemma lock_restored: "\<not> breakpoint_lock s \<Longrightarrow> s\<lparr>bt_tree := r, breakpoint_lock := False\<rparr> = s\<lparr>bt_tree := r\<rparr>"
  by simp

lemma rb_insert_new:
  assumes "bp_rel s m" "bp_ready s e k" "m k = None"
  shows "\<exists>r. breakpoint_rb_insert e s = Some (0, s\<lparr>bt_tree := r\<rparr>) \<and> bp_rel (s\<lparr>bt_tree := r\<rparr>) (m(k \<mapsto> e)) \<and>
    (\<forall>e' k'. e' \<noteq> e \<longrightarrow> bp_ready s e' k' \<longrightarrow> bp_ready (s\<lparr>bt_tree := r\<rparr>) e' k')"
proof -
  let ?s = "s\<lparr>breakpoint_lock := True\<rparr>"
  have h: "bp_holds ?s m" "bp_ready ?s e k" "\<not> breakpoint_lock s" using assms by (auto simp: bp_rel_def)
  obtain r where r: "breakpoint_rb_insert_internal e ?s = Some (0, ?s\<lparr>bt_tree := r\<rparr>)" "bp_holds (?s\<lparr>bt_tree := r\<rparr>) (m(k \<mapsto> e))"
    "\<And>e' k'. e' \<noteq> e \<Longrightarrow> bp_ready ?s e' k' \<Longrightarrow> bp_ready (?s\<lparr>bt_tree := r\<rparr>) e' k'"
    using insert_internal_new[OF h(1,2) assms(3)] by blast
  have "breakpoint_rb_insert e s = Some (0, s\<lparr>bt_tree := r\<rparr>)"
    using r(1) h(3) by (simp add: breakpoint_rb_insert_def lock_restored)
  moreover have "bp_holds (s\<lparr>bt_tree := r\<rparr>) (m(k \<mapsto> e))" using r(2) by simp
  moreover have "bp_ready (s\<lparr>bt_tree := r\<rparr>) e' k'" if "e' \<noteq> e" "bp_ready s e' k'" for e' k'
    using r(3)[OF that(1)] that(2) by simp
  ultimately show ?thesis using h(3) unfolding bp_rel_def by auto
qed

lemma rb_insert_old:
  assumes "bp_rel s m" "bp_ready s e k" "m k \<noteq> None"
  shows "breakpoint_rb_insert e s = Some (-1, s)"
proof -
  let ?s = "s\<lparr>breakpoint_lock := True\<rparr>"
  have h: "bp_holds ?s m" "bp_ready ?s e k" "\<not> breakpoint_lock s" using assms by (auto simp: bp_rel_def)
  then show ?thesis using insert_internal_old[OF h(1,2) assms(3)] by (simp add: breakpoint_rb_insert_def)
qed

lemma rb_delete_old:
  assumes "bp_rel s m" "m k = Some e"
  shows "\<exists>r. breakpoint_rb_delete k s = Some (e, s\<lparr>bt_tree := r\<rparr>) \<and> bp_rel (s\<lparr>bt_tree := r\<rparr>) (m(k := None)) \<and>
    bp_ready (s\<lparr>bt_tree := r\<rparr>) e k \<and> (\<forall>e' k'. bp_ready s e' k' \<longrightarrow> bp_ready (s\<lparr>bt_tree := r\<rparr>) e' k')"
proof -
  let ?s = "s\<lparr>breakpoint_lock := True\<rparr>"
  have h: "bp_holds ?s m" "\<not> breakpoint_lock s" using assms by (auto simp: bp_rel_def)
  obtain r where r: "breakpoint_rb_delete_internal k ?s = Some (e, ?s\<lparr>bt_tree := r\<rparr>)" "bp_holds (?s\<lparr>bt_tree := r\<rparr>) (m(k := None))"
    "bp_ready (?s\<lparr>bt_tree := r\<rparr>) e k" "\<And>e' k'. bp_ready ?s e' k' \<Longrightarrow> bp_ready (?s\<lparr>bt_tree := r\<rparr>) e' k'"
    using delete_internal_old[OF h(1) assms(2)] by blast
  have "breakpoint_rb_delete k s = Some (e, s\<lparr>bt_tree := r\<rparr>)"
    using r(1) h(2) by (simp add: breakpoint_rb_delete_def lock_restored)
  moreover have "bp_holds (s\<lparr>bt_tree := r\<rparr>) (m(k := None))" using r(2) by simp
  moreover have "bp_ready (s\<lparr>bt_tree := r\<rparr>) e' k'" if "bp_ready s e' k'" for e' k'
    using r(4) that by simp
  moreover have "bp_ready (s\<lparr>bt_tree := r\<rparr>) e k" using r(3) by simp
  ultimately show ?thesis using h(2) unfolding bp_rel_def by auto
qed

lemma rb_delete_new:
  assumes "bp_rel s m" "m k = None"
  shows "breakpoint_rb_delete k s = Some (NULL, s)"
  using assms find_internal_holds(1)[of "s\<lparr>breakpoint_lock := True\<rparr>" m k]
  by (simp add: breakpoint_rb_delete_def breakpoint_rb_delete_internal_def bp_rel_def)

interpretation bp_tree: reusable_index "\<lambda>_. True" bp_rel bp_ready breakpoint_rb_find bp_ins bp_del Elem "(=)"
proof
  fix s m k e
  show "bp_rel s m \<Longrightarrow> breakpoint_rb_find k s = Some (found m k, s)"
    using bp_holds_find[of s m k] by (simp add: bp_rel_def found_def)
  show "\<lbrakk>bp_rel s m; m k = Some e\<rbrakk> \<Longrightarrow> e \<noteq> NULL"
    using find_internal_holds(2) by (auto simp: bp_rel_def)
  show "bp_ready s e k \<Longrightarrow> True" by simp
  show "\<lbrakk>bp_rel s m; bp_ready s e k; m k = None; e \<noteq> NULL\<rbrakk> \<Longrightarrow> \<exists>s'. bp_ins e k s = Some (0, s') \<and> bp_rel s' (m(k \<mapsto> e)) \<and>
    (\<forall>e' k'. e' \<noteq> e \<longrightarrow> bp_ready s e' k' \<longrightarrow> bp_ready s' e' k')"
    using rb_insert_new by blast
  show "\<lbrakk>bp_rel s m; bp_ready s e k; m k \<noteq> None \<or> e = NULL\<rbrakk> \<Longrightarrow> \<exists>s'. bp_ins e k s = Some (-1, s') \<and> bp_rel s' m \<and>
    (\<forall>e' k'. bp_ready s e' k' \<longrightarrow> bp_ready s' e' k')"
    using rb_insert_old by (fastforce simp: bp_ready_def)
  show "bp_rel s m \<Longrightarrow> \<exists>s'. bp_del k s = Some (Elem (found m k), s') \<and> bp_rel s' (m(k := None)) \<and>
    (\<forall>e' k'. bp_ready s e' k' \<longrightarrow> bp_ready s' e' k')"
    using rb_delete_old[of s m k] rb_delete_new[of s m k] by (cases "m k") (fastforce simp: found_def fun_upd_idem)+
  show "\<lbrakk>bp_rel s m; m k = Some e; bp_del k s = Some (r, s'); k = k'\<rbrakk> \<Longrightarrow> bp_ready s' e k'" for r s' k'
    using rb_delete_old by fastforce
qed

section \<open>Entries outside the tree\<close>

lemma bp_holds_linked:
  assumes "bp_holds s m" "m k = Some e"
  shows "\<exists>n. rb_nodes (bt_tree s) (bp_node e) = Some n \<and> \<not> RB_EMPTY_NODE (bp_node e) n"
proof -
  obtain t where t: "rb_tree (bt_tree s) t" "\<forall>x \<in> set (inorder t). entry_address s x = Some (entry_key s x)"
    "bst (entry_key s) t" "m = (\<lambda>k. map_option bp_container (find_node (entry_key s) k t))"
    using bp_holdsE[OF assms(1)] .
  have "bp_node e \<in> set (inorder t)" using assms(2) t(4) find_node_iff[OF t(3)] by auto
  from rb_tree_member(3)[OF t(1) this] show ?thesis by auto
qed

text \<open>Writing the address field of an entry outside the tree keeps the table.\<close>

lemma bp_holds_entry_upd:
  assumes h: "bp_holds s m" and e: "bp_ready s e k"
  shows "bp_holds (s\<lparr>bt_entries := (bt_entries s)(e := v)\<rparr>) m"
proof -
  let ?s = "s\<lparr>bt_entries := (bt_entries s)(e := v)\<rparr>"
  obtain t where t: "rb_tree (bt_tree s) t" "\<forall>x \<in> set (inorder t). entry_address s x = Some (entry_key s x)"
    "bst (entry_key s) t" "m = (\<lambda>k. map_option bp_container (find_node (entry_key s) k t))"
    using bp_holdsE[OF h] .
  have "x \<in> set (inorder t) \<Longrightarrow> bp_container x \<noteq> e" for x using bp_ready_outside[OF t(1) e] by auto
  then have same: "x \<in> set (inorder t) \<Longrightarrow> entry_address ?s x = entry_address s x \<and> entry_key ?s x = entry_key s x" for x
    by (simp add: entry_address_def entry_key_def)
  then have "map (entry_key ?s) (inorder t) = map (entry_key s) (inorder t)" by auto
  then have "bst (entry_key ?s) t" using t(3) unfolding bst_def sorted_keys_def by (simp only:)
  moreover have "find_node (entry_key ?s) k t = find_node (entry_key s) k t" for k
    using same by (intro find_node_cong) auto
  ultimately show ?thesis unfolding bp_holds_def using t(1,2,4) same by (intro exI[of _ t]) auto
qed

section \<open>Properties\<close>

text \<open>
  C11: any sequence of insertions, deletions by address and lookups runs to its end with the return values of a
  finite map from addresses to entries: 0 for an insertion under a new address and -1 for one under an address that is
  taken, the entry that is removed or \<^verbatim>\<open>NULL\<close> for a deletion, the entry or \<^verbatim>\<open>NULL\<close> for a lookup.  The table holds what the map
  holds in the end.  An entry may be inserted when it is initialised for its address and not in the table; a deleted entry may be
  inserted again as it is, because the deletion clears its node, and so may a refused one.
\<close>

theorem breakpoint_table_refines_map:
  assumes "bp_rel s m" "admissible (=) (bp_ready s) ops m"
  shows "\<exists>s'. exec_ops breakpoint_rb_find bp_ins bp_del ops s = Some (fst (index_run Elem ops m), s') \<and>
    bp_rel s' (snd (index_run Elem ops m))"
  using assms by (intro bp_tree.exec_ops_spec) simp_all

definition sample_table :: bp_table where
  "sample_table = \<lparr>bt_tree = \<lparr>rb_nodes = [0x108 \<mapsto> mk_node 0x108 Red NULL NULL, 0x208 \<mapsto> mk_node 0x208 Red NULL NULL], rb_root = NULL\<rparr>,
     bt_entries = [0x100 \<mapsto> \<lparr>be_address = 0x4000, be_bkpt = 0x80\<rparr>, 0x200 \<mapsto> \<lparr>be_address = 0x5000, be_bkpt = 0x80\<rparr>],
     breakpoint_lock = False\<rparr>"

lemma sample_table_rel: "bp_rel sample_table Map.empty"
  by (auto simp: bp_rel_def bp_holds_def sample_table_def intro!: exI[of _ E] rb_tree_E simp: bst_def)

lemma sample_table_ready: "bp_ready sample_table 0x100 0x4000" "bp_ready sample_table 0x200 0x5000"
  by (simp_all add: bp_ready_def sample_table_def rb_node_offset_def aligned_def)

text \<open>Two entries with different addresses; the first is deleted, is not found and not deleted a second time, and is inserted again.\<close>

theorem breakpoint_table_refines_map_witness:
  "\<exists>s'. exec_ops breakpoint_rb_find bp_ins bp_del [Insert 0x100 0x4000, Insert 0x200 0x5000, Delete 0x4000, Lookup 0x4000,
      Delete 0x4000, Insert 0x100 0x4000, Lookup 0x4000, Delete 0x5000] sample_table =
    Some ([Status 0, Status 0, Elem 0x100, Elem NULL, Elem NULL, Status 0, Elem 0x100, Elem 0x200], s') \<and>
    bp_rel s' [0x4000 \<mapsto> 0x100]"
proof -
  let ?ops = "[Insert 0x100 0x4000, Insert 0x200 0x5000, Delete 0x4000, Lookup 0x4000,
    Delete 0x4000, Insert 0x100 0x4000, Lookup 0x4000, Delete 0x5000] :: addr index_op list"
  have m: "index_run Elem ?ops Map.empty =
    ([Status 0, Status 0, Elem 0x100, Elem NULL, Elem NULL, Status 0, Elem 0x100, Elem 0x200], [0x4000 \<mapsto> 0x100])"
    by (simp add: found_def fun_upd_twist fun_eq_iff)
  have "admissible (=) (bp_ready sample_table) ?ops Map.empty" by (simp add: sample_table_ready)
  from breakpoint_table_refines_map[OF sample_table_rel this] show ?thesis unfolding m by simp
qed

text \<open>
  After the insertion of an entry, \<^verbatim>\<open>breakpoint_find\<close> of its address returns the breakpoint it belongs to, a
  second entry for the address is refused with -1 and changes nothing, and other addresses are found as before.
\<close>

theorem breakpoint_insert_find:
  assumes "bp_rel s m" "bp_ready s e k" "m k = None" "bt_entries s e = Some en" "be_bkpt en = p"
    and "bp_ready s e' k" "e' \<noteq> e"
  shows "\<exists>s'. breakpoint_rb_search_insert e s = Some (0, s') \<and> breakpoint_find k s' = Some (p, s') \<and>
    breakpoint_rb_search_insert e' s' = Some (-1, s') \<and>
    (\<forall>k'. k' \<noteq> k \<longrightarrow> map_option fst (breakpoint_find k' s') = map_option fst (breakpoint_find k' s))"
proof -
  obtain r where r: "breakpoint_rb_search_insert e s = Some (0, s\<lparr>bt_tree := r\<rparr>)"
    "bp_rel (s\<lparr>bt_tree := r\<rparr>) (m(k \<mapsto> e))" "bp_ready (s\<lparr>bt_tree := r\<rparr>) e' k"
    using rb_insert_new[OF assms(1-3)] search_insert_eq[OF assms(1,2)] assms(6,7) by auto
  let ?s = "s\<lparr>bt_tree := r\<rparr>"
  have e: "e \<noteq> NULL" using assms(2) by (simp add: bp_ready_def)
  have find: "breakpoint_rb_find j t = Some (case n j of None \<Rightarrow> NULL | Some x \<Rightarrow> x, t)" if "bp_rel t n" for j t n
    using that bp_holds_find[of t n j] by (simp add: bp_rel_def)
  have "breakpoint_find k ?s = Some (p, ?s)"
    using find[OF r(2), of k] e assms(4,5) by (simp add: breakpoint_find_def load_def)
  moreover have "breakpoint_rb_search_insert e' ?s = Some (-1, ?s)"
    using rb_insert_old[OF r(2,3)] search_insert_eq[OF r(2,3)] by simp
  moreover have "map_option fst (breakpoint_find k' ?s) = map_option fst (breakpoint_find k' s)" if "k' \<noteq> k" for k'
  proof (cases "m k'")
    case (Some x)
    have "x \<noteq> NULL" using bp_tree.member_law[OF assms(1) Some] .
    then show ?thesis
      using find[OF r(2), of k'] find[OF assms(1), of k'] that Some
      by (cases "bt_entries s x") (simp_all add: breakpoint_find_def load_def)
  qed (use find[OF r(2), of k'] find[OF assms(1), of k'] that in \<open>simp add: breakpoint_find_def\<close>)
  ultimately show ?thesis using r(1) by blast
qed

theorem breakpoint_insert_find_witness:
  "\<exists>s'. breakpoint_rb_search_insert 0x100 (sample_table\<lparr>bt_entries := (bt_entries sample_table)(0x200 \<mapsto> \<lparr>be_address = 0x4000, be_bkpt = 0x90\<rparr>)\<rparr>) = Some (0, s') \<and>
    breakpoint_find 0x4000 s' = Some (0x80, s') \<and> breakpoint_rb_search_insert 0x200 s' = Some (-1, s')"
proof -
  let ?s = "sample_table\<lparr>bt_entries := (bt_entries sample_table)(0x200 \<mapsto> \<lparr>be_address = 0x4000, be_bkpt = 0x90\<rparr>)\<rparr>"
  have "bp_rel ?s Map.empty"
    by (auto simp: bp_rel_def bp_holds_def sample_table_def intro!: exI[of _ E] rb_tree_E simp: bst_def)
  moreover have "bp_ready ?s 0x100 0x4000" "bp_ready ?s 0x200 0x4000"
    by (simp_all add: bp_ready_def sample_table_def rb_node_offset_def aligned_def)
  moreover have "bt_entries ?s 0x100 = Some \<lparr>be_address = 0x4000, be_bkpt = 0x80\<rparr>" by (simp add: sample_table_def)
  ultimately show ?thesis
    using breakpoint_insert_find[of ?s Map.empty "0x100" "0x4000" _ "0x80" "0x200"] by auto
qed

end
