(* ===== verification/Intrusive_List.thy ===== *)
theory Intrusive_List
  imports Prelude
begin

text \<open>
  The circular doubly linked lists of \<^verbatim>\<open>signal_test/list.h\<close>: the heap of \<^verbatim>\<open>struct list_head\<close>, the
  operations of the header in its order, the predicate \<^verbatim>\<open>ring\<close> that says which sequence of
  entries a list head stands for, and the refinement of every operation to the corresponding
  operation on sequences.  The \<^verbatim>\<open>list_del\<close> of \<^verbatim>\<open>include/list.h\<close> (which poisons the removed
  entry) is modelled too.
\<close>

section \<open>Operations\<close>

record list_head =
  lh_next :: addr
  lh_prev :: addr

type_synonym list_heap = "list_head heap"

abbreviation get_next :: "list_heap \<Rightarrow> addr \<Rightarrow> addr option" where
  "get_next h p \<equiv> map_option lh_next (load h p)"

abbreviation get_prev :: "list_heap \<Rightarrow> addr \<Rightarrow> addr option" where
  "get_prev h p \<equiv> map_option lh_prev (load h p)"

abbreviation set_next :: "list_heap \<Rightarrow> addr \<Rightarrow> addr \<Rightarrow> list_heap option" where
  "set_next h p v \<equiv> modify h p (\<lambda>n. n\<lparr>lh_next := v\<rparr>)"

abbreviation set_prev :: "list_heap \<Rightarrow> addr \<Rightarrow> addr \<Rightarrow> list_heap option" where
  "set_prev h p v \<equiv> modify h p (\<lambda>n. n\<lparr>lh_prev := v\<rparr>)"

definition INIT_LIST_HEAD :: "addr \<Rightarrow> list_heap \<Rightarrow> list_heap option" where
  "INIT_LIST_HEAD l h = do {
     h \<leftarrow> set_next h l l;
     set_prev h l l }"

definition list_add_internal :: "addr \<Rightarrow> addr \<Rightarrow> addr \<Rightarrow> list_heap \<Rightarrow> list_heap option" where
  "list_add_internal new prv nxt h = do {
     h \<leftarrow> set_prev h nxt new;
     h \<leftarrow> set_next h new nxt;
     h \<leftarrow> set_prev h new prv;
     set_next h prv new }"

definition list_add :: "addr \<Rightarrow> addr \<Rightarrow> list_heap \<Rightarrow> list_heap option" where
  "list_add new head h = do {
     nxt \<leftarrow> get_next h head;
     list_add_internal new head nxt h }"

definition list_add_tail :: "addr \<Rightarrow> addr \<Rightarrow> list_heap \<Rightarrow> list_heap option" where
  "list_add_tail new head h = do {
     prv \<leftarrow> get_prev h head;
     list_add_internal new prv head h }"

definition list_del_internal :: "addr \<Rightarrow> addr \<Rightarrow> list_heap \<Rightarrow> list_heap option" where
  "list_del_internal prv nxt h = do {
     h \<leftarrow> set_prev h nxt prv;
     set_next h prv nxt }"

definition list_del :: "addr \<Rightarrow> list_heap \<Rightarrow> list_heap option" where
  "list_del entry h = do {
     prv \<leftarrow> get_prev h entry;
     nxt \<leftarrow> get_next h entry;
     h \<leftarrow> list_del_internal prv nxt h;
     INIT_LIST_HEAD entry h }"

definition LIST_POISON1 :: addr where
  "LIST_POISON1 = 0x00100100"

definition LIST_POISON2 :: addr where
  "LIST_POISON2 = 0x00200200"

definition list_del_poison :: "addr \<Rightarrow> list_heap \<Rightarrow> list_heap option" where
  "list_del_poison entry h = do {
     prv \<leftarrow> get_prev h entry;
     nxt \<leftarrow> get_next h entry;
     h \<leftarrow> list_del_internal prv nxt h;
     h \<leftarrow> set_next h entry LIST_POISON1;
     set_prev h entry LIST_POISON2 }"

definition list_replace :: "addr \<Rightarrow> addr \<Rightarrow> list_heap \<Rightarrow> list_heap option" where
  "list_replace old new h = do {
     nxt \<leftarrow> get_next h old;
     h \<leftarrow> set_next h new nxt;
     nxt \<leftarrow> get_next h new;
     h \<leftarrow> set_prev h nxt new;
     prv \<leftarrow> get_prev h old;
     h \<leftarrow> set_prev h new prv;
     prv \<leftarrow> get_prev h new;
     set_next h prv new }"

definition list_replace_init :: "addr \<Rightarrow> addr \<Rightarrow> list_heap \<Rightarrow> list_heap option" where
  "list_replace_init old new h = do {
     h \<leftarrow> list_replace old new h;
     INIT_LIST_HEAD old h }"

definition list_del_init :: "addr \<Rightarrow> list_heap \<Rightarrow> list_heap option" where
  "list_del_init entry h = do {
     prv \<leftarrow> get_prev h entry;
     nxt \<leftarrow> get_next h entry;
     h \<leftarrow> list_del_internal prv nxt h;
     INIT_LIST_HEAD entry h }"

definition list_move :: "addr \<Rightarrow> addr \<Rightarrow> list_heap \<Rightarrow> list_heap option" where
  "list_move l head h = do {
     prv \<leftarrow> get_prev h l;
     nxt \<leftarrow> get_next h l;
     h \<leftarrow> list_del_internal prv nxt h;
     list_add l head h }"

definition list_move_tail :: "addr \<Rightarrow> addr \<Rightarrow> list_heap \<Rightarrow> list_heap option" where
  "list_move_tail l head h = do {
     prv \<leftarrow> get_prev h l;
     nxt \<leftarrow> get_next h l;
     h \<leftarrow> list_del_internal prv nxt h;
     list_add_tail l head h }"

definition list_is_last :: "addr \<Rightarrow> addr \<Rightarrow> list_heap \<Rightarrow> bool option" where
  "list_is_last l head h = do {
     nxt \<leftarrow> get_next h l;
     Some (nxt = head) }"

definition list_empty :: "addr \<Rightarrow> list_heap \<Rightarrow> bool option" where
  "list_empty head h = do {
     nxt \<leftarrow> get_next h head;
     Some (nxt = head) }"

definition list_empty_careful :: "addr \<Rightarrow> list_heap \<Rightarrow> bool option" where
  "list_empty_careful head h = do {
     nxt \<leftarrow> get_next h head;
     if nxt = head then do {
       prv \<leftarrow> get_prev h head;
       Some (nxt = prv) }
     else Some False }"

definition list_splice_internal :: "addr \<Rightarrow> addr \<Rightarrow> list_heap \<Rightarrow> list_heap option" where
  "list_splice_internal l head h = do {
     first \<leftarrow> get_next h l;
     last \<leftarrow> get_prev h l;
     at \<leftarrow> get_next h head;
     h \<leftarrow> set_prev h first head;
     h \<leftarrow> set_next h head first;
     h \<leftarrow> set_next h last at;
     set_prev h at last }"

definition list_splice :: "addr \<Rightarrow> addr \<Rightarrow> list_heap \<Rightarrow> list_heap option" where
  "list_splice l head h = do {
     e \<leftarrow> list_empty l h;
     if \<not> e then list_splice_internal l head h else Some h }"

definition list_splice_init :: "addr \<Rightarrow> addr \<Rightarrow> list_heap \<Rightarrow> list_heap option" where
  "list_splice_init l head h = do {
     e \<leftarrow> list_empty l h;
     if \<not> e then do {
       h \<leftarrow> list_splice_internal l head h;
       INIT_LIST_HEAD l h }
     else Some h }"

text \<open>
  The iteration macros.  \<^verbatim>\<open>list_for_each\<close> and \<^verbatim>\<open>list_for_each_prev\<close> collect the entries in the
  order in which the loop body sees them.  \<^verbatim>\<open>list_for_each_entry\<close> is used by the program with a
  body that stops the loop at the first entry that satisfies a test; the test may dereference
  the object around the entry, so it may fail.
\<close>

partial_function (option) list_for_each_from :: "list_heap \<Rightarrow> addr \<Rightarrow> addr \<Rightarrow> addr list option" where
  "list_for_each_from h head pos =
     (if pos = head then Some []
      else do {
        nxt \<leftarrow> get_next h pos;
        rest \<leftarrow> list_for_each_from h head nxt;
        Some (pos # rest) })"

definition list_for_each :: "addr \<Rightarrow> list_heap \<Rightarrow> addr list option" where
  "list_for_each head h = do {
     first \<leftarrow> get_next h head;
     list_for_each_from h head first }"

partial_function (option) list_for_each_prev_from :: "list_heap \<Rightarrow> addr \<Rightarrow> addr \<Rightarrow> addr list option" where
  "list_for_each_prev_from h head pos =
     (if pos = head then Some []
      else do {
        prv \<leftarrow> get_prev h pos;
        rest \<leftarrow> list_for_each_prev_from h head prv;
        Some (pos # rest) })"

definition list_for_each_prev :: "addr \<Rightarrow> list_heap \<Rightarrow> addr list option" where
  "list_for_each_prev head h = do {
     last \<leftarrow> get_prev h head;
     list_for_each_prev_from h head last }"

partial_function (option) list_find_from ::
  "list_heap \<Rightarrow> (addr \<Rightarrow> bool option) \<Rightarrow> addr \<Rightarrow> addr \<Rightarrow> addr option option" where
  "list_find_from h test head pos =
     (if pos = head then Some None
      else do {
        b \<leftarrow> test pos;
        if b then Some (Some pos)
        else do {
          nxt \<leftarrow> get_next h pos;
          list_find_from h test head nxt } })"

definition list_for_each_entry :: "list_heap \<Rightarrow> (addr \<Rightarrow> bool option) \<Rightarrow> addr \<Rightarrow> addr option option" where
  "list_for_each_entry h test head = do {
     first \<leftarrow> get_next h head;
     list_find_from h test head first }"

section \<open>Link fields as maps\<close>

text \<open>
  The two link fields of all live list heads, as maps.  A successful field assignment is an
  update of one of the maps; the lemmas below compute the maps after each internal operation.
\<close>

definition nexts :: "list_heap \<Rightarrow> addr \<rightharpoonup> addr" where
  "nexts h = (\<lambda>p. get_next h p)"

definition prevs :: "list_heap \<Rightarrow> addr \<rightharpoonup> addr" where
  "prevs h = (\<lambda>p. get_prev h p)"

definition live :: "list_heap \<Rightarrow> addr \<Rightarrow> bool" where
  "live h p \<longleftrightarrow> load h p \<noteq> None"

named_theorems link_simps \<open>the link maps after an operation\<close>

lemma live_nexts: "nexts h p = Some q \<Longrightarrow> live h p"
  by (auto simp: nexts_def live_def)

lemma live_prevs: "prevs h p = Some q \<Longrightarrow> live h p"
  by (auto simp: prevs_def live_def)

lemma get_next_nexts: "get_next h p = nexts h p"
  by (simp add: nexts_def)

lemma get_prev_prevs: "get_prev h p = prevs h p"
  by (simp add: prevs_def)

text \<open>
  \<^verbatim>\<open>relinked h S h'\<close>: the operation turned \<^verbatim>\<open>h\<close> into \<^verbatim>\<open>h'\<close> by assigning fields of the list heads in
  \<^verbatim>\<open>S\<close> only, and neither allocated nor freed one.
\<close>

definition relinked :: "list_heap \<Rightarrow> addr set \<Rightarrow> list_heap \<Rightarrow> bool" where
  "relinked h S h' \<longleftrightarrow> (\<forall>p. p \<notin> S \<longrightarrow> h' p = h p) \<and> (\<forall>p. live h' p = live h p)"

lemma relinked_refl [simp]: "relinked h S h"
  by (simp add: relinked_def)

lemma relinked_trans: "\<lbrakk>relinked h S h'; relinked h' T h''\<rbrakk> \<Longrightarrow> relinked h (S \<union> T) h''"
  by (auto simp: relinked_def)

lemma relinked_mono: "\<lbrakk>relinked h S h'; S \<subseteq> T\<rbrakk> \<Longrightarrow> relinked h T h'"
  by (auto simp: relinked_def)

lemma relinked_live: "relinked h S h' \<Longrightarrow> live h' p = live h p"
  by (simp add: relinked_def)

lemma relinked_eq: "\<lbrakk>relinked h S h'; p \<notin> S\<rbrakk> \<Longrightarrow> h' p = h p"
  by (simp add: relinked_def)

lemma set_next_ok:
  assumes "live h p"
  obtains h' where "set_next h p v = Some h'" "nexts h' = (nexts h)(p \<mapsto> v)" "prevs h' = prevs h"
    "relinked h {p} h'"
proof -
  obtain n where n: "load h p = Some n" using assms by (auto simp: live_def)
  let ?h = "h(p \<mapsto> n\<lparr>lh_next := v\<rparr>)"
  have "p \<noteq> NULL" using n by (auto simp: load_def)
  then have "set_next h p v = Some ?h" "nexts ?h = (nexts h)(p \<mapsto> v)" "prevs ?h = prevs h" "relinked h {p} ?h"
    using n by (auto simp: modify_Some nexts_def prevs_def relinked_def live_def load_upd fun_eq_iff)
  then show ?thesis by (rule that)
qed

lemma set_prev_ok:
  assumes "live h p"
  obtains h' where "set_prev h p v = Some h'" "nexts h' = nexts h" "prevs h' = (prevs h)(p \<mapsto> v)"
    "relinked h {p} h'"
proof -
  obtain n where n: "load h p = Some n" using assms by (auto simp: live_def)
  let ?h = "h(p \<mapsto> n\<lparr>lh_prev := v\<rparr>)"
  have "p \<noteq> NULL" using n by (auto simp: load_def)
  then have "set_prev h p v = Some ?h" "nexts ?h = nexts h" "prevs ?h = (prevs h)(p \<mapsto> v)" "relinked h {p} ?h"
    using n by (auto simp: modify_Some nexts_def prevs_def relinked_def live_def load_upd fun_eq_iff)
  then show ?thesis by (rule that)
qed

lemma INIT_LIST_HEAD_ok:
  assumes "live h l"
  obtains h' where "INIT_LIST_HEAD l h = Some h'" "nexts h' = (nexts h)(l \<mapsto> l)"
    "prevs h' = (prevs h)(l \<mapsto> l)" "relinked h {l} h'"
proof -
  obtain h1 where 1: "set_next h l l = Some h1" "nexts h1 = (nexts h)(l \<mapsto> l)"
    "prevs h1 = prevs h" "relinked h {l} h1"
    using assms by (rule set_next_ok)
  then have "live h1 l" using assms by (simp add: relinked_live)
  then obtain h2 where 2: "set_prev h1 l l = Some h2" "nexts h2 = nexts h1"
    "prevs h2 = (prevs h1)(l \<mapsto> l)" "relinked h1 {l} h2"
    by (rule set_prev_ok)
  show ?thesis
    using that[of h2] 1 2 relinked_trans[OF 1(4) 2(4)] by (simp add: INIT_LIST_HEAD_def)
qed

lemma list_add_internal_ok:
  assumes "live h new" "live h prv" "live h nxt"
  obtains h' where "list_add_internal new prv nxt h = Some h'"
    "nexts h' = (nexts h)(new \<mapsto> nxt, prv \<mapsto> new)"
    "prevs h' = (prevs h)(nxt \<mapsto> new, new \<mapsto> prv)"
    "relinked h {new, prv, nxt} h'"
proof -
  obtain h1 where 1: "set_prev h nxt new = Some h1" "nexts h1 = nexts h"
    "prevs h1 = (prevs h)(nxt \<mapsto> new)" "relinked h {nxt} h1"
    using assms(3) by (rule set_prev_ok)
  then have "live h1 new" using assms by (simp add: relinked_live)
  then obtain h2 where 2: "set_next h1 new nxt = Some h2" "nexts h2 = (nexts h1)(new \<mapsto> nxt)"
    "prevs h2 = prevs h1" "relinked h1 {new} h2"
    by (rule set_next_ok)
  have r2: "relinked h ({nxt} \<union> {new}) h2" using 1(4) 2(4) by (rule relinked_trans)
  then have "live h2 new" using assms by (simp add: relinked_live)
  then obtain h3 where 3: "set_prev h2 new prv = Some h3" "nexts h3 = nexts h2"
    "prevs h3 = (prevs h2)(new \<mapsto> prv)" "relinked h2 {new} h3"
    by (rule set_prev_ok)
  have r3: "relinked h ({nxt} \<union> {new} \<union> {new}) h3" using r2 3(4) by (rule relinked_trans)
  then have "live h3 prv" using assms by (simp add: relinked_live)
  then obtain h4 where 4: "set_next h3 prv new = Some h4" "nexts h4 = (nexts h3)(prv \<mapsto> new)"
    "prevs h4 = prevs h3" "relinked h3 {prv} h4"
    by (rule set_next_ok)
  have "relinked h {new, prv, nxt} h4"
    using relinked_trans[OF r3 4(4)] by (rule relinked_mono) auto
  then show ?thesis
    using that[of h4] 1 2 3 4 by (simp add: list_add_internal_def)
qed

lemma list_del_internal_ok:
  assumes "live h prv" "live h nxt"
  obtains h' where "list_del_internal prv nxt h = Some h'"
    "nexts h' = (nexts h)(prv \<mapsto> nxt)" "prevs h' = (prevs h)(nxt \<mapsto> prv)"
    "relinked h {prv, nxt} h'"
proof -
  obtain h1 where 1: "set_prev h nxt prv = Some h1" "nexts h1 = nexts h"
    "prevs h1 = (prevs h)(nxt \<mapsto> prv)" "relinked h {nxt} h1"
    using assms(2) by (rule set_prev_ok)
  then have "live h1 prv" using assms by (simp add: relinked_live)
  then obtain h2 where 2: "set_next h1 prv nxt = Some h2" "nexts h2 = (nexts h1)(prv \<mapsto> nxt)"
    "prevs h2 = prevs h1" "relinked h1 {prv} h2"
    by (rule set_next_ok)
  have "relinked h {prv, nxt} h2"
    using relinked_trans[OF 1(4) 2(4)] by (rule relinked_mono) auto
  then show ?thesis
    using that[of h2] 1 2 by (simp add: list_del_internal_def)
qed

section \<open>Chains and rings\<close>

text \<open>
  \<^verbatim>\<open>chain N xs\<close>: the link map \<^verbatim>\<open>N\<close> leads from each element of \<^verbatim>\<open>xs\<close> to the one after it.  The list
  with head \<^verbatim>\<open>hd\<close> and entries \<^verbatim>\<open>xs\<close> is a ring when the \<^verbatim>\<open>next\<close> fields run through the cycle
  \<^verbatim>\<open>hd, xs, hd\<close> and the \<^verbatim>\<open>prev\<close> fields through its reverse.
\<close>

fun chain :: "(addr \<rightharpoonup> addr) \<Rightarrow> addr list \<Rightarrow> bool" where
  "chain N (a # b # xs) \<longleftrightarrow> N a = Some b \<and> chain N (b # xs)"
| "chain N _ \<longleftrightarrow> True"

definition ring :: "list_heap \<Rightarrow> addr \<Rightarrow> addr list \<Rightarrow> bool" where
  "ring h head xs \<longleftrightarrow>
     distinct (head # xs) \<and> chain (nexts h) (head # xs @ [head]) \<and>
     chain (prevs h) (head # rev xs @ [head])"

lemma chain_Cons: "ys \<noteq> [] \<Longrightarrow> chain N (x # ys) \<longleftrightarrow> N x = Some (hd ys) \<and> chain N ys"
  by (cases ys) auto

lemma chain_append:
  "\<lbrakk>xs \<noteq> []; ys \<noteq> []\<rbrakk> \<Longrightarrow>
     chain N (xs @ ys) \<longleftrightarrow> chain N xs \<and> N (last xs) = Some (hd ys) \<and> chain N ys"
proof (induction xs)
  case (Cons x xs)
  then show ?case by (cases xs) (auto simp: chain_Cons)
qed simp

text \<open>A chain reads the links of all its elements but the last.\<close>

lemma chain_upd: "p \<notin> set (butlast xs) \<Longrightarrow> chain (N(p := v)) xs = chain N xs"
  by (induction N xs rule: chain.induct) auto

lemma chain_cong:
  "(\<And>p. p \<in> set (butlast xs) \<Longrightarrow> N' p = N p) \<Longrightarrow> chain N' xs = chain N xs"
  by (induction N xs rule: chain.induct) auto

lemma last_notin_butlast: "\<lbrakk>xs \<noteq> []; distinct xs\<rbrakk> \<Longrightarrow> last xs \<notin> set (butlast xs)"
  by (cases xs rule: rev_cases) auto

lemma chain_insert:
  assumes "chain N (xs @ ys)" "xs \<noteq> []" "ys \<noteq> []" "distinct (xs @ butlast ys)"
    and "new \<notin> set (xs @ ys)"
  shows "chain (N(new \<mapsto> hd ys, last xs \<mapsto> new)) (xs @ new # ys)"
proof -
  have "last xs \<notin> set (butlast xs)"
    using assms(2,4) by (simp add: last_notin_butlast)
  moreover have "last xs \<notin> set (butlast ys)"
    using assms(2,4) by (metis disjoint_iff distinct_append last_in_set)
  moreover have "last xs \<noteq> new" using assms(2,5) last_in_set by fastforce
  moreover have "new \<notin> set (butlast xs)" "new \<notin> set (butlast ys)"
    using assms(5) in_set_butlastD by fastforce+
  ultimately show ?thesis
    using assms by (auto simp: chain_append chain_Cons chain_upd)
qed

lemma chain_delete:
  assumes "chain N (xs @ x # ys)" "xs \<noteq> []" "ys \<noteq> []" "distinct (xs @ butlast ys)"
  shows "chain (N(last xs \<mapsto> hd ys)) (xs @ ys)"
proof -
  have "last xs \<notin> set (butlast xs)"
    using assms(2,4) by (simp add: last_notin_butlast)
  moreover have "last xs \<notin> set (butlast ys)"
    using assms(2,4) by (metis disjoint_iff distinct_append last_in_set)
  ultimately show ?thesis
    using assms by (auto simp: chain_append chain_Cons chain_upd)
qed

lemma chain_join3:
  assumes "chain N as" "chain N bs" "chain N cs" "as \<noteq> []" "bs \<noteq> []" "cs \<noteq> []"
    and d: "distinct (as @ bs @ butlast cs)"
  shows "chain (N(last as \<mapsto> hd bs, last bs \<mapsto> hd cs)) (as @ bs @ cs)"
proof -
  have m: "last as \<in> set as" "last bs \<in> set bs" using assms by auto
  have "last as \<notin> set (butlast as)" "last as \<notin> set (butlast bs)" "last as \<notin> set (butlast cs)"
    "last bs \<notin> set (butlast as)" "last bs \<notin> set (butlast bs)" "last bs \<notin> set (butlast cs)"
    "last as \<noteq> last bs"
    using assms last_notin_butlast[of as] last_notin_butlast[of bs] m
    by (auto simp del: last_in_set simp: disjoint_iff dest: in_set_butlastD)
  then show ?thesis using assms by (simp add: chain_append chain_upd)
qed

lemma ring_nextsI: "ring h head xs \<Longrightarrow> nexts h head = Some (hd (xs @ [head]))"
  by (simp add: ring_def chain_Cons)

lemma ring_prevsI: "ring h head xs \<Longrightarrow> prevs h head = Some (last (head # xs))"
  by (cases xs rule: rev_cases) (auto simp: ring_def chain_Cons)

lemma chain_middle: "chain N (xs @ x # ys) \<Longrightarrow> ys \<noteq> [] \<Longrightarrow> N x = Some (hd ys)"
  by (cases "xs = []") (auto simp: chain_append chain_Cons)

lemma ring_next_mid: "ring h head (as @ x # bs) \<Longrightarrow> nexts h x = Some (hd (bs @ [head]))"
  using chain_middle[of "nexts h" "head # as" x "bs @ [head]"] by (simp add: ring_def)

lemma ring_prev_mid: "ring h head (as @ x # bs) \<Longrightarrow> prevs h x = Some (last (head # as))"
  using chain_middle[of "prevs h" "head # rev bs" x "rev as @ [head]"]
  by (auto simp: ring_def hd_append hd_rev)

lemma ring_live: "\<lbrakk>ring h head xs; x = head \<or> x \<in> set xs\<rbrakk> \<Longrightarrow> live h x"
  by (metis in_set_conv_decomp live_nexts ring_next_mid ring_nextsI)

lemma ring_distinct: "ring h head xs \<Longrightarrow> distinct (head # xs)"
  by (simp add: ring_def)

lemma ring_cong:
  assumes "ring h head xs" "\<And>p. p \<in> set (head # xs) \<Longrightarrow> h' p = h p"
  shows "ring h' head xs"
proof -
  have eq: "load h' p = load h p" if "p \<in> set (head # xs)" for p
    using assms(2)[OF that] by (simp add: load_def)
  then have "chain (nexts h') (head # xs @ [head]) = chain (nexts h) (head # xs @ [head])"
    "chain (prevs h') (head # rev xs @ [head]) = chain (prevs h) (head # rev xs @ [head])"
    by (auto intro!: chain_cong simp: nexts_def prevs_def butlast_append)
  then show ?thesis using assms(1) by (simp add: ring_def)
qed

lemma ring_relinked:
  "\<lbrakk>ring h head xs; relinked h S h'; S \<inter> set (head # xs) = {}\<rbrakk> \<Longrightarrow> ring h' head xs"
  by (erule ring_cong) (auto simp: relinked_def)

text \<open>Allocation and release of a list head outside a ring.\<close>

lemma ring_alloc: "\<lbrakk>ring h head xs; x \<notin> insert head (set xs)\<rbrakk> \<Longrightarrow> ring (h(x := v)) head xs"
  by (erule ring_cong) auto

section \<open>Every operation on rings\<close>

text \<open>The list heads an operation on one list may touch.\<close>

abbreviation footprint :: "addr \<Rightarrow> addr list \<Rightarrow> addr set" where
  "footprint head xs \<equiv> insert head (set xs)"

lemma INIT_LIST_HEAD_ring:
  assumes "live h l"
  shows "\<exists>h'. INIT_LIST_HEAD l h = Some h' \<and> ring h' l [] \<and> relinked h {l} h'"
proof -
  obtain h' where "INIT_LIST_HEAD l h = Some h'" "nexts h' = (nexts h)(l \<mapsto> l)"
    "prevs h' = (prevs h)(l \<mapsto> l)" "relinked h {l} h'"
    using assms by (rule INIT_LIST_HEAD_ok)
  then show ?thesis by (auto simp: ring_def)
qed

lemma hd_rev_snoc: "hd (rev xs @ [a]) = last (a # xs)"
  by (cases xs rule: rev_cases) auto

lemma last_Cons_rev: "last (a # rev xs) = hd (xs @ [a])"
  by (cases xs) auto

lemma ring_neighbours_live:
  assumes "ring h head (as @ bs)"
  shows "live h (last (head # as))" "live h (hd (bs @ [head]))"
proof -
  show "live h (last (head # as))"
    using assms by (rule ring_live) (cases as rule: rev_cases; auto)
  show "live h (hd (bs @ [head]))"
    using assms by (rule ring_live) (cases bs; auto)
qed

lemma list_add_internal_ring:
  assumes r: "ring h head (as @ bs)" and new: "live h new" "new \<notin> footprint head (as @ bs)"
  shows "\<exists>h'. list_add_internal new (last (head # as)) (hd (bs @ [head])) h = Some h' \<and>
    ring h' head (as @ new # bs) \<and> relinked h (footprint head (as @ new # bs)) h'"
proof -
  obtain h' where h': "list_add_internal new (last (head # as)) (hd (bs @ [head])) h = Some h'"
    "nexts h' = (nexts h)(new \<mapsto> hd (bs @ [head]), last (head # as) \<mapsto> new)"
    "prevs h' = (prevs h)(hd (bs @ [head]) \<mapsto> new, new \<mapsto> last (head # as))"
    "relinked h {new, last (head # as), hd (bs @ [head])} h'"
    using new(1) ring_neighbours_live[OF r] by (rule list_add_internal_ok)
  have d: "distinct (head # as @ bs)" using r by (rule ring_distinct)
  have "chain (nexts h') ((head # as) @ new # bs @ [head])"
    unfolding h'(2) using r d new(2) by (intro chain_insert) (auto simp: ring_def)
  moreover have "chain ((prevs h)(new \<mapsto> hd (rev as @ [head]), last (head # rev bs) \<mapsto> new))
    ((head # rev bs) @ new # rev as @ [head])"
    using r d new(2) by (intro chain_insert) (auto simp: ring_def)
  moreover have "new \<noteq> hd (bs @ [head])" using new(2) by (cases bs) auto
  ultimately have "ring h' head (as @ new # bs)"
    using d new(2) h'(3) by (auto simp: ring_def hd_rev_snoc last_Cons_rev fun_upd_twist simp del: last.simps)
  moreover have "{new, last (head # as), hd (bs @ [head])} \<subseteq> footprint head (as @ new # bs)"
    by (cases as rule: rev_cases; cases bs) auto
  ultimately show ?thesis using h'(1,4) by (blast intro: relinked_mono)
qed

lemma list_add_ring:
  assumes "ring h head xs" "live h new" "new \<notin> footprint head xs"
  shows "\<exists>h'. list_add new head h = Some h' \<and> ring h' head (new # xs) \<and>
    relinked h (footprint head (new # xs)) h'"
  using list_add_internal_ring[of h head "[]" xs new] assms ring_nextsI[OF assms(1)]
  by (simp add: list_add_def get_next_nexts)

lemma list_add_tail_ring:
  assumes "ring h head xs" "live h new" "new \<notin> footprint head xs"
  shows "\<exists>h'. list_add_tail new head h = Some h' \<and> ring h' head (xs @ [new]) \<and>
    relinked h (footprint head (xs @ [new])) h'"
  using list_add_internal_ring[of h head xs "[]" new] assms ring_prevsI[OF assms(1)]
  by (simp add: list_add_tail_def get_prev_prevs del: last.simps)

lemma list_del_internal_ring:
  assumes r: "ring h head (as @ x # bs)"
  obtains h' where "list_del_internal (last (head # as)) (hd (bs @ [head])) h = Some h'"
    "ring h' head (as @ bs)" "relinked h (footprint head (as @ bs)) h'"
proof -
  have live: "live h (last (head # as))" "live h (hd (bs @ [head]))"
    using ring_neighbours_live[of h head as "x # bs"] ring_neighbours_live[of h head "as @ [x]" bs] r
    by auto
  obtain h' where h': "list_del_internal (last (head # as)) (hd (bs @ [head])) h = Some h'"
    "nexts h' = (nexts h)(last (head # as) \<mapsto> hd (bs @ [head]))"
    "prevs h' = (prevs h)(hd (bs @ [head]) \<mapsto> last (head # as))"
    "relinked h {last (head # as), hd (bs @ [head])} h'"
    using live by (rule list_del_internal_ok)
  have d: "distinct (head # as @ x # bs)" using r by (rule ring_distinct)
  have "chain (nexts h') ((head # as) @ bs @ [head])"
    unfolding h'(2) using r d by (intro chain_delete[where x = x]) (auto simp: ring_def)
  moreover have "chain ((prevs h)(last (head # rev bs) \<mapsto> hd (rev as @ [head])))
    ((head # rev bs) @ rev as @ [head])"
    using r d by (intro chain_delete[where x = x]) (auto simp: ring_def)
  ultimately have "ring h' head (as @ bs)"
    using d h'(3) by (simp add: ring_def hd_rev_snoc last_Cons_rev del: last.simps)
  moreover have "{last (head # as), hd (bs @ [head])} \<subseteq> footprint head (as @ bs)"
    by (cases as rule: rev_cases; cases bs) auto
  ultimately show ?thesis using that[OF h'(1)] h'(4) by (blast intro: relinked_mono)
qed

lemma list_del_init_ring:
  assumes r: "ring h head (as @ x # bs)"
  shows "\<exists>h'. list_del_init x h = Some h' \<and> ring h' head (as @ bs) \<and> ring h' x [] \<and>
    relinked h (footprint head (as @ x # bs)) h'"
proof -
  obtain h1 where h1: "list_del_internal (last (head # as)) (hd (bs @ [head])) h = Some h1"
    "ring h1 head (as @ bs)" "relinked h (footprint head (as @ bs)) h1"
    using r by (rule list_del_internal_ring)
  have "live h1 x" using h1(3) ring_live[OF r, of x] by (simp add: relinked_live)
  then obtain h2 where h2: "INIT_LIST_HEAD x h1 = Some h2" "ring h2 x []" "relinked h1 {x} h2"
    using INIT_LIST_HEAD_ring by blast
  have "x \<notin> footprint head (as @ bs)" using ring_distinct[OF r] by auto
  then have "ring h2 head (as @ bs)" using h1(2) h2(3) by (auto intro: ring_relinked)
  moreover have "relinked h (footprint head (as @ x # bs)) h2"
    using relinked_trans[OF h1(3) h2(3)] by (rule relinked_mono) auto
  moreover have "list_del_init x h = Some h2"
    using h1(1) h2(1) ring_next_mid[OF r] ring_prev_mid[OF r]
    by (simp add: list_del_init_def get_next_nexts get_prev_prevs del: last.simps)
  ultimately show ?thesis using h2(2) by blast
qed

lemma list_del_eq_init: "list_del = list_del_init"
  by (simp add: fun_eq_iff list_del_def list_del_init_def)

lemmas list_del_ring = list_del_init_ring[folded list_del_eq_init]

lemma list_del_poison_ring:
  assumes r: "ring h head (as @ x # bs)"
  shows "\<exists>h'. list_del_poison x h = Some h' \<and> ring h' head (as @ bs) \<and>
    load h' x = Some \<lparr>lh_next = LIST_POISON1, lh_prev = LIST_POISON2\<rparr> \<and> relinked h (footprint head (as @ x # bs)) h'"
proof -
  obtain h1 where h1: "list_del_internal (last (head # as)) (hd (bs @ [head])) h = Some h1"
    "ring h1 head (as @ bs)" "relinked h (footprint head (as @ bs)) h1"
    using r by (rule list_del_internal_ring)
  have "live h1 x" using h1(3) ring_live[OF r, of x] by (simp add: relinked_live)
  then obtain n where n: "load h1 x = Some n" by (auto simp: live_def)
  then have nz: "x \<noteq> NULL" by (auto simp: load_def)
  let ?h = "h1(x \<mapsto> \<lparr>lh_next = LIST_POISON1, lh_prev = LIST_POISON2\<rparr>)"
  have x: "relinked h1 {x} ?h" using n nz by (auto simp: relinked_def live_def load_upd)
  moreover have "x \<notin> footprint head (as @ bs)" using ring_distinct[OF r] by auto
  ultimately have "ring ?h head (as @ bs)" using h1(2) by (auto intro: ring_relinked)
  moreover have "relinked h (footprint head (as @ x # bs)) ?h" using relinked_trans[OF h1(3) x] by (rule relinked_mono) auto
  moreover have "list_del_poison x h = Some ?h"
    using h1(1) n nz ring_next_mid[OF r] ring_prev_mid[OF r]
    by (cases n) (simp add: list_del_poison_def get_next_nexts get_prev_prevs modify_def del: last.simps)
  ultimately show ?thesis using nz by auto
qed

lemma list_empty_ring: "ring h head xs \<Longrightarrow> list_empty head h = Some (xs = [])"
  by (cases xs) (auto simp: list_empty_def get_next_nexts ring_nextsI dest: ring_distinct)

lemma list_empty_careful_ring: "ring h head xs \<Longrightarrow> list_empty_careful head h = Some (xs = [])"
  by (cases xs)
    (auto simp: list_empty_careful_def get_next_nexts get_prev_prevs ring_nextsI ring_prevsI
      dest: ring_distinct)

lemma list_is_last_ring:
  assumes "ring h head (as @ x # bs)"
  shows "list_is_last x head h = Some (bs = [])"
  using ring_next_mid[OF assms] ring_distinct[OF assms]
  by (cases bs) (auto simp: list_is_last_def get_next_nexts)

lemma list_move_ring:
  assumes r: "ring h head (as @ x # bs)" and r': "ring h head' ys"
    and disj: "footprint head (as @ x # bs) \<inter> footprint head' ys = {}"
  shows "\<exists>h'. list_move x head' h = Some h' \<and> ring h' head (as @ bs) \<and> ring h' head' (x # ys)"
proof -
  obtain h1 where h1: "list_del_internal (last (head # as)) (hd (bs @ [head])) h = Some h1"
    "ring h1 head (as @ bs)" "relinked h (footprint head (as @ bs)) h1"
    using r by (rule list_del_internal_ring)
  have "ring h1 head' ys" by (rule ring_relinked[OF r' h1(3)]) (use disj in auto)
  moreover have "live h1 x" using h1(3) ring_live[OF r, of x] by (simp add: relinked_live)
  moreover have "x \<notin> footprint head' ys" using disj by auto
  ultimately obtain h2 where h2: "list_add x head' h1 = Some h2" "ring h2 head' (x # ys)"
    "relinked h1 (footprint head' (x # ys)) h2"
    using list_add_ring by blast
  have "footprint head' (x # ys) \<inter> set (head # as @ bs) = {}"
    using disj ring_distinct[OF r] by auto
  then have "ring h2 head (as @ bs)" using h1(2) h2(3) by (blast intro: ring_relinked)
  moreover have "list_move x head' h = Some h2"
    using h1(1) h2(1) ring_next_mid[OF r] ring_prev_mid[OF r]
    by (simp add: list_move_def get_next_nexts get_prev_prevs del: last.simps)
  ultimately show ?thesis using h2(2) by blast
qed

lemma list_move_tail_ring:
  assumes r: "ring h head (as @ x # bs)" and r': "ring h head' ys"
    and disj: "footprint head (as @ x # bs) \<inter> footprint head' ys = {}"
  shows "\<exists>h'. list_move_tail x head' h = Some h' \<and> ring h' head (as @ bs) \<and> ring h' head' (ys @ [x])"
proof -
  obtain h1 where h1: "list_del_internal (last (head # as)) (hd (bs @ [head])) h = Some h1"
    "ring h1 head (as @ bs)" "relinked h (footprint head (as @ bs)) h1"
    using r by (rule list_del_internal_ring)
  have "ring h1 head' ys" by (rule ring_relinked[OF r' h1(3)]) (use disj in auto)
  moreover have "live h1 x" using h1(3) ring_live[OF r, of x] by (simp add: relinked_live)
  moreover have "x \<notin> footprint head' ys" using disj by auto
  ultimately obtain h2 where h2: "list_add_tail x head' h1 = Some h2" "ring h2 head' (ys @ [x])"
    "relinked h1 (footprint head' (ys @ [x])) h2"
    using list_add_tail_ring by blast
  have "footprint head' (ys @ [x]) \<inter> set (head # as @ bs) = {}"
    using disj ring_distinct[OF r] by auto
  then have "ring h2 head (as @ bs)" using h1(2) h2(3) by (blast intro: ring_relinked)
  moreover have "list_move_tail x head' h = Some h2"
    using h1(1) h2(1) ring_next_mid[OF r] ring_prev_mid[OF r]
    by (simp add: list_move_tail_def get_next_nexts get_prev_prevs del: last.simps)
  ultimately show ?thesis using h2(2) by blast
qed

text \<open>
  Replacing an entry: the four assignments of \<^verbatim>\<open>list_replace\<close> are those of inserting the new
  entry between the neighbours of the old one.
\<close>

lemma list_replace_ring:
  assumes r: "ring h head (as @ old # bs)" and new: "live h new" "new \<notin> footprint head (as @ old # bs)"
  shows "\<exists>h'. list_replace old new h = Some h' \<and> ring h' head (as @ new # bs) \<and> live h' old"
proof -
  let ?p = "last (head # as)" and ?n = "hd (bs @ [head])"
  have d: "distinct (head # as @ old # bs)" using r by (rule ring_distinct)
  have ne: "new \<noteq> ?p" "new \<noteq> ?n" "old \<noteq> new" "old \<noteq> ?p" "old \<noteq> ?n"
    using new(2) d by (cases as rule: rev_cases; cases bs; auto)+
  have live: "live h ?p" "live h ?n" "live h old"
    using ring_neighbours_live[of h head as "old # bs"] ring_neighbours_live[of h head "as @ [old]" bs] r
    by (auto intro: ring_live)
  obtain h1 where 1: "set_next h new ?n = Some h1" "nexts h1 = (nexts h)(new \<mapsto> ?n)"
    "prevs h1 = prevs h" "relinked h {new} h1"
    using new(1) by (rule set_next_ok)
  have "live h1 ?n" using live 1(4) by (simp add: relinked_live)
  then obtain h2 where 2: "set_prev h1 ?n new = Some h2" "nexts h2 = nexts h1"
    "prevs h2 = (prevs h1)(?n \<mapsto> new)" "relinked h1 {?n} h2"
    by (rule set_prev_ok)
  have "live h2 new" using new 1(4) 2(4) by (simp add: relinked_live)
  then obtain h3 where 3: "set_prev h2 new ?p = Some h3" "nexts h3 = nexts h2"
    "prevs h3 = (prevs h2)(new \<mapsto> ?p)" "relinked h2 {new} h3"
    by (rule set_prev_ok)
  have "live h3 ?p" using live 1(4) 2(4) 3(4) by (simp add: relinked_live)
  then obtain h4 where 4: "set_next h3 ?p new = Some h4" "nexts h4 = (nexts h3)(?p \<mapsto> new)"
    "prevs h4 = prevs h3" "relinked h3 {?p} h4"
    by (rule set_next_ok)
  have op: "list_replace old new h = Some h4"
    using 1 2 3 4 ring_next_mid[OF r] ring_prev_mid[OF r] ne
    by (simp add: list_replace_def get_next_nexts get_prev_prevs del: last.simps)
  have "chain ((nexts h)(?p \<mapsto> ?n)) ((head # as) @ bs @ [head])"
    using r d by (intro chain_delete[where x = old]) (auto simp: ring_def)
  then have "chain ((nexts h)(?p \<mapsto> ?n, new \<mapsto> ?n, ?p \<mapsto> new)) ((head # as) @ new # bs @ [head])"
    using d new(2) by (intro chain_insert) auto
  moreover have "chain ((prevs h)(?n \<mapsto> ?p)) ((head # rev bs) @ rev as @ [head])"
    using r d chain_delete[of "prevs h" "head # rev bs" old "rev as @ [head]"]
    by (auto simp: ring_def hd_rev_snoc last_Cons_rev simp del: last.simps)
  then have "chain ((prevs h)(?n \<mapsto> ?p, new \<mapsto> ?p, ?n \<mapsto> new)) ((head # rev bs) @ new # rev as @ [head])"
    using d new(2) chain_insert[of "(prevs h)(?n \<mapsto> ?p)" "head # rev bs" "rev as @ [head]" new]
    by (auto simp: hd_rev_snoc last_Cons_rev simp del: last.simps)
  ultimately have "ring h4 head (as @ new # bs)"
    using d new(2) ne 1 2 3 4 by (auto simp: ring_def fun_upd_twist simp del: last.simps)
  moreover have "live h4 old" using live(3) 1(4) 2(4) 3(4) 4(4) by (simp add: relinked_live)
  ultimately show ?thesis using op by blast
qed

lemma list_splice_ring:
  assumes r: "ring h head xs" and r': "ring h l ys" and ne: "ys \<noteq> []"
    and disj: "footprint head xs \<inter> footprint l ys = {}"
  shows "\<exists>h'. list_splice_internal l head h = Some h' \<and> ring h' head (ys @ xs) \<and>
    relinked h (footprint head (ys @ xs)) h'"
proof -
  let ?f = "hd ys" and ?t = "last ys" and ?a = "hd (xs @ [head])"
  have d: "distinct (head # ys @ xs)"
    using ring_distinct[OF r] ring_distinct[OF r'] disj by auto
  have ft: "?f \<in> set ys" "?t \<in> set ys" using ne by auto
  have live: "live h ?f" "live h ?t" "live h ?a" "live h head"
    using ring_live[OF r'] ring_live[OF r] ft by (cases xs; auto)+
  have a: "?a \<in> footprint head xs" by (cases xs) auto
  obtain h1 where 1: "set_prev h ?f head = Some h1" "nexts h1 = nexts h"
    "prevs h1 = (prevs h)(?f \<mapsto> head)" "relinked h {?f} h1"
    using live(1) by (rule set_prev_ok)
  have "live h1 head" using live 1(4) by (simp add: relinked_live)
  then obtain h2 where 2: "set_next h1 head ?f = Some h2" "nexts h2 = (nexts h1)(head \<mapsto> ?f)"
    "prevs h2 = prevs h1" "relinked h1 {head} h2"
    by (rule set_next_ok)
  have "live h2 ?t" using live 1(4) 2(4) by (simp add: relinked_live)
  then obtain h3 where 3: "set_next h2 ?t ?a = Some h3" "nexts h3 = (nexts h2)(?t \<mapsto> ?a)"
    "prevs h3 = prevs h2" "relinked h2 {?t} h3"
    by (rule set_next_ok)
  have "live h3 ?a" using live 1(4) 2(4) 3(4) by (simp add: relinked_live)
  then obtain h4 where 4: "set_prev h3 ?a ?t = Some h4" "nexts h4 = nexts h3"
    "prevs h4 = (prevs h3)(?a \<mapsto> ?t)" "relinked h3 {?a} h4"
    by (rule set_prev_ok)
  have op: "list_splice_internal l head h = Some h4"
    using 1 2 3 4 ring_nextsI[OF r] ring_nextsI[OF r'] ring_prevsI[OF r'] ne
    by (simp add: list_splice_internal_def get_next_nexts get_prev_prevs)
  have "relinked h ({?f} \<union> {head} \<union> {?t} \<union> {?a}) h4"
    using 1(4) 2(4) 3(4) 4(4) by (blast intro: relinked_trans)
  then have fr: "relinked h (footprint head (ys @ xs)) h4"
    by (rule relinked_mono) (use ft a in auto)
  have N: "nexts h4 = (nexts h)(head \<mapsto> ?f, ?t \<mapsto> ?a)" using 1 2 3 4 by simp
  have P: "prevs h4 = (prevs h)(?f \<mapsto> head, ?a \<mapsto> ?t)" using 1 2 3 4 by simp
  have c: "chain (nexts h) ys" "chain (nexts h) (xs @ [head])"
    "chain (prevs h) (rev ys)" "chain (prevs h) (head # rev xs)"
    using r r' ne chain_append[of "ys" "[l]"] chain_append[of "rev ys" "[l]"]
      chain_append[of "head # rev xs" "[head]"]
    by (auto simp: ring_def chain_Cons)
  have "chain (nexts h4) ([head] @ ys @ xs @ [head])"
    unfolding N using c d ne chain_join3[of "nexts h" "[head]" ys "xs @ [head]"] by simp
  moreover have "chain ((prevs h)(last (head # rev xs) \<mapsto> hd (rev ys), last (rev ys) \<mapsto> hd [head]))
    ((head # rev xs) @ rev ys @ [head])"
    using c d ne by (intro chain_join3) auto
  moreover have "?f \<noteq> ?a" using d ft by (cases xs) auto
  ultimately have "ring h4 head (ys @ xs)"
    using d ne by (simp add: ring_def P last_Cons_rev hd_rev last_rev fun_upd_twist del: last.simps)
  with op fr show ?thesis by blast
qed

lemma list_splice_init_ring:
  assumes r: "ring h head xs" and r': "ring h l ys"
    and disj: "footprint head xs \<inter> footprint l ys = {}"
  shows "\<exists>h'. list_splice_init l head h = Some h' \<and> ring h' head (ys @ xs) \<and> ring h' l []"
proof (cases "ys = []")
  case True
  then show ?thesis using r r' by (simp add: list_splice_init_def list_empty_ring)
next
  case False
  then obtain h1 where h1: "list_splice_internal l head h = Some h1" "ring h1 head (ys @ xs)"
    "relinked h (footprint head (ys @ xs)) h1"
    using list_splice_ring[OF r r'] disj by blast
  have "live h1 l" using h1(3) ring_live[OF r'] by (simp add: relinked_live)
  then obtain h2 where h2: "INIT_LIST_HEAD l h1 = Some h2" "ring h2 l []" "relinked h1 {l} h2"
    using INIT_LIST_HEAD_ring by blast
  have "l \<notin> footprint head (ys @ xs)" using disj ring_distinct[OF r'] by auto
  then have "ring h2 head (ys @ xs)" by (intro ring_relinked[OF h1(2) h2(3)]) auto
  then show ?thesis
    using False h1(1) h2 r' by (auto simp: list_splice_init_def list_empty_ring)
qed

section \<open>Iteration\<close>

lemma list_for_each_from_ring:
  assumes "ring h head (as @ bs)"
  shows "list_for_each_from h head (hd (bs @ [head])) = Some bs"
  using assms
proof (induction bs arbitrary: as)
  case Nil
  then show ?case by (simp add: list_for_each_from.simps)
next
  case (Cons b bs)
  have "list_for_each_from h head (hd (bs @ [head])) = Some bs"
    using Cons.IH[of "as @ [b]"] Cons.prems by simp
  then show ?case
    using ring_next_mid[OF Cons.prems] ring_distinct[OF Cons.prems]
    by (subst list_for_each_from.simps) (auto simp: get_next_nexts)
qed

lemma list_for_each_ring: "ring h head xs \<Longrightarrow> list_for_each head h = Some xs"
  using list_for_each_from_ring[of h head "[]" xs]
  by (simp add: list_for_each_def get_next_nexts ring_nextsI)

lemma list_for_each_prev_from_ring:
  assumes "ring h head (as @ bs)"
  shows "list_for_each_prev_from h head (last (head # as)) = Some (rev as)"
  using assms
proof (induction as arbitrary: bs rule: rev_induct)
  case Nil
  then show ?case by (simp add: list_for_each_prev_from.simps)
next
  case (snoc a as)
  have r: "ring h head (as @ a # bs)" using snoc.prems by simp
  then have "list_for_each_prev_from h head (last (head # as)) = Some (rev as)"
    by (rule snoc.IH)
  moreover have "last (head # as @ [a]) = a" by simp
  ultimately show ?case
    using ring_prev_mid[OF r] ring_distinct[OF r]
    by (subst list_for_each_prev_from.simps) (auto simp: get_prev_prevs simp del: last.simps)
qed

lemma list_for_each_prev_ring: "ring h head xs \<Longrightarrow> list_for_each_prev head h = Some (rev xs)"
  using list_for_each_prev_from_ring[of h head xs "[]"]
  by (simp add: list_for_each_prev_def get_prev_prevs ring_prevsI del: last.simps)

lemma list_find_from_ring:
  assumes "ring h head (as @ bs)" "\<And>x. x \<in> set bs \<Longrightarrow> test x = Some (P x)"
  shows "list_find_from h test head (hd (bs @ [head])) = Some (List.find P bs)"
  using assms
proof (induction bs arbitrary: as)
  case Nil
  then show ?case by (simp add: list_find_from.simps)
next
  case (Cons b bs)
  have "list_find_from h test head (hd (bs @ [head])) = Some (List.find P bs)"
    using Cons.IH[of "as @ [b]"] Cons.prems by simp
  then show ?case
    using Cons.prems(2)[of b] ring_next_mid[OF Cons.prems(1)] ring_distinct[OF Cons.prems(1)]
    by (subst list_find_from.simps) (auto simp: get_next_nexts)
qed

lemma list_for_each_entry_ring:
  assumes "ring h head xs" "\<And>x. x \<in> set xs \<Longrightarrow> test x = Some (P x)"
  shows "list_for_each_entry h test head = Some (List.find P xs)"
  using list_find_from_ring[of h head "[]" xs test P] assms
  by (simp add: list_for_each_entry_def get_next_nexts ring_nextsI)

section \<open>The interface the other components use\<close>

text \<open>
  What the object list, the chains of breakpoints, the slot sets and the buckets of the thread
  map rely on: a representation predicate for sequences, a frame relation, and the laws of
  insertion, removal and search.
\<close>

locale list_interface =
  fixes repr :: "'h \<Rightarrow> addr \<Rightarrow> addr list \<Rightarrow> bool"
    and ready :: "'h \<Rightarrow> addr \<Rightarrow> bool"
    and touched :: "'h \<Rightarrow> addr set \<Rightarrow> 'h \<Rightarrow> bool"
    and push :: "addr \<Rightarrow> addr \<Rightarrow> 'h \<Rightarrow> 'h option"
    and enqueue :: "addr \<Rightarrow> addr \<Rightarrow> 'h \<Rightarrow> 'h option"
    and remove :: "addr \<Rightarrow> 'h \<Rightarrow> 'h option"
    and search :: "'h \<Rightarrow> (addr \<Rightarrow> bool option) \<Rightarrow> addr \<Rightarrow> addr option option"
  assumes repr_distinct: "repr h head xs \<Longrightarrow> distinct (head # xs)"
    and repr_ready: "\<lbrakk>repr h head xs; x \<in> footprint head xs\<rbrakk> \<Longrightarrow> ready h x"
    and repr_frame: "\<lbrakk>repr h head xs; touched h S h'; S \<inter> set (head # xs) = {}\<rbrakk> \<Longrightarrow> repr h' head xs"
    and touched_ready: "touched h S h' \<Longrightarrow> ready h' x = ready h x"
    and push_law: "\<lbrakk>repr h head xs; ready h x; x \<notin> footprint head xs\<rbrakk> \<Longrightarrow>
      \<exists>h'. push x head h = Some h' \<and> repr h' head (x # xs) \<and> touched h (footprint head (x # xs)) h'"
    and enqueue_law: "\<lbrakk>repr h head xs; ready h x; x \<notin> footprint head xs\<rbrakk> \<Longrightarrow>
      \<exists>h'. enqueue x head h = Some h' \<and> repr h' head (xs @ [x]) \<and>
        touched h (footprint head (xs @ [x])) h'"
    and remove_law: "repr h head (as @ x # bs) \<Longrightarrow>
      \<exists>h'. remove x h = Some h' \<and> repr h' head (as @ bs) \<and> repr h' x [] \<and>
        touched h (footprint head (as @ x # bs)) h'"
    and search_law: "\<lbrakk>repr h head xs; \<And>x. x \<in> set xs \<Longrightarrow> test x = Some (P x)\<rbrakk> \<Longrightarrow>
      search h test head = Some (List.find P xs)"
begin

text \<open>A pushed entry shadows the older ones; an appended entry is found last.\<close>

lemma push_search:
  assumes "repr h head xs" "ready h x" "x \<notin> footprint head xs"
    and "\<And>y. y \<in> set (x # xs) \<Longrightarrow> test y = Some (P y)"
  shows "\<exists>h'. push x head h = Some h' \<and>
    search h' test head = Some (if P x then Some x else List.find P xs)"
  using push_law[OF assms(1-3)] search_law[of _ head "x # xs" test P] assms(4) by auto

text \<open>Two lists that share no entry do not influence each other.\<close>

lemma push_other:
  assumes "repr h head xs" "ready h x" "x \<notin> footprint head xs" "repr h other ys"
    and "footprint head (x # xs) \<inter> footprint other ys = {}"
  shows "\<exists>h'. push x head h = Some h' \<and> repr h' head (x # xs) \<and> repr h' other ys"
  using push_law[OF assms(1-3)] repr_frame[OF assms(4)] assms(5) by (metis list.simps(15))

lemma enqueue_other:
  assumes "repr h head xs" "ready h x" "x \<notin> footprint head xs" "repr h other ys"
    and "footprint head (xs @ [x]) \<inter> footprint other ys = {}"
  shows "\<exists>h'. enqueue x head h = Some h' \<and> repr h' head (xs @ [x]) \<and> repr h' other ys"
  using enqueue_law[OF assms(1-3)] repr_frame[OF assms(4)] assms(5) by (metis list.simps(15))

text \<open>Pushing an entry and removing it again gives back the old sequence.\<close>

lemma push_remove:
  assumes "repr h head xs" "ready h x" "x \<notin> footprint head xs"
  shows "\<exists>h' h''. push x head h = Some h' \<and> remove x h' = Some h'' \<and> repr h'' head xs \<and> repr h'' x []"
  using push_law[OF assms] remove_law[of _ head "[]" x xs] by fastforce

end

interpretation ringlist: list_interface ring live relinked list_add list_add_tail list_del list_for_each_entry
proof (unfold_locales, goal_cases)
  case 1 then show ?case by (rule ring_distinct)
next
  case 2 then show ?case by (auto intro: ring_live)
next
  case 3 then show ?case by (rule ring_relinked)
next
  case 4 then show ?case by (rule relinked_live)
next
  case 5 then show ?case by (rule list_add_ring)
next
  case 6 then show ?case by (rule list_add_tail_ring)
next
  case 7 then show ?case by (rule list_del_ring)
next
  case 8 then show ?case by (rule list_for_each_entry_ring)
qed

section \<open>Properties\<close>

text \<open>A list with two entries, and two list heads outside it, for the witnesses.\<close>

definition sample_lists :: list_heap where
  "sample_lists = [0x100 \<mapsto> \<lparr>lh_next = 0x110, lh_prev = 0x120\<rparr>, 0x110 \<mapsto> \<lparr>lh_next = 0x120, lh_prev = 0x100\<rparr>,
     0x120 \<mapsto> \<lparr>lh_next = 0x100, lh_prev = 0x110\<rparr>, 0x200 \<mapsto> \<lparr>lh_next = 0x210, lh_prev = 0x210\<rparr>,
     0x210 \<mapsto> \<lparr>lh_next = 0x200, lh_prev = 0x200\<rparr>, 0x300 \<mapsto> \<lparr>lh_next = 0x300, lh_prev = 0x300\<rparr>]"

lemma sample_rings: "ring sample_lists 0x100 [0x110, 0x120]" "ring sample_lists 0x200 [0x210]" "live sample_lists 0x300"
  by (simp_all add: ring_def nexts_def prevs_def load_def sample_lists_def live_def)

text \<open>
  Adding an entry that is in no list.  \<^verbatim>\<open>list_add\<close> makes it the first and \<^verbatim>\<open>list_add_tail\<close> the last
  of the list, as the forward and the backward iteration see it, and no other list changes.
\<close>

theorem list_insertions:
  assumes "ring h head xs" "live h x" "x \<notin> footprint head xs"
    and "ring h other ys" "footprint head (x # xs) \<inter> footprint other ys = {}"
  shows "\<exists>h' h''. list_add x head h = Some h' \<and> list_for_each head h' = Some (x # xs) \<and>
      list_for_each_prev head h' = Some (rev xs @ [x]) \<and> list_for_each other h' = Some ys \<and>
    list_add_tail x head h = Some h'' \<and> list_for_each head h'' = Some (xs @ [x]) \<and>
      list_for_each_prev head h'' = Some (x # rev xs) \<and> list_for_each other h'' = Some ys"
proof -
  have d: "footprint head (xs @ [x]) \<inter> footprint other ys = {}" using assms(5) by auto
  obtain h' h'' where "list_add x head h = Some h'" "ring h' head (x # xs)" "ring h' other ys"
    "list_add_tail x head h = Some h''" "ring h'' head (xs @ [x])" "ring h'' other ys"
    using ringlist.push_other[OF assms] ringlist.enqueue_other[OF assms(1-4) d] by blast
  then show ?thesis
    using list_for_each_ring[of h' head] list_for_each_prev_ring[of h' head] list_for_each_ring[of h' other]
      list_for_each_ring[of h'' head] list_for_each_prev_ring[of h'' head] list_for_each_ring[of h'' other] by auto
qed

theorem list_insertions_witness:
  "\<exists>h' h''. list_add 0x300 0x100 sample_lists = Some h' \<and> list_for_each 0x100 h' = Some [0x300, 0x110, 0x120] \<and>
      list_for_each_prev 0x100 h' = Some [0x120, 0x110, 0x300] \<and> list_for_each 0x200 h' = Some [0x210] \<and>
    list_add_tail 0x300 0x100 sample_lists = Some h'' \<and> list_for_each 0x100 h'' = Some [0x110, 0x120, 0x300] \<and>
      list_for_each_prev 0x100 h'' = Some [0x300, 0x120, 0x110] \<and> list_for_each 0x200 h'' = Some [0x210]"
  using list_insertions[OF sample_rings(1,3) _ sample_rings(2)] by simp

text \<open>
  \<^verbatim>\<open>list_add\<close> followed by \<^verbatim>\<open>list_del\<close> gives back the list as it was, and leaves the entry a list of its own,
  which \<^verbatim>\<open>list_empty\<close> recognises.
\<close>

theorem list_add_del_round_trip:
  assumes "ring h head xs" "live h x" "x \<notin> footprint head xs"
  shows "\<exists>h' h''. list_add x head h = Some h' \<and> list_del x h' = Some h'' \<and> list_for_each head h'' = Some xs \<and>
    list_empty x h'' = Some True"
proof -
  obtain h' h'' where "list_add x head h = Some h'" "list_del x h' = Some h''" "ring h'' head xs" "ring h'' x []"
    using ringlist.push_remove[OF assms] by blast
  then show ?thesis using list_for_each_ring[of h'' head] list_empty_ring[of h'' x "[]"] by auto
qed

theorem list_add_del_round_trip_witness:
  "\<exists>h' h''. list_add 0x300 0x100 sample_lists = Some h' \<and> list_del 0x300 h' = Some h'' \<and>
    list_for_each 0x100 h'' = Some [0x110, 0x120] \<and> list_empty 0x300 h'' = Some True"
  using list_add_del_round_trip[OF sample_rings(1,3)] by simp

text \<open>
  The operations that take entries of one list to another.  \<^verbatim>\<open>list_splice_init\<close> puts a whole list, empty
  or not, in front of another and leaves its head empty; \<^verbatim>\<open>list_move\<close> and \<^verbatim>\<open>list_move_tail\<close> carry a single
  entry from anywhere in its list to the front or the end of the other.
\<close>

theorem list_transfers:
  assumes "ring h l (as @ x # bs)" "ring h head xs" "footprint head xs \<inter> footprint l (as @ x # bs) = {}"
  shows "(\<exists>h'. list_splice_init l head h = Some h' \<and> list_for_each head h' = Some (as @ x # bs @ xs) \<and> list_empty l h' = Some True) \<and>
    (\<exists>h'. list_move x head h = Some h' \<and> list_for_each l h' = Some (as @ bs) \<and> list_for_each head h' = Some (x # xs)) \<and>
    (\<exists>h'. list_move_tail x head h = Some h' \<and> list_for_each l h' = Some (as @ bs) \<and> list_for_each head h' = Some (xs @ [x]))"
proof (intro conjI)
  have d: "footprint l (as @ x # bs) \<inter> footprint head xs = {}" using assms(3) by auto
  note each = list_for_each_ring
  show "\<exists>h'. list_splice_init l head h = Some h' \<and> list_for_each head h' = Some (as @ x # bs @ xs) \<and> list_empty l h' = Some True"
    using list_splice_init_ring[OF assms(2,1,3)] each[of _ head] list_empty_ring[of _ l "[]"] by fastforce
  show "\<exists>h'. list_move x head h = Some h' \<and> list_for_each l h' = Some (as @ bs) \<and> list_for_each head h' = Some (x # xs)"
    using list_move_ring[OF assms(1,2) d] each by blast
  show "\<exists>h'. list_move_tail x head h = Some h' \<and> list_for_each l h' = Some (as @ bs) \<and> list_for_each head h' = Some (xs @ [x])"
    using list_move_tail_ring[OF assms(1,2) d] each by blast
qed

theorem list_transfers_witness:
  "(\<exists>h'. list_splice_init 0x100 0x200 sample_lists = Some h' \<and> list_for_each 0x200 h' = Some [0x110, 0x120, 0x210] \<and>
      list_empty 0x100 h' = Some True) \<and>
   (\<exists>h'. list_move 0x110 0x200 sample_lists = Some h' \<and> list_for_each 0x100 h' = Some [0x120] \<and>
      list_for_each 0x200 h' = Some [0x110, 0x210]) \<and>
   (\<exists>h'. list_move_tail 0x110 0x200 sample_lists = Some h' \<and> list_for_each 0x100 h' = Some [0x120] \<and>
      list_for_each 0x200 h' = Some [0x210, 0x110])"
proof -
  have "ring sample_lists 0x100 ([] @ 0x110 # [0x120])" "footprint 0x200 [0x210] \<inter> footprint 0x100 ([] @ 0x110 # [0x120 :: addr]) = {}"
    using sample_rings(1) by simp_all
  from list_transfers[OF this(1) sample_rings(2) this(2)] show ?thesis by simp
qed

text \<open>
  \<^verbatim>\<open>list_replace_init\<close> puts a new entry in the place of an old one, without changing the order of the
  others, and leaves the old one a list of its own.
\<close>

theorem list_replace_init_in_place:
  assumes "ring h head (as @ old # bs)" "live h new" "new \<notin> footprint head (as @ old # bs)"
  shows "\<exists>h'. list_replace_init old new h = Some h' \<and> list_for_each head h' = Some (as @ new # bs) \<and> list_empty old h' = Some True"
proof -
  obtain h1 where h1: "list_replace old new h = Some h1" "ring h1 head (as @ new # bs)" "live h1 old"
    using list_replace_ring[OF assms] by blast
  obtain h2 where h2: "INIT_LIST_HEAD old h1 = Some h2" "ring h2 old []" "relinked h1 {old} h2"
    using INIT_LIST_HEAD_ring[OF h1(3)] by blast
  have "old \<notin> set (head # as @ new # bs)" using ring_distinct[OF assms(1)] assms(3) by auto
  then have "ring h2 head (as @ new # bs)" using ring_relinked[OF h1(2) h2(3)] by auto
  then show ?thesis
    using h1(1) h2(1) list_for_each_ring list_empty_ring[OF h2(2)] by (simp add: list_replace_init_def)
qed

theorem list_replace_init_in_place_witness:
  "\<exists>h'. list_replace_init 0x110 0x300 sample_lists = Some h' \<and> list_for_each 0x100 h' = Some [0x300, 0x120] \<and>
    list_empty 0x110 h' = Some True"
  using list_replace_init_in_place[where as = "[]" and bs = "[0x120]" and old = "0x110" and head = "0x100", OF _ sample_rings(3)] sample_rings(1) by simp

end
