(* ===== verification/Memory.thy ===== *)
theory Memory
  imports Prelude
begin

text \<open>
  The memory that the hook library patches: 32-bit instruction words at their addresses, and the
  write permission of each address.  A store to an address that is not mapped or not writable ends
  the program with a signal.  \<^verbatim>\<open>mmap\<close> and \<^verbatim>\<open>mprotect\<close> belong to the kernel: whether a call succeeds, and the
  address \<^verbatim>\<open>mmap\<close> returns, are parameters of the operations that call them; the functions here are
  their documented effect when they succeed.
\<close>

record memory =
  mem_words :: "u32 heap"
  mem_writable :: "addr \<Rightarrow> bool"

definition load_word :: "addr \<Rightarrow> memory \<Rightarrow> u32 option" where
  "load_word a m = load (mem_words m) a"

definition store_word :: "addr \<Rightarrow> u32 \<Rightarrow> memory \<Rightarrow> memory option" where
  "store_word a v m =
     (if load (mem_words m) a \<noteq> None \<and> mem_writable m a
      then Some (m\<lparr>mem_words := (mem_words m)(a \<mapsto> v)\<rparr>) else None)"

text \<open>The addresses of the instruction words in a range of bytes.\<close>

definition in_range :: "addr \<Rightarrow> addr \<Rightarrow> addr \<Rightarrow> bool" where
  "in_range start len a \<longleftrightarrow> a - start < len"

definition word_in_range :: "addr \<Rightarrow> addr \<Rightarrow> addr \<Rightarrow> bool" where
  "word_in_range start len a \<longleftrightarrow> in_range start len a \<and> (a - start) AND 3 = 0"

definition map_anonymous :: "addr \<Rightarrow> addr \<Rightarrow> memory \<Rightarrow> memory" where
  "map_anonymous start len m =
     m\<lparr>mem_words := (\<lambda>a. if word_in_range start len a then Some 0 else mem_words m a),
       mem_writable := (\<lambda>a. in_range start len a \<or> mem_writable m a)\<rparr>"

definition protect :: "addr \<Rightarrow> addr \<Rightarrow> bool \<Rightarrow> memory \<Rightarrow> memory" where
  "protect start len w m = m\<lparr>mem_writable := (\<lambda>a. if in_range start len a then w else mem_writable m a)\<rparr>"

lemma load_store_same: "store_word a v m = Some m' \<Longrightarrow> load_word a m' = Some v"
  by (auto simp: store_word_def load_word_def load_def split: if_splits)

lemma load_store_other: "\<lbrakk>store_word a v m = Some m'; b \<noteq> a\<rbrakk> \<Longrightarrow> load_word b m' = load_word b m"
  by (auto simp: store_word_def load_word_def load_def split: if_splits)

lemma store_word_Some: "\<lbrakk>load_word a m \<noteq> None; mem_writable m a\<rbrakk> \<Longrightarrow>
    store_word a v m = Some (m\<lparr>mem_words := (mem_words m)(a \<mapsto> v)\<rparr>)"
  by (auto simp: store_word_def load_word_def)

lemma load_word_upd: "load_word a (m\<lparr>mem_words := (mem_words m)(b \<mapsto> v)\<rparr>) =
    (if a = b \<and> a \<noteq> NULL then Some v else load_word a m)"
  by (simp add: load_word_def load_def)

lemma load_word_protect [simp]: "load_word a (protect start len w m) = load_word a m"
  by (simp add: load_word_def protect_def)

lemma mem_writable_protect: "mem_writable (protect start len w m) a = (if in_range start len a then w else mem_writable m a)"
  by (simp add: protect_def)

lemma load_word_map_anonymous:
  "load_word a (map_anonymous start len m) = (if a \<noteq> NULL \<and> word_in_range start len a then Some 0 else load_word a m)"
  by (simp add: load_word_def map_anonymous_def load_def)

lemma mem_writable_map_anonymous [simp]:
  "mem_writable (map_anonymous start len m) a \<longleftrightarrow> in_range start len a \<or> mem_writable m a"
  by (simp add: map_anonymous_def)

text \<open>The words of an instruction slot: offsets below the length, in multiples of four.\<close>

lemma word_in_range_offset:
  assumes "n * 4 < unat len"
  shows "word_in_range start len (start + of_nat (n * 4))"
proof -
  have b: "n * 4 < 2 ^ 64" using assms unsigned_less[of len, where 'a = nat] by simp
  have "unat (of_nat (n * 4) :: addr) = n * 4"
    by (simp only: unat_of_nat) (use b in \<open>simp add: take_bit_nat_eq_self\<close>)
  then have lt: "(of_nat (n * 4) :: addr) < len" using assms by (simp add: word_less_nat_alt)
  have "(of_nat (n * 4) :: addr) = push_bit 2 (of_nat n)" by (simp add: push_bit_eq_mult)
  then have "(of_nat (n * 4) :: addr) AND 3 = 0"
    by (simp only:) (intro bit_word_eqI, auto simp: bit_and_iff bit_push_bit_iff
      mask_eq_exp_minus_1[of 2, where 'a = addr, simplified, symmetric] bit_mask_iff)
  then show ?thesis using lt by (simp add: word_in_range_def in_range_def)
qed

end
