(* ===== verification/Slot_Set.thy ===== *)
theory Slot_Set
  imports Intrusive_List Memory
begin

text \<open>
  The instruction slots of \<^verbatim>\<open>signal_test/breakpoint.c\<close>: executable memory into which an instruction is
  copied to be run outside its place.  Slots come in sets, one \<^verbatim>\<open>mmap\<close> each, with a bitmap of the free
  ones; the sets form a list.  The link field of a set is at offset 192 of the structure.
\<close>

section \<open>State\<close>

definition SLOT_PAGE_SIZE :: nat where
  "SLOT_PAGE_SIZE = 4096"

definition SLOT_PAGE_NUM :: nat where
  "SLOT_PAGE_NUM = 2"

definition SLOT_SIZE :: nat where
  "SLOT_SIZE = 8"

definition SLOT_NUM :: nat where
  "SLOT_NUM = (SLOT_PAGE_NUM * SLOT_PAGE_SIZE) div SLOT_SIZE"

definition UINT_BIT_NUM :: nat where
  "UINT_BIT_NUM = 4 * 8"

definition SLOT_MAP_LEN :: nat where
  "SLOT_MAP_LEN = (SLOT_NUM + UINT_BIT_NUM - 1) div UINT_BIT_NUM"

lemma slot_constants: "SLOT_PAGE_SIZE = 4096" "SLOT_SIZE = 8" "SLOT_NUM = 1024" "UINT_BIT_NUM = 32" "SLOT_MAP_LEN = 32"
  by (simp_all add: SLOT_PAGE_SIZE_def SLOT_PAGE_NUM_def SLOT_SIZE_def SLOT_NUM_def UINT_BIT_NUM_def SLOT_MAP_LEN_def)

record slot_set =
  free_slot :: "u32 list"
  used_slot_count :: u32
  ss_slots :: addr
  ss_lock :: bool

record slot_state =
  ss_lists :: list_heap
  ss_sets :: "slot_set heap"
  slot_sets :: addr
  slot_sets_lock :: bool
  ss_mem :: memory

definition slot_set_list :: "addr \<Rightarrow> addr" where
  "slot_set_list p = p + 192"

definition slot_set_of :: "addr \<Rightarrow> addr" where
  "slot_set_of x = x - 192"

text \<open>\<^verbatim>\<open>BP_GET_SLOT_OFFSET\<close>: the index is an \<^verbatim>\<open>unsigned int\<close>, so the product is computed in 32 bits.\<close>

definition BP_GET_SLOT_OFFSET :: "slot_set \<Rightarrow> u32 \<Rightarrow> addr" where
  "BP_GET_SLOT_OFFSET ss idx = ss_slots ss + ucast (idx * of_nat SLOT_SIZE)"

definition MAP_FAILED :: addr where
  "MAP_FAILED = -1"

section \<open>Operations\<close>

text \<open>
  The addresses that \<^verbatim>\<open>calloc\<close> and \<^verbatim>\<open>mmap\<close> return are parameters: functions of the state and of the
  memory.
\<close>

definition slot_set_add ::
  "(slot_state \<Rightarrow> addr) \<Rightarrow> (memory \<Rightarrow> addr) \<Rightarrow> slot_state \<Rightarrow> slot_state option" where
  "slot_set_add calloc mmap s =
     (let slot = calloc s in
      if slot = NULL then None
      else do {
        let s = s\<lparr>ss_sets := (ss_sets s)(slot \<mapsto>
              \<lparr>free_slot = replicate SLOT_MAP_LEN (-1), used_slot_count = 0, ss_slots = 0, ss_lock = False\<rparr>),
            ss_lists := (ss_lists s)(slot_set_list slot \<mapsto> \<lparr>lh_next = NULL, lh_prev = NULL\<rparr>)\<rparr>;
        h \<leftarrow> INIT_LIST_HEAD (slot_set_list slot) (ss_lists s);
        let s = s\<lparr>ss_lists := h\<rparr>;
        let map_ptr = mmap (ss_mem s);
        if map_ptr = MAP_FAILED then None
        else do {
          let s = s\<lparr>ss_mem := map_anonymous map_ptr (of_nat SLOT_PAGE_SIZE) (ss_mem s)\<rparr>;
          sets \<leftarrow> modify (ss_sets s) slot (\<lambda>ss. ss\<lparr>ss_slots := map_ptr\<rparr>);
          let s = s\<lparr>ss_sets := sets\<rparr>;
          lk \<leftarrow> mutex_lock (slot_sets_lock s);
          h \<leftarrow> list_add (slot_set_list slot) (slot_sets s) (ss_lists s);
          lk \<leftarrow> mutex_unlock lk;
          Some (s\<lparr>ss_lists := h, slot_sets_lock := lk\<rparr>) } })"

text \<open>\<^verbatim>\<open>__builtin_ffs\<close>: one plus the index of the least significant bit that is set, 0 if none is.\<close>

definition ffs :: "u32 \<Rightarrow> nat" where
  "ffs w = (case List.find (\<lambda>i. bit w i) [0..<32] of None \<Rightarrow> 0 | Some i \<Rightarrow> Suc i)"

text \<open>
  The inner loop of \<^verbatim>\<open>slot_alloc\<close>, over the words of one bitmap, and its outer loop, over the list of
  sets.  The variable \<^verbatim>\<open>idx\<close> is set to 0 before the outer loop and lives on from one set to the next.
\<close>

datatype word_scan = FoundBit nat nat | NoBit nat

function slot_scan_words :: "u32 list \<Rightarrow> nat \<Rightarrow> word_scan" where
  "slot_scan_words ws idx =
     (if idx < SLOT_MAP_LEN then
        if ws ! idx = 0 then slot_scan_words ws (idx + 1)
        else (let pos = ffs (ws ! idx) in
          if pos + idx * UINT_BIT_NUM > SLOT_NUM then NoBit idx
          else FoundBit idx (pos - 1))
      else NoBit idx)"
  by pat_completeness auto
termination by (relation "measure (\<lambda>(ws, idx). SLOT_MAP_LEN - idx)") auto

declare slot_scan_words.simps [simp del]

definition set_slot_lock :: "addr \<Rightarrow> bool \<Rightarrow> slot_state \<Rightarrow> slot_state option" where
  "set_slot_lock p b s = do {
     sets \<leftarrow> modify (ss_sets s) p (\<lambda>ss. ss\<lparr>ss_lock := b\<rparr>);
     Some (s\<lparr>ss_sets := sets\<rparr>) }"

partial_function (option) slot_scan_sets ::
  "addr \<Rightarrow> nat \<Rightarrow> slot_state \<Rightarrow> ((addr \<times> nat \<times> nat) option \<times> slot_state) option" where
  "slot_scan_sets pos idx s =
     (if pos = slot_sets s then Some (None, s)
      else do {
        let cur = slot_set_of pos;
        ss \<leftarrow> load (ss_sets s) cur;
        lk \<leftarrow> mutex_lock (ss_lock ss);
        s \<leftarrow> set_slot_lock cur lk s;
        if unat (used_slot_count ss) = SLOT_NUM then do {
          s \<leftarrow> set_slot_lock cur False s;
          nxt \<leftarrow> get_next (ss_lists s) pos;
          slot_scan_sets nxt idx s }
        else (case slot_scan_words (free_slot ss) idx of
            FoundBit idx bitpos \<Rightarrow> Some (Some (cur, idx, bitpos), s)
          | NoBit idx \<Rightarrow> do {
              s \<leftarrow> set_slot_lock cur False s;
              nxt \<leftarrow> get_next (ss_lists s) pos;
              slot_scan_sets nxt idx s }) })"

partial_function (option) slot_alloc ::
  "(slot_state \<Rightarrow> addr) \<Rightarrow> (memory \<Rightarrow> addr) \<Rightarrow> slot_state \<Rightarrow> (addr \<times> u32 \<times> slot_state) option" where
  "slot_alloc calloc mmap s = do {
     lk \<leftarrow> mutex_lock (slot_sets_lock s);
     let s = s\<lparr>slot_sets_lock := lk\<rparr>;
     first \<leftarrow> get_next (ss_lists s) (slot_sets s);
     (found, s) \<leftarrow> slot_scan_sets first 0 s;
     lk \<leftarrow> mutex_unlock (slot_sets_lock s);
     let s = s\<lparr>slot_sets_lock := lk\<rparr>;
     case found of
       None \<Rightarrow> do {
         s \<leftarrow> slot_set_add calloc mmap s;
         slot_alloc calloc mmap s }
     | Some (cur, idx, pos) \<Rightarrow> do {
         sets \<leftarrow> modify (ss_sets s) cur (\<lambda>ss. ss\<lparr>
             free_slot := (free_slot ss)[idx := free_slot ss ! idx AND NOT (push_bit pos 1)],
             used_slot_count := used_slot_count ss + 1, ss_lock := False\<rparr>);
         Some (cur, of_nat (idx * UINT_BIT_NUM + pos), s\<lparr>ss_sets := sets\<rparr>) } }"

definition slot_free :: "addr \<Rightarrow> u32 \<Rightarrow> slot_state \<Rightarrow> slot_state option" where
  "slot_free slot index s = do {
     c_assert (slot \<noteq> NULL);
     c_assert (unat index < UINT_BIT_NUM);
     let idx = unat index div UINT_BIT_NUM;
     let pos = unat index mod UINT_BIT_NUM;
     ss \<leftarrow> load (ss_sets s) slot;
     lk \<leftarrow> mutex_lock (ss_lock ss);
     if free_slot ss ! idx AND push_bit pos 1 \<noteq> 0 then set_slot_lock slot False s
     else do {
       sets \<leftarrow> modify (ss_sets s) slot (\<lambda>ss. ss\<lparr>
           free_slot := (free_slot ss)[idx := free_slot ss ! idx OR push_bit pos 1],
           used_slot_count := used_slot_count ss - 1, ss_lock := lk\<rparr>);
       set_slot_lock slot False (s\<lparr>ss_sets := sets\<rparr>) } }"

section \<open>Bitmaps\<close>

definition free_bit :: "u32 list \<Rightarrow> nat \<Rightarrow> bool" where
  "free_bit ws i \<longleftrightarrow> i < SLOT_NUM \<and> bit (ws ! (i div UINT_BIT_NUM)) (i mod UINT_BIT_NUM)"

definition free_set :: "u32 list \<Rightarrow> nat set" where
  "free_set ws = {i. free_bit ws i}"

text \<open>The count of used slots and the bitmap agree, and nobody holds the lock.\<close>

definition set_ok :: "slot_set \<Rightarrow> bool" where
  "set_ok ss \<longleftrightarrow> length (free_slot ss) = SLOT_MAP_LEN \<and> \<not> ss_lock ss \<and>
     unat (used_slot_count ss) + card (free_set (free_slot ss)) = SLOT_NUM"

lemma finite_free_set [simp]: "finite (free_set ws)"
  by (rule finite_subset[of _ "{..<SLOT_NUM}"]) (auto simp: free_set_def free_bit_def)

lemma bit_u32_bound: "bit (w :: u32) i \<Longrightarrow> i < 32"
  using bit_imp_le_length[of w i] by simp

lemma ffs_least:
  assumes "w \<noteq> 0"
  obtains i where "ffs w = Suc i" "i < 32" "bit w i" "\<And>j. j < i \<Longrightarrow> \<not> bit w j"
proof -
  obtain k where k: "bit w k" using assms by (metis bit_eq_iff bit_0_eq bot_apply bot_bool_def)
  then have "\<exists>i \<in> set [0..<32]. bit w i" using bit_u32_bound[OF k] by auto
  then obtain i where i: "List.find (\<lambda>i. bit w i) [0..<32] = Some i" by (metis find_None_iff option.exhaust)
  then obtain n where n: "n < 32" "bit w n" "i = n" "\<forall>j < n. \<not> bit w j"
    unfolding find_Some_iff by auto
  show thesis by (rule that[of n]) (use n i in \<open>auto simp: ffs_def\<close>)
qed

lemma slot_scan_words_found:
  assumes "length ws = SLOT_MAP_LEN" "\<forall>j < idx * 32. \<not> free_bit ws j" "free_bit ws i" "\<forall>j < i. \<not> free_bit ws j"
  shows "slot_scan_words ws idx = FoundBit (i div 32) (i mod 32)"
  using assms
proof (induction ws idx rule: slot_scan_words.induct)
  case (1 ws idx)
  have i: "i < 1024" using "1.prems"(3) by (simp add: free_bit_def slot_constants)
  have ge: "idx * 32 \<le> i" using "1.prems"(2,3) by (metis not_le)
  then have lt: "idx < SLOT_MAP_LEN" using i by (simp add: slot_constants)
  show ?case
  proof (cases "ws ! idx = 0")
    case True
    have "\<not> free_bit ws j" if "j < (idx + 1) * 32" for j
    proof (cases "j < idx * 32")
      case False
      then have "j div 32 = idx" using that by auto
      then show ?thesis using True by (simp add: free_bit_def slot_constants)
    qed (use "1.prems"(2) in auto)
    then have "slot_scan_words ws (idx + 1) = FoundBit (i div 32) (i mod 32)"
      using "1.IH"[OF lt True] "1.prems" by simp
    then show ?thesis using lt True by (subst slot_scan_words.simps) simp
  next
    case False
    obtain b where b: "ffs (ws ! idx) = Suc b" "b < 32" "bit (ws ! idx) b" "\<And>j. j < b \<Longrightarrow> \<not> bit (ws ! idx) j"
      using ffs_least[OF False] by metis
    let ?n = "idx * 32 + b"
    have n: "?n < 1024" "?n div 32 = idx" "?n mod 32 = b" using lt b(2) by (auto simp: slot_constants)
    have "free_bit ws ?n" using n b(3) by (simp add: free_bit_def slot_constants)
    moreover have "\<not> free_bit ws j" if "j < ?n" for j
    proof (cases "j < idx * 32")
      case False
      then obtain c where c: "j = idx * 32 + c" using le_iff_add[of "idx * 32" j] by auto
      then have "c < b" using that by simp
      then have "j div 32 = idx" "j mod 32 < b" using b(2) c by auto
      then show ?thesis using b(4) by (simp add: free_bit_def slot_constants)
    qed (use "1.prems"(2) in auto)
    ultimately have "i = ?n" using "1.prems"(3,4) by (metis linorder_neqE_nat)
    then show ?thesis using lt False b(1) n by (subst slot_scan_words.simps) (simp add: slot_constants Let_def)
  qed
qed

section \<open>Allocation\<close>

lemma bit_clear: "bit (w AND NOT (2 ^ k)) j \<longleftrightarrow> bit w j \<and> j \<noteq> k" for w :: u32
  by (cases "j < 32") (auto simp: bit_simps dest: bit_u32_bound)

lemma bit_set: "k < 32 \<Longrightarrow> bit (w OR 2 ^ k) j \<longleftrightarrow> bit w j \<or> j = k" for w :: u32
  by (auto simp: bit_simps)

lemma bit_test: "k < 32 \<Longrightarrow> w AND 2 ^ k = 0 \<longleftrightarrow> \<not> bit w k" for w :: u32
  by (auto simp: bit_eq_iff[of "w AND 2 ^ k" 0] bit_simps)

lemma same_position: "j div 32 = i div 32 \<Longrightarrow> (j mod 32 = i mod 32) = (j = (i :: nat))"
  by (metis div_mult_mod_eq)

lemma free_bit_upd:
  assumes "length ws = SLOT_MAP_LEN" "i < SLOT_NUM"
  shows "free_bit (ws[i div 32 := v]) j \<longleftrightarrow>
    (if j div 32 = i div 32 then j < SLOT_NUM \<and> bit v (j mod 32) else free_bit ws j)"
  using assms by (auto simp: free_bit_def slot_constants nth_list_update)

lemma free_set_clear:
  assumes "length ws = SLOT_MAP_LEN" "i < SLOT_NUM"
  shows "free_set (ws[i div 32 := ws ! (i div 32) AND NOT (2 ^ (i mod 32))]) = free_set ws - {i}"
proof -
  have "free_bit (ws[i div 32 := ws ! (i div 32) AND NOT (2 ^ (i mod 32))]) j \<longleftrightarrow> free_bit ws j \<and> j \<noteq> i" for j
    unfolding free_bit_upd[OF assms] using same_position[of j i]
    by (cases "j div 32 = i div 32") (auto simp: bit_clear free_bit_def slot_constants)
  then show ?thesis by (auto simp: free_set_def)
qed

lemma free_set_add:
  assumes "length ws = SLOT_MAP_LEN" "i < SLOT_NUM"
  shows "free_set (ws[i div 32 := ws ! (i div 32) OR 2 ^ (i mod 32)]) = insert i (free_set ws)"
proof -
  have "free_bit (ws[i div 32 := ws ! (i div 32) OR 2 ^ (i mod 32)]) j \<longleftrightarrow> free_bit ws j \<or> j = i" for j
    unfolding free_bit_upd[OF assms] using same_position[of j i] assms(2)
    by (cases "j div 32 = i div 32") (auto simp: bit_set free_bit_def slot_constants)
  then show ?thesis by (auto simp: free_set_def)
qed

text \<open>The set after the allocation of slot \<^verbatim>\<open>i\<close>.\<close>

definition take_slot :: "nat \<Rightarrow> slot_set \<Rightarrow> slot_set" where
  "take_slot i ss = ss\<lparr>free_slot := (free_slot ss)[i div 32 := free_slot ss ! (i div 32) AND NOT (push_bit (i mod 32) 1)],
     used_slot_count := used_slot_count ss + 1, ss_lock := False\<rparr>"

lemma free_set_bound: "free_set ws \<subseteq> {..<1024}"
  by (auto simp: free_set_def free_bit_def slot_constants)

lemma free_set_take: "\<lbrakk>set_ok ss; i \<in> free_set (free_slot ss)\<rbrakk> \<Longrightarrow> free_set (free_slot (take_slot i ss)) = free_set (free_slot ss) - {i}"
  using free_set_clear[of "free_slot ss" i] by (simp add: take_slot_def set_ok_def) (simp add: free_set_def free_bit_def)

lemma take_slot_ok:
  assumes ok: "set_ok ss" and i: "i \<in> free_set (free_slot ss)"
  shows "set_ok (take_slot i ss)"
proof -
  have c: "0 < card (free_set (free_slot ss))" using i by (auto simp: card_gt_0_iff)
  then have "unat (used_slot_count ss) < 1024" using ok by (auto simp: set_ok_def slot_constants)
  then have "unat (used_slot_count ss + 1) = unat (used_slot_count ss) + 1"
    by (simp add: unat_word_ariths)
  then show ?thesis
    using ok i c free_set_take[OF ok i] by (simp add: set_ok_def take_slot_def)
qed

definition slot_ok :: "slot_state \<Rightarrow> addr list \<Rightarrow> bool" where
  "slot_ok s xs \<longleftrightarrow> ring (ss_lists s) (slot_sets s) xs \<and>
     (\<forall>x \<in> set xs. slot_set_of x \<noteq> NULL \<and> (\<exists>ss. ss_sets s (slot_set_of x) = Some ss \<and> set_ok ss))"

definition slot_rel :: "slot_state \<Rightarrow> addr list \<Rightarrow> bool" where
  "slot_rel s xs \<longleftrightarrow> \<not> slot_sets_lock s \<and> slot_ok s xs"

text \<open>The bitmap of the set at a list entry.\<close>

abbreviation free_at :: "slot_state \<Rightarrow> addr \<Rightarrow> nat set" where
  "free_at s x \<equiv> free_set (free_slot (the (ss_sets s (slot_set_of x))))"

lemma slot_entry_inverse [simp]:
  "slot_set_of (slot_set_list p) = p" "slot_set_list (slot_set_of x) = x"
  by (simp_all add: slot_set_of_def slot_set_list_def)

lemma slot_set_of_inj [simp]: "slot_set_of a = slot_set_of b \<longleftrightarrow> a = b"
  by (simp add: slot_set_of_def)

lemma set_ok_full: "set_ok ss \<Longrightarrow> unat (used_slot_count ss) = SLOT_NUM \<longleftrightarrow> free_set (free_slot ss) = {}"
  by (auto simp: set_ok_def)

lemma set_slot_lock_Some:
  "\<lbrakk>p \<noteq> NULL; ss_sets s p = Some ss\<rbrakk> \<Longrightarrow> set_slot_lock p b s = Some (s\<lparr>ss_sets := (ss_sets s)(p \<mapsto> ss\<lparr>ss_lock := b\<rparr>)\<rparr>)"
  by (simp add: set_slot_lock_def modify_def load_def)

lemma scan_words_Min:
  assumes "set_ok ss" "free_set (free_slot ss) \<noteq> {}"
  shows "slot_scan_words (free_slot ss) 0 =
    FoundBit (Min (free_set (free_slot ss)) div 32) (Min (free_set (free_slot ss)) mod 32)"
proof (rule slot_scan_words_found)
  let ?F = "free_set (free_slot ss)"
  have "Min ?F \<in> ?F" using assms(2) by (intro Min_in) auto
  then show "free_bit (free_slot ss) (Min ?F)" by (simp add: free_set_def)
  have "Min ?F \<le> j" if "free_bit (free_slot ss) j" for j using that Min_le[OF finite_free_set, of j] by (simp add: free_set_def)
  then show "\<forall>j < Min ?F. \<not> free_bit (free_slot ss) j" by (meson leD)
qed (use assms(1) in \<open>simp_all add: set_ok_def\<close>)

lemma slot_scan_sets_ring:
  assumes "ring (ss_lists s) (slot_sets s) (as @ bs)"
    and "\<forall>x \<in> set bs. slot_set_of x \<noteq> NULL \<and> (\<exists>ss. ss_sets s (slot_set_of x) = Some ss \<and> set_ok ss)"
  shows "slot_scan_sets (hd (bs @ [slot_sets s])) 0 s =
    Some (case List.find (\<lambda>x. free_at s x \<noteq> {}) bs of None \<Rightarrow> (None, s)
      | Some x \<Rightarrow> (Some (slot_set_of x, Min (free_at s x) div 32, Min (free_at s x) mod 32),
          s\<lparr>ss_sets := (ss_sets s)(slot_set_of x \<mapsto> (the (ss_sets s (slot_set_of x)))\<lparr>ss_lock := True\<rparr>)\<rparr>))"
  using assms
proof (induction bs arbitrary: as)
  case Nil
  then show ?case by (subst slot_scan_sets.simps) simp
next
  case (Cons x bs)
  obtain ss where ss: "slot_set_of x \<noteq> NULL" "ss_sets s (slot_set_of x) = Some ss" "set_ok ss" using Cons.prems(2) by auto
  have nh: "x \<noteq> slot_sets s" using ring_distinct[OF Cons.prems(1)] by auto
  have nx: "get_next (ss_lists s) x = Some (hd (bs @ [slot_sets s]))"
    using ring_next_mid[OF Cons.prems(1)] by (simp add: nexts_def)
  have lk: "\<not> ss_lock ss" using ss(3) by (simp add: set_ok_def)
  have l: "load (ss_sets s) (slot_set_of x) = Some ss" using ss by (simp add: load_def)
  let ?s = "s\<lparr>ss_sets := (ss_sets s)(slot_set_of x \<mapsto> ss\<lparr>ss_lock := True\<rparr>)\<rparr>"
  have lock: "set_slot_lock (slot_set_of x) True s = Some ?s" using ss by (simp add: set_slot_lock_Some)
  have "set_slot_lock (slot_set_of x) False ?s = Some (s\<lparr>ss_sets := (ss_sets s)(slot_set_of x \<mapsto> ss)\<rparr>)"
    using ss(1) lk by (cases ss) (simp add: set_slot_lock_def modify_def)
  then have unlock: "set_slot_lock (slot_set_of x) False ?s = Some s" using ss(2) by (simp add: map_upd_triv)
  have ih: "slot_scan_sets (hd (bs @ [slot_sets s])) 0 s =
    Some (case List.find (\<lambda>x. free_at s x \<noteq> {}) bs of None \<Rightarrow> (None, s)
      | Some x \<Rightarrow> (Some (slot_set_of x, Min (free_at s x) div 32, Min (free_at s x) mod 32),
          s\<lparr>ss_sets := (ss_sets s)(slot_set_of x \<mapsto> (the (ss_sets s (slot_set_of x)))\<lparr>ss_lock := True\<rparr>)\<rparr>))"
    using Cons.IH[of "as @ [x]"] Cons.prems by simp
  show ?case
  proof (cases "free_set (free_slot ss) = {}")
    case True
    then show ?thesis
      using nh l lk lock unlock ih ss set_ok_full[OF ss(3)] by (subst slot_scan_sets.simps) (simp add: nx)
  next
    case False
    then show ?thesis
      using nh l lk lock ss set_ok_full[OF ss(3)] scan_words_Min[OF ss(3) False]
      by (subst slot_scan_sets.simps) (simp add: Let_def)
  qed
qed

text \<open>Allocation from the first set that has a free slot: it takes the lowest one.\<close>

lemma slot_alloc_found:
  assumes r: "slot_rel s xs" and x: "List.find (\<lambda>x. free_at s x \<noteq> {}) xs = Some x"
  defines "i \<equiv> Min (free_at s x)" and "ss \<equiv> the (ss_sets s (slot_set_of x))"
  shows "slot_alloc calloc mmap s = Some (slot_set_of x, of_nat i, s\<lparr>ss_sets := (ss_sets s)(slot_set_of x \<mapsto> take_slot i ss)\<rparr>)"
proof -
  let ?s = "s\<lparr>slot_sets_lock := True\<rparr>"
  have ring: "ring (ss_lists s) (slot_sets s) xs" and ok: "slot_ok s xs" and lk: "\<not> slot_sets_lock s"
    using r by (auto simp: slot_rel_def slot_ok_def)
  have xin: "x \<in> set xs" using find_SomeD[OF x] by simp
  have nn: "slot_set_of x \<noteq> NULL" "ss_sets s (slot_set_of x) = Some ss" using ok xin by (auto simp: slot_ok_def ss_def)
  have scan: "slot_scan_sets (hd (xs @ [slot_sets s])) 0 ?s = Some (Some (slot_set_of x, i div 32, i mod 32),
      ?s\<lparr>ss_sets := (ss_sets s)(slot_set_of x \<mapsto> ss\<lparr>ss_lock := True\<rparr>)\<rparr>)"
    using slot_scan_sets_ring[of ?s "[]" xs] ring ok x by (simp add: slot_ok_def i_def ss_def)
  have "get_next (ss_lists s) (slot_sets s) = Some (hd (xs @ [slot_sets s]))"
    using ring_nextsI[OF ring] by (simp add: nexts_def)
  moreover have "of_nat (i div 32) * 32 + of_nat (i mod 32) = (of_nat i :: u32)"
    using div_mult_mod_eq[of i 32] by (metis of_nat_add of_nat_mult of_nat_numeral)
  ultimately show ?thesis
    using lk nn by (subst slot_alloc.simps) (auto simp: scan modify_def take_slot_def slot_constants)
qed

text \<open>What the allocators promise: a fresh block, and a mapping of unused addresses.\<close>

definition calloc_ok :: "(slot_state \<Rightarrow> addr) \<Rightarrow> slot_state \<Rightarrow> bool" where
  "calloc_ok calloc s \<longleftrightarrow> calloc s \<noteq> NULL \<and> slot_set_list (calloc s) \<noteq> NULL \<and>
     ss_sets s (calloc s) = None \<and> ss_lists s (slot_set_list (calloc s)) = None"

definition mmap_ok :: "(memory \<Rightarrow> addr) \<Rightarrow> memory \<Rightarrow> bool" where
  "mmap_ok mmap m \<longleftrightarrow> mmap m \<noteq> NULL \<and> unat (mmap m) + SLOT_PAGE_SIZE < 2 ^ 64 \<and>
     (\<forall>a. in_range (mmap m) (of_nat SLOT_PAGE_SIZE) a \<longrightarrow> mem_words m a = None)"

definition fresh_set :: "addr \<Rightarrow> slot_set" where
  "fresh_set p = \<lparr>free_slot = replicate SLOT_MAP_LEN (-1), used_slot_count = 0, ss_slots = p, ss_lock = False\<rparr>"

lemma free_set_fresh [simp]: "free_set (free_slot (fresh_set p)) = {..<SLOT_NUM}"
  by (auto simp: free_set_def free_bit_def fresh_set_def slot_constants bit_simps)

lemma fresh_set_ok [simp]: "set_ok (fresh_set p)"
  unfolding set_ok_def free_set_fresh by (simp add: fresh_set_def)

lemma mmap_not_failed: "mmap_ok mmap m \<Longrightarrow> mmap m \<noteq> MAP_FAILED"
  by (auto simp: mmap_ok_def MAP_FAILED_def slot_constants unsigned_minus_1_eq_mask mask_eq_exp_minus_1)

lemma slot_set_add_spec:
  assumes r: "slot_rel s xs" and c: "calloc_ok calloc s" and m: "mmap_ok mmap (ss_mem s)"
  shows "\<exists>h. slot_set_add calloc mmap s = Some (s\<lparr>ss_lists := h, ss_sets := (ss_sets s)(calloc s \<mapsto> fresh_set (mmap (ss_mem s))),
      ss_mem := map_anonymous (mmap (ss_mem s)) (of_nat SLOT_PAGE_SIZE) (ss_mem s)\<rparr>) \<and>
    ring h (slot_sets s) (slot_set_list (calloc s) # xs) \<and>
    (\<forall>p. p \<notin> footprint (slot_sets s) (slot_set_list (calloc s) # xs) \<longrightarrow> h p = ss_lists s p)"
proof -
  let ?p = "calloc s" and ?x = "slot_set_list (calloc s)"
  let ?h = "(ss_lists s)(?x \<mapsto> \<lparr>lh_next = NULL, lh_prev = NULL\<rparr>)"
  have p: "?p \<noteq> NULL" "?x \<noteq> NULL" "ss_lists s ?x = None" using c by (auto simp: calloc_ok_def)
  have ring: "ring (ss_lists s) (slot_sets s) xs" and lk: "\<not> slot_sets_lock s" using r by (auto simp: slot_rel_def slot_ok_def)
  have out: "?x \<notin> footprint (slot_sets s) xs"
    using ring_live[OF ring, of ?x] p(3) by (auto simp: live_def load_def split: if_splits)
  obtain h1 where h1: "INIT_LIST_HEAD ?x ?h = Some h1" "ring h1 ?x []" "relinked ?h {?x} h1"
    using INIT_LIST_HEAD_ring[of ?h ?x] p(2) by (auto simp: live_def)
  have "ring h1 (slot_sets s) xs" using ring_relinked[OF ring_alloc[OF ring out] h1(3)] out by auto
  moreover have "live h1 ?x" using ring_live[OF h1(2)] by simp
  ultimately obtain h where h: "list_add ?x (slot_sets s) h1 = Some h" "ring h (slot_sets s) (?x # xs)"
    "relinked h1 (footprint (slot_sets s) (?x # xs)) h" using ringlist.push_law out by blast
  have "slot_set_add calloc mmap s = Some (s\<lparr>ss_lists := h, ss_sets := (ss_sets s)(?p \<mapsto> fresh_set (mmap (ss_mem s))),
      ss_mem := map_anonymous (mmap (ss_mem s)) (of_nat SLOT_PAGE_SIZE) (ss_mem s)\<rparr>)"
    using p(1) h1(1) h(1) lk mmap_not_failed[OF m]
    by (simp add: slot_set_add_def modify_def fresh_set_def Let_def)
  moreover have "h p = ss_lists s p" if "p \<notin> footprint (slot_sets s) (?x # xs)" for p
    using that h(3) h1(3) by (auto simp: relinked_def)
  ultimately show ?thesis using h(2) by blast
qed

lemma Min_lessThan: "Min {..<SLOT_NUM} = 0"
  by (rule Min_eqI) (auto simp: slot_constants)

text \<open>When every set is full, a new one is mapped and its slot 0 is handed out.\<close>

lemma slot_alloc_new:
  assumes r: "slot_rel s xs" and full: "\<forall>x \<in> set xs. free_at s x = {}"
    and c: "calloc_ok calloc s" and m: "mmap_ok mmap (ss_mem s)"
  shows "\<exists>h. slot_alloc calloc mmap s = Some (calloc s, 0, s\<lparr>ss_lists := h,
      ss_sets := (ss_sets s)(calloc s \<mapsto> take_slot 0 (fresh_set (mmap (ss_mem s)))),
      ss_mem := map_anonymous (mmap (ss_mem s)) (of_nat SLOT_PAGE_SIZE) (ss_mem s)\<rparr>) \<and>
    ring h (slot_sets s) (slot_set_list (calloc s) # xs) \<and>
    (\<forall>p. p \<notin> footprint (slot_sets s) (slot_set_list (calloc s) # xs) \<longrightarrow> h p = ss_lists s p)"
proof -
  let ?s = "s\<lparr>slot_sets_lock := True\<rparr>" and ?x = "slot_set_list (calloc s)"
  have ring: "ring (ss_lists s) (slot_sets s) xs" and ok: "slot_ok s xs" and lk: "\<not> slot_sets_lock s"
    using r by (auto simp: slot_rel_def slot_ok_def)
  have "List.find (\<lambda>x. free_at ?s x \<noteq> {}) xs = None" using full by (auto simp: find_None_iff)
  then have scan: "slot_scan_sets (hd (xs @ [slot_sets s])) 0 ?s = Some (None, ?s)"
    using slot_scan_sets_ring[of ?s "[]" xs] ring ok by (simp add: slot_ok_def)
  have gn: "get_next (ss_lists s) (slot_sets s) = Some (hd (xs @ [slot_sets s]))"
    using ring_nextsI[OF ring] by (simp add: nexts_def)
  have s: "s\<lparr>slot_sets_lock := False\<rparr> = s" using lk by simp
  obtain h where h: "slot_set_add calloc mmap s = Some (s\<lparr>ss_lists := h, ss_sets := (ss_sets s)(calloc s \<mapsto> fresh_set (mmap (ss_mem s))),
      ss_mem := map_anonymous (mmap (ss_mem s)) (of_nat SLOT_PAGE_SIZE) (ss_mem s)\<rparr>)" (is "_ = Some ?t")
    "ring h (slot_sets s) (?x # xs)"
    "\<forall>p. p \<notin> footprint (slot_sets s) (?x # xs) \<longrightarrow> h p = ss_lists s p"
    using slot_set_add_spec[OF r c m] by blast
  have once: "slot_alloc calloc mmap s = slot_alloc calloc mmap ?t"
    using lk by (subst slot_alloc.simps) (simp add: gn scan s h(1))
  have "slot_set_of x \<noteq> calloc s" if "x \<in> set xs" for x using ok that c by (auto simp: slot_ok_def calloc_ok_def)
  then have "slot_rel ?t (?x # xs)"
    using ok h(2) lk c by (auto simp: slot_rel_def slot_ok_def calloc_ok_def)
  moreover have "List.find (\<lambda>x. free_at ?t x \<noteq> {}) (?x # xs) = Some ?x" by (simp add: slot_constants lessThan_empty_iff)
  ultimately have "slot_alloc calloc mmap ?t = Some (calloc s, 0,
      ?t\<lparr>ss_sets := (ss_sets s)(calloc s \<mapsto> take_slot 0 (fresh_set (mmap (ss_mem s))))\<rparr>)"
    using slot_alloc_found[of ?t "?x # xs" ?x calloc mmap] by (simp add: Min_lessThan)
  then show ?thesis using once h(2,3) by (intro exI[of _ h]) simp
qed

text \<open>
  Both cases together: allocation always returns, with a slot that was free and is free no longer;
  every other slot keeps its state, and the bitmaps and counts stay consistent.
\<close>

definition free_slots :: "slot_state \<Rightarrow> addr list \<Rightarrow> (addr \<times> nat) set" where
  "free_slots s xs = {(slot_set_of x, i) | x i. x \<in> set xs \<and> i \<in> free_at s x}"

lemma slot_ok_upd:
  assumes "slot_ok s xs" "set_ok ss" "x \<in> set xs"
  shows "slot_ok (s\<lparr>ss_sets := (ss_sets s)(slot_set_of x \<mapsto> ss)\<rparr>) xs"
  using assms by (auto simp: slot_ok_def)

lemma slot_alloc_existing:
  assumes r: "slot_rel s xs" and f: "\<exists>x \<in> set xs. free_at s x \<noteq> {}"
  shows "\<exists>x i s'. slot_alloc calloc mmap s = Some (slot_set_of x, of_nat i, s') \<and> x \<in> set xs \<and> i \<in> free_at s x \<and> slot_rel s' xs \<and>
    free_slots s' xs = free_slots s xs - {(slot_set_of x, i)} \<and> ss_mem s' = ss_mem s \<and> ss_lists s' = ss_lists s \<and>
    s' = s\<lparr>ss_sets := (ss_sets s)(slot_set_of x \<mapsto> take_slot i (the (ss_sets s (slot_set_of x))))\<rparr>"
proof -
  obtain x where x: "List.find (\<lambda>x. free_at s x \<noteq> {}) xs = Some x" using find_exists[OF f] by blast
  then have xin: "x \<in> set xs" "free_at s x \<noteq> {}" by (auto dest: find_SomeD)
  let ?i = "Min (free_at s x)"
  have i: "?i \<in> free_at s x" using xin(2) by (intro Min_in) auto
  obtain ss where ss: "ss_sets s (slot_set_of x) = Some ss" "set_ok ss" using r xin(1) by (auto simp: slot_rel_def slot_ok_def)
  let ?s = "s\<lparr>ss_sets := (ss_sets s)(slot_set_of x \<mapsto> take_slot ?i ss)\<rparr>"
  have "set_ok (take_slot ?i ss)" using take_slot_ok[OF ss(2)] i ss(1) by simp
  then have "slot_rel ?s xs" using r slot_ok_upd[OF _ _ xin(1)] by (auto simp: slot_rel_def)
  moreover have "free_at ?s y = (if y = x then free_at s x - {?i} else free_at s y)" for y
    using free_set_take[OF ss(2), of ?i] i ss(1) by auto
  then have "free_slots ?s xs = free_slots s xs - {(slot_set_of x, ?i)}"
    using xin(1) unfolding free_slots_def by (auto split: if_splits)
  ultimately show ?thesis using slot_alloc_found[OF r x] i xin(1) ss(1) by (intro exI[of _ x] exI[of _ ?i] exI[of _ ?s]) simp
qed

section \<open>Release\<close>

lemma slot_free_low:
  assumes "p \<noteq> NULL" "ss_sets s p = Some ss" "set_ok ss" "unat index < 32" "unat index \<notin> free_set (free_slot ss)"
  shows "\<exists>ss'. slot_free p index s = Some (s\<lparr>ss_sets := (ss_sets s)(p \<mapsto> ss')\<rparr>) \<and> set_ok ss' \<and>
    ss_slots ss' = ss_slots ss \<and> free_set (free_slot ss') = insert (unat index) (free_set (free_slot ss))"
proof -
  let ?i = "unat index"
  let ?ws = "(free_slot ss)[0 := free_slot ss ! 0 OR 2 ^ ?i]"
  let ?ss = "ss\<lparr>free_slot := ?ws, used_slot_count := used_slot_count ss - 1, ss_lock := False\<rparr>"
  have len: "length (free_slot ss) = SLOT_MAP_LEN" and lk: "\<not> ss_lock ss"
    and cnt: "unat (used_slot_count ss) + card (free_set (free_slot ss)) = SLOT_NUM" using assms(3) by (auto simp: set_ok_def)
  have b: "free_slot ss ! 0 AND 2 ^ ?i = 0" using assms(4,5) by (simp add: bit_test free_set_def free_bit_def slot_constants)
  have fs: "free_set ?ws = insert ?i (free_set (free_slot ss))"
    using free_set_add[OF len, of ?i] assms(4) by (simp add: slot_constants)
  have sub: "insert ?i (free_set (free_slot ss)) \<subseteq> {..<SLOT_NUM}" using assms(4) free_set_bound by (auto simp: slot_constants)
  have "card (insert ?i (free_set (free_slot ss))) \<le> SLOT_NUM" using card_mono[OF _ sub] by simp
  then have "card (free_set (free_slot ss)) < SLOT_NUM" using assms(5) by simp
  then have pos: "0 < unat (used_slot_count ss)" using cnt by simp
  then have "used_slot_count ss \<noteq> 0" by auto
  then have "unat (used_slot_count ss - 1) = unat (used_slot_count ss) - 1" by (rule unat_minus_one)
  then have "set_ok ?ss" using len cnt fs assms(5) pos by (simp add: set_ok_def)
  moreover have "slot_free p index s = Some (s\<lparr>ss_sets := (ss_sets s)(p \<mapsto> ?ss)\<rparr>)"
    using assms(1,2,4) lk b by (simp add: slot_free_def slot_constants load_def modify_def set_slot_lock_def)
  ultimately show ?thesis using fs by (intro exI[of _ ?ss]) simp
qed

text \<open>The assertion of \<^verbatim>\<open>slot_free\<close> admits only the 32 slots of the first bitmap word.\<close>

lemma slot_free_high: "32 \<le> unat index \<Longrightarrow> slot_free p index s = None"
  by (simp add: slot_free_def slot_constants c_assert_def)

section \<open>Properties\<close>

text \<open>A state with no slot set, and one with a set that has just been mapped; results of \<^verbatim>\<open>calloc\<close> and \<^verbatim>\<open>mmap\<close>.\<close>

definition sample_slots :: slot_state where
  "sample_slots = \<lparr>ss_lists = [0x700 \<mapsto> \<lparr>lh_next = 0x700, lh_prev = 0x700\<rparr>], ss_sets = Map.empty, slot_sets = 0x700,
     slot_sets_lock = False, ss_mem = \<lparr>mem_words = [0x400DAC \<mapsto> 0xD503201F], mem_writable = (\<lambda>_. False)\<rparr>\<rparr>"

definition sample_one_set :: slot_state where
  "sample_one_set = \<lparr>ss_lists = [0x700 \<mapsto> \<lparr>lh_next = 0x50C0, lh_prev = 0x50C0\<rparr>, 0x50C0 \<mapsto> \<lparr>lh_next = 0x700, lh_prev = 0x700\<rparr>],
     ss_sets = [0x5000 \<mapsto> fresh_set 0x10000], slot_sets = 0x700, slot_sets_lock = False,
     ss_mem = \<lparr>mem_words = Map.empty, mem_writable = (\<lambda>_. False)\<rparr>\<rparr>"

lemma sample_slots_ok:
  "slot_rel sample_slots []" "calloc_ok (\<lambda>_. 0x5000) sample_slots" "mmap_ok (\<lambda>_. 0x10000) (ss_mem sample_slots)"
proof -
  show "slot_rel sample_slots []" "calloc_ok (\<lambda>_. 0x5000) sample_slots"
    by (simp_all add: slot_rel_def slot_ok_def sample_slots_def ring_def nexts_def prevs_def load_def calloc_ok_def slot_set_list_def)
  show "mmap_ok (\<lambda>_. 0x10000) (ss_mem sample_slots)"
    by (auto simp: mmap_ok_def sample_slots_def slot_constants in_range_def)
qed

lemma sample_one_set_ok: "slot_rel sample_one_set [0x50C0]" "free_at sample_one_set 0x50C0 = {..<SLOT_NUM}"
  by (simp_all add: slot_rel_def slot_ok_def sample_one_set_def ring_def nexts_def prevs_def load_def slot_set_of_def)

text \<open>
  C16: when a set has a free slot, \<^verbatim>\<open>slot_alloc\<close> returns one that was free, marks it as used and no other; the
  bitmaps and their counts stay in agreement, and no memory is mapped.
\<close>

theorem slot_alloc_takes_free_slot:
  assumes "slot_rel s xs" "\<exists>x \<in> set xs. free_at s x \<noteq> {}"
  shows "\<exists>x i s'. slot_alloc calloc mmap s = Some (slot_set_of x, of_nat i, s') \<and> x \<in> set xs \<and> i \<in> free_at s x \<and> slot_rel s' xs \<and>
    free_slots s' xs = free_slots s xs - {(slot_set_of x, i)} \<and> ss_mem s' = ss_mem s"
  using slot_alloc_existing[OF assms] by blast

theorem slot_alloc_takes_free_slot_witness:
  "\<exists>x i s'. slot_alloc (\<lambda>_. NULL) (\<lambda>_. NULL) sample_one_set = Some (slot_set_of x, of_nat i, s') \<and> x \<in> set [0x50C0] \<and>
    i \<in> free_at sample_one_set x \<and> slot_rel s' [0x50C0] \<and>
    free_slots s' [0x50C0] = free_slots sample_one_set [0x50C0] - {(slot_set_of x, i)} \<and> ss_mem s' = ss_mem sample_one_set"
  by (rule slot_alloc_takes_free_slot[OF sample_one_set_ok(1)]) (simp add: sample_one_set_ok(2) slot_constants lessThan_empty_iff)

text \<open>
  C17: when no set has a free slot, \<^verbatim>\<open>slot_alloc\<close> makes a new set, maps a page for it and returns its slot 0: the
  search that follows the allocation finds it, so the function does not run in circles.
\<close>

theorem slot_alloc_makes_new_set:
  assumes "slot_rel s xs" "\<forall>x \<in> set xs. free_at s x = {}" "calloc_ok calloc s" "mmap_ok mmap (ss_mem s)"
  shows "\<exists>s'. slot_alloc calloc mmap s = Some (calloc s, 0, s') \<and> slot_rel s' (slot_set_list (calloc s) # xs) \<and>
    free_slots s' (slot_set_list (calloc s) # xs) = {calloc s} \<times> {1..<SLOT_NUM} \<and>
    ss_mem s' = map_anonymous (mmap (ss_mem s)) (of_nat SLOT_PAGE_SIZE) (ss_mem s)"
proof -
  let ?p = "calloc s" and ?f = "fresh_set (mmap (ss_mem s))" and ?x = "slot_set_list (calloc s)"
  obtain h where h: "slot_alloc calloc mmap s = Some (?p, 0, s\<lparr>ss_lists := h, ss_sets := (ss_sets s)(?p \<mapsto> take_slot 0 ?f),
      ss_mem := map_anonymous (mmap (ss_mem s)) (of_nat SLOT_PAGE_SIZE) (ss_mem s)\<rparr>)" (is "_ = Some (_, _, ?s)")
    "ring h (slot_sets s) (?x # xs)"
    using slot_alloc_new[OF assms] by blast
  have ok: "slot_ok s xs" "\<not> slot_sets_lock s" using assms(1) by (auto simp: slot_rel_def)
  have new: "slot_set_of y \<noteq> ?p" if "y \<in> set xs" for y using ok(1) that assms(3) by (auto simp: slot_ok_def calloc_ok_def)
  have "set_ok (take_slot 0 ?f)" by (intro take_slot_ok) (simp_all add: slot_constants)
  then have "slot_ok ?s (?x # xs)" using ok(1) h(2) new assms(3) by (simp add: slot_ok_def calloc_ok_def)
  then have "slot_rel ?s (?x # xs)" using ok(2) by (simp add: slot_rel_def)
  moreover have f: "free_at ?s ?x = {1..<SLOT_NUM}"
  proof -
    have "free_set (free_slot (take_slot 0 ?f)) = {..<SLOT_NUM} - {0}" using free_set_take[of ?f 0] unfolding free_set_fresh
      by (simp add: slot_constants)
    also have "\<dots> = {1..<SLOT_NUM}" by auto
    finally show ?thesis by simp
  qed
  have "free_slots ?s (?x # xs) = {(slot_set_of ?x, i) | i. i \<in> free_at ?s ?x}"
    unfolding free_slots_def using new assms(2) by fastforce
  then have "free_slots ?s (?x # xs) = {?p} \<times> {1..<SLOT_NUM}" unfolding f by auto
  ultimately show ?thesis using h(1) by (intro exI[of _ ?s]) simp
qed

theorem slot_alloc_makes_new_set_witness:
  "\<exists>s'. slot_alloc (\<lambda>_. 0x5000) (\<lambda>_. 0x10000) sample_slots = Some (0x5000, 0, s') \<and> slot_rel s' [slot_set_list 0x5000] \<and>
    free_slots s' [slot_set_list 0x5000] = {0x5000} \<times> {1..<SLOT_NUM} \<and>
    ss_mem s' = map_anonymous 0x10000 (of_nat SLOT_PAGE_SIZE) (ss_mem sample_slots)"
  using slot_alloc_makes_new_set[OF sample_slots_ok(1) _ sample_slots_ok(2,3)] by simp

text \<open>
  C18: a slot that \<^verbatim>\<open>slot_alloc\<close> handed out from the first word of a bitmap can be given back, and the free slots are
  then those there were before.
\<close>

theorem slot_alloc_free_round_trip:
  assumes "slot_rel s xs" "\<exists>x \<in> set xs. free_at s x \<noteq> {}" "slot_alloc calloc mmap s = Some (p, index, s')" "unat index < 32"
  shows "\<exists>s''. slot_free p index s' = Some s'' \<and> slot_rel s'' xs \<and> free_slots s'' xs = free_slots s xs"
proof -
  obtain x i where a: "p = slot_set_of x" "index = of_nat i" "x \<in> set xs" "i \<in> free_at s x" "slot_rel s' xs"
    "free_slots s' xs = free_slots s xs - {(slot_set_of x, i)}"
    "s' = s\<lparr>ss_sets := (ss_sets s)(slot_set_of x \<mapsto> take_slot i (the (ss_sets s (slot_set_of x))))\<rparr>"
    using slot_alloc_existing[OF assms(1,2), of calloc mmap] assms(3) by auto
  have "i < 1024" using free_set_bound a(4) by blast
  then have i: "unat index = i" by (simp add: a(2) unat_of_nat take_bit_nat_eq_self)
  obtain ss where ss: "ss_sets s' p = Some ss" "set_ok ss" "p \<noteq> NULL" using a(1,3,5) by (auto simp: slot_rel_def slot_ok_def)
  have "(slot_set_of x, i) \<notin> free_slots s' xs" using a(6) by blast
  then have "unat index \<notin> free_set (free_slot ss)" using a(1,3) ss(1) i by (auto simp: free_slots_def)
  then obtain ss' where f: "slot_free p index s' = Some (s'\<lparr>ss_sets := (ss_sets s')(p \<mapsto> ss')\<rparr>)" "set_ok ss'"
    "free_set (free_slot ss') = insert i (free_set (free_slot ss))"
    using slot_free_low[OF ss(3,1,2) assms(4)] i by auto
  let ?t = "s'\<lparr>ss_sets := (ss_sets s')(p \<mapsto> ss')\<rparr>"
  have "slot_rel ?t xs" using a(1,3,5) f(2) slot_ok_upd[of s' xs ss' x] by (simp add: slot_rel_def)
  moreover have "free_at ?t y = (if y = x then insert i (free_at s' x) else free_at s' y)" for y
    using a(1) f(3) ss(1) by auto
  then have "free_slots ?t xs = insert (p, i) (free_slots s' xs)"
    using a(1,3) unfolding free_slots_def by (auto split: if_splits)
  moreover have "(p, i) \<in> free_slots s xs" using a(1,3,4) by (auto simp: free_slots_def)
  ultimately show ?thesis using f(1) a(1,6) by (intro exI[of _ ?t]) auto
qed

theorem slot_alloc_free_round_trip_witness:
  "\<exists>s' s''. slot_alloc (\<lambda>_. NULL) (\<lambda>_. NULL) sample_one_set = Some (0x5000, 0, s') \<and> slot_free 0x5000 0 s' = Some s'' \<and>
    slot_rel s'' [0x50C0] \<and> free_slots s'' [0x50C0] = free_slots sample_one_set [0x50C0]"
proof -
  have ex: "\<exists>x \<in> set [0x50C0]. free_at sample_one_set x \<noteq> {}" by (simp add: sample_one_set_ok(2) slot_constants lessThan_empty_iff)
  have "List.find (\<lambda>x. free_at sample_one_set x \<noteq> {}) [0x50C0] = Some 0x50C0"
    by (simp add: sample_one_set_ok(2) slot_constants lessThan_empty_iff)
  from slot_alloc_found[OF sample_one_set_ok(1) this, of "\<lambda>_. NULL" "\<lambda>_. NULL"]
  obtain s' where s': "slot_alloc (\<lambda>_. NULL) (\<lambda>_. NULL) sample_one_set = Some (0x5000, 0, s')"
    unfolding sample_one_set_ok(2) Min_lessThan by (simp add: slot_set_of_def)
  from slot_alloc_free_round_trip[OF sample_one_set_ok(1) ex s'] s' show ?thesis by simp
qed

text \<open>
  C35: \<^verbatim>\<open>slot_free\<close> of any other slot ends the process: its assertion compares the index with the number of bits of
  one word, not with the number of slots.
\<close>

theorem slot_free_high_index_aborts:
  assumes "32 \<le> unat index"
  shows "slot_free p index s = None"
  using assms by (rule slot_free_high)

theorem slot_free_high_index_aborts_witness: "slot_free 0x5000 32 sample_one_set = None"
  by (rule slot_free_high_index_aborts) simp

text \<open>
  Half of the slots that the bitmap of a new set offers lie outside the memory that \<^verbatim>\<open>slot_set_add\<close> maps for it:
  it maps one page and counts the slots of two.
\<close>

theorem slots_beyond_the_page:
  assumes "512 \<le> i" "i < SLOT_NUM"
  shows "i \<in> free_set (free_slot (fresh_set p)) \<and>
    \<not> in_range p (of_nat SLOT_PAGE_SIZE) (BP_GET_SLOT_OFFSET (fresh_set p) (of_nat i))"
proof -
  have "unat (of_nat (i * 8) :: u32) = i * 8" using assms(2) by (simp only: unat_of_nat) (simp add: take_bit_nat_eq_self slot_constants)
  moreover have "take_bit 64 (i * 8) = i * 8" using assms(2) by (simp add: take_bit_nat_eq_self slot_constants)
  ultimately have "(4096 :: addr) \<le> ucast (of_nat (i * 8) :: u32)" using assms(1) by (simp add: word_le_nat_alt unsigned_ucast_eq)
  then show ?thesis
    unfolding free_set_fresh using assms(2) by (simp add: in_range_def BP_GET_SLOT_OFFSET_def fresh_set_def slot_constants not_less)
qed

theorem slots_beyond_the_page_witness:
  "512 \<in> free_set (free_slot (fresh_set 0x10000)) \<and>
    \<not> in_range 0x10000 (of_nat SLOT_PAGE_SIZE) (BP_GET_SLOT_OFFSET (fresh_set 0x10000) (of_nat 512))"
  by (rule slots_beyond_the_page) (simp_all add: slot_constants)

end
