(* ===== verification/Maps_Parser.thy ===== *)
theory Maps_Parser
  imports Prelude
begin

text \<open>
  The parser of \<^verbatim>\<open>/proc/self/maps\<close> in \<^verbatim>\<open>signal_test/object.c\<close>: \<^verbatim>\<open>hex_to_int\<close> and the functions that read one
  field of a line each.

  A pointer into the text is the list of the characters from there up to the terminating null
  character.  A loop that looks for a separator and passes the end of the text reads beyond the
  buffer; that is \<^verbatim>\<open>None\<close>, as is a failed assertion.  A function that returns a null pointer
  gives \<^verbatim>\<open>Some None\<close>.  \<^verbatim>\<open>strndup\<close> allocates: whether the copy of a string can be made is the parameter
  \<^verbatim>\<open>dup\<close>.
\<close>

section \<open>Searching a separator\<close>

text \<open>The loops \<^verbatim>\<open>for (; mmap[pos] != c; pos++);\<close>.\<close>

fun scan_to :: "char \<Rightarrow> string \<Rightarrow> nat option" where
  "scan_to c [] = None"
| "scan_to c (x # xs) = (if x = c then Some 0 else map_option Suc (scan_to c xs))"

text \<open>The loop \<^verbatim>\<open>for (; pos < end && mmap[pos] != c; pos++);\<close> on the first \<^verbatim>\<open>end\<close> characters.\<close>

fun scan_within :: "char \<Rightarrow> string \<Rightarrow> nat" where
  "scan_within c [] = 0"
| "scan_within c (x # xs) = (if x = c then 0 else Suc (scan_within c xs))"

section \<open>Numbers\<close>

definition digit_value :: "char \<Rightarrow> nat option" where
  "digit_value c = (let v = of_char c in
     if of_char CHR ''0'' \<le> v \<and> v \<le> of_char CHR ''9'' then Some (v - of_char CHR ''0'')
     else if of_char CHR ''a'' \<le> v \<and> v \<le> of_char CHR ''f'' then Some (v - of_char CHR ''a'' + 10)
     else if of_char CHR ''A'' \<le> v \<and> v \<le> of_char CHR ''F'' then Some (v - of_char CHR ''A'' + 10)
     else None)"

text \<open>
  \<^verbatim>\<open>hex_to_int str high low\<close>: the digits from index \<^verbatim>\<open>high\<close> to index \<^verbatim>\<open>low\<close> of the string.  \<^verbatim>\<open>Inl\<close> carries the error
  code.  The index of the terminating null character may be read, and is no digit.
\<close>

function hex_loop :: "string \<Rightarrow> int \<Rightarrow> int \<Rightarrow> u64 \<Rightarrow> (int + u64) option" where
  "hex_loop str high low data =
     (if low \<ge> high then
        if high < 0 \<or> nat high > length str then None
        else if nat high = length str then Some (Inl 2)
        else (case digit_value (str ! nat high) of
            None \<Rightarrow> Some (Inl 2)
          | Some d \<Rightarrow> hex_loop str (high + 1) low (push_bit 4 data OR of_nat d))
      else Some (Inr data))"
  by pat_completeness auto
termination by (relation "measure (\<lambda>(str, high, low, data). nat (low - high + 1))") auto

declare hex_loop.simps [simp del]

definition hex_to_int :: "string \<Rightarrow> int \<Rightarrow> int \<Rightarrow> (int + u64) option" where
  "hex_to_int str high low = do {
     c_assert (low \<ge> high);
     if low - high > 16 then Some (Inl 1)
     else hex_loop str high low 0 }"

text \<open>
  \<^verbatim>\<open>atoi\<close> of the C library: white space, a sign, and digits up to the first other character; the
  value saturates in the type \<^verbatim>\<open>long\<close> and is converted to 32 bits.
\<close>

definition c_isspace :: "char \<Rightarrow> bool" where
  "c_isspace c \<longleftrightarrow> c = CHR '' '' \<or> (9 \<le> (of_char c :: nat) \<and> of_char c \<le> (13 :: nat))"

definition c_isdigit :: "char \<Rightarrow> bool" where
  "c_isdigit c \<longleftrightarrow> of_char CHR ''0'' \<le> (of_char c :: nat) \<and> of_char c \<le> (of_char CHR ''9'' :: nat)"

fun decimal :: "nat \<Rightarrow> string \<Rightarrow> nat" where
  "decimal n [] = n"
| "decimal n (c # cs) = decimal (10 * n + (of_char c - of_char CHR ''0'')) cs"

definition atoi :: "string \<Rightarrow> u32" where
  "atoi str =
     (let s = dropWhile c_isspace str;
          neg = (case s of c # _ \<Rightarrow> c = CHR ''-'' | [] \<Rightarrow> False);
          t = (case s of c # cs \<Rightarrow> if c = CHR ''-'' \<or> c = CHR ''+'' then cs else s | [] \<Rightarrow> s);
          v = int (decimal 0 (takeWhile c_isdigit t))
      in if neg then word_of_int (max (- v) (- (2 ^ 63))) else word_of_int (min v (2 ^ 63 - 1)))"

section \<open>Attributes\<close>

definition OBJ_ATTR_FLAG_PRIVATE :: u8 where "OBJ_ATTR_FLAG_PRIVATE = push_bit 0 1"
definition OBJ_ATTR_FLAG_EXECUTE :: u8 where "OBJ_ATTR_FLAG_EXECUTE = push_bit 1 1"
definition OBJ_ATTR_FLAG_WRITE :: u8 where "OBJ_ATTR_FLAG_WRITE = push_bit 2 1"
definition OBJ_ATTR_FLAG_READ :: u8 where "OBJ_ATTR_FLAG_READ = push_bit 3 1"
definition OBJ_ATTR_FLAG_NO_BKPT :: u8 where "OBJ_ATTR_FLAG_NO_BKPT = push_bit 4 1"

definition attr_char :: "u8 \<Rightarrow> char \<Rightarrow> u8" where
  "attr_char attr c =
     (if c = CHR ''r'' then attr OR OBJ_ATTR_FLAG_READ
      else if c = CHR ''w'' then attr OR OBJ_ATTR_FLAG_WRITE
      else if c = CHR ''x'' then attr OR OBJ_ATTR_FLAG_EXECUTE
      else if c = CHR ''p'' then attr OR OBJ_ATTR_FLAG_PRIVATE
      else attr)"

section \<open>The fields of a line\<close>

definition parse_mmap_range ::
  "(string \<Rightarrow> bool) \<Rightarrow> string \<Rightarrow> (string \<times> u64 \<times> u64) option option" where
  "parse_mmap_range dup mmap = do {
     end_pos \<leftarrow> scan_to CHR '' '' mmap;
     let range_str = take end_pos mmap;
     if \<not> dup range_str then Some None
     else do {
       let sp_pos = scan_within CHR ''-'' (take end_pos mmap);
       r \<leftarrow> hex_to_int range_str 0 (int sp_pos - 1);
       case r of
         Inl _ \<Rightarrow> Some None
       | Inr start \<Rightarrow> do {
           r \<leftarrow> hex_to_int range_str (int sp_pos + 1) (int end_pos - 1);
           case r of
             Inl _ \<Rightarrow> Some None
           | Inr ende \<Rightarrow> Some (Some (drop (end_pos + 1) mmap, start, ende)) } } }"

definition parse_mmap_attr :: "(string \<Rightarrow> bool) \<Rightarrow> string \<Rightarrow> (string \<times> u8) option option" where
  "parse_mmap_attr dup mmap = do {
     end_pos \<leftarrow> scan_to CHR '' '' mmap;
     let attr_str = take end_pos mmap;
     if \<not> dup attr_str then Some None
     else Some (Some (drop (end_pos + 1) mmap, foldl attr_char 0 attr_str)) }"

definition parse_mmap_inode :: "(string \<Rightarrow> bool) \<Rightarrow> string \<Rightarrow> (string \<times> u32) option option" where
  "parse_mmap_inode dup mmap = do {
     end_pos \<leftarrow> scan_to CHR '' '' mmap;
     let mmap = drop (end_pos + 1) mmap;
     end_pos \<leftarrow> scan_to CHR '' '' mmap;
     let mmap = drop (end_pos + 1) mmap;
     end_pos \<leftarrow> scan_to CHR '' '' mmap;
     let inode_str = take end_pos mmap;
     if \<not> dup inode_str then Some None
     else Some (Some (dropWhile (\<lambda>c. c = CHR '' '') (drop end_pos mmap), atoi inode_str)) }"

definition parse_mmap_file :: "(string \<Rightarrow> bool) \<Rightarrow> string \<Rightarrow> (string \<times> string) option option" where
  "parse_mmap_file dup mmap = do {
     end_pos \<leftarrow> scan_to CHR 0x0A mmap;
     let file_str = take end_pos mmap;
     if \<not> dup file_str then Some None
     else Some (Some (drop end_pos mmap, file_str)) }"

section \<open>Hexadecimal numbers\<close>

definition hex_char :: "nat \<Rightarrow> char" where
  "hex_char d = (if d < 10 then char_of (48 + d) else char_of (87 + d))"

text \<open>\<^verbatim>\<open>print_hex n v\<close>: the last \<^verbatim>\<open>n\<close> hexadecimal digits of \<^verbatim>\<open>v\<close>.\<close>

fun print_hex :: "nat \<Rightarrow> nat \<Rightarrow> string" where
  "print_hex 0 v = []"
| "print_hex (Suc n) v = print_hex n (v div 16) @ [hex_char (v mod 16)]"

lemma length_print_hex [simp]: "length (print_hex n v) = n"
  by (induction n arbitrary: v) auto

lemma digit_value_hex_char: "d < 16 \<Longrightarrow> digit_value (hex_char d) = Some d"
  by (auto simp: digit_value_def hex_char_def Let_def of_char_of)

text \<open>The value of a string of digits, as the loop computes it.\<close>

fun hex_value :: "u64 \<Rightarrow> string \<Rightarrow> u64 option" where
  "hex_value data [] = Some data"
| "hex_value data (c # cs) = (case digit_value c of None \<Rightarrow> None | Some d \<Rightarrow> hex_value (push_bit 4 data OR of_nat d) cs)"

lemma hex_loop_value:
  "hex_value data cs = Some v \<Longrightarrow> hex_loop (pre @ cs @ post) (int (length pre)) (int (length pre) + int (length cs) - 1) data = Some (Inr v)"
proof (induction cs arbitrary: pre data)
  case Nil
  then show ?case by (subst hex_loop.simps) simp
next
  case (Cons c cs)
  obtain d where d: "digit_value c = Some d" "hex_value (push_bit 4 data OR of_nat d) cs = Some v"
    using Cons.prems by (auto split: option.splits)
  show ?case
    using Cons.IH[OF d(2), of "pre @ [c]"] d(1) by (subst hex_loop.simps) (simp add: nth_append algebra_simps)
qed

lemma hex_value_append: "hex_value data (xs @ ys) = Option.bind (hex_value data xs) (\<lambda>d. hex_value d ys)"
  by (induction xs arbitrary: data) (auto split: option.splits)

lemma push_or_add: "d < 16 \<Longrightarrow> push_bit 4 w OR of_nat d = w * 16 + (of_nat d :: u64)"
proof -
  assume "d < 16"
  then have "take_bit 4 d = d" by (simp add: take_bit_nat_eq_self)
  then have "(of_nat d :: u64) = take_bit 4 (of_nat d)" by (metis take_bit_of_nat)
  then have "push_bit 4 w AND of_nat d = (0 :: u64)"
    by (metis (no_types, lifting) bit_and_iff bit_push_bit_iff bit_take_bit_iff bit_word_eqI bit_0_eq bot_apply bot_bool_def not_le)
  then show ?thesis by (simp add: push_bit_eq_mult disjunctive_add_eq_or[symmetric])
qed

lemma hex_value_print: "hex_value w (print_hex n v) = Some (w * 16 ^ n + of_nat (v mod 16 ^ n))"
proof (induction n arbitrary: v)
  case (Suc n)
  have d: "v mod 16 < 16" by simp
  have m: "v mod 16 ^ Suc n = 16 * (v div 16 mod 16 ^ n) + v mod 16" by (simp add: mod_mult2_eq)
  show ?case
    using Suc.IH[of "v div 16"]
    by (simp add: hex_value_append digit_value_hex_char[OF d] push_or_add[OF d] m algebra_simps del: power_Suc)
      (simp add: algebra_simps)
qed simp

lemma hex_to_int_print:
  assumes "0 < n" "n \<le> 17"
  shows "hex_to_int (pre @ print_hex n v @ post) (int (length pre)) (int (length pre) + int n - 1) = Some (Inr (of_nat (v mod 16 ^ n)))"
  using assms hex_loop_value[OF hex_value_print[of 0 n v], of pre post] by (simp add: hex_to_int_def)

section \<open>Round trip\<close>

text \<open>
  The lines of the file as the kernel prints them: the range with \<^verbatim>\<open>w\<close> digits for each bound, the
  permissions, offset, device and inode, at least one space, the path (or nothing), a newline.
\<close>

record region =
  rg_digits :: nat
  rg_start :: u64
  rg_end :: u64
  rg_perms :: string
  rg_offset :: string
  rg_dev :: string
  rg_inode :: string
  rg_pad :: nat
  rg_path :: string

definition print_region :: "region \<Rightarrow> string" where
  "print_region r = print_hex (rg_digits r) (unat (rg_start r)) @ ''-'' @ print_hex (rg_digits r) (unat (rg_end r)) @ '' '' @
     rg_perms r @ '' '' @ rg_offset r @ '' '' @ rg_dev r @ '' '' @ rg_inode r @ '' '' @
     replicate (rg_pad r) CHR '' '' @ rg_path r @ [CHR 0x0A]"

definition region_ok :: "region \<Rightarrow> bool" where
  "region_ok r \<longleftrightarrow> 0 < rg_digits r \<and> rg_digits r \<le> 16 \<and>
     unat (rg_start r) < 16 ^ rg_digits r \<and> unat (rg_end r) < 16 ^ rg_digits r \<and>
     CHR '' '' \<notin> set (rg_perms r) \<union> set (rg_offset r) \<union> set (rg_dev r) \<union> set (rg_inode r) \<and>
     CHR 0x0A \<notin> set (rg_path r) \<and> (rg_path r = [] \<or> hd (rg_path r) \<noteq> CHR '' '')"

definition region_attr :: "region \<Rightarrow> u8" where
  "region_attr r = foldl attr_char 0 (rg_perms r)"

lemma scan_to_append: "c \<notin> set xs \<Longrightarrow> scan_to c (xs @ c # ys) = Some (length xs)"
  by (induction xs) auto

lemma scan_within_append: "c \<notin> set xs \<Longrightarrow> scan_within c (xs @ c # ys) = length xs"
  by (induction xs) auto

lemma hex_char_plain: "d < 16 \<Longrightarrow> hex_char d \<noteq> CHR '' '' \<and> hex_char d \<noteq> CHR ''-''"
proof -
  assume d: "d < 16"
  have "of_char (hex_char d) \<ge> (48 :: nat)" using d by (auto simp: hex_char_def)
  moreover have "of_char CHR '' '' < (48 :: nat)" "of_char CHR ''-'' < (48 :: nat)" by (simp_all add: of_char_def)
  ultimately show ?thesis by force
qed

lemma print_hex_plain: "CHR '' '' \<notin> set (print_hex n v)" "CHR ''-'' \<notin> set (print_hex n v)"
proof -
  have "hex_char (w mod 16) \<noteq> CHR '' '' \<and> hex_char (w mod 16) \<noteq> CHR ''-''" for w by (rule hex_char_plain) simp
  then show "CHR '' '' \<notin> set (print_hex n v)" "CHR ''-'' \<notin> set (print_hex n v)"
    by (induction n arbitrary: v) (auto, metis+)
qed

lemma parse_range_print:
  assumes n: "0 < n" "n \<le> 16" and a: "unat a < 16 ^ n" and b: "unat b < 16 ^ n"
  shows "parse_mmap_range dup (print_hex n (unat a) @ ''-'' @ print_hex n (unat b) @ '' '' @ rest) =
    Some (if dup (print_hex n (unat a) @ ''-'' @ print_hex n (unat b)) then Some (rest, a, b) else None)"
proof -
  let ?x = "print_hex n (unat a)" and ?y = "print_hex n (unat b)"
  let ?r = "?x @ CHR ''-'' # ?y"
  have sp: "CHR '' '' \<notin> set ?r" using print_hex_plain(1) by auto
  have scan: "scan_to CHR '' '' (?x @ ''-'' @ ?y @ '' '' @ rest) = Some (Suc (2 * n))"
    using scan_to_append[OF sp, of rest] by simp
  have 1: "hex_to_int ?r 0 (int n - 1) = Some (Inr a)"
    using hex_to_int_print[of n "[]" "unat a" "CHR ''-'' # ?y"] n a by simp
  have 2: "hex_to_int ?r (int n + 1) (int n + 1 + int n - 1) = Some (Inr b)"
    using hex_to_int_print[of n "?x @ ''-''" "unat b" "[]"] n b by (simp add: add.commute)
  have 3: "scan_within CHR ''-'' ?r = n" using scan_within_append[OF print_hex_plain(2)] by simp
  have tk: "take (Suc (2 * n)) (?x @ ''-'' @ ?y @ '' '' @ rest) = ?r" by simp
  have dr: "drop (Suc (Suc (2 * n))) (?x @ ''-'' @ ?y @ '' '' @ rest) = rest" by simp
  show ?thesis
    using 1 2 unfolding parse_mmap_range_def scan
    by (simp add: tk 3 dr del: append.simps append_assoc append_Cons) (simp add: 3 Let_def algebra_simps)
qed

text \<open>The part of the loop of \<^verbatim>\<open>object_parse_mmap\<close> that reads one line, up to the next line's first character.\<close>

definition parse_line ::
  "(string \<Rightarrow> bool) \<Rightarrow> string \<Rightarrow> (string \<times> u64 \<times> u64 \<times> u8 \<times> u32 \<times> string option) option option" where
  "parse_line dup mmap = do {
     r \<leftarrow> parse_mmap_range dup mmap;
     case r of
       None \<Rightarrow> Some None
     | Some (mmap, start, ende) \<Rightarrow> do {
         r \<leftarrow> parse_mmap_attr dup mmap;
         case r of
           None \<Rightarrow> Some None
         | Some (mmap, attr) \<Rightarrow> do {
             r \<leftarrow> parse_mmap_inode dup mmap;
             case r of
               None \<Rightarrow> Some None
             | Some (mmap, inode) \<Rightarrow>
                 if inode \<noteq> 0 then do {
                   r \<leftarrow> parse_mmap_file dup mmap;
                   case r of
                     None \<Rightarrow> Some None
                   | Some (mmap, file) \<Rightarrow> Some (Some (drop 1 mmap, start, ende, attr, inode, Some file)) }
                 else do {
                   pos \<leftarrow> scan_to CHR 0x0A mmap;
                   Some (Some (drop (pos + 1) mmap, start, ende, attr, inode, None)) } } } }"

lemma parse_attr_print:
  assumes "CHR '' '' \<notin> set p"
  shows "parse_mmap_attr dup (p @ '' '' @ rest) = Some (if dup p then Some (rest, foldl attr_char 0 p) else None)"
  using assms scan_to_append[OF assms(1), of rest] by (simp add: parse_mmap_attr_def)

lemma dropWhile_pad: "xs = [] \<or> hd xs \<noteq> c \<Longrightarrow> ys \<noteq> [] \<Longrightarrow> hd ys \<noteq> c \<Longrightarrow>
    dropWhile (\<lambda>x. x = c) (replicate n c @ xs @ ys) = xs @ ys"
  by (induction n) (cases xs; cases ys; auto)+

lemma parse_inode_print:
  assumes "CHR '' '' \<notin> set a" "CHR '' '' \<notin> set b" "CHR '' '' \<notin> set i" "p = [] \<or> hd p \<noteq> CHR '' ''"
  shows "parse_mmap_inode dup (a @ '' '' @ b @ '' '' @ i @ '' '' @ replicate n CHR '' '' @ p @ CHR 0x0A # rest) =
    Some (if dup i then Some (p @ CHR 0x0A # rest, atoi i) else None)"
  using assms scan_to_append[OF assms(1)] scan_to_append[OF assms(2)] scan_to_append[OF assms(3)]
    dropWhile_pad[OF assms(4), of "CHR 0x0A # rest" n]
  by (simp add: parse_mmap_inode_def)

lemma parse_file_print:
  assumes "CHR 0x0A \<notin> set p"
  shows "parse_mmap_file dup (p @ CHR 0x0A # rest) = Some (if dup p then Some (CHR 0x0A # rest, p) else None)"
  using assms scan_to_append[OF assms(1), of rest] by (simp add: parse_mmap_file_def)

text \<open>
  Reading a printed line gives back its fields, and stops right after it.  The strings that \<^verbatim>\<open>strndup\<close> copies on the
  way are the range, the permissions, the inode and, when that is not zero, the path; a copy that fails ends the reading.
\<close>

definition region_strings :: "region \<Rightarrow> string list" where
  "region_strings r = [print_hex (rg_digits r) (unat (rg_start r)) @ ''-'' @ print_hex (rg_digits r) (unat (rg_end r)), rg_perms r, rg_inode r] @
     (if atoi (rg_inode r) \<noteq> 0 then [rg_path r] else [])"

lemma parse_line_print_dup:
  assumes ok: "region_ok r"
  shows "parse_line dup (print_region r @ rest) = Some (if \<forall>x \<in> set (region_strings r). dup x
    then Some (rest, rg_start r, rg_end r, region_attr r, atoi (rg_inode r), if atoi (rg_inode r) \<noteq> 0 then Some (rg_path r) else None)
    else None)"
proof -
  let ?tail = "rg_path r @ CHR 0x0A # rest" and ?a = "print_hex (rg_digits r) (unat (rg_start r))" and ?b = "print_hex (rg_digits r) (unat (rg_end r))"
  let ?mid = "rg_offset r @ '' '' @ rg_dev r @ '' '' @ rg_inode r @ '' '' @ replicate (rg_pad r) CHR '' '' @ ?tail"
  have "print_region r @ rest = ?a @ ''-'' @ ?b @ '' '' @ rg_perms r @ '' '' @ ?mid" by (simp add: print_region_def)
  moreover have "parse_mmap_range dup (?a @ ''-'' @ ?b @ '' '' @ rg_perms r @ '' '' @ ?mid) =
      Some (if dup (?a @ ''-'' @ ?b) then Some (rg_perms r @ '' '' @ ?mid, rg_start r, rg_end r) else None)"
    using ok by (intro parse_range_print) (auto simp: region_ok_def)
  moreover have "parse_mmap_attr dup (rg_perms r @ '' '' @ ?mid) = Some (if dup (rg_perms r) then Some (?mid, region_attr r) else None)"
    unfolding region_attr_def using ok by (intro parse_attr_print) (auto simp: region_ok_def)
  moreover have "parse_mmap_inode dup ?mid = Some (if dup (rg_inode r) then Some (?tail, atoi (rg_inode r)) else None)"
    using ok by (intro parse_inode_print) (auto simp: region_ok_def)
  moreover have "parse_mmap_file dup ?tail = Some (if dup (rg_path r) then Some (CHR 0x0A # rest, rg_path r) else None)"
    using ok by (intro parse_file_print) (auto simp: region_ok_def)
  moreover have "scan_to CHR 0x0A ?tail = Some (length (rg_path r))"
    using ok by (intro scan_to_append) (auto simp: region_ok_def)
  ultimately show ?thesis unfolding parse_line_def by (simp add: region_strings_def)
qed

lemma parse_line_print:
  assumes "region_ok r" "\<And>x. dup x"
  shows "parse_line dup (print_region r @ rest) = Some (Some (rest, rg_start r, rg_end r, region_attr r, atoi (rg_inode r),
    if atoi (rg_inode r) \<noteq> 0 then Some (rg_path r) else None))"
  using assms by (simp add: parse_line_print_dup)

section \<open>Properties\<close>

lemma hex_loop_error:
  "hex_value data cs = None \<Longrightarrow> hex_loop (pre @ cs @ post) (int (length pre)) (int (length pre) + int (length cs) - 1) data = Some (Inl 2)"
proof (induction cs arbitrary: pre data)
  case (Cons c cs)
  show ?case
  proof (cases "digit_value c")
    case None
    then show ?thesis by (subst hex_loop.simps) simp
  next
    case (Some d)
    then have "hex_value (push_bit 4 data OR of_nat d) cs = None" using Cons.prems by simp
    from Cons.IH[OF this, of "pre @ [c]"] Some show ?thesis by (subst hex_loop.simps) (simp add: algebra_simps)
  qed
qed simp

text \<open>
  Reading back a number of up to sixteen hexadecimal digits, anywhere in a string, gives the number.
\<close>

theorem hex_round_trip:
  assumes "0 < n" "n \<le> 16" "v < 16 ^ n"
  shows "\<exists>w. hex_to_int (pre @ print_hex n v @ post) (int (length pre)) (int (length pre) + int n - 1) = Some (Inr w) \<and> unat w = v"
proof -
  have "(16 :: nat) ^ n \<le> 16 ^ 16" using assms(2) by (intro power_increasing) auto
  then have "v < 2 ^ 64" using assms(3) by simp
  then have "unat (of_nat v :: u64) = v" by (simp only: unat_of_nat) (simp add: take_bit_nat_eq_self)
  then show ?thesis using hex_to_int_print[of n pre v post] assms by simp
qed

theorem hex_round_trip_witness:
  "\<exists>w. hex_to_int (''['' @ print_hex 12 0x7F0000001000 @ ''-'') (int (length ''['')) (int (length ''['') + int 12 - 1) = Some (Inr w) \<and>
    unat w = 0x7F0000001000"
  by (rule hex_round_trip) simp_all

text \<open>
  The specification of the numbers: the digits and their values as a table, in both cases, and the value of a
  string in the natural numbers.
\<close>

definition hex_table :: "char \<Rightarrow> nat option" where
  "hex_table = map_of (zip ''0123456789abcdefABCDEF'' [0, 1, 2, 3, 4, 5, 6, 7, 8, 9, 10, 11, 12, 13, 14, 15, 10, 11, 12, 13, 14, 15])"

fun hex_number :: "nat \<Rightarrow> string \<Rightarrow> nat option" where
  "hex_number n [] = Some n"
| "hex_number n (c # cs) = (case hex_table c of None \<Rightarrow> None | Some d \<Rightarrow> hex_number (16 * n + d) cs)"

lemma digit_value_table: "digit_value c = hex_table c"
proof (cases "digit_value c")
  case None
  then have "hex_table c = None"
    unfolding hex_table_def map_of_eq_None_iff by (auto simp: digit_value_def Let_def)
  with None show ?thesis by simp
next
  case (Some d)
  then have "(of_char c :: nat) \<in> set [48..<58] \<union> set [97..<103] \<union> set [65..<71]"
    unfolding set_upt by (auto simp: digit_value_def Let_def split: if_splits)
  then have "(of_char c :: nat) \<in> of_char ` set ''0123456789abcdefABCDEF''" by (simp add: upt_rec_numeral) blast
  then have "c \<in> set ''0123456789abcdefABCDEF''" by (simp only: inj_image_mem_iff[OF inj_of_char])
  moreover have "\<forall>c \<in> set ''0123456789abcdefABCDEF''. digit_value c = hex_table c" by (simp add: digit_value_def hex_table_def)
  ultimately show ?thesis by blast
qed

lemma hex_table_less: "hex_table c = Some d \<Longrightarrow> d < 16"
  unfolding hex_table_def by (drule map_of_SomeD) auto

lemma hex_value_number: "hex_value (of_nat n) cs = map_option of_nat (hex_number n cs)"
proof (induction cs arbitrary: n)
  case (Cons c cs)
  show ?case
  proof (cases "hex_table c")
    case (Some d)
    have "push_bit 4 (of_nat n) OR of_nat d = (of_nat (16 * n + d) :: u64)"
      by (simp add: push_or_add[OF hex_table_less[OF Some]])
    then show ?thesis using Some Cons.IH[of "16 * n + d"] by (simp only: hex_value.simps hex_number.simps digit_value_table) simp
  qed (simp add: digit_value_table)
qed simp

text \<open>
  C20: all the results of \<^verbatim>\<open>hex_to_int\<close> on a non-empty range of a string: 1 for more than seventeen characters, 2
  when one of them is not in the table of the digits, and otherwise the number that the digits of the table denote, in 64 bits.
\<close>

theorem hex_to_int_results:
  assumes "cs \<noteq> []"
  shows "hex_to_int (pre @ cs @ post) (int (length pre)) (int (length pre) + int (length cs) - 1) =
    Some (if length cs > 17 then Inl 1 else case hex_number 0 cs of None \<Rightarrow> Inl 2 | Some n \<Rightarrow> Inr (of_nat n))"
proof (cases "hex_number 0 cs")
  case None
  then have "hex_value 0 cs = None" using hex_value_number[of 0 cs] by simp
  then show ?thesis using assms None hex_loop_error[of 0 cs pre post] by (auto simp: hex_to_int_def Suc_le_eq)
next
  case (Some n)
  then have "hex_value 0 cs = Some (of_nat n)" using hex_value_number[of 0 cs] by simp
  then show ?thesis using assms Some hex_loop_value[of 0 cs "of_nat n" pre post] by (auto simp: hex_to_int_def Suc_le_eq)
qed

text \<open>Both cases of the letters, and a character behind the last digit.\<close>

theorem hex_to_int_results_witness:
  "hex_to_int (''r'' @ ''7fB0'' @ ''-'') (int (length ''r'')) (int (length ''r'') + int (length ''7fB0'') - 1) = Some (Inr 0x7FB0) \<and>
    hex_to_int ('' '' @ ''7fg0'' @ ''-'') (int (length '' '')) (int (length '' '') + int (length ''7fg0'') - 1) = Some (Inl 2)"
  using hex_to_int_results[of "''7fB0''" "''r''" "''-''"] hex_to_int_results[of "''7fg0''" "'' ''" "''-''"] by (simp add: hex_table_def)

text \<open>
  Seventeen digits are accepted, although they need not fit: the value is reduced modulo the size of the
  64-bit word, so the first digit is lost without an error.
\<close>

theorem hex_to_int_seventeen_digits:
  assumes "v < 16 ^ 17"
  shows "\<exists>w. hex_to_int (pre @ print_hex 17 v @ post) (int (length pre)) (int (length pre) + int 17 - 1) = Some (Inr w) \<and>
    unat w = v mod 2 ^ 64"
proof -
  have "unat (of_nat v :: u64) = v mod 2 ^ 64" by (simp only: unat_of_nat) (simp add: take_bit_eq_mod)
  then show ?thesis using hex_to_int_print[of 17 pre v post] assms by (simp del: power_Suc)
qed

theorem hex_to_int_seventeen_digits_witness:
  "\<exists>w. hex_to_int (''='' @ print_hex 17 0x10000000000001234 @ '' '') (int (length ''='')) (int (length ''='') + int 17 - 1) = Some (Inr w) \<and>
    unat w = 0x10000000000001234 mod 2 ^ 64"
  by (rule hex_to_int_seventeen_digits) simp

text \<open>
  C19: reading a line as the kernel prints it gives back its range, permissions and inode, the path when the
  inode is not zero, and leaves the rest of the text.
\<close>

theorem maps_line_round_trip:
  assumes "region_ok r" "\<forall>x. dup x"
  shows "parse_line dup (print_region r @ rest) = Some (Some (rest, rg_start r, rg_end r, region_attr r, atoi (rg_inode r),
    if atoi (rg_inode r) \<noteq> 0 then Some (rg_path r) else None))"
  using assms by (intro parse_line_print) auto

definition sample_region :: region where
  "sample_region = \<lparr>rg_digits = 8, rg_start = 0x00400000, rg_end = 0x00402000, rg_perms = ''r-xp'', rg_offset = ''00000000'',
     rg_dev = ''08:01'', rg_inode = ''131'', rg_pad = 3, rg_path = ''/bin/app''\<rparr>"

lemma sample_region_ok: "region_ok sample_region" "atoi (rg_inode sample_region) = 131"
  "region_attr sample_region = 0xB"
  by (simp_all add: region_ok_def sample_region_def atoi_def c_isspace_def c_isdigit_def region_attr_def attr_char_def
    OBJ_ATTR_FLAG_PRIVATE_def OBJ_ATTR_FLAG_EXECUTE_def OBJ_ATTR_FLAG_READ_def OBJ_ATTR_FLAG_WRITE_def)

theorem maps_line_round_trip_witness:
  "parse_line (\<lambda>_. True) (print_region sample_region @ ''end'') =
    Some (Some (''end'', 0x00400000, 0x00402000, 0xB, 131, Some ''/bin/app''))"
  using maps_line_round_trip[OF sample_region_ok(1), of "\<lambda>_. True" "''end''"] sample_region_ok(2,3)
  by (simp add: sample_region_def)

end
