(* ===== verification/Map_Loading.thy ===== *)
theory Map_Loading
  imports Maps_Parser
begin

text \<open>
  The contract that the two versions of \<^verbatim>\<open>object_parse_mmap\<close> fulfil, in \<^verbatim>\<open>signal_test/object.c\<close> and in \<^verbatim>\<open>src/object.c\<close>: a line of
  the memory map either leaves the list of objects as it is or appends one object, made at the next
  address that \<^verbatim>\<open>calloc\<close> returns.  What a whole text does, and that a second reading does nothing, follows
  from that alone.

  \<^verbatim>\<open>parse\<close> is the function with the addresses of the objects to be made, \<^verbatim>\<open>inv s xs\<close> the invariant of a state whose list has
  the entries \<^verbatim>\<open>xs\<close>, \<^verbatim>\<open>avail\<close> says that addresses are free, \<^verbatim>\<open>view\<close> is the sequence of objects and
  \<^verbatim>\<open>load_line\<close> the effect of a line on it.
\<close>

locale map_loading =
  fixes parse :: "addr list \<Rightarrow> string \<Rightarrow> 's \<Rightarrow> (int \<times> 's) option"
    and inv :: "'s \<Rightarrow> addr list \<Rightarrow> bool"
    and avail :: "'s \<Rightarrow> addr list \<Rightarrow> bool"
    and view :: "'s \<Rightarrow> addr list \<Rightarrow> 'o list"
    and load_line :: "region \<Rightarrow> 'o list \<Rightarrow> 'o list"
  assumes parse_end: "parse ps [] s = Some (0, s)"
    and parse_skip: "\<lbrakk>inv s xs; region_ok r; load_line r (view s xs) = view s xs\<rbrakk> \<Longrightarrow>
      parse ps (print_region r @ rest) s = parse ps rest s"
    and parse_append: "\<lbrakk>inv s xs; region_ok r; load_line r (view s xs) \<noteq> view s xs; avail s (p # ps)\<rbrakk> \<Longrightarrow>
      \<exists>s' x. parse (p # ps) (print_region r @ rest) s = parse ps rest s' \<and> inv s' (xs @ [x]) \<and> avail s' ps \<and>
        view s' (xs @ [x]) = load_line r (view s xs)"
    and load_grows: "set obs \<subseteq> set (load_line r obs)"
    and load_again: "set (load_line r obs) \<subseteq> set obs' \<Longrightarrow> load_line r obs' = obs'"
begin

lemma fold_grows: "set obs \<subseteq> set (fold load_line rs obs)"
  by (induction rs arbitrary: obs) (use load_grows in \<open>force+\<close>)

lemma fold_again: "r \<in> set rs \<Longrightarrow> load_line r (fold load_line rs obs) = fold load_line rs obs"
proof (induction rs arbitrary: obs)
  case (Cons q rs)
  then show ?case using load_again[OF fold_grows] by (cases "r = q") auto
qed simp

lemma parse_text:
  assumes "inv s xs" "avail s ps" "length rs \<le> length ps" "\<forall>r \<in> set rs. region_ok r"
  shows "\<exists>s' ys. parse ps (concat (map print_region rs)) s = Some (0, s') \<and>
    inv s' (xs @ ys) \<and> view s' (xs @ ys) = fold load_line rs (view s xs)"
  using assms
proof (induction rs arbitrary: s xs ps)
  case Nil
  then show ?case by (auto simp: parse_end intro!: exI[of _ "[]"])
next
  case (Cons r rs)
  show ?case
  proof (cases "load_line r (view s xs) = view s xs")
    case True
    then show ?thesis using Cons.IH[OF Cons.prems(1,2)] Cons.prems parse_skip[of s xs r] by auto
  next
    case False
    obtain p qs where ps: "ps = p # qs" using Cons.prems(3) by (cases ps) auto
    then obtain s2 x where s2: "parse ps (print_region r @ concat (map print_region rs)) s = parse qs (concat (map print_region rs)) s2"
      "inv s2 (xs @ [x])" "avail s2 qs" "view s2 (xs @ [x]) = load_line r (view s xs)"
      using parse_append[OF Cons.prems(1) _ False] Cons.prems(2,4) by (metis list.set_intros(1))
    from Cons.IH[OF s2(2,3)] Cons.prems(3,4) ps obtain s' ys where
      "parse qs (concat (map print_region rs)) s2 = Some (0, s')" "inv s' ((xs @ [x]) @ ys)"
      "view s' ((xs @ [x]) @ ys) = fold load_line rs (view s2 (xs @ [x]))" by auto
    then show ?thesis using s2(1,4) by (intro exI[of _ s'] exI[of _ "x # ys"]) simp
  qed
qed

lemma parse_loaded:
  assumes "inv s xs" "\<forall>r \<in> set rs. region_ok r \<and> load_line r (view s xs) = view s xs"
  shows "parse ps (concat (map print_region rs)) s = Some (0, s)"
  using assms(2) by (induction rs) (auto simp: parse_end parse_skip[OF assms(1)])

lemma parse_again:
  assumes "inv s xs" "avail s ps" "length rs \<le> length ps" "\<forall>r \<in> set rs. region_ok r"
    and "parse ps (concat (map print_region rs)) s = Some (0, s')"
  shows "parse [] (concat (map print_region rs)) s' = Some (0, s')"
proof -
  obtain ys where ys: "inv s' (xs @ ys)" "view s' (xs @ ys) = fold load_line rs (view s xs)"
    using parse_text[OF assms(1-4)] assms(5) by auto
  then show ?thesis using assms(4) fold_again by (intro parse_loaded[OF ys(1)]) simp
qed

end

end
