(* ===== verification/Objects.thy ===== *)
theory Objects
  imports Intrusive_List Map_Loading Memory
begin

text \<open>
  The list of the executable mappings of the process, \<^verbatim>\<open>signal_test/object.c\<close>: construction from the text
  of \<^verbatim>\<open>/proc/self/maps\<close>, lookup by file and by address, the entry point of the program, and the change
  of the memory protection of a mapping.  In an object, the link field of the list of objects is
  at offset 32 and the head of its list of breakpoints at offset 48.
\<close>

section \<open>State\<close>

record object =
  file_name :: "string option"
  text_start :: addr
  text_end :: addr
  text_attr :: u8
  bpc_lock :: bool

record object_state =
  ob_lists :: list_heap
  ob_objects :: "object heap"
  objects :: addr
  object_lock :: bool

definition object_chain :: "addr \<Rightarrow> addr" where
  "object_chain p = p + 32"

definition object_bps :: "addr \<Rightarrow> addr" where
  "object_bps p = p + 48"

definition object_of :: "addr \<Rightarrow> addr" where
  "object_of x = x - 32"

definition object_attr_flag_NO_BKPT :: "object \<Rightarrow> bool" where
  "object_attr_flag_NO_BKPT obj \<longleftrightarrow> text_attr obj AND OBJ_ATTR_FLAG_NO_BKPT \<noteq> 0"

section \<open>Operations\<close>

text \<open>The address that \<^verbatim>\<open>calloc\<close> returns is a parameter; \<^verbatim>\<open>NULL\<close> makes the function abort.\<close>

definition object_new :: "addr \<Rightarrow> object_state \<Rightarrow> object_state option" where
  "object_new obj s =
     (if obj = NULL then None
      else do {
        let s = s\<lparr>ob_objects := (ob_objects s)(obj \<mapsto>
              \<lparr>file_name = None, text_start = 0, text_end = 0, text_attr = 0, bpc_lock = False\<rparr>),
            ob_lists := (ob_lists s)(object_bps obj \<mapsto> \<lparr>lh_next = NULL, lh_prev = NULL\<rparr>,
              object_chain obj \<mapsto> \<lparr>lh_next = NULL, lh_prev = NULL\<rparr>)\<rparr>;
        h \<leftarrow> INIT_LIST_HEAD (object_bps obj) (ob_lists s);
        h \<leftarrow> INIT_LIST_HEAD (object_chain obj) h;
        Some (s\<lparr>ob_lists := h\<rparr>) })"

text \<open>\<^verbatim>\<open>list_for_each_entry\<close> over the objects, under the lock of the list.\<close>

definition find_object :: "(object \<Rightarrow> bool option) \<Rightarrow> object_state \<Rightarrow> (addr \<times> object_state) option" where
  "find_object test s = do {
     lk \<leftarrow> mutex_lock (object_lock s);
     r \<leftarrow> list_for_each_entry (ob_lists s) (\<lambda>x. Option.bind (load (ob_objects s) (object_of x)) test) (objects s);
     lk \<leftarrow> mutex_unlock lk;
     Some (case r of None \<Rightarrow> NULL | Some x \<Rightarrow> object_of x, s\<lparr>object_lock := lk\<rparr>) }"

definition object_get_by_file :: "string \<Rightarrow> object_state \<Rightarrow> (addr \<times> object_state) option" where
  "object_get_by_file filename s = find_object (\<lambda>obj. map_option (\<lambda>f. f = filename) (file_name obj)) s"

definition object_get_by_address :: "addr \<Rightarrow> object_state \<Rightarrow> (addr \<times> object_state) option" where
  "object_get_by_address a s = find_object (\<lambda>obj. Some (text_start obj \<le> a \<and> a \<le> text_end obj)) s"

text \<open>
  Lines 310 to 328 of \<^verbatim>\<open>object_parse_mmap\<close>: a new object, filled in and appended to the list.  \<^verbatim>\<open>self\<close> is the
  address of the function \<^verbatim>\<open>object_parse_mmap\<close> itself.
\<close>

definition new_object :: "addr \<Rightarrow> addr \<Rightarrow> addr \<Rightarrow> u8 \<Rightarrow> string option \<Rightarrow> object" where
  "new_object self start ende attr file =
     \<lparr>file_name = file, text_start = start, text_end = ende,
      text_attr = (if start \<le> self \<and> self \<le> ende then attr OR OBJ_ATTR_FLAG_NO_BKPT else attr), bpc_lock = False\<rparr>"

definition object_append ::
  "addr \<Rightarrow> addr \<Rightarrow> addr \<Rightarrow> addr \<Rightarrow> u8 \<Rightarrow> string option \<Rightarrow> object_state \<Rightarrow> object_state option" where
  "object_append obj self start ende attr file s = do {
     s \<leftarrow> object_new obj s;
     os \<leftarrow> modify (ob_objects s) obj (\<lambda>ob. ob\<lparr>text_start := start, text_end := ende, text_attr := attr, file_name := file\<rparr>);
     os \<leftarrow> (if start \<le> self \<and> self \<le> ende
            then modify os obj (\<lambda>ob. ob\<lparr>text_attr := text_attr ob OR OBJ_ATTR_FLAG_NO_BKPT\<rparr>) else Some os);
     lk \<leftarrow> mutex_lock (object_lock s);
     h \<leftarrow> list_add_tail (object_chain obj) (objects s) (ob_lists s);
     lk \<leftarrow> mutex_unlock lk;
     Some (s\<lparr>ob_objects := os, ob_lists := h, object_lock := lk\<rparr>) }"

text \<open>
  \<^verbatim>\<open>object_parse_mmap\<close>.  The list \<^verbatim>\<open>callocs\<close> holds the results of the calls of \<^verbatim>\<open>calloc\<close>, in their order; when it is
  used up, the next call fails.
\<close>

partial_function (option) object_parse_mmap ::
  "(string \<Rightarrow> bool) \<Rightarrow> addr \<Rightarrow> addr list \<Rightarrow> string \<Rightarrow> object_state \<Rightarrow> (int \<times> object_state) option" where
  "object_parse_mmap dup self callocs mmap s =
     (if mmap = [] then Some (0, s)
      else do {
        r \<leftarrow> parse_line dup mmap;
        case r of
          None \<Rightarrow> Some (-1, s)
        | Some (mmap, start, ende, attr, inode, file) \<Rightarrow>
            if inode = 0 then object_parse_mmap dup self callocs mmap s
            else if attr AND OBJ_ATTR_FLAG_EXECUTE = 0 then object_parse_mmap dup self callocs mmap s
            else do {
              (exist, s) \<leftarrow> find_object (\<lambda>ob. Some (text_start ob = start \<and> text_end ob = ende)) s;
              if exist \<noteq> NULL then object_parse_mmap dup self callocs mmap s
              else do {
                s \<leftarrow> object_append (case callocs of [] \<Rightarrow> NULL | obj # _ \<Rightarrow> obj) self start ende attr file s;
                object_parse_mmap dup self (tl callocs) mmap s } } })"

text \<open>
  \<^verbatim>\<open>object_get_mmap\<close>: the results of \<^verbatim>\<open>open\<close>, and of each \<^verbatim>\<open>read\<close> (\<^verbatim>\<open>None\<close> for an error) with that of the following
  \<^verbatim>\<open>realloc\<close>, are parameters.
\<close>

fun read_loop :: "(string option \<times> bool) list \<Rightarrow> string \<Rightarrow> string option option" where
  "read_loop [] buf = None"
| "read_loop ((rv, realloc) # rs) buf =
     (case rv of
        None \<Rightarrow> Some None
      | Some chunk \<Rightarrow>
          if \<not> realloc then Some None
          else if length chunk > 0 then read_loop rs (buf @ chunk)
          else Some (Some (buf @ chunk)))"

definition object_get_mmap :: "bool \<Rightarrow> (string option \<times> bool) list \<Rightarrow> string option option" where
  "object_get_mmap opened reads = (if \<not> opened then Some None else read_loop reads [])"

definition object_load ::
  "bool \<Rightarrow> (string option \<times> bool) list \<Rightarrow> (string \<Rightarrow> bool) \<Rightarrow> addr \<Rightarrow> addr list \<Rightarrow> object_state \<Rightarrow> object_state option" where
  "object_load opened reads dup self callocs s = do {
     maps \<leftarrow> object_get_mmap opened reads;
     case maps of
       None \<Rightarrow> None
     | Some text \<Rightarrow> do {
         (rv, s) \<leftarrow> object_parse_mmap dup self callocs text s;
         if rv \<noteq> 0 then None else Some s } }"

text \<open>
  The path of the program and its entry point.  \<^verbatim>\<open>readlink\<close> fills at most the 4096 bytes of the zeroed
  buffer; a path that fills it leaves no terminating null character for \<^verbatim>\<open>strdup\<close>.
\<close>

definition object_get_self_exe :: "bool \<Rightarrow> string option \<Rightarrow> bool \<Rightarrow> string option option" where
  "object_get_self_exe malloc_ok link strdup_ok =
     (if \<not> malloc_ok then Some None
      else (case link of
          None \<Rightarrow> Some None
        | Some path \<Rightarrow>
            if length path \<ge> 4096 then None
            else Some (if strdup_ok then Some path else None)))"

definition le32 :: "u8 list \<Rightarrow> u64" where
  "le32 bs = ucast (bs ! 0) OR push_bit 8 (ucast (bs ! 1)) OR push_bit 16 (ucast (bs ! 2)) OR push_bit 24 (ucast (bs ! 3))"

text \<open>
  \<^verbatim>\<open>object_get_exe_entrypoint\<close>: the 52 bytes of the buffer for \<^verbatim>\<open>Elf32_Ehdr\<close> after \<^verbatim>\<open>fread\<close>, \<^verbatim>\<open>None\<close> when \<^verbatim>\<open>fopen\<close> or \<^verbatim>\<open>malloc\<close>
  fails.  The field \<^verbatim>\<open>e_entry\<close> of that structure has 32 bits, at offset 24.
\<close>

definition object_get_exe_entrypoint :: "u8 list option \<Rightarrow> addr" where
  "object_get_exe_entrypoint header =
     (case header of
        None \<Rightarrow> 0
      | Some ehdr \<Rightarrow>
          if ehdr ! 0 \<noteq> 0x7F \<or> ehdr ! 1 \<noteq> 0x45 \<or> ehdr ! 2 \<noteq> 0x4C \<or> ehdr ! 3 \<noteq> 0x46 then 0
          else le32 (drop 24 ehdr))"

definition object_get_self_entrypoint ::
  "bool \<Rightarrow> string option \<Rightarrow> bool \<Rightarrow> u8 list option \<Rightarrow> object_state \<Rightarrow> (addr \<times> object_state) option" where
  "object_get_self_entrypoint malloc_ok link strdup_ok header s = do {
     self \<leftarrow> object_get_self_exe malloc_ok link strdup_ok;
     case self of
       None \<Rightarrow> Some (0, s)
     | Some path \<Rightarrow> do {
         (self_obj, s) \<leftarrow> object_get_by_file path s;
         if self_obj = NULL then Some (0, s)
         else do {
           ob \<leftarrow> load (ob_objects s) self_obj;
           Some (text_start ob + object_get_exe_entrypoint header, s) } } }"

text \<open>The protection of the text of an object; \<^verbatim>\<open>mprotect\<close> says whether the system call succeeds.\<close>

definition object_memory_lock :: "(object \<Rightarrow> bool \<Rightarrow> bool) \<Rightarrow> addr \<Rightarrow> object_state \<Rightarrow> memory \<Rightarrow> (int \<times> memory) option" where
  "object_memory_lock mprotect obj s m = do {
     c_assert (obj \<noteq> NULL);
     ob \<leftarrow> load (ob_objects s) obj;
     if mprotect ob False then Some (0, protect (text_start ob) (text_end ob - text_start ob) False m)
     else Some (-1, m) }"

definition object_memory_unlock :: "(object \<Rightarrow> bool \<Rightarrow> bool) \<Rightarrow> addr \<Rightarrow> object_state \<Rightarrow> memory \<Rightarrow> (int \<times> memory) option" where
  "object_memory_unlock mprotect obj s m = do {
     c_assert (obj \<noteq> NULL);
     ob \<leftarrow> load (ob_objects s) obj;
     if mprotect ob True then Some (0, protect (text_start ob) (text_end ob - text_start ob) True m)
     else Some (-1, m) }"

section \<open>The list of objects\<close>

definition object_ok :: "object_state \<Rightarrow> addr list \<Rightarrow> bool" where
  "object_ok s xs \<longleftrightarrow> \<not> object_lock s \<and> ring (ob_lists s) (objects s) xs \<and>
     (\<forall>x \<in> set xs. object_of x \<noteq> NULL \<and> (\<exists>ob. ob_objects s (object_of x) = Some ob))"

abbreviation object_at :: "object_state \<Rightarrow> addr \<Rightarrow> object" where
  "object_at s x \<equiv> the (ob_objects s (object_of x))"

definition object_list :: "object_state \<Rightarrow> addr list \<Rightarrow> object list" where
  "object_list s xs = map (object_at s) xs"

lemma object_entry_inverse [simp]: "object_of (object_chain p) = p" "object_chain (object_of x) = x"
  by (simp_all add: object_of_def object_chain_def)

lemma object_of_inj [simp]: "object_of a = object_of b \<longleftrightarrow> a = b"
  by (simp add: object_of_def)

lemma find_object_ok:
  assumes ok: "object_ok s xs" and test: "\<And>x. x \<in> set xs \<Longrightarrow> test (object_at s x) = Some (P (object_at s x))"
  shows "find_object test s =
    Some (case List.find (\<lambda>x. P (object_at s x)) xs of None \<Rightarrow> NULL | Some x \<Rightarrow> object_of x, s)"
proof -
  have "list_for_each_entry (ob_lists s) (\<lambda>x. Option.bind (load (ob_objects s) (object_of x)) test) (objects s) =
    Some (List.find (\<lambda>x. P (object_at s x)) xs)"
    using ok test by (intro ringlist.search_law) (fastforce simp: object_ok_def load_def)+
  then show ?thesis using ok by (simp add: find_object_def object_ok_def)
qed

lemma get_by_address_ok:
  assumes "object_ok s xs"
  shows "object_get_by_address a s = Some (case List.find (\<lambda>x. text_start (object_at s x) \<le> a \<and> a \<le> text_end (object_at s x)) xs of
    None \<Rightarrow> NULL | Some x \<Rightarrow> object_of x, s)"
  unfolding object_get_by_address_def by (rule find_object_ok[OF assms]) simp

lemma get_by_file_ok:
  assumes "object_ok s xs" "\<forall>ob \<in> set (object_list s xs). file_name ob \<noteq> None"
  shows "object_get_by_file f s =
    Some (case List.find (\<lambda>x. file_name (object_at s x) = Some f) xs of None \<Rightarrow> NULL | Some x \<Rightarrow> object_of x, s)"
  unfolding object_get_by_file_def by (rule find_object_ok[OF assms(1)]) (use assms(2) in \<open>auto simp: object_list_def\<close>)

section \<open>Construction of the list\<close>

definition object_fresh :: "object_state \<Rightarrow> addr \<Rightarrow> bool" where
  "object_fresh s p \<longleftrightarrow> p \<noteq> NULL \<and> object_chain p \<noteq> NULL \<and> object_bps p \<noteq> NULL \<and>
     ob_objects s p = None \<and> ob_lists s (object_chain p) = None \<and> ob_lists s (object_bps p) = None"

lemma ring_fresh: "\<lbrakk>ring h head xs; h x = None\<rbrakk> \<Longrightarrow> x \<notin> footprint head xs"
  using ring_live[of h head xs x] by (auto simp: live_def load_def split: if_splits)

lemma object_chain_bps [simp]: "object_chain p \<noteq> object_bps p" "object_bps p \<noteq> object_chain p"
  by (simp_all add: object_chain_def object_bps_def)

lemma object_new_ok:
  assumes r: "ring (ob_lists s) head xs" and p: "object_fresh s p"
  shows "\<exists>h. object_new p s = Some (s\<lparr>ob_objects := (ob_objects s)(p \<mapsto>
      \<lparr>file_name = None, text_start = 0, text_end = 0, text_attr = 0, bpc_lock = False\<rparr>), ob_lists := h\<rparr>) \<and>
    ring h head xs \<and> ring h (object_bps p) [] \<and> ring h (object_chain p) [] \<and>
    (\<forall>q. q \<notin> {object_chain p, object_bps p} \<longrightarrow> h q = ob_lists s q)"
proof -
  let ?b = "object_bps p" and ?c = "object_chain p" and ?z = "\<lparr>lh_next = NULL, lh_prev = NULL\<rparr>"
  let ?h = "(ob_lists s)(?b \<mapsto> ?z, ?c \<mapsto> ?z)"
  have nn: "p \<noteq> NULL" "?b \<noteq> NULL" "?c \<noteq> NULL" using p by (auto simp: object_fresh_def)
  have out: "?b \<notin> footprint head xs" "?c \<notin> footprint head xs" using ring_fresh[OF r] p by (auto simp: object_fresh_def)
  obtain h1 where h1: "INIT_LIST_HEAD ?b ?h = Some h1" "ring h1 ?b []" "relinked ?h {?b} h1"
    using INIT_LIST_HEAD_ring[of ?h ?b] nn by (auto simp: live_def)
  have "live h1 ?c" using relinked_live[OF h1(3), of ?c] nn by (simp add: live_def)
  then obtain h2 where h2: "INIT_LIST_HEAD ?c h1 = Some h2" "ring h2 ?c []" "relinked h1 {?c} h2"
    using INIT_LIST_HEAD_ring by blast
  have "ring ?h head xs" using ring_alloc[OF ring_alloc[OF r out(1)] out(2)] .
  then have "ring h1 head xs" using ring_relinked[OF _ h1(3)] out by auto
  then have "ring h2 head xs" using ring_relinked[OF _ h2(3)] out by auto
  moreover have "ring h2 ?b []" using ring_relinked[OF h1(2) h2(3)] by simp
  moreover have "h2 q = ob_lists s q" if "q \<notin> {?c, ?b}" for q using that h1(3) h2(3) by (auto simp: relinked_def)
  ultimately show ?thesis using nn(1) h1(1) h2(1,2) by (auto simp: object_new_def)
qed

lemma object_append_ok:
  assumes ok: "object_ok s xs" and p: "object_fresh s p"
  shows "\<exists>h. object_append p self a b attr f s =
      Some (s\<lparr>ob_objects := (ob_objects s)(p \<mapsto> new_object self a b attr f), ob_lists := h\<rparr>) \<and>
    ring h (objects s) (xs @ [object_chain p]) \<and> ring h (object_bps p) [] \<and>
    (\<forall>q. q \<notin> insert (object_bps p) (footprint (objects s) (xs @ [object_chain p])) \<longrightarrow> h q = ob_lists s q)"
proof -
  let ?b = "object_bps p" and ?c = "object_chain p"
  have ring: "ring (ob_lists s) (objects s) xs" and lk: "\<not> object_lock s" using ok by (auto simp: object_ok_def)
  have out: "?b \<notin> footprint (objects s) xs" "?c \<notin> footprint (objects s) xs"
    using ring_fresh[OF ring] p by (auto simp: object_fresh_def)
  obtain h where h: "object_new p s = Some (s\<lparr>ob_objects := (ob_objects s)(p \<mapsto>
      \<lparr>file_name = None, text_start = 0, text_end = 0, text_attr = 0, bpc_lock = False\<rparr>), ob_lists := h\<rparr>)"
    "ring h (objects s) xs" "ring h ?b []" "ring h ?c []" "\<forall>q. q \<notin> {?c, ?b} \<longrightarrow> h q = ob_lists s q"
    using object_new_ok[OF ring p] by blast
  obtain h2 where h2: "list_add_tail ?c (objects s) h = Some h2" "ring h2 (objects s) (xs @ [?c])"
    "relinked h (footprint (objects s) (xs @ [?c])) h2"
    using ringlist.enqueue_law[OF h(2) _ out(2)] ring_live[OF h(4)] by blast
  have "p \<noteq> NULL" using p by (simp add: object_fresh_def)
  then have "object_append p self a b attr f s =
      Some (s\<lparr>ob_objects := (ob_objects s)(p \<mapsto> new_object self a b attr f), ob_lists := h2\<rparr>)"
    using h(1) h2(1) lk by (simp add: object_append_def modify_def new_object_def)
  moreover have "ring h2 ?b []" using ring_relinked[OF h(3) h2(3)] out by auto
  moreover have "h2 q = ob_lists s q" if "q \<notin> insert ?b (footprint (objects s) (xs @ [?c]))" for q
    using that h(5) h2(3) by (auto simp: relinked_def)
  ultimately show ?thesis using h2(2) by blast
qed

text \<open>The addresses that successive calls of \<^verbatim>\<open>calloc\<close> return: live objects nowhere, and no overlap.\<close>

definition supply_ok :: "object_state \<Rightarrow> addr list \<Rightarrow> bool" where
  "supply_ok s ps \<longleftrightarrow> (\<forall>p \<in> set ps. object_fresh s p) \<and> distinct ps \<and>
     (\<forall>p \<in> set ps. \<forall>q \<in> set ps. object_chain p \<noteq> object_bps q)"

text \<open>The list after one line: executable mappings of a file that are not yet in the list are appended.\<close>

definition load_region :: "addr \<Rightarrow> region \<Rightarrow> object list \<Rightarrow> object list" where
  "load_region self r obs =
     (if atoi (rg_inode r) = 0 \<or> region_attr r AND OBJ_ATTR_FLAG_EXECUTE = 0 \<or>
         (\<exists>ob \<in> set obs. text_start ob = rg_start r \<and> text_end ob = rg_end r)
      then obs
      else obs @ [new_object self (rg_start r) (rg_end r) (region_attr r) (Some (rg_path r))])"

lemma supply_after_append:
  assumes s: "supply_ok s (p # ps)" and x: "object_ok s xs"
    and h: "\<forall>q. q \<notin> insert (object_bps p) (footprint (objects s) (xs @ [object_chain p])) \<longrightarrow> h q = ob_lists s q"
  shows "supply_ok (s\<lparr>ob_objects := (ob_objects s)(p \<mapsto> ob), ob_lists := h\<rparr>) ps"
proof -
  have ring: "ring (ob_lists s) (objects s) xs" using x by (simp add: object_ok_def)
  have "object_fresh (s\<lparr>ob_objects := (ob_objects s)(p \<mapsto> ob), ob_lists := h\<rparr>) q" if q: "q \<in> set ps" for q
  proof -
    have f: "object_fresh s q" "q \<noteq> p" "object_chain q \<noteq> object_bps p" "object_chain p \<noteq> object_bps q"
      using s q by (auto simp: supply_ok_def)
    then have "object_chain q \<noteq> object_chain p" "object_bps q \<noteq> object_bps p"
      by (auto simp: object_chain_def object_bps_def)
    then have "object_chain q \<notin> insert (object_bps p) (footprint (objects s) (xs @ [object_chain p]))"
      "object_bps q \<notin> insert (object_bps p) (footprint (objects s) (xs @ [object_chain p]))"
      using f ring_fresh[OF ring] by (auto simp: object_fresh_def)
    then show ?thesis using f h by (auto simp: object_fresh_def)
  qed
  then show ?thesis using s by (auto simp: supply_ok_def)
qed

text \<open>
  A line that adds nothing to the list is passed over; all the same its strings are copied first, and the reading ends
  when a copy fails.
\<close>

lemma object_parse_mmap_known:
  assumes ok: "object_ok s xs" and r: "region_ok r"
    and same: "load_region self r (object_list s xs) = object_list s xs"
  shows "object_parse_mmap dup self ps (print_region r @ rest) s =
    (if \<forall>x \<in> set (region_strings r). dup x then object_parse_mmap dup self ps rest s else Some (-1, s))"
proof -
  let ?obs = "object_list s xs" and ?P = "\<lambda>ob. text_start ob = rg_start r \<and> text_end ob = rg_end r"
  have ne: "print_region r \<noteq> []" by (simp add: print_region_def)
  note line = parse_line_print_dup[OF r, where dup = dup and rest = rest]
  have find: "find_object (\<lambda>ob. Some (?P ob)) s =
    Some (case List.find (\<lambda>x. ?P (object_at s x)) xs of None \<Rightarrow> NULL | Some x \<Rightarrow> object_of x, s)"
    by (rule find_object_ok[OF ok]) simp
  show ?thesis
  proof (cases "\<exists>ob \<in> set ?obs. ?P ob")
    case True
    then obtain x where x: "List.find (\<lambda>x. ?P (object_at s x)) xs = Some x"
      using find_exists[of xs "\<lambda>x. ?P (object_at s x)"] by (auto simp: object_list_def)
    then have "object_of x \<noteq> NULL" using ok find_SomeD[OF x] by (auto simp: object_ok_def)
    then show ?thesis using ne x by (subst object_parse_mmap.simps) (simp add: line find)
  next
    case False
    then have "atoi (rg_inode r) = 0 \<or> region_attr r AND OBJ_ATTR_FLAG_EXECUTE = 0"
      using same by (auto simp: load_region_def split: if_splits)
    then show ?thesis using ne by (subst object_parse_mmap.simps) (auto simp: line)
  qed
qed

lemma object_parse_mmap_skip:
  assumes "object_ok s xs" "region_ok r" "\<And>x. dup x" "load_region self r (object_list s xs) = object_list s xs"
  shows "object_parse_mmap dup self ps (print_region r @ rest) s = object_parse_mmap dup self ps rest s"
  using object_parse_mmap_known[OF assms(1,2,4)] assms(3) by simp

text \<open>A line with a new range appends an object.\<close>

definition region_object :: "addr \<Rightarrow> region \<Rightarrow> object" where
  "region_object self r = new_object self (rg_start r) (rg_end r) (region_attr r) (Some (rg_path r))"

lemma load_region_new:
  assumes "load_region self r obs \<noteq> obs"
  shows "atoi (rg_inode r) \<noteq> 0" "region_attr r AND OBJ_ATTR_FLAG_EXECUTE \<noteq> 0"
    "\<forall>ob \<in> set obs. \<not> (text_start ob = rg_start r \<and> text_end ob = rg_end r)" "load_region self r obs = obs @ [region_object self r]"
  using assms by (auto simp: load_region_def region_object_def split: if_splits)

lemma object_parse_mmap_step:
  assumes ok: "object_ok s xs" and r: "region_ok r" "\<And>x. dup x"
    and new: "load_region self r (object_list s xs) \<noteq> object_list s xs" and p: "object_fresh s p"
  shows "\<exists>h. object_parse_mmap dup self (p # ps) (print_region r @ rest) s =
      object_parse_mmap dup self ps rest (s\<lparr>ob_objects := (ob_objects s)(p \<mapsto> region_object self r), ob_lists := h\<rparr>) \<and>
    ring h (objects s) (xs @ [object_chain p]) \<and> ring h (object_bps p) [] \<and>
    (\<forall>q. q \<notin> insert (object_bps p) (footprint (objects s) (xs @ [object_chain p])) \<longrightarrow> h q = ob_lists s q)"
proof -
  let ?P = "\<lambda>ob. text_start ob = rg_start r \<and> text_end ob = rg_end r"
  have ne: "print_region r \<noteq> []" by (simp add: print_region_def)
  note line = parse_line_print[OF r, where rest = rest] and new = load_region_new[OF new]
  have find: "find_object (\<lambda>ob. Some (?P ob)) s =
    Some (case List.find (\<lambda>x. ?P (object_at s x)) xs of None \<Rightarrow> NULL | Some x \<Rightarrow> object_of x, s)"
    by (rule find_object_ok[OF ok]) simp
  obtain h where h: "object_append p self (rg_start r) (rg_end r) (region_attr r) (Some (rg_path r)) s =
      Some (s\<lparr>ob_objects := (ob_objects s)(p \<mapsto> region_object self r), ob_lists := h\<rparr>)"
    "ring h (objects s) (xs @ [object_chain p])" "ring h (object_bps p) []"
    "\<forall>q. q \<notin> insert (object_bps p) (footprint (objects s) (xs @ [object_chain p])) \<longrightarrow> h q = ob_lists s q"
    using object_append_ok[OF ok p] unfolding region_object_def by blast
  have "List.find (\<lambda>x. ?P (object_at s x)) xs = None" using new(3) by (auto simp: object_list_def find_None_iff)
  then show ?thesis using new(1,2) ne h by (subst object_parse_mmap.simps) (auto simp: line find)
qed

text \<open>The state afterwards.\<close>

lemma object_ok_snoc:
  assumes ok: "object_ok s xs" and p: "object_fresh s p" and h: "ring h (objects s) (xs @ [object_chain p])"
  shows "object_ok (s\<lparr>ob_objects := (ob_objects s)(p \<mapsto> ob), ob_lists := h\<rparr>) (xs @ [object_chain p])"
    "object_list (s\<lparr>ob_objects := (ob_objects s)(p \<mapsto> ob), ob_lists := h\<rparr>) (xs @ [object_chain p]) = object_list s xs @ [ob]"
proof -
  have "object_of x \<noteq> p" if "x \<in> set xs" for x using ok p that by (auto simp: object_ok_def object_fresh_def)
  then show "object_list (s\<lparr>ob_objects := (ob_objects s)(p \<mapsto> ob), ob_lists := h\<rparr>) (xs @ [object_chain p]) = object_list s xs @ [ob]"
    by (auto simp: object_list_def)
qed (use ok h p in \<open>auto simp: object_ok_def object_fresh_def\<close>)

lemma object_parse_mmap_append:
  assumes ok: "object_ok s xs" and r: "region_ok r" "\<And>x. dup x"
    and new: "load_region self r (object_list s xs) \<noteq> object_list s xs" and avail: "supply_ok s (p # ps)"
  shows "\<exists>s' x. object_parse_mmap dup self (p # ps) (print_region r @ rest) s = object_parse_mmap dup self ps rest s' \<and>
    object_ok s' (xs @ [x]) \<and> supply_ok s' ps \<and> object_list s' (xs @ [x]) = load_region self r (object_list s xs)"
proof -
  have p: "object_fresh s p" using avail by (simp add: supply_ok_def)
  from object_parse_mmap_step[where dup = dup and rest = rest and ps = ps, OF ok r new p] obtain h where
    "object_parse_mmap dup self (p # ps) (print_region r @ rest) s =
      object_parse_mmap dup self ps rest (s\<lparr>ob_objects := (ob_objects s)(p \<mapsto> region_object self r), ob_lists := h\<rparr>)"
    "ring h (objects s) (xs @ [object_chain p])"
    "\<forall>q. q \<notin> insert (object_bps p) (footprint (objects s) (xs @ [object_chain p])) \<longrightarrow> h q = ob_lists s q" by blast
  then show ?thesis
    using object_ok_snoc[OF ok p] supply_after_append[OF avail ok] load_region_new(4)[OF new] by metis
qed

text \<open>Regions that are in the list already stay the only ones of their range, whatever is appended later.\<close>

lemma load_region_again:
  assumes "set (load_region self r obs) \<subseteq> set obs'"
  shows "load_region self r obs' = obs'"
proof -
  let ?P = "\<lambda>ob. text_start ob = rg_start r \<and> text_end ob = rg_end r"
  have "\<exists>ob \<in> set obs'. ?P ob" if "atoi (rg_inode r) \<noteq> 0" "region_attr r AND OBJ_ATTR_FLAG_EXECUTE \<noteq> 0"
  proof (cases "\<exists>ob \<in> set obs. ?P ob")
    case True
    then show ?thesis using assms by (auto simp: load_region_def)
  next
    case False
    then have "load_region self r obs = obs @ [new_object self (rg_start r) (rg_end r) (region_attr r) (Some (rg_path r))]"
      using that by (auto simp: load_region_def)
    then have "new_object self (rg_start r) (rg_end r) (region_attr r) (Some (rg_path r)) \<in> set obs'" using assms by simp
    then show ?thesis by (rule bexI[rotated]) (simp add: new_object_def)
  qed
  then show ?thesis by (auto simp: load_region_def)
qed

interpretation om: map_loading "object_parse_mmap (\<lambda>_. True) self" object_ok supply_ok object_list "load_region self" for self
proof (unfold_locales, goal_cases)
  case 1 then show ?case by (subst object_parse_mmap.simps) simp
next
  case 2 then show ?case by (intro object_parse_mmap_skip) auto
next
  case 3 then show ?case by (intro object_parse_mmap_append) auto
next
  case 4 then show ?case by (auto simp: load_region_def)
next
  case 5 then show ?case by (rule load_region_again)
qed

text \<open>
  What loading changes: the entries \<^verbatim>\<open>ys\<close> are appended for objects made in the blocks \<^verbatim>\<open>P\<close>, the list of breakpoints of
  each of them is empty, and every other object and list head is as it was in \<^verbatim>\<open>s0\<close>.
\<close>

abbreviation bps_heads :: "addr list \<Rightarrow> addr set" where
  "bps_heads ys \<equiv> (\<lambda>y. object_bps (object_of y)) ` set ys"

definition loads_only :: "object_state \<Rightarrow> addr list \<Rightarrow> addr set \<Rightarrow> addr list \<Rightarrow> object_state \<Rightarrow> bool" where
  "loads_only s0 xs P ys s \<longleftrightarrow> objects s = objects s0 \<and> object_of ` set ys \<subseteq> P \<and>
     (\<forall>y \<in> set ys. ring (ob_lists s) (object_bps (object_of y)) []) \<and> bps_heads ys \<inter> footprint (objects s0) (xs @ ys) = {} \<and>
     (\<forall>p. p \<notin> object_of ` set ys \<longrightarrow> ob_objects s p = ob_objects s0 p) \<and>
     (\<forall>q. q \<notin> footprint (objects s0) (xs @ ys) \<union> bps_heads ys \<longrightarrow> ob_lists s q = ob_lists s0 q)"

lemma loads_only_snoc:
  assumes l: "loads_only s0 xs P ys s" and ok: "object_ok s (xs @ ys)" and p: "object_fresh s p" "p \<in> P"
    and b: "ring h (object_bps p) []"
    and frame: "\<forall>q. q \<notin> insert (object_bps p) (footprint (objects s) ((xs @ ys) @ [object_chain p])) \<longrightarrow> h q = ob_lists s q"
  shows "loads_only s0 xs P (ys @ [object_chain p]) (s\<lparr>ob_objects := (ob_objects s)(p \<mapsto> ob), ob_lists := h\<rparr>)"
proof -
  let ?c = "object_chain p" and ?b = "object_bps p"
  have none: "ob_lists s ?c = None" "ob_lists s ?b = None" using p(1) by (simp_all add: object_fresh_def)
  have head: "objects s = objects s0" using l by (simp add: loads_only_def)
  have rg: "ring (ob_lists s) (objects s0) (xs @ ys)" using ok head by (simp add: object_ok_def)
  have out: "?b \<notin> footprint (objects s0) (xs @ ys)" "?c \<notin> footprint (objects s0) (xs @ ys)"
    by (rule ring_fresh[OF rg none(2)]) (rule ring_fresh[OF rg none(1)])
  have old: "object_bps (object_of y) \<noteq> ?b" "object_bps (object_of y) \<noteq> ?c" if "y \<in> set ys" for y
  proof -
    have r: "ring (ob_lists s) (object_bps (object_of y)) []" using l that by (simp add: loads_only_def)
    show "object_bps (object_of y) \<noteq> ?b" "object_bps (object_of y) \<noteq> ?c"
      using ring_fresh[OF r none(2)] ring_fresh[OF r none(1)] by force+
  qed
  have apart: "object_bps (object_of y) \<notin> footprint (objects s0) (xs @ ys)" if "y \<in> set ys" for y
    using l that unfolding loads_only_def by (simp only: disjoint_iff image_iff) blast
  have "ring h (object_bps (object_of y)) []" if y: "y \<in> set ys" for y
  proof (rule ring_cong)
    show "ring (ob_lists s) (object_bps (object_of y)) []" using l y by (simp add: loads_only_def)
    fix q assume "q \<in> set (object_bps (object_of y) # [])"
    then show "h q = ob_lists s q" using frame old[OF y] apart[OF y] head by simp
  qed
  moreover have "h q = ob_lists s0 q" if "q \<notin> footprint (objects s0) (xs @ ys @ [?c]) \<union> bps_heads (ys @ [?c])" for q
    using that frame l head by (simp add: loads_only_def)
  moreover have "z \<notin> footprint (objects s0) (xs @ ys @ [?c])" if z: "z \<in> bps_heads (ys @ [?c])" for z
  proof -
    from z consider "z = ?b" | y where "y \<in> set ys" "z = object_bps (object_of y)" by auto
    then show ?thesis using out old apart by cases auto
  qed
  then have "bps_heads (ys @ [?c]) \<inter> footprint (objects s0) (xs @ ys @ [?c]) = {}" by blast
  ultimately show ?thesis using l b p(2) unfolding loads_only_def by simp
qed

interpretation ol: map_loading "object_parse_mmap (\<lambda>_. True) self"
  "\<lambda>s zs. object_ok s zs \<and> (\<exists>ys. zs = xs @ ys \<and> loads_only s0 xs P ys s)" "\<lambda>s ps. supply_ok s ps \<and> set ps \<subseteq> P" object_list "load_region self"
  for self s0 xs P
proof (unfold_locales, goal_cases)
  case 1 then show ?case by (rule om.parse_end)
next
  case 2 then show ?case by (intro om.parse_skip) auto
next
  case (3 s zs r p ps rest)
  then obtain ys where ok: "object_ok s zs" and zs: "zs = xs @ ys" and l: "loads_only s0 xs P ys s" and p: "object_fresh s p" "p \<in> P"
    and avail: "supply_ok s (p # ps)" by (auto simp: supply_ok_def)
  let ?s = "\<lambda>h. s\<lparr>ob_objects := (ob_objects s)(p \<mapsto> region_object self r), ob_lists := h\<rparr>"
  obtain h where h: "object_parse_mmap (\<lambda>_. True) self (p # ps) (print_region r @ rest) s = object_parse_mmap (\<lambda>_. True) self ps rest (?s h)"
    "ring h (objects s) (zs @ [object_chain p])" "ring h (object_bps p) []"
    "\<forall>q. q \<notin> insert (object_bps p) (footprint (objects s) (zs @ [object_chain p])) \<longrightarrow> h q = ob_lists s q"
    using object_parse_mmap_step[where dup = "\<lambda>_. True" and ps = ps and rest = rest, OF ok _ _ _ p(1)] 3(2,3) by blast
  have "loads_only s0 xs P (ys @ [object_chain p]) (?s h)"
    using loads_only_snoc[OF l _ p h(3)] ok h(4) unfolding zs by blast
  then show ?case
    using h(1) object_ok_snoc[OF ok p(1) h(2)] supply_after_append[OF avail ok h(4)] load_region_new(4)[OF 3(3)] 3(4) zs
    by (intro exI[of _ "?s h"] exI[of _ "object_chain p"]) auto
next
  case 4 then show ?case by (rule om.load_grows)
next
  case 5 then show ?case by (rule om.load_again)
qed

text \<open>A text whose mappings are all in the list: only a copy that fails makes a difference.\<close>

lemma object_parse_mmap_loaded:
  assumes ok: "object_ok s xs" and rs: "\<forall>r \<in> set rs. region_ok r \<and> load_region self r (object_list s xs) = object_list s xs"
  shows "object_parse_mmap dup self ps (concat (map print_region rs)) s =
    Some (if \<forall>r \<in> set rs. \<forall>x \<in> set (region_strings r). dup x then 0 else -1, s)"
  using rs
proof (induction rs)
  case Nil
  then show ?case by (subst object_parse_mmap.simps) simp
next
  case (Cons r rs)
  then show ?case using object_parse_mmap_known[OF ok, of r self dup ps] by simp
qed

text \<open>Reading the file in any number of chunks.\<close>

lemma read_loop_chunks:
  assumes "\<forall>c \<in> set chunks. c \<noteq> []"
  shows "read_loop (map (\<lambda>c. (Some c, True)) chunks @ rs) buf = read_loop rs (buf @ concat chunks)"
  using assms by (induction chunks arbitrary: buf) auto

section \<open>Properties\<close>

text \<open>An empty list of objects, and addresses for new ones.\<close>

definition sample_objects :: object_state where
  "sample_objects = \<lparr>ob_lists = [0x900 \<mapsto> \<lparr>lh_next = 0x900, lh_prev = 0x900\<rparr>], ob_objects = Map.empty, objects = 0x900, object_lock = False\<rparr>"

lemma sample_objects_ok: "object_ok sample_objects []" "supply_ok sample_objects [0x1000, 0x2000]"
  by (simp_all add: object_ok_def sample_objects_def ring_def nexts_def prevs_def load_def supply_ok_def object_fresh_def
    object_chain_def object_bps_def)

text \<open>
  C14: loading a memory map.  Every executable mapping of a file whose range is not in the list yet is
  appended to it, in the order of the text, with its path and permissions, and marked as closed to
  breakpoints when it contains the library itself; everything else in the text leaves the list as it is.
  The new objects lie in the blocks that \<^verbatim>\<open>calloc\<close> returns and their lists of breakpoints are empty; no other object
  changes, the head of the list and its lock stay, and so does every list head outside the list of objects and the new ones.
\<close>

theorem object_parse_mmap_loads:
  assumes "object_ok s xs" "supply_ok s ps" "length rs \<le> length ps" "\<forall>r \<in> set rs. region_ok r" "\<forall>x. dup x"
  shows "\<exists>s' ys. object_parse_mmap dup self ps (concat (map print_region rs)) s = Some (0, s') \<and>
    object_ok s' (xs @ ys) \<and> object_list s' (xs @ ys) = fold (load_region self) rs (object_list s xs) \<and>
    objects s' = objects s \<and> object_of ` set ys \<subseteq> set ps \<and>
    (\<forall>y \<in> set ys. ring (ob_lists s') (object_bps (object_of y)) []) \<and>
    (\<forall>p. p \<notin> object_of ` set ys \<longrightarrow> ob_objects s' p = ob_objects s p) \<and>
    (\<forall>q. q \<notin> footprint (objects s) (xs @ ys) \<union> bps_heads ys \<longrightarrow> ob_lists s' q = ob_lists s q)"
proof -
  have "dup = (\<lambda>_. True)" using assms(5) by auto
  moreover have "loads_only s xs (set ps) [] s" by (simp add: loads_only_def)
  then obtain s' ys where "object_parse_mmap (\<lambda>_. True) self ps (concat (map print_region rs)) s = Some (0, s')"
    "object_ok s' (xs @ ys)" "loads_only s xs (set ps) ys s'" "object_list s' (xs @ ys) = fold (load_region self) rs (object_list s xs)"
    using ol.parse_text[of s xs xs s "set ps" ps rs self] assms(1-4) by auto
  ultimately show ?thesis unfolding loads_only_def by (intro exI[of _ s'] exI[of _ ys]) simp
qed

theorem object_parse_mmap_loads_witness:
  "\<exists>s' ys. object_parse_mmap (\<lambda>_. True) 0x401000 [0x1000, 0x2000] (concat (map print_region [sample_region])) sample_objects = Some (0, s') \<and>
    object_ok s' ys \<and> object_list s' ys = [new_object 0x401000 0x00400000 0x00402000 0xB (Some ''/bin/app'')] \<and>
    object_of ` set ys \<subseteq> {0x1000, 0x2000} \<and> (\<forall>y \<in> set ys. ring (ob_lists s') (object_bps (object_of y)) [])"
proof -
  have l: "fold (load_region 0x401000) [sample_region] (object_list sample_objects []) = [new_object 0x401000 0x00400000 0x00402000 0xB (Some ''/bin/app'')]"
    using sample_region_ok by (simp add: load_region_def object_list_def OBJ_ATTR_FLAG_EXECUTE_def) (simp add: sample_region_def)
  have "length [sample_region] \<le> length [0x1000, 0x2000 :: addr]" "\<forall>r \<in> set [sample_region]. region_ok r" using sample_region_ok by simp_all
  from object_parse_mmap_loads[OF sample_objects_ok this TrueI[THEN allI], of "0x401000"] show ?thesis
    unfolding l append_Nil by (elim exE conjE) (intro exI conjI, assumption+, simp, simp)
qed

text \<open>
  C21: loading is idempotent.  When the same text is read a second time, as the handler of the entry point
  does, no block for an object is allocated, and the objects, their list and its lock stay as they are.  All the strings are
  copied again all the same, the paths of the known mappings included, which nothing releases: when one of the copies fails the
  second reading fails too.
\<close>

theorem object_reload_idempotent:
  assumes "object_ok s xs" "supply_ok s ps" "length rs \<le> length ps" "\<forall>r \<in> set rs. region_ok r" "\<forall>x. dup x"
    and "object_parse_mmap dup self ps (concat (map print_region rs)) s = Some (0, s')"
  shows "object_parse_mmap dup' self [] (concat (map print_region rs)) s' =
    Some (if \<forall>r \<in> set rs. \<forall>x \<in> set (region_strings r). dup' x then 0 else -1, s')"
proof -
  have "dup = (\<lambda>_. True)" using assms(5) by auto
  then obtain ys where "object_ok s' (xs @ ys)" "object_list s' (xs @ ys) = fold (load_region self) rs (object_list s xs)"
    using om.parse_text[OF assms(1-4), of self] assms(6) by auto
  then show ?thesis using assms(4) om.fold_again by (intro object_parse_mmap_loaded) auto
qed

text \<open>The second reading succeeds, or fails because the path cannot be copied.\<close>

theorem object_reload_idempotent_witness:
  "\<exists>s'. object_parse_mmap (\<lambda>_. True) 0x401000 [0x1000, 0x2000] (concat (map print_region [sample_region])) sample_objects = Some (0, s') \<and>
    object_parse_mmap (\<lambda>_. True) 0x401000 [] (concat (map print_region [sample_region])) s' = Some (0, s') \<and>
    object_parse_mmap (\<lambda>x. x \<noteq> ''/bin/app'') 0x401000 [] (concat (map print_region [sample_region])) s' = Some (-1, s')"
proof -
  obtain s' where s': "object_parse_mmap (\<lambda>_. True) 0x401000 [0x1000, 0x2000] (concat (map print_region [sample_region])) sample_objects = Some (0, s')"
    using om.parse_text[OF sample_objects_ok, of "[sample_region]" "0x401000"] sample_region_ok by auto
  have "''/bin/app'' \<in> set (region_strings sample_region)"
    using sample_region_ok(2) by (simp add: region_strings_def) (simp add: sample_region_def)
  then show ?thesis
    using object_reload_idempotent[OF sample_objects_ok _ _ _ s', of "\<lambda>_. True"]
      object_reload_idempotent[OF sample_objects_ok _ _ _ s', of "\<lambda>x. x \<noteq> ''/bin/app''"] s' sample_region_ok by auto
qed

text \<open>Two adjacent mappings in the list.\<close>

definition sample_pair :: object_state where
  "sample_pair = \<lparr>ob_lists = [0x900 \<mapsto> \<lparr>lh_next = 0x1020, lh_prev = 0x2020\<rparr>, 0x1020 \<mapsto> \<lparr>lh_next = 0x2020, lh_prev = 0x900\<rparr>,
       0x2020 \<mapsto> \<lparr>lh_next = 0x900, lh_prev = 0x1020\<rparr>],
     ob_objects = [0x1000 \<mapsto> \<lparr>file_name = Some ''/bin/app'', text_start = 0x400000, text_end = 0x402000, text_attr = 0xB, bpc_lock = False\<rparr>,
       0x2000 \<mapsto> \<lparr>file_name = Some ''/lib/libc'', text_start = 0x402000, text_end = 0x403000, text_attr = 0xB, bpc_lock = False\<rparr>],
     objects = 0x900, object_lock = False\<rparr>"

lemma sample_pair_ok: "object_ok sample_pair [0x1020, 0x2020]"
  by (simp add: object_ok_def sample_pair_def ring_def nexts_def prevs_def load_def object_of_def)

text \<open>
  \<^verbatim>\<open>object_get_by_address\<close> returns the first object of the list whose range contains the address, its end
  included, and the null pointer when there is none; it leaves the list and its lock as they were.
\<close>

theorem object_get_by_address_first:
  assumes "object_ok s xs"
  shows "object_get_by_address a s = Some (case List.find (\<lambda>x. text_start (object_at s x) \<le> a \<and> a \<le> text_end (object_at s x)) xs of
    None \<Rightarrow> NULL | Some x \<Rightarrow> object_of x, s)"
  using assms by (rule get_by_address_ok)

text \<open>The address 0x402000 belongs to the second mapping and is attributed to the first.\<close>

theorem object_get_by_address_first_witness: "object_get_by_address 0x402000 sample_pair = Some (0x1000, sample_pair)"
  using object_get_by_address_first[OF sample_pair_ok, of "0x402000"] by (simp add: sample_pair_def object_of_def)

text \<open>
  \<^verbatim>\<open>object_get_mmap\<close> returns the concatenation of the chunks it reads, whatever their number and size, and the
  null pointer as soon as a read or an allocation fails; with neither it waits for the end of the file.
\<close>

theorem object_get_mmap_reads:
  assumes "\<forall>c \<in> set chunks. c \<noteq> []"
  shows "object_get_mmap True (map (\<lambda>c. (Some c, True)) chunks @ (Some [], True) # rest) = Some (Some (concat chunks)) \<and>
    object_get_mmap True (map (\<lambda>c. (Some c, True)) chunks @ (None, b) # rest) = Some None \<and>
    object_get_mmap True (map (\<lambda>c. (Some c, True)) chunks @ (r, False) # rest) = Some None \<and>
    object_get_mmap False reads = Some None"
  using assms by (auto simp: object_get_mmap_def read_loop_chunks split: option.splits)

theorem object_get_mmap_reads_witness:
  "object_get_mmap True (map (\<lambda>c. (Some c, True)) [''00400'', ''000''] @ (Some [], True) # []) = Some (Some (concat [''00400'', ''000''])) \<and>
    object_get_mmap True (map (\<lambda>c. (Some c, True)) [''00400'', ''000''] @ (None, True) # []) = Some None \<and>
    object_get_mmap True (map (\<lambda>c. (Some c, True)) [''00400'', ''000''] @ (Some ''a'', False) # []) = Some None \<and>
    object_get_mmap False [] = Some None"
  by (rule object_get_mmap_reads) simp

text \<open>The eight bytes of a 64-bit number, least significant first.\<close>

definition le_bytes :: "u64 \<Rightarrow> u8 list" where
  "le_bytes v = map (\<lambda>i. ucast (drop_bit (8 * i) v)) [0..<8]"

text \<open>
  C22: the entry point of a 64-bit file.  Its header has eight bytes for it at offset 24, of which the code, which
  reads the header as a 32-bit one, uses the first four: the upper half of the entry point is lost.
\<close>

theorem exe_entrypoint_lower_half:
  assumes "length ident = 20"
  shows "object_get_exe_entrypoint (Some ([0x7F, 0x45, 0x4C, 0x46] @ ident @ le_bytes entry @ rest)) = entry AND 0xFFFFFFFF"
proof -
  have "(le_bytes entry @ rest) ! i = ucast (drop_bit (8 * i) entry)" if "i < 8" for i
    using that by (simp add: le_bytes_def nth_append)
  from this[of 0] this[of 1] this[of 2] this[of 3]
  have byte: "(le_bytes entry @ rest) ! 0 = ucast entry" "(le_bytes entry @ rest) ! 1 = ucast (drop_bit 8 entry)"
    "(le_bytes entry @ rest) ! 2 = ucast (drop_bit 16 entry)" "(le_bytes entry @ rest) ! 3 = ucast (drop_bit 24 entry)" by simp_all
  have "le32 (le_bytes entry @ rest) = entry AND mask 32"
  proof (rule bit_word_eqI)
    fix n assume "n < LENGTH(64)"
    consider "n < 8" | "8 \<le> n" "n < 16" | "16 \<le> n" "n < 24" | "24 \<le> n" by linarith
    then show "bit (le32 (le_bytes entry @ rest)) n = bit (entry AND mask 32) n"
      unfolding le32_def byte by cases (auto simp: bit_simps)
  qed
  then show ?thesis using assms by (simp add: object_get_exe_entrypoint_def mask_eq_exp_minus_1)
qed

theorem exe_entrypoint_lower_half_witness:
  "object_get_exe_entrypoint (Some ([0x7F, 0x45, 0x4C, 0x46] @ replicate 20 0 @ le_bytes 0x100000DAC @ replicate 20 0)) = 0xDAC"
  using exe_entrypoint_lower_half[of "replicate 20 0" "0x100000DAC" "replicate 20 0"] by simp

end
