(* ===== verification/Breakpoint.thy ===== *)
theory Breakpoint
  imports Bp_Table Slot_Set Objects
begin

text \<open>
  Breakpoints, \<^verbatim>\<open>signal_test/breakpoint.c\<close>: creation, registration (table, instruction slot and list of the
  object), enabling and disabling.  In a breakpoint, the entry \<^verbatim>\<open>bp_enter\<close> is at offset 56, \<^verbatim>\<open>bp_return\<close> at
  offset 96 and the link field \<^verbatim>\<open>breakpoint_chain\<close> at offset 160; the two entries are objects of the
  table's heap, the link field one of the heap of lists that also holds the heads in the objects.
\<close>

section \<open>State\<close>

record breakpoint =
  bk_lock :: bool
  bk_attr :: u32
  bk_slot_set :: addr
  bk_slot_index :: u32
  bk_obj :: addr

record bp_state =
  bs_table :: bp_table
  bs_slots :: slot_state
  bs_objs :: object_state
  bs_bkpts :: "breakpoint heap"

definition bp_enter :: "addr \<Rightarrow> addr" where
  "bp_enter p = p + 56"

definition bp_return :: "addr \<Rightarrow> addr" where
  "bp_return p = p + 96"

definition breakpoint_chain :: "addr \<Rightarrow> addr" where
  "breakpoint_chain p = p + 160"

definition BKPT_ATTR_FLAG_ENABLE :: u32 where "BKPT_ATTR_FLAG_ENABLE = push_bit 0 1"
definition BKPT_ATTR_FLAG_TRACE :: u32 where "BKPT_ATTR_FLAG_TRACE = push_bit 1 1"
definition BKPT_ATTR_FLAG_NO_SLOT :: u32 where "BKPT_ATTR_FLAG_NO_SLOT = push_bit 2 1"

definition breakpoint_attr_set :: "u32 \<Rightarrow> breakpoint \<Rightarrow> breakpoint" where
  "breakpoint_attr_set flag b = b\<lparr>bk_attr := bk_attr b OR flag\<rparr>"

definition breakpoint_attr_clr :: "u32 \<Rightarrow> breakpoint \<Rightarrow> breakpoint" where
  "breakpoint_attr_clr flag b = b\<lparr>bk_attr := bk_attr b AND NOT flag\<rparr>"

definition breakpoint_attr_flag :: "u32 \<Rightarrow> breakpoint \<Rightarrow> bool" where
  "breakpoint_attr_flag flag b \<longleftrightarrow> bk_attr b AND flag \<noteq> 0"

definition BRK_INSTR :: u32 where
  "BRK_INSTR = 0xD4200060"

section \<open>Operations\<close>

abbreviation bs_mem :: "bp_state \<Rightarrow> memory" where
  "bs_mem s \<equiv> ss_mem (bs_slots s)"

definition set_mem :: "memory \<Rightarrow> bp_state \<Rightarrow> bp_state" where
  "set_mem m s = s\<lparr>bs_slots := (bs_slots s)\<lparr>ss_mem := m\<rparr>\<rparr>"

text \<open>A change of the fields of a breakpoint, of its lock in particular.\<close>

definition set_bkpt :: "addr \<Rightarrow> (breakpoint \<Rightarrow> breakpoint) \<Rightarrow> bp_state \<Rightarrow> bp_state option" where
  "set_bkpt p f s = do {
     bs \<leftarrow> modify (bs_bkpts s) p f;
     Some (s\<lparr>bs_bkpts := bs\<rparr>) }"

definition bkpt_lock :: "addr \<Rightarrow> bp_state \<Rightarrow> bp_state option" where
  "bkpt_lock p s = do {
     b \<leftarrow> load (bs_bkpts s) p;
     lk \<leftarrow> mutex_lock (bk_lock b);
     set_bkpt p (\<lambda>b. b\<lparr>bk_lock := lk\<rparr>) s }"

definition bkpt_unlock :: "addr \<Rightarrow> bp_state \<Rightarrow> bp_state option" where
  "bkpt_unlock p s = do {
     b \<leftarrow> load (bs_bkpts s) p;
     lk \<leftarrow> mutex_unlock (bk_lock b);
     set_bkpt p (\<lambda>b. b\<lparr>bk_lock := lk\<rparr>) s }"

definition breakpoint_new :: "addr \<Rightarrow> bp_state \<Rightarrow> (addr \<times> bp_state) option" where
  "breakpoint_new p s =
     (if p = NULL then None
      else do {
        let objs = bs_objs s;
        h \<leftarrow> INIT_LIST_HEAD (breakpoint_chain p)
          ((ob_lists objs)(breakpoint_chain p \<mapsto> \<lparr>lh_next = NULL, lh_prev = NULL\<rparr>));
        let tab = bs_table s;
        let zero = \<lparr>rb_parent_color = 0, rb_right = NULL, rb_left = NULL\<rparr>;
        let tree = (bt_tree tab)\<lparr>rb_nodes := (rb_nodes (bt_tree tab))(
              bp_node (bp_enter p) \<mapsto> rb_init_node (bp_node (bp_enter p)) zero,
              bp_node (bp_return p) \<mapsto> rb_init_node (bp_node (bp_return p)) zero)\<rparr>;
        let ents = (bt_entries tab)(bp_enter p \<mapsto> \<lparr>be_address = 0, be_bkpt = p\<rparr>,
              bp_return p \<mapsto> \<lparr>be_address = 0, be_bkpt = p\<rparr>);
        Some (p, s\<lparr>bs_objs := objs\<lparr>ob_lists := h\<rparr>, bs_table := tab\<lparr>bt_tree := tree, bt_entries := ents\<rparr>,
          bs_bkpts := (bs_bkpts s)(p \<mapsto>
            \<lparr>bk_lock = False, bk_attr = 0, bk_slot_set = NULL, bk_slot_index = 0, bk_obj = NULL\<rparr>)\<rparr>) })"

text \<open>
  Lines 345 to 367 of \<^verbatim>\<open>breakpoint_add\<close>: a slot is taken and filled with the instruction of the text and
  a \<^verbatim>\<open>brk\<close>, whose address becomes the key of \<^verbatim>\<open>bp_return\<close>.  The result is false when that key is in use.
\<close>

definition slot_prepare ::
  "(slot_state \<Rightarrow> addr) \<Rightarrow> (memory \<Rightarrow> addr) \<Rightarrow> addr \<Rightarrow> bp_state \<Rightarrow> (bool \<times> bp_state) option" where
  "slot_prepare calloc mmap bkpt s = do {
     (sset, idx, slots) \<leftarrow> slot_alloc calloc mmap (bs_slots s);
     s \<leftarrow> set_bkpt bkpt (\<lambda>b. b\<lparr>bk_slot_set := sset, bk_slot_index := idx\<rparr>) (s\<lparr>bs_slots := slots\<rparr>);
     c_assert (sset \<noteq> NULL);
     ss \<leftarrow> load (ss_sets (bs_slots s)) sset;
     let instr_ptr = BP_GET_SLOT_OFFSET ss idx;
     enter \<leftarrow> load (bt_entries (bs_table s)) (bp_enter bkpt);
     instr \<leftarrow> load_word (be_address enter) (bs_mem s);
     mem \<leftarrow> store_word instr_ptr instr (bs_mem s);
     mem \<leftarrow> store_word (instr_ptr + 4) BRK_INSTR mem;
     let s = set_mem mem s;
     ents \<leftarrow> modify (bt_entries (bs_table s)) (bp_return bkpt) (\<lambda>e. e\<lparr>be_address := instr_ptr + 4\<rparr>);
     (r, tab) \<leftarrow> breakpoint_rb_search_insert (bp_return bkpt) ((bs_table s)\<lparr>bt_entries := ents\<rparr>);
     Some (r = 0, s\<lparr>bs_table := tab\<rparr>) }"

text \<open>Lines 369 to 373: the breakpoint is added to the list of its object.\<close>

definition object_attach :: "addr \<Rightarrow> addr \<Rightarrow> bp_state \<Rightarrow> bp_state option" where
  "object_attach obj bkpt s = do {
     ob \<leftarrow> load (ob_objects (bs_objs s)) obj;
     lk \<leftarrow> mutex_lock (bpc_lock ob);
     h \<leftarrow> list_add (breakpoint_chain bkpt) (object_bps obj) (ob_lists (bs_objs s));
     s \<leftarrow> set_bkpt bkpt (\<lambda>b. b\<lparr>bk_obj := obj\<rparr>) (s\<lparr>bs_objs := (bs_objs s)\<lparr>ob_lists := h\<rparr>\<rparr>);
     lk \<leftarrow> mutex_unlock lk;
     obs \<leftarrow> modify (ob_objects (bs_objs s)) obj (\<lambda>ob. ob\<lparr>bpc_lock := lk\<rparr>);
     Some (s\<lparr>bs_objs := (bs_objs s)\<lparr>ob_objects := obs\<rparr>\<rparr>) }"

definition breakpoint_add ::
  "(slot_state \<Rightarrow> addr) \<Rightarrow> (memory \<Rightarrow> addr) \<Rightarrow> addr \<Rightarrow> bp_state \<Rightarrow> (int \<times> bp_state) option" where
  "breakpoint_add calloc mmap bkpt s = do {
     c_assert (bkpt \<noteq> NULL);
     e \<leftarrow> list_empty (breakpoint_chain bkpt) (ob_lists (bs_objs s));
     c_assert e;
     s \<leftarrow> bkpt_lock bkpt s;
     enter \<leftarrow> load (bt_entries (bs_table s)) (bp_enter bkpt);
     (obj, objs) \<leftarrow> object_get_by_address (be_address enter) (bs_objs s);
     let s = s\<lparr>bs_objs := objs\<rparr>;
     if obj = NULL then do {
       s \<leftarrow> bkpt_unlock bkpt s;
       Some (-1, s) }
     else do {
       ob \<leftarrow> load (ob_objects (bs_objs s)) obj;
       if object_attr_flag_NO_BKPT ob then do {
         s \<leftarrow> bkpt_unlock bkpt s;
         Some (-2, s) }
       else do {
         (r, tab) \<leftarrow> breakpoint_rb_search_insert (bp_enter bkpt) (bs_table s);
         let s = s\<lparr>bs_table := tab\<rparr>;
         if r \<noteq> 0 then do {
           s \<leftarrow> bkpt_unlock bkpt s;
           Some (-3, s) }
         else do {
           b \<leftarrow> load (bs_bkpts s) bkpt;
           (ok, s) \<leftarrow> (if \<not> breakpoint_attr_flag BKPT_ATTR_FLAG_NO_SLOT b
                      then slot_prepare calloc mmap bkpt s else Some (True, s));
           if \<not> ok then do {
             s \<leftarrow> bkpt_unlock bkpt s;
             b \<leftarrow> load (bs_bkpts s) bkpt;
             slots \<leftarrow> slot_free (bk_slot_set b) (bk_slot_index b) (bs_slots s);
             Some (-4, s\<lparr>bs_slots := slots\<rparr>) }
           else do {
             s \<leftarrow> object_attach obj bkpt s;
             s \<leftarrow> bkpt_unlock bkpt s;
             Some (0, s) } } } } }"

text \<open>Replacing the instruction at an address of the text of an object, with the write protection lifted.\<close>

definition patch_text :: "(object \<Rightarrow> bool \<Rightarrow> bool) \<Rightarrow> addr \<Rightarrow> addr \<Rightarrow> u32 \<Rightarrow> bp_state \<Rightarrow> bp_state option" where
  "patch_text mprotect obj a instr s = do {
     (_, mem) \<leftarrow> object_memory_unlock mprotect obj (bs_objs s) (bs_mem s);
     mem \<leftarrow> store_word a instr mem;
     (_, mem) \<leftarrow> object_memory_lock mprotect obj (bs_objs s) mem;
     Some (set_mem mem s) }"

definition breakpoint_enable :: "(object \<Rightarrow> bool \<Rightarrow> bool) \<Rightarrow> addr \<Rightarrow> bp_state \<Rightarrow> (int \<times> bp_state) option" where
  "breakpoint_enable mprotect bkpt s = do {
     c_assert (bkpt \<noteq> NULL);
     empty \<leftarrow> rd (RB_EMPTY_NODE (bp_node (bp_enter bkpt))) (bp_node (bp_enter bkpt)) (bt_tree (bs_table s));
     c_assert (\<not> empty);
     s \<leftarrow> bkpt_lock bkpt s;
     b \<leftarrow> load (bs_bkpts s) bkpt;
     if breakpoint_attr_flag BKPT_ATTR_FLAG_ENABLE b then do {
       s \<leftarrow> bkpt_unlock bkpt s;
       Some (0, s) }
     else do {
       s \<leftarrow> set_bkpt bkpt (breakpoint_attr_set BKPT_ATTR_FLAG_ENABLE) s;
       enter \<leftarrow> load (bt_entries (bs_table s)) (bp_enter bkpt);
       s \<leftarrow> patch_text mprotect (bk_obj b) (be_address enter) BRK_INSTR s;
       s \<leftarrow> bkpt_unlock bkpt s;
       Some (0, s) } }"

definition breakpoint_disable :: "(object \<Rightarrow> bool \<Rightarrow> bool) \<Rightarrow> addr \<Rightarrow> bp_state \<Rightarrow> (int \<times> bp_state) option" where
  "breakpoint_disable mprotect bkpt s = do {
     c_assert (bkpt \<noteq> NULL);
     empty \<leftarrow> rd (RB_EMPTY_NODE (bp_node (bp_enter bkpt))) (bp_node (bp_enter bkpt)) (bt_tree (bs_table s));
     c_assert (\<not> empty);
     s \<leftarrow> bkpt_lock bkpt s;
     b \<leftarrow> load (bs_bkpts s) bkpt;
     if \<not> breakpoint_attr_flag BKPT_ATTR_FLAG_ENABLE b then do {
       s \<leftarrow> bkpt_unlock bkpt s;
       Some (0, s) }
     else do {
       s \<leftarrow> set_bkpt bkpt (breakpoint_attr_clr BKPT_ATTR_FLAG_ENABLE) s;
       ss \<leftarrow> load (ss_sets (bs_slots s)) (bk_slot_set b);
       let instr_ptr = BP_GET_SLOT_OFFSET ss (bk_slot_index b);
       enter \<leftarrow> load (bt_entries (bs_table s)) (bp_enter bkpt);
       (_, mem) \<leftarrow> object_memory_unlock mprotect (bk_obj b) (bs_objs s) (bs_mem s);
       instr \<leftarrow> load_word instr_ptr mem;
       mem \<leftarrow> store_word (be_address enter) instr mem;
       (_, mem) \<leftarrow> object_memory_lock mprotect (bk_obj b) (bs_objs s) mem;
       s \<leftarrow> bkpt_unlock bkpt (set_mem mem s);
       Some (0, s) } }"

text \<open>Setting a flag that is clear and clearing it again.\<close>

lemma flag_set_clear: "x AND 1 = 0 \<Longrightarrow> (x OR 1) AND NOT 1 = x" for x :: u32
  by (auto simp: bit_eq_iff bit_simps)

lemma flag_set_test: "(x OR 1) AND 1 = 1" for x :: u32
  by (rule bit_word_eqI) (auto simp: bit_simps)

section \<open>Patching the text\<close>

text \<open>The memory after a patch: one word changed, and the text of the object write protected.\<close>

definition text_patched :: "object \<Rightarrow> addr \<Rightarrow> u32 \<Rightarrow> memory \<Rightarrow> memory" where
  "text_patched ob a v m =
     \<lparr>mem_words = (mem_words m)(a \<mapsto> v),
      mem_writable = (\<lambda>x. \<not> in_range (text_start ob) (text_end ob - text_start ob) x \<and> mem_writable m x)\<rparr>"

abbreviation in_text :: "object \<Rightarrow> addr \<Rightarrow> bool" where
  "in_text ob a \<equiv> in_range (text_start ob) (text_end ob - text_start ob) a"

lemma unlock_store_lock:
  assumes "in_text ob a" "load_word a m \<noteq> None"
  shows "store_word a v (protect (text_start ob) (text_end ob - text_start ob) True m) =
      Some ((protect (text_start ob) (text_end ob - text_start ob) True m)\<lparr>mem_words := (mem_words m)(a \<mapsto> v)\<rparr>)"
    "protect (text_start ob) (text_end ob - text_start ob) False
      ((protect (text_start ob) (text_end ob - text_start ob) True m)\<lparr>mem_words := (mem_words m)(a \<mapsto> v)\<rparr>) = text_patched ob a v m"
  using assms by (auto simp: store_word_def load_word_def protect_def text_patched_def fun_eq_iff)

lemma load_word_patched: "a \<noteq> NULL \<Longrightarrow> load_word x (text_patched ob a v m) = (if x = a then Some v else load_word x m)"
  by (simp add: load_word_def load_def text_patched_def)

lemma load_word_not_NULL: "load_word a m \<noteq> None \<Longrightarrow> a \<noteq> NULL"
  by (auto simp: load_word_def)

text \<open>A registered breakpoint \<^verbatim>\<open>p\<close> at the address \<^verbatim>\<open>a\<close> of the object \<^verbatim>\<open>ob\<close>, whose lock is free.\<close>

definition bkpt_at :: "bp_state \<Rightarrow> addr \<Rightarrow> breakpoint \<Rightarrow> addr \<Rightarrow> object \<Rightarrow> bool" where
  "bkpt_at s p b a ob \<longleftrightarrow> p \<noteq> NULL \<and> bp_enter p \<noteq> NULL \<and> bp_node (bp_enter p) \<noteq> NULL \<and>
     bs_bkpts s p = Some b \<and> \<not> bk_lock b \<and>
     (\<exists>n. rb_nodes (bt_tree (bs_table s)) (bp_node (bp_enter p)) = Some n \<and> \<not> RB_EMPTY_NODE (bp_node (bp_enter p)) n) \<and>
     (\<exists>e. bt_entries (bs_table s) (bp_enter p) = Some e \<and> be_address e = a) \<and>
     bk_obj b \<noteq> NULL \<and> ob_objects (bs_objs s) (bk_obj b) = Some ob"

lemma breakpoint_enable_on:
  assumes "bkpt_at s p b a ob" "breakpoint_attr_flag BKPT_ATTR_FLAG_ENABLE b"
  shows "breakpoint_enable mprotect p s = Some (0, s)"
proof -
  have "b\<lparr>bk_lock := False\<rparr> = b" using assms(1) by (cases b) (simp add: bkpt_at_def)
  then show ?thesis
    using assms by (auto simp: bkpt_at_def breakpoint_enable_def rd_Some bkpt_lock_def bkpt_unlock_def set_bkpt_def
      modify_def load_def breakpoint_attr_flag_def fun_upd_idem)
qed

lemma breakpoint_enable_off:
  assumes at: "bkpt_at s p b a ob" and off: "\<not> breakpoint_attr_flag BKPT_ATTR_FLAG_ENABLE b"
    and mp: "mprotect ob True" "mprotect ob False" and a: "in_text ob a" "load_word a (bs_mem s) \<noteq> None"
  shows "breakpoint_enable mprotect p s = Some (0,
    set_mem (text_patched ob a BRK_INSTR (bs_mem s))
      (s\<lparr>bs_bkpts := (bs_bkpts s)(p \<mapsto> breakpoint_attr_set BKPT_ATTR_FLAG_ENABLE b)\<rparr>))"
proof -
  have lk: "b\<lparr>bk_attr := x, bk_lock := False\<rparr> = b\<lparr>bk_attr := x\<rparr>" for x
    using at by (cases b) (simp add: bkpt_at_def)
  have "breakpoint_attr_flag f (b\<lparr>bk_lock := x\<rparr>) = breakpoint_attr_flag f b" for f x by (simp add: breakpoint_attr_flag_def)
  then show ?thesis
    using at off mp unlock_store_lock[OF a]
    by (auto simp: bkpt_at_def breakpoint_enable_def rd_Some bkpt_lock_def bkpt_unlock_def set_bkpt_def modify_def load_def
      patch_text_def object_memory_lock_def object_memory_unlock_def set_mem_def breakpoint_attr_set_def lk)
qed

lemma breakpoint_disable_off:
  assumes "bkpt_at s p b a ob" "\<not> breakpoint_attr_flag BKPT_ATTR_FLAG_ENABLE b"
  shows "breakpoint_disable mprotect p s = Some (0, s)"
proof -
  have "b\<lparr>bk_lock := False\<rparr> = b" using assms(1) by (cases b) (simp add: bkpt_at_def)
  then show ?thesis
    using assms by (auto simp: bkpt_at_def breakpoint_disable_def rd_Some bkpt_lock_def bkpt_unlock_def set_bkpt_def
      modify_def load_def breakpoint_attr_flag_def fun_upd_idem)
qed

text \<open>The instruction slot of a breakpoint.\<close>

definition slot_addr :: "bp_state \<Rightarrow> breakpoint \<Rightarrow> addr option" where
  "slot_addr s b = map_option (\<lambda>ss. BP_GET_SLOT_OFFSET ss (bk_slot_index b)) (load (ss_sets (bs_slots s)) (bk_slot_set b))"

lemma breakpoint_disable_on:
  assumes at: "bkpt_at s p b a ob" and on: "breakpoint_attr_flag BKPT_ATTR_FLAG_ENABLE b"
    and mp: "mprotect ob True" "mprotect ob False" and a: "in_text ob a" "load_word a (bs_mem s) \<noteq> None"
    and sl: "slot_addr s b = Some w" "load_word w (bs_mem s) = Some instr"
  shows "breakpoint_disable mprotect p s = Some (0,
    set_mem (text_patched ob a instr (bs_mem s))
      (s\<lparr>bs_bkpts := (bs_bkpts s)(p \<mapsto> breakpoint_attr_clr BKPT_ATTR_FLAG_ENABLE b)\<rparr>))"
proof -
  have lk: "b\<lparr>bk_attr := x, bk_lock := False\<rparr> = b\<lparr>bk_attr := x\<rparr>" for x
    using at by (cases b) (simp add: bkpt_at_def)
  obtain ss where ss: "load (ss_sets (bs_slots s)) (bk_slot_set b) = Some ss" "BP_GET_SLOT_OFFSET ss (bk_slot_index b) = w"
    using sl(1) by (auto simp: slot_addr_def)
  have "breakpoint_attr_flag f (b\<lparr>bk_lock := x\<rparr>) = breakpoint_attr_flag f b" for f x by (simp add: breakpoint_attr_flag_def)
  then show ?thesis
    using at on mp unlock_store_lock[OF a] ss sl(2)
    by (auto simp: bkpt_at_def breakpoint_disable_def rd_Some bkpt_lock_def bkpt_unlock_def set_bkpt_def modify_def
      object_memory_lock_def object_memory_unlock_def set_mem_def breakpoint_attr_clr_def lk load_def[of "bs_bkpts _"]
      load_def[of "(bs_bkpts _)(_ := _)"] load_def[of "bt_entries _"] load_def[of "ob_objects _"])
qed

text \<open>A breakpoint without a slot cannot be disabled: the code reads the slot through a null pointer.\<close>

lemma breakpoint_disable_no_slot:
  assumes at: "bkpt_at s p b a ob" and on: "breakpoint_attr_flag BKPT_ATTR_FLAG_ENABLE b" and "bk_slot_set b = NULL"
  shows "breakpoint_disable mprotect p s = None"
proof -
  have "breakpoint_attr_flag f (b\<lparr>bk_lock := x\<rparr>) = breakpoint_attr_flag f b" for f x by (simp add: breakpoint_attr_flag_def)
  then show ?thesis
    using assms by (auto simp: bkpt_at_def breakpoint_disable_def rd_Some bkpt_lock_def set_bkpt_def modify_def load_def)
qed

end
