(* ===== verification/Registration.thy ===== *)
theory Registration
  imports Breakpoint
begin

text \<open>
  Registration of breakpoints: what \<^verbatim>\<open>breakpoint_add\<close> does on each of its branches, and the invariant of the
  whole library (objects and their lists, instruction slots, table) that it keeps.
\<close>

section \<open>Registration\<close>

lemma search_insert_new:
  assumes "bp_rel s m" "bp_ready s e k" "m k = None"
  shows "\<exists>r. breakpoint_rb_search_insert e s = Some (0, s\<lparr>bt_tree := r\<rparr>) \<and> bp_rel (s\<lparr>bt_tree := r\<rparr>) (m(k \<mapsto> e)) \<and>
    (\<forall>e' k'. e' \<noteq> e \<longrightarrow> bp_ready s e' k' \<longrightarrow> bp_ready (s\<lparr>bt_tree := r\<rparr>) e' k')"
  using rb_insert_new[OF assms] search_insert_eq[OF assms(1,2)] by simp

lemma search_insert_old:
  "\<lbrakk>bp_rel s m; bp_ready s e k; m k \<noteq> None\<rbrakk> \<Longrightarrow> breakpoint_rb_search_insert e s = Some (-1, s)"
  using rb_insert_old search_insert_eq by simp

text \<open>Both entries of a breakpoint lead back to it.\<close>

definition owned :: "bp_table \<Rightarrow> addr \<Rightarrow> bool" where
  "owned t p \<longleftrightarrow> (\<forall>e \<in> {bp_enter p, bp_return p}. e \<noteq> NULL \<and> (\<exists>en. bt_entries t e = Some en \<and> be_bkpt en = p))"

text \<open>A breakpoint that \<^verbatim>\<open>breakpoint_add\<close> may be called with: initialised, at the address \<^verbatim>\<open>a\<close>, in no list.\<close>

definition bkpt_ready :: "bp_state \<Rightarrow> addr \<Rightarrow> breakpoint \<Rightarrow> addr \<Rightarrow> bool" where
  "bkpt_ready s p b a \<longleftrightarrow> p \<noteq> NULL \<and> bs_bkpts s p = Some b \<and> \<not> bk_lock b \<and> owned (bs_table s) p \<and>
     bp_ready (bs_table s) (bp_enter p) a \<and> (\<exists>k. bp_ready (bs_table s) (bp_return p) k) \<and>
     ring (ob_lists (bs_objs s)) (breakpoint_chain p) []"

lemma enter_return [simp]: "bp_enter p \<noteq> bp_return p" "bp_return p \<noteq> bp_enter p"
  by (simp_all add: bp_enter_def bp_return_def)

text \<open>The object that contains an address: the first of the list.\<close>

definition object_for :: "object_state \<Rightarrow> addr list \<Rightarrow> addr \<Rightarrow> addr option" where
  "object_for s xs a = map_option object_of (List.find (\<lambda>x. text_start (object_at s x) \<le> a \<and> a \<le> text_end (object_at s x)) xs)"

lemma get_by_address_for:
  "object_ok s xs \<Longrightarrow> object_get_by_address a s = Some (case object_for s xs a of None \<Rightarrow> NULL | Some p \<Rightarrow> p, s)"
  by (cases "List.find (\<lambda>x. text_start (object_at s x) \<le> a \<and> a \<le> text_end (object_at s x)) xs")
    (auto simp: get_by_address_ok object_for_def)

lemma object_for_Some:
  assumes "object_ok s xs" "object_for s xs a = Some o'"
  obtains ob where "o' \<noteq> NULL" "ob_objects s o' = Some ob" "text_start ob \<le> a" "a \<le> text_end ob"
proof -
  obtain x where x: "List.find (\<lambda>x. text_start (object_at s x) \<le> a \<and> a \<le> text_end (object_at s x)) xs = Some x" "o' = object_of x"
    using assms(2) by (auto simp: object_for_def)
  then have "x \<in> set xs" "text_start (object_at s x) \<le> a \<and> a \<le> text_end (object_at s x)" by (auto dest: find_SomeD)
  then show thesis using assms(1) x(2) that[of "object_at s x"] by (auto simp: object_ok_def)
qed

lemma bkpt_lock_ok: "\<lbrakk>p \<noteq> NULL; bs_bkpts s p = Some b; \<not> bk_lock b\<rbrakk> \<Longrightarrow>
    bkpt_lock p s = Some (s\<lparr>bs_bkpts := (bs_bkpts s)(p \<mapsto> b\<lparr>bk_lock := True\<rparr>)\<rparr>)"
  by (simp add: bkpt_lock_def set_bkpt_def modify_def load_def)

lemma bkpt_unlock_ok: "\<lbrakk>p \<noteq> NULL; bs_bkpts s p = Some b; bk_lock b\<rbrakk> \<Longrightarrow>
    bkpt_unlock p s = Some (s\<lparr>bs_bkpts := (bs_bkpts s)(p \<mapsto> b\<lparr>bk_lock := False\<rparr>)\<rparr>)"
  by (simp add: bkpt_unlock_def set_bkpt_def modify_def load_def)

text \<open>The three refusals leave everything as it was.\<close>

lemma breakpoint_add_refused:
  assumes r: "bkpt_ready s p b a" and ok: "object_ok (bs_objs s) xs" and t: "bp_rel (bs_table s) m"
  shows "object_for (bs_objs s) xs a = None \<Longrightarrow> breakpoint_add calloc mmap p s = Some (-1, s)"
    "\<lbrakk>object_for (bs_objs s) xs a = Some q; ob_objects (bs_objs s) q = Some ob; object_attr_flag_NO_BKPT ob\<rbrakk> \<Longrightarrow>
      breakpoint_add calloc mmap p s = Some (-2, s)"
    "\<lbrakk>object_for (bs_objs s) xs a = Some q; ob_objects (bs_objs s) q = Some ob; \<not> object_attr_flag_NO_BKPT ob; m a \<noteq> None\<rbrakk> \<Longrightarrow>
      breakpoint_add calloc mmap p s = Some (-3, s)"
proof -
  have p: "p \<noteq> NULL" "bs_bkpts s p = Some b" "\<not> bk_lock b" and e: "bp_ready (bs_table s) (bp_enter p) a"
    and emp: "list_empty (breakpoint_chain p) (ob_lists (bs_objs s)) = Some True"
    using r list_empty_ring[of "ob_lists (bs_objs s)" "breakpoint_chain p" "[]"] by (auto simp: bkpt_ready_def)
  obtain en where en: "load (bt_entries (bs_table s)) (bp_enter p) = Some en" "be_address en = a"
    using e by (auto simp: bp_ready_def load_def)
  have b: "b\<lparr>bk_lock := False\<rparr> = b" using p(3) by (cases b) simp
  have undo: "s\<lparr>bs_bkpts := (bs_bkpts s)(p \<mapsto> b)\<rparr> = s" using p(2) by (simp add: fun_upd_idem)
  note simps = breakpoint_add_def emp bkpt_lock_ok[OF p] bkpt_unlock_ok[OF p(1)] en get_by_address_for[OF ok] b undo
  show "object_for (bs_objs s) xs a = None \<Longrightarrow> breakpoint_add calloc mmap p s = Some (-1, s)"
    using p(1) by (simp add: simps)
  have q: "q \<noteq> NULL \<and> load (ob_objects (bs_objs s)) q = Some ob"
    if "object_for (bs_objs s) xs a = Some q" "ob_objects (bs_objs s) q = Some ob" for q ob
    using object_for_Some[OF ok that(1)] that(2) by (metis load_def)
  show "\<lbrakk>object_for (bs_objs s) xs a = Some q; ob_objects (bs_objs s) q = Some ob; object_attr_flag_NO_BKPT ob\<rbrakk> \<Longrightarrow>
      breakpoint_add calloc mmap p s = Some (-2, s)"
    using p(1) q by (simp add: simps)
  show "\<lbrakk>object_for (bs_objs s) xs a = Some q; ob_objects (bs_objs s) q = Some ob; \<not> object_attr_flag_NO_BKPT ob; m a \<noteq> None\<rbrakk> \<Longrightarrow>
      breakpoint_add calloc mmap p s = Some (-3, s)"
    using p(1) q search_insert_old[OF t e] by (simp add: simps)
qed
section \<open>The slots in memory\<close>

text \<open>The address of slot \<^verbatim>\<open>i\<close> of a set, without the wrap-around of the 32-bit product.\<close>

definition slot_word :: "slot_set \<Rightarrow> nat \<Rightarrow> addr" where
  "slot_word ss i = ss_slots ss + of_nat (i * 8)"

lemma slot_offset: "i < 1024 \<Longrightarrow> BP_GET_SLOT_OFFSET ss (of_nat i) = slot_word ss i"
proof -
  assume "i < 1024"
  then have "(ucast (of_nat (i * 8) :: u32) :: addr) = of_nat (i * 8)"
    by (simp only: unsigned_of_nat) (simp add: take_bit_nat_eq_self del: of_nat_mult)
  then show ?thesis by (simp add: BP_GET_SLOT_OFFSET_def slot_word_def slot_constants)
qed

definition in_page :: "slot_set \<Rightarrow> addr \<Rightarrow> bool" where
  "in_page ss a \<longleftrightarrow> word_in_range (ss_slots ss) (of_nat SLOT_PAGE_SIZE) a"

lemma slot_in_page:
  assumes "i < 512"
  shows "in_page ss (slot_word ss i)" "in_page ss (slot_word ss i + 4)"
proof -
  have "slot_word ss i = ss_slots ss + of_nat ((2 * i) * 4)" by (simp add: slot_word_def mult.commute)
  then show "in_page ss (slot_word ss i)"
    using word_in_range_offset[of "2 * i" 4096] assms by (simp add: in_page_def slot_constants)
  have "slot_word ss i + 4 = ss_slots ss + of_nat ((2 * i + 1) * 4)" by (simp add: slot_word_def)
  then show "in_page ss (slot_word ss i + 4)"
    using word_in_range_offset[of "2 * i + 1" 4096] assms by (simp only: in_page_def slot_constants) simp
qed

lemma slot_word_inj: "\<lbrakk>i < 1024; j < 1024; slot_word ss i = slot_word ss j\<rbrakk> \<Longrightarrow> i = j"
proof -
  assume "i < 1024" "j < 1024" "slot_word ss i = slot_word ss j"
  moreover have "unat (of_nat (k * 8) :: addr) = k * 8" if "k < 1024" for k
    using that by (simp only: unat_of_nat) (simp add: take_bit_nat_eq_self)
  ultimately show ?thesis unfolding slot_word_def by (metis add_left_cancel mult_right_cancel zero_neq_numeral)
qed

text \<open>The two words of a slot.\<close>

abbreviation slot_words :: "addr \<Rightarrow> addr set" where
  "slot_words w \<equiv> {w, w + 4}"

lemma slot_words_apart:
  assumes "i < 1024" "j < 1024" "i \<noteq> j"
  shows "slot_words (slot_word ss i) \<inter> slot_words (slot_word ss j) = {}"
proof -
  have u: "unat (of_nat (k * 4) :: addr) = k * 4" if "k < 2048" for k
    using that by (simp only: unat_of_nat) (simp add: take_bit_nat_eq_self)
  have inj: "k = l" if "ss_slots ss + of_nat (k * 4) = ss_slots ss + of_nat (l * 4)" "k < 2048" "l < 2048" for k l
    using that u[of k] u[of l] by (metis add_left_cancel mult_right_cancel zero_neq_numeral)
  have w: "slot_word ss k = ss_slots ss + of_nat ((2 * k) * 4)" "slot_word ss k + 4 = ss_slots ss + of_nat ((2 * k + 1) * 4)" for k
    by (simp_all add: slot_word_def mult.commute)
  have ne: "ss_slots ss + of_nat (k * 4) \<noteq> ss_slots ss + of_nat (l * 4)" if "k \<noteq> l" "k < 2048" "l < 2048" for k l
    using inj that by blast
  have "2 * i + 1 \<noteq> 2 * j" "2 * j + 1 \<noteq> 2 * i" by presburger+
  then have "slot_word ss i \<noteq> slot_word ss j" "slot_word ss i \<noteq> slot_word ss j + 4"
    "slot_word ss i + 4 \<noteq> slot_word ss j" "slot_word ss i + 4 \<noteq> slot_word ss j + 4"
    using ne[of "2 * i" "2 * j"] ne[of "2 * i" "2 * j + 1"] ne[of "2 * i + 1" "2 * j"] ne[of "2 * i + 1" "2 * j + 1"] assms
    unfolding w(2) unfolding w(1) by simp_all
  then show ?thesis by blast
qed

abbreviation set_at :: "slot_state \<Rightarrow> addr \<Rightarrow> slot_set" where
  "set_at s x \<equiv> the (ss_sets s (slot_set_of x))"

text \<open>
  The invariant of the slots: every page is mapped and writable, the pages are apart, the word
  behind a free slot is no key of the table \<^verbatim>\<open>m\<close> of breakpoints, and the keys are addresses in memory.
\<close>

definition slots_inv :: "slot_state \<Rightarrow> addr list \<Rightarrow> (addr \<rightharpoonup> addr) \<Rightarrow> bool" where
  "slots_inv s zs m \<longleftrightarrow> slot_rel s zs \<and>
     (\<forall>x \<in> set zs. \<forall>a. in_page (set_at s x) a \<longrightarrow> load_word a (ss_mem s) \<noteq> None \<and> mem_writable (ss_mem s) a) \<and>
     (\<forall>x \<in> set zs. \<forall>y \<in> set zs. \<forall>a. in_page (set_at s x) a \<longrightarrow> in_page (set_at s y) a \<longrightarrow> x = y) \<and>
     (\<forall>x \<in> set zs. \<forall>i \<in> free_at s x. i < 512 \<longrightarrow> m (slot_word (set_at s x) i + 4) = None) \<and>
     (\<forall>k. m k \<noteq> None \<longrightarrow> load_word k (ss_mem s) \<noteq> None)"

definition outside_slots :: "slot_state \<Rightarrow> addr list \<Rightarrow> addr \<Rightarrow> bool" where
  "outside_slots s zs a \<longleftrightarrow> (\<forall>x \<in> set zs. \<not> in_page (set_at s x) a)"

text \<open>Only which words are mapped and writable matters, and a key outside the pages may be added.\<close>

definition mem_like :: "memory \<Rightarrow> memory \<Rightarrow> bool" where
  "mem_like m m' \<longleftrightarrow> (\<forall>a. (load_word a m = None) = (load_word a m' = None)) \<and> mem_writable m = mem_writable m'"

lemma slots_inv_mem: "\<lbrakk>slots_inv s zs m; mem_like (ss_mem s) mm\<rbrakk> \<Longrightarrow> slots_inv (s\<lparr>ss_mem := mm\<rparr>) zs m"
  by (simp add: slots_inv_def mem_like_def slot_rel_def slot_ok_def del: not_None_eq)

lemma slots_inv_key:
  assumes "slots_inv s zs m" "outside_slots s zs a" "load_word a (ss_mem s) \<noteq> None"
  shows "slots_inv s zs (m(a \<mapsto> e))"
  using assms slot_in_page(2) by (fastforce simp: slots_inv_def outside_slots_def)

lemma take_slot_slots [simp]: "ss_slots (take_slot i ss) = ss_slots ss" "slot_word (take_slot i ss) = slot_word ss"
  "in_page (take_slot i ss) = in_page ss"
  by (auto simp: take_slot_def slot_word_def in_page_def)

lemma slots_inv_take:
  assumes inv: "slots_inv s zs m" and x: "x \<in> set zs" and i: "i \<in> free_at s x" "i < 512"
  defines "t \<equiv> s\<lparr>ss_sets := (ss_sets s)(slot_set_of x \<mapsto> take_slot i (set_at s x))\<rparr>"
  shows "slots_inv t zs (m(slot_word (set_at s x) i + 4 \<mapsto> e))"
proof -
  have rel: "slot_rel s zs" using inv by (simp add: slots_inv_def)
  obtain ss where ss: "ss_sets s (slot_set_of x) = Some ss" "set_ok ss" using rel x by (auto simp: slot_rel_def slot_ok_def)
  have at: "set_at t y = (if y = x then take_slot i ss else set_at s y)" for y by (simp add: t_def ss)
  have free: "free_at t y = (if y = x then free_at s x - {i} else free_at s y)" for y
    using free_set_take[OF ss(2), of i] i(1) ss(1) by (simp add: at)
  have page: "in_page (set_at t y) = in_page (set_at s y)" and word: "slot_word (set_at t y) = slot_word (set_at s y)" for y
    by (simp_all add: at ss(1))
  have "slot_rel t zs" using rel slot_ok_upd[OF _ _ x] take_slot_ok[OF ss(2), of i] i(1) ss(1) by (simp add: slot_rel_def t_def)
  moreover have "m (slot_word (set_at s y) j + 4) = None \<and> slot_word (set_at s y) j + 4 \<noteq> slot_word (set_at s x) i + 4"
    if y: "y \<in> set zs" "j \<in> free_at t y" "j < 512" for y j
  proof (cases "y = x")
    case True
    then have "j \<noteq> i" "j \<in> free_at s y" using y(2) by (simp_all add: free)
    then show ?thesis using inv y(1,3) True i(2) slot_word_inj[of j i "set_at s x"] by (auto simp: slots_inv_def)
  next
    case False
    then have "slot_word (set_at s y) j + 4 \<noteq> slot_word (set_at s x) i + 4"
      using inv x y(1,3) i(2) slot_in_page(2)[of j "set_at s y"] slot_in_page(2)[of i "set_at s x"]
      unfolding slots_inv_def by metis
    then show ?thesis using inv y False by (auto simp: slots_inv_def free)
  qed
  moreover have "load_word (slot_word (set_at s x) i + 4) (ss_mem s) \<noteq> None"
    using inv x slot_in_page(2)[OF i(2)] by (simp add: slots_inv_def)
  ultimately show ?thesis using inv by (simp add: slots_inv_def page word) (simp add: t_def)
qed

text \<open>A new page: it was not mapped before, so it is apart from the other pages and holds no key.\<close>

lemma in_page_fresh: "in_page (fresh_set p) a \<longleftrightarrow> word_in_range p (of_nat SLOT_PAGE_SIZE) a"
  by (simp add: in_page_def fresh_set_def)

lemma new_page_unmapped: "\<lbrakk>mmap_ok mmap m; in_page (fresh_set (mmap m)) a\<rbrakk> \<Longrightarrow> load_word a m = None"
  by (simp add: mmap_ok_def in_page_fresh word_in_range_def load_word_def load_def)

lemma in_page_not_NULL:
  assumes m: "mmap_ok mmap m" and a: "in_page (fresh_set (mmap m)) a"
  shows "a \<noteq> NULL"
proof
  assume "a = NULL"
  then have "- mmap m < 4096" using a by (simp add: in_page_fresh word_in_range_def in_range_def slot_constants)
  then have "unat (- mmap m) < 4096" by (simp add: word_less_nat_alt)
  moreover have "mmap m \<noteq> 0" "unat (mmap m) + 4096 < 2 ^ 64" using m by (simp_all add: mmap_ok_def slot_constants)
  moreover have "(unat (mmap m) + unat (- mmap m)) mod 2 ^ 64 = 0"
    using unat_word_ariths(1)[of "mmap m" "- mmap m"] by simp
  ultimately show False by (simp add: unat_eq_0)
qed

lemma slots_inv_fresh:
  assumes inv: "slots_inv s zs m" and c: "calloc_ok calloc s" and mm: "mmap_ok mmap (ss_mem s)"
    and h: "ring h (slot_sets s) (slot_set_list (calloc s) # zs)"
  defines "u \<equiv> s\<lparr>ss_lists := h, ss_sets := (ss_sets s)(calloc s \<mapsto> fresh_set (mmap (ss_mem s))),
      ss_mem := map_anonymous (mmap (ss_mem s)) (of_nat SLOT_PAGE_SIZE) (ss_mem s)\<rparr>"
  shows "slots_inv u (slot_set_list (calloc s) # zs) m"
    "load_word a (ss_mem u) = load_word a (ss_mem s) \<or> load_word a (ss_mem s) = None \<and> load_word a (ss_mem u) = Some 0"
    "\<lbrakk>load_word a (ss_mem s) \<noteq> None; outside_slots s zs a\<rbrakk> \<Longrightarrow> outside_slots u (slot_set_list (calloc s) # zs) a"
proof -
  let ?p = "calloc s" and ?f = "fresh_set (mmap (ss_mem s))"
  have ok: "slot_ok s zs" "\<not> slot_sets_lock s" using inv by (auto simp: slots_inv_def slot_rel_def)
  have new: "slot_set_of x \<noteq> ?p" if "x \<in> set zs" for x using ok(1) c that by (auto simp: slot_ok_def calloc_ok_def)
  have at: "set_at u x = set_at s x" if "x \<in> set zs" for x using new[OF that] by (simp add: u_def)
  have at': "the (ss_sets u ?p) = ?f" by (simp add: u_def)
  have load: "load_word a (ss_mem u) = (if in_page ?f a then Some 0 else load_word a (ss_mem s))" for a
    using in_page_not_NULL[OF mm] by (auto simp: u_def load_word_map_anonymous in_page_fresh)
  have wr: "mem_writable (ss_mem u) a" if "mem_writable (ss_mem s) a \<or> in_page ?f a" for a
    using that by (auto simp: u_def in_page_fresh word_in_range_def)
  note un = new_page_unmapped[OF mm]
  show "load_word a (ss_mem u) = load_word a (ss_mem s) \<or> load_word a (ss_mem s) = None \<and> load_word a (ss_mem u) = Some 0" for a
    using un[of a] load[of a] by auto
  show "\<lbrakk>load_word a (ss_mem s) \<noteq> None; outside_slots s zs a\<rbrakk> \<Longrightarrow> outside_slots u (slot_set_list (calloc s) # zs) a" for a
    using un[of a] by (auto simp: outside_slots_def at at')
  have rel: "slot_rel u (slot_set_list ?p # zs)"
    using ok h c new by (auto simp: u_def slot_rel_def slot_ok_def calloc_ok_def)
  have old: "\<not> in_page ?f a" if "x \<in> set zs" "in_page (set_at s x) a" for x a
    using that inv un[of a] unfolding slots_inv_def by blast
  have key: "\<not> in_page ?f k" if "m k \<noteq> None" for k using that inv un[of k] by (auto simp: slots_inv_def)
  have free: "m (slot_word ?f i + 4) = None" if "i < 512" for i using key slot_in_page(2)[OF that, of ?f] by blast
  have "in_page (set_at u x) a \<longrightarrow> load_word a (ss_mem u) \<noteq> None \<and> mem_writable (ss_mem u) a" if "x \<in> set (slot_set_list ?p # zs)" for x a
    using that inv wr by (auto simp: at at' load slots_inv_def)
  moreover have "in_page (set_at u x) a \<longrightarrow> in_page (set_at u y) a \<longrightarrow> x = y"
    if "x \<in> set (slot_set_list ?p # zs)" "y \<in> set (slot_set_list ?p # zs)" for x y a
    using that inv old by (auto simp: at at' slots_inv_def)
  moreover have "\<forall>i \<in> free_at u x. i < 512 \<longrightarrow> m (slot_word (set_at u x) i + 4) = None" if "x \<in> set (slot_set_list ?p # zs)" for x
    using that inv free by (auto simp: at at' slots_inv_def)
  moreover have "\<forall>k. m k \<noteq> None \<longrightarrow> load_word k (ss_mem u) \<noteq> None"
    using inv load by (auto simp: slots_inv_def)
  ultimately show "slots_inv u (slot_set_list (calloc s) # zs) m" using rel unfolding slots_inv_def by blast
qed

text \<open>Pages may be added to the memory, full of zeros.\<close>

definition mem_grown :: "memory \<Rightarrow> memory \<Rightarrow> bool" where
  "mem_grown m m' \<longleftrightarrow> (\<forall>a. load_word a m' = load_word a m \<or> load_word a m = None \<and> load_word a m' = Some 0)"

text \<open>The sets stay where they are, and a slot is known by its page.\<close>

definition sets_kept :: "slot_state \<Rightarrow> slot_state \<Rightarrow> bool" where
  "sets_kept s t \<longleftrightarrow> (\<forall>q ss. ss_sets s q = Some ss \<longrightarrow> (\<exists>ss'. ss_sets t q = Some ss' \<and> ss_slots ss' = ss_slots ss))"

definition slot_at :: "slot_state \<Rightarrow> addr list \<Rightarrow> addr \<Rightarrow> bool" where
  "slot_at s zs w \<longleftrightarrow> (\<exists>z \<in> set zs. \<exists>j < 512. w = slot_word (set_at s z) j)"

lemma sets_kept_trans: "\<lbrakk>sets_kept s u; sets_kept u t\<rbrakk> \<Longrightarrow> sets_kept s t"
  unfolding sets_kept_def by metis

text \<open>
  What registration needs of an allocation, with \<^verbatim>\<open>pg\<close> the addresses at which a new page may lie; and what the allocation needs:
  a free slot, or a block for a set and such a page.
\<close>

definition slot_supply :: "(slot_state \<Rightarrow> addr) \<Rightarrow> (memory \<Rightarrow> addr) \<Rightarrow> slot_state \<Rightarrow> addr list \<Rightarrow> (addr \<Rightarrow> bool) \<Rightarrow> bool" where
  "slot_supply calloc mmap s zs pg \<longleftrightarrow> (\<exists>x \<in> set zs. free_at s x \<noteq> {}) \<or>
     calloc_ok calloc s \<and> mmap_ok mmap (ss_mem s) \<and> (\<forall>a. in_range (mmap (ss_mem s)) (of_nat SLOT_PAGE_SIZE) a \<longrightarrow> pg a)"

definition slot_granted :: "(addr \<Rightarrow> bool) \<Rightarrow> slot_state \<Rightarrow> addr list \<Rightarrow> (addr \<rightharpoonup> addr) \<Rightarrow> addr \<Rightarrow> slot_state \<Rightarrow> addr list \<Rightarrow> bool" where
  "slot_granted pg s zs m w t zs' \<longleftrightarrow> m (w + 4) = None \<and>
     (\<forall>a \<in> slot_words w. load_word a (ss_mem t) \<noteq> None \<and> mem_writable (ss_mem t) a) \<and>
     (\<forall>e. slots_inv t zs' (m(w + 4 \<mapsto> e))) \<and>
     mem_grown (ss_mem s) (ss_mem t) \<and>
     (\<forall>a. load_word a (ss_mem s) \<noteq> None \<longrightarrow> outside_slots s zs a \<longrightarrow> outside_slots t zs' a \<and> a \<notin> slot_words w) \<and>
     (\<forall>a. outside_slots s zs a \<longrightarrow> \<not> pg a \<longrightarrow> outside_slots t zs' a) \<and>
     (\<forall>v. slot_at s zs v \<longrightarrow> m (v + 4) \<noteq> None \<longrightarrow> slot_words w \<inter> slot_words v = {}) \<and>
     (\<forall>v. slot_at s zs v \<longrightarrow> slot_at t zs' v) \<and> slot_at t zs' w \<and> sets_kept s t"

lemma slot_granted_take:
  assumes inv: "slots_inv s zs m" and x: "x \<in> set zs" and i: "i \<in> free_at s x" "i < 512"
  shows "slot_granted pg s zs m (slot_word (set_at s x) i)
    (s\<lparr>ss_sets := (ss_sets s)(slot_set_of x \<mapsto> take_slot i (set_at s x))\<rparr>) zs"
proof -
  let ?w = "slot_word (set_at s x) i" and ?t = "s\<lparr>ss_sets := (ss_sets s)(slot_set_of x \<mapsto> take_slot i (set_at s x))\<rparr>"
  note page = slot_in_page[OF i(2), of "set_at s x"]
  have at: "in_page (set_at ?t z) = in_page (set_at s z)" "slot_word (set_at ?t z) = slot_word (set_at s z)" for z by simp_all
  have free: "m (?w + 4) = None" using inv x i by (simp add: slots_inv_def)
  moreover have "\<forall>a \<in> slot_words ?w. load_word a (ss_mem s) \<noteq> None \<and> mem_writable (ss_mem s) a"
    using inv x page by (simp add: slots_inv_def)
  moreover have "outside_slots ?t zs a = outside_slots s zs a" for a unfolding outside_slots_def at ..
  moreover have "a \<notin> slot_words ?w" if "outside_slots s zs a" for a
    using that x page by (auto simp: outside_slots_def)
  moreover have "slot_words ?w \<inter> slot_words v = {}" if v: "slot_at s zs v" "m (v + 4) \<noteq> None" for v
  proof -
    obtain z j where z: "z \<in> set zs" "j < 512" "v = slot_word (set_at s z) j" using v(1) by (auto simp: slot_at_def)
    show ?thesis
    proof (cases "z = x")
      case True
      then show ?thesis using z(2,3) i(2) free v(2) slot_words_apart[of i j] by fastforce
    next
      case False
      then have "\<not> (in_page (set_at s x) a \<and> in_page (set_at s z) a)" for a
        using inv x z(1) unfolding slots_inv_def by blast
      moreover have "in_page (set_at s x) a" if "a \<in> slot_words ?w" for a using that page by auto
      moreover have "in_page (set_at s z) a" if "a \<in> slot_words v" for a using that z(3) slot_in_page[OF z(2), of "set_at s z"] by auto
      ultimately show ?thesis by blast
    qed
  qed
  moreover have "slot_at ?t zs v = slot_at s zs v" for v unfolding slot_at_def at ..
  moreover have "slot_at s zs ?w" using x i(2) by (auto simp: slot_at_def)
  moreover have "ss_sets s (slot_set_of x) \<noteq> None" using inv x by (auto simp: slots_inv_def slot_rel_def slot_ok_def)
  then have "sets_kept s ?t" by (auto simp: sets_kept_def)
  moreover have "mem_grown (ss_mem s) (ss_mem ?t)" by (simp add: mem_grown_def)
  moreover have "slots_inv ?t zs (m(?w + 4 \<mapsto> e))" for e using slots_inv_take[OF inv x i] .
  moreover have "ss_mem ?t = ss_mem s" by simp
  ultimately show ?thesis unfolding slot_granted_def by (intro conjI) metis+
qed

lemma slot_grantedD:
  assumes "slot_granted pg s zs m w t zs'"
  shows "m (w + 4) = None" "\<forall>a \<in> slot_words w. load_word a (ss_mem t) \<noteq> None \<and> mem_writable (ss_mem t) a"
    "\<forall>e. slots_inv t zs' (m(w + 4 \<mapsto> e))" "mem_grown (ss_mem s) (ss_mem t)"
    "\<forall>a. load_word a (ss_mem s) \<noteq> None \<longrightarrow> outside_slots s zs a \<longrightarrow> outside_slots t zs' a \<and> a \<notin> slot_words w"
    "\<forall>a. outside_slots s zs a \<longrightarrow> \<not> pg a \<longrightarrow> outside_slots t zs' a"
    "\<forall>v. slot_at s zs v \<longrightarrow> m (v + 4) \<noteq> None \<longrightarrow> slot_words w \<inter> slot_words v = {}"
    "\<forall>v. slot_at s zs v \<longrightarrow> slot_at t zs' v" "slot_at t zs' w" "sets_kept s t"
  using assms unfolding slot_granted_def by - (elim conjE, assumption)+

lemma slot_granted_extend:
  assumes g: "slot_granted pg u zs m w t zs'" and l: "mem_grown (ss_mem s) (ss_mem u)"
    and o: "\<And>a. \<lbrakk>load_word a (ss_mem s) \<noteq> None; outside_slots s ys a\<rbrakk> \<Longrightarrow> outside_slots u zs a"
    and o': "\<And>a. \<lbrakk>outside_slots s ys a; \<not> pg a\<rbrakk> \<Longrightarrow> outside_slots u zs a"
    and v: "\<And>v. slot_at s ys v \<Longrightarrow> slot_at u zs v" and k: "sets_kept s u"
  shows "slot_granted pg s ys m w t zs'"
proof -
  note D = slot_grantedD[OF g]
  have "mem_grown (ss_mem s) (ss_mem t)" using D(4) l unfolding mem_grown_def by (metis option.distinct(1))
  moreover have "load_word a (ss_mem u) \<noteq> None" if "load_word a (ss_mem s) \<noteq> None" for a
    using l that unfolding mem_grown_def by metis
  then have "\<forall>a. load_word a (ss_mem s) \<noteq> None \<longrightarrow> outside_slots s ys a \<longrightarrow> outside_slots t zs' a \<and> a \<notin> slot_words w"
    using D(5) o by blast
  moreover have "sets_kept s t" using sets_kept_trans[OF k D(10)] .
  moreover have "\<forall>a. outside_slots s ys a \<longrightarrow> \<not> pg a \<longrightarrow> outside_slots t zs' a" using D(6) o' by blast
  moreover have "\<forall>x. slot_at s ys x \<longrightarrow> m (x + 4) \<noteq> None \<longrightarrow> slot_words w \<inter> slot_words x = {}"
    "\<forall>x. slot_at s ys x \<longrightarrow> slot_at t zs' x" using D(7,8) v by blast+
  ultimately show ?thesis using D(1-3,9) unfolding slot_granted_def by (intro conjI)
qed

lemma slot_alloc_granted:
  assumes inv: "slots_inv s zs m" and sup: "slot_supply calloc mmap s zs pg"
    and al: "slot_alloc calloc mmap s = Some (q, idx, t)" "unat idx < 512"
  obtains ss zs' where "q \<noteq> NULL" "ss_sets t q = Some ss" "slot_granted pg s zs m (BP_GET_SLOT_OFFSET ss idx) t zs'"
proof (cases "\<exists>x \<in> set zs. free_at s x \<noteq> {}")
  case True
  have rel: "slot_rel s zs" using inv by (simp add: slots_inv_def)
  obtain x i where xi: "slot_set_of x = q" "of_nat i = idx" "x \<in> set zs" "i \<in> free_at s x"
    "t = s\<lparr>ss_sets := (ss_sets s)(slot_set_of x \<mapsto> take_slot i (set_at s x))\<rparr>"
    using slot_alloc_existing[OF rel True, of calloc mmap] al(1) by auto
  have lt: "i < 1024" using free_set_bound xi(4) by blast
  then have "i = unat idx" using xi(2) by (simp add: unat_of_nat take_bit_nat_eq_self flip: xi(2))
  then have i: "i < 512" using al(2) by simp
  have "q \<noteq> NULL" using rel xi(1,3) by (auto simp: slot_rel_def slot_ok_def)
  moreover have "ss_sets t q = Some (take_slot i (set_at s x))" using xi by simp
  moreover have "BP_GET_SLOT_OFFSET (take_slot i (set_at s x)) idx = slot_word (set_at s x) i"
    using slot_offset[OF lt, of "take_slot i (set_at s x)"] xi(2) by simp
  ultimately show thesis using that[of "take_slot i (set_at s x)" zs] slot_granted_take[OF inv xi(3,4) i] xi(5) by simp
next
  case False
  then have c: "calloc_ok calloc s" and mm: "mmap_ok mmap (ss_mem s)" and page: "\<forall>a. in_range (mmap (ss_mem s)) (of_nat SLOT_PAGE_SIZE) a \<longrightarrow> pg a"
    using sup by (auto simp: slot_supply_def)
  let ?f = "fresh_set (mmap (ss_mem s))" and ?x = "slot_set_list (calloc s)"
  have rel: "slot_rel s zs" using inv by (simp add: slots_inv_def)
  obtain h where h: "q = calloc s" "idx = 0"
    "t = s\<lparr>ss_lists := h, ss_sets := (ss_sets s)(calloc s \<mapsto> take_slot 0 ?f),
      ss_mem := map_anonymous (mmap (ss_mem s)) (of_nat SLOT_PAGE_SIZE) (ss_mem s)\<rparr>"
    "ring h (slot_sets s) (?x # zs)"
    using slot_alloc_new[OF rel _ c mm] False al(1) by auto
  let ?u = "s\<lparr>ss_lists := h, ss_sets := (ss_sets s)(calloc s \<mapsto> ?f),
      ss_mem := map_anonymous (mmap (ss_mem s)) (of_nat SLOT_PAGE_SIZE) (ss_mem s)\<rparr>"
  note u = slots_inv_fresh[OF inv c mm h(4)]
  have "t = ?u\<lparr>ss_sets := (ss_sets ?u)(slot_set_of ?x \<mapsto> take_slot 0 (set_at ?u ?x))\<rparr>"
    using h(3) by (cases s) simp
  then have g: "slot_granted pg ?u (?x # zs) m (slot_word ?f 0) t (?x # zs)"
    using slot_granted_take[OF u(1), of ?x 0] by (simp add: slot_constants)
  have new: "slot_set_of z \<noteq> calloc s" if "z \<in> set zs" for z using rel c that by (auto simp: slot_rel_def slot_ok_def calloc_ok_def)
  have "slot_granted pg s zs m (slot_word ?f 0) t (?x # zs)"
  proof (rule slot_granted_extend[OF g])
    show "mem_grown (ss_mem s) (ss_mem ?u)" using u(2) unfolding mem_grown_def by blast
    show "outside_slots ?u (?x # zs) a" if "outside_slots s zs a" "\<not> pg a" for a
      using that new page by (auto simp: outside_slots_def in_page_fresh word_in_range_def)
    show "slot_at ?u (?x # zs) v" if "slot_at s zs v" for v using that new unfolding slot_at_def by fastforce
    show "sets_kept s ?u" using c by (auto simp: sets_kept_def calloc_ok_def)
  qed (use u(3) in blast)
  moreover have "BP_GET_SLOT_OFFSET (take_slot 0 ?f) 0 = slot_word ?f 0" using slot_offset[of 0 "take_slot 0 ?f"] by simp
  ultimately show thesis using that[of "take_slot 0 ?f" "?x # zs"] c h by (simp add: calloc_ok_def)
qed

section \<open>Filling the slot, entering the list\<close>

definition slot_filled :: "addr \<Rightarrow> u32 \<Rightarrow> memory \<Rightarrow> memory" where
  "slot_filled w instr m = m\<lparr>mem_words := (mem_words m)(w \<mapsto> instr, w + 4 \<mapsto> BRK_INSTR)\<rparr>"

lemma store_slot:
  assumes "\<forall>a \<in> {w, w + 4}. load_word a m \<noteq> None \<and> mem_writable m a"
  shows "Option.bind (store_word w instr m) (store_word (w + 4) BRK_INSTR) = Some (slot_filled w instr m)"
  using assms by (auto simp: store_word_def load_word_def slot_filled_def load_def split: if_splits)

lemma load_slot_filled:
  assumes "\<forall>a \<in> {w, w + 4}. load_word a m \<noteq> None"
  shows "load_word x (slot_filled w instr m) = (if x = w + 4 then Some BRK_INSTR else if x = w then Some instr else load_word x m)"
  using assms by (auto simp: slot_filled_def load_word_def load_def split: if_splits)

lemma slot_filled_like: "\<forall>a \<in> {w, w + 4}. load_word a m \<noteq> None \<Longrightarrow> mem_like m (slot_filled w instr m)"
  using load_slot_filled[of w m] by (auto simp: mem_like_def slot_filled_def)

text \<open>The breakpoint entry of the return, with its new key.\<close>

definition return_keyed :: "addr \<Rightarrow> addr \<Rightarrow> bp_table \<Rightarrow> bp_table" where
  "return_keyed p k t = t\<lparr>bt_entries := (bt_entries t)(bp_return p \<mapsto>
     (the (bt_entries t (bp_return p)))\<lparr>be_address := k\<rparr>)\<rparr>"

lemma return_keyed_ready:
  assumes rel: "bp_rel t m" and r: "bp_ready t (bp_return p) k'"
  shows "bp_rel (return_keyed p k t) m" "bp_ready (return_keyed p k t) (bp_return p) k"
proof -
  show "bp_rel (return_keyed p k t) m"
    using rel bp_holds_entry_upd[OF _ r] by (auto simp: bp_rel_def return_keyed_def)
  show "bp_ready (return_keyed p k t) (bp_return p) k" using r by (auto simp: bp_ready_def return_keyed_def)
qed

definition slot_taken :: "addr \<Rightarrow> addr \<Rightarrow> u32 \<Rightarrow> addr \<Rightarrow> u32 \<Rightarrow> slot_state \<Rightarrow> breakpoint \<Rightarrow> rb_state \<Rightarrow> bp_state \<Rightarrow> bp_state" where
  "slot_taken p q idx w instr sl b r s = s\<lparr>bs_bkpts := (bs_bkpts s)(p \<mapsto> b\<lparr>bk_slot_set := q, bk_slot_index := idx\<rparr>),
     bs_slots := sl\<lparr>ss_mem := slot_filled w instr (ss_mem sl)\<rparr>,
     bs_table := (return_keyed p (w + 4) (bs_table s))\<lparr>bt_tree := r\<rparr>\<rparr>"

lemma slot_prepare_ok:
  assumes p: "p \<noteq> NULL" "bs_bkpts s p = Some b" and en: "load (bt_entries (bs_table s)) (bp_enter p) = Some en"
    and rt: "bp_ready (bs_table s) (bp_return p) k'" and rel: "bp_rel (bs_table s) m"
    and al: "slot_alloc calloc mmap (bs_slots s) = Some (q, idx, sl)" "q \<noteq> NULL" "ss_sets sl q = Some ss"
    and w: "BP_GET_SLOT_OFFSET ss idx = w" "\<forall>a \<in> {w, w + 4}. load_word a (ss_mem sl) \<noteq> None \<and> mem_writable (ss_mem sl) a"
    and new: "m (w + 4) = None" and a: "load_word (be_address en) (ss_mem sl) = Some instr"
  shows "\<exists>r. slot_prepare calloc mmap p s = Some (True, slot_taken p q idx w instr sl b r s) \<and>
    bp_rel ((return_keyed p (w + 4) (bs_table s))\<lparr>bt_tree := r\<rparr>) (m(w + 4 \<mapsto> bp_return p))"
proof -
  let ?tab = "return_keyed p (w + 4) (bs_table s)"
  obtain r where r: "breakpoint_rb_search_insert (bp_return p) ?tab = Some (0, ?tab\<lparr>bt_tree := r\<rparr>)"
    "bp_rel (?tab\<lparr>bt_tree := r\<rparr>) (m(w + 4 \<mapsto> bp_return p))"
    using search_insert_new[OF return_keyed_ready[OF rel rt] new] by blast
  obtain e where e: "load (bt_entries (bs_table s)) (bp_return p) = Some e" using rt by (auto simp: bp_ready_def load_def)
  then have md: "modify (bt_entries (bs_table s)) (bp_return p) (\<lambda>e. e\<lparr>be_address := w + 4\<rparr>) = Some (bt_entries ?tab)"
    by (auto simp: modify_def return_keyed_def load_def split: if_splits)
  have tab: "(bs_table s)\<lparr>bt_entries := bt_entries ?tab\<rparr> = ?tab" by (simp add: return_keyed_def)
  have ld: "load (ss_sets sl) q = Some ss" "load (bs_bkpts s) p = Some b" using al p by (simp_all add: load_def)
  obtain m1 where m1: "store_word w instr (ss_mem sl) = Some m1" "store_word (w + 4) BRK_INSTR m1 = Some (slot_filled w instr (ss_mem sl))"
    using store_slot[OF w(2), of instr] by (auto simp: bind_eq_Some_conv)
  have "slot_prepare calloc mmap p s = Some (True, slot_taken p q idx w instr sl b r s)"
    using al(1,2) ld en a m1 md r(1)
    by (simp add: slot_prepare_def set_bkpt_def modify_Some[OF ld(2)] w(1) set_mem_def tab slot_taken_def Let_def)
  then show ?thesis using r(2) by blast
qed

lemma object_attach_ok:
  assumes p: "p \<noteq> NULL" "bs_bkpts s p = Some b" and q: "q \<noteq> NULL" "ob_objects (bs_objs s) q = Some ob" "\<not> bpc_lock ob"
    and rings: "ring (ob_lists (bs_objs s)) (object_bps q) ys" "ring (ob_lists (bs_objs s)) (breakpoint_chain p) []"
    and out: "breakpoint_chain p \<notin> footprint (object_bps q) ys"
  shows "\<exists>h. object_attach q p s = Some (s\<lparr>bs_objs := (bs_objs s)\<lparr>ob_lists := h\<rparr>,
      bs_bkpts := (bs_bkpts s)(p \<mapsto> b\<lparr>bk_obj := q\<rparr>)\<rparr>) \<and>
    ring h (object_bps q) (breakpoint_chain p # ys) \<and>
    relinked (ob_lists (bs_objs s)) (footprint (object_bps q) (breakpoint_chain p # ys)) h"
proof -
  have "live (ob_lists (bs_objs s)) (breakpoint_chain p)" using ring_live[OF rings(2)] by simp
  then obtain h where h: "list_add (breakpoint_chain p) (object_bps q) (ob_lists (bs_objs s)) = Some h"
    "ring h (object_bps q) (breakpoint_chain p # ys)"
    "relinked (ob_lists (bs_objs s)) (footprint (object_bps q) (breakpoint_chain p # ys)) h"
    using ringlist.push_law[OF rings(1) _ out] by blast
  have ob: "ob\<lparr>bpc_lock := False\<rparr> = ob" using q(3) by (cases ob) simp
  have upd: "(ob_objects (bs_objs s))(q \<mapsto> ob) = ob_objects (bs_objs s)" using q(2) by (simp add: fun_upd_idem)
  have objs: "(bs_objs s)\<lparr>ob_lists := h, ob_objects := ob_objects (bs_objs s)\<rparr> = (bs_objs s)\<lparr>ob_lists := h\<rparr>" by simp
  have "object_attach q p s = Some (s\<lparr>bs_objs := (bs_objs s)\<lparr>ob_lists := h\<rparr>, bs_bkpts := (bs_bkpts s)(p \<mapsto> b\<lparr>bk_obj := q\<rparr>)\<rparr>)"
    using p q(1,2,3) h(1) by (simp add: object_attach_def set_bkpt_def modify_def load_def ob upd)
  then show ?thesis using h(2,3) by blast
qed

section \<open>The invariant of the library\<close>

text \<open>
  The list of objects and, for the object at each entry \<^verbatim>\<open>x\<close>, the list \<^verbatim>\<open>B x\<close> of its breakpoints: all locks
  are free and no two lists share an entry.
\<close>

abbreviation bps_of :: "addr \<Rightarrow> addr" where
  "bps_of x \<equiv> object_bps (object_of x)"

definition lists_inv :: "object_state \<Rightarrow> addr list \<Rightarrow> (addr \<Rightarrow> addr list) \<Rightarrow> bool" where
  "lists_inv s xs B \<longleftrightarrow> object_ok s xs \<and>
     (\<forall>x \<in> set xs. \<not> bpc_lock (object_at s x) \<and> ring (ob_lists s) (bps_of x) (B x) \<and>
        footprint (bps_of x) (B x) \<inter> footprint (objects s) xs = {}) \<and>
     (\<forall>x \<in> set xs. \<forall>y \<in> set xs. x \<noteq> y \<longrightarrow> footprint (bps_of x) (B x) \<inter> footprint (bps_of y) (B y) = {})"

definition unlisted :: "object_state \<Rightarrow> addr list \<Rightarrow> (addr \<Rightarrow> addr list) \<Rightarrow> addr \<Rightarrow> bool" where
  "unlisted s xs B c \<longleftrightarrow> c \<notin> footprint (objects s) xs \<and> (\<forall>x \<in> set xs. c \<notin> footprint (bps_of x) (B x))"

lemma lists_inv_attach:
  assumes inv: "lists_inv s xs B" and c: "unlisted s xs B c" and x: "x \<in> set xs"
    and h: "ring h (bps_of x) (c # B x)" "relinked (ob_lists s) (footprint (bps_of x) (c # B x)) h"
  shows "lists_inv (s\<lparr>ob_lists := h\<rparr>) xs (B(x := c # B x))"
proof -
  have "footprint (bps_of x) (c # B x) \<inter> footprint (objects s) xs = {}" using inv c x by (auto simp: lists_inv_def unlisted_def)
  then have "ring h (objects s) xs"
    using inv h(2) ring_relinked[of "ob_lists s" "objects s" xs] by (simp add: lists_inv_def object_ok_def)
  then have "object_ok (s\<lparr>ob_lists := h\<rparr>) xs" using inv by (simp add: lists_inv_def object_ok_def)
  moreover have d: "footprint (bps_of x) (c # B x) \<inter> footprint (bps_of y) (B y) = {}" if "y \<in> set xs" "y \<noteq> x" for y
    using inv c x that by (auto simp: lists_inv_def unlisted_def)
  moreover have "ring h (bps_of y) (B y)" if "y \<in> set xs" "y \<noteq> x" for y
    using inv d[OF that] that(1) h(2) ring_relinked[of "ob_lists s" "bps_of y" "B y"] by (simp add: lists_inv_def)
  moreover have "footprint (bps_of y) ((B(x := c # B x)) y) \<inter> footprint (objects s) xs = {}" if "y \<in> set xs" for y
    using inv c that by (auto simp: lists_inv_def unlisted_def)
  moreover have "footprint (bps_of y) ((B(x := c # B x)) y) \<inter> footprint (bps_of z) ((B(x := c # B x)) z) = {}"
    if yz: "y \<in> set xs" "z \<in> set xs" "y \<noteq> z" for y z
    using inv d[OF yz(1)] d[OF yz(2)] yz by (cases "y = x"; cases "z = x") (auto simp: lists_inv_def)
  ultimately show ?thesis using inv h(1) by (simp add: lists_inv_def)
qed

definition hook_inv :: "bp_state \<Rightarrow> addr list \<Rightarrow> (addr \<Rightarrow> addr list) \<Rightarrow> addr list \<Rightarrow> (addr \<rightharpoonup> addr) \<Rightarrow> bool" where
  "hook_inv s xs B zs m \<longleftrightarrow> lists_inv (bs_objs s) xs B \<and> slots_inv (bs_slots s) zs m \<and> bp_rel (bs_table s) m"

text \<open>
  A breakpoint that can be registered: it is initialised, its address lies in the text of an object
  that takes breakpoints, outside the pages of the slots, and no other breakpoint has it.
\<close>

definition addable :: "bp_state \<Rightarrow> addr list \<Rightarrow> (addr \<Rightarrow> addr list) \<Rightarrow> addr list \<Rightarrow> (addr \<rightharpoonup> addr) \<Rightarrow>
    addr \<Rightarrow> breakpoint \<Rightarrow> addr \<Rightarrow> addr \<Rightarrow> object \<Rightarrow> u32 \<Rightarrow> bool" where
  "addable s xs B zs m p b a q ob instr \<longleftrightarrow> bkpt_ready s p b a \<and> unlisted (bs_objs s) xs B (breakpoint_chain p) \<and>
     object_for (bs_objs s) xs a = Some q \<and> ob_objects (bs_objs s) q = Some ob \<and> \<not> object_attr_flag_NO_BKPT ob \<and>
     m a = None \<and> load_word a (bs_mem s) = Some instr \<and> outside_slots (bs_slots s) zs a"

lemma object_for_listed:
  assumes "lists_inv s xs B" "object_for s xs a = Some q" "ob_objects s q = Some ob"
  shows "q \<noteq> NULL" "object_chain q \<in> set xs" "\<not> bpc_lock ob" "ring (ob_lists s) (object_bps q) (B (object_chain q))"
proof -
  have "object_chain q \<in> set xs" using assms(2) by (auto simp: object_for_def dest: find_SomeD)
  then show "q \<noteq> NULL" "object_chain q \<in> set xs" "\<not> bpc_lock ob" "ring (ob_lists s) (object_bps q) (B (object_chain q))"
    using assms(1,3) by (auto simp: lists_inv_def object_ok_def)
qed

text \<open>The part of \<^verbatim>\<open>breakpoint_add\<close> before the slot, as one equation.\<close>

lemma breakpoint_add_start:
  assumes inv: "hook_inv s xs B zs m" and ad: "addable s xs B zs m p b a q ob instr"
  defines "s1 r \<equiv> s\<lparr>bs_bkpts := (bs_bkpts s)(p \<mapsto> b\<lparr>bk_lock := True\<rparr>), bs_table := (bs_table s)\<lparr>bt_tree := r\<rparr>\<rparr>"
  obtains r where "bp_rel (bs_table (s1 r)) (m(a \<mapsto> bp_enter p))" "\<exists>k. bp_ready (bs_table (s1 r)) (bp_return p) k"
    "slots_inv (bs_slots s) zs (m(a \<mapsto> bp_enter p))"
    "breakpoint_add calloc mmap p s = do {
       (ok, s) \<leftarrow> (if \<not> breakpoint_attr_flag BKPT_ATTR_FLAG_NO_SLOT b then slot_prepare calloc mmap p (s1 r) else Some (True, s1 r));
       if \<not> ok then do {
         s \<leftarrow> bkpt_unlock p s;
         b \<leftarrow> load (bs_bkpts s) p;
         slots \<leftarrow> slot_free (bk_slot_set b) (bk_slot_index b) (bs_slots s);
         Some (-4, s\<lparr>bs_slots := slots\<rparr>) }
       else do {
         s \<leftarrow> object_attach q p s;
         s \<leftarrow> bkpt_unlock p s;
         Some (0, s) } }"
proof -
  have ok: "object_ok (bs_objs s) xs" and rel: "bp_rel (bs_table s) m" and sl: "slots_inv (bs_slots s) zs m"
    using inv by (auto simp: hook_inv_def lists_inv_def)
  have r: "bkpt_ready s p b a" and q: "object_for (bs_objs s) xs a = Some q" "ob_objects (bs_objs s) q = Some ob" "\<not> object_attr_flag_NO_BKPT ob"
    and new: "m a = None" and out: "outside_slots (bs_slots s) zs a" "load_word a (bs_mem s) \<noteq> None" using ad by (simp_all add: addable_def)
  have p: "p \<noteq> NULL" "bs_bkpts s p = Some b" "\<not> bk_lock b" and e: "bp_ready (bs_table s) (bp_enter p) a"
    and emp: "list_empty (breakpoint_chain p) (ob_lists (bs_objs s)) = Some True"
    using r list_empty_ring[of "ob_lists (bs_objs s)" "breakpoint_chain p" "[]"] by (auto simp: bkpt_ready_def)
  obtain k where rt: "bp_ready (bs_table s) (bp_return p) k" using r by (auto simp: bkpt_ready_def)
  obtain en where en: "load (bt_entries (bs_table s)) (bp_enter p) = Some en" "be_address en = a"
    using e by (auto simp: bp_ready_def load_def)
  have qn: "q \<noteq> NULL" using object_for_Some[OF ok q(1)] by metis
  then have ql: "load (ob_objects (bs_objs s)) q = Some ob" using q(2) by (simp add: load_def)
  obtain r where ins: "breakpoint_rb_search_insert (bp_enter p) (bs_table s) = Some (0, (bs_table s)\<lparr>bt_tree := r\<rparr>)"
    "bp_rel ((bs_table s)\<lparr>bt_tree := r\<rparr>) (m(a \<mapsto> bp_enter p))"
    "\<forall>e' k'. e' \<noteq> bp_enter p \<longrightarrow> bp_ready (bs_table s) e' k' \<longrightarrow> bp_ready ((bs_table s)\<lparr>bt_tree := r\<rparr>) e' k'"
    using search_insert_new[OF rel e new] by blast
  have fl: "breakpoint_attr_flag f (b\<lparr>bk_lock := True\<rparr>) = breakpoint_attr_flag f b" for f by (simp add: breakpoint_attr_flag_def)
  show thesis
  proof (rule that)
    show "bp_rel (bs_table (s1 r)) (m(a \<mapsto> bp_enter p))" using ins(2) by (simp add: s1_def)
    show "\<exists>k. bp_ready (bs_table (s1 r)) (bp_return p) k" using rt ins(3) by (intro exI[of _ k]) (simp add: s1_def)
    show "slots_inv (bs_slots s) zs (m(a \<mapsto> bp_enter p))" by (rule slots_inv_key[OF sl out])
  qed (use p(1) qn q(3) in \<open>simp add: breakpoint_add_def emp bkpt_lock_ok[OF p] en get_by_address_for[OF ok] q(1) ql ins(1) s1_def fl cong: if_cong\<close>)
qed

text \<open>What \<^verbatim>\<open>breakpoint_add\<close> achieves: the state \<^verbatim>\<open>s'\<close> after it has the breakpoint \<^verbatim>\<open>p\<close>, with slot address \<^verbatim>\<open>w\<close>.\<close>

definition registered :: "bp_state \<Rightarrow> addr \<Rightarrow> breakpoint \<Rightarrow> addr \<Rightarrow> object \<Rightarrow> addr \<Rightarrow> u32 \<Rightarrow> bool" where
  "registered s p b a ob w instr \<longleftrightarrow> bkpt_at s p b a ob \<and> owned (bs_table s) p \<and> slot_addr s b = Some w \<and> w \<noteq> a \<and> w + 4 \<noteq> a \<and>
     load_word w (bs_mem s) = Some instr \<and> load_word (w + 4) (bs_mem s) = Some BRK_INSTR"

text \<open>Of the memory \<^verbatim>\<open>m\<close> behind the allocation, only the two words of the slot change.\<close>

definition slot_written :: "memory \<Rightarrow> addr \<Rightarrow> u32 \<Rightarrow> memory \<Rightarrow> bool" where
  "slot_written m w instr m' \<longleftrightarrow> (\<forall>x. load_word x m' =
     (if x = w + 4 then Some BRK_INSTR else if x = w then Some instr else load_word x m))"

text \<open>The rest of the state: other breakpoints, their entries, the objects and the places of the slots.\<close>

definition others_kept :: "bp_state \<Rightarrow> addr \<Rightarrow> bp_state \<Rightarrow> bool" where
  "others_kept s p s' \<longleftrightarrow> (\<forall>p'. p' \<noteq> p \<longrightarrow> bs_bkpts s' p' = bs_bkpts s p') \<and>
     (\<forall>e. e \<noteq> bp_return p \<longrightarrow> bt_entries (bs_table s') e = bt_entries (bs_table s) e) \<and>
     ob_objects (bs_objs s') = ob_objects (bs_objs s) \<and> objects (bs_objs s') = objects (bs_objs s) \<and>
     sets_kept (bs_slots s) (bs_slots s')"

lemma breakpoint_add_ok:
  assumes inv: "hook_inv s xs B zs m" and ad: "addable s xs B zs m p b a q ob instr"
    and slot: "\<not> breakpoint_attr_flag BKPT_ATTR_FLAG_NO_SLOT b"
    and sup: "slot_supply calloc mmap (bs_slots s) zs pg"
    and al: "slot_alloc calloc mmap (bs_slots s) = Some (sset, idx, sl)" "unat idx < 512"
  shows "\<exists>s' zs'. let b' = b\<lparr>bk_slot_set := sset, bk_slot_index := idx, bk_obj := q\<rparr>;
      w = BP_GET_SLOT_OFFSET (the (ss_sets sl sset)) idx in
    breakpoint_add calloc mmap p s = Some (0, s') \<and>
    hook_inv s' xs (B(object_chain q := breakpoint_chain p # B (object_chain q))) zs' (m(a \<mapsto> bp_enter p, w + 4 \<mapsto> bp_return p)) \<and>
    registered s' p b' a ob w instr \<and> slot_written (ss_mem sl) w instr (bs_mem s') \<and> others_kept s p s' \<and>
    slot_granted pg (bs_slots s) zs (m(a \<mapsto> bp_enter p)) w sl zs' \<and> bs_slots s' = sl\<lparr>ss_mem := bs_mem s'\<rparr>"
proof -
  let ?m = "m(a \<mapsto> bp_enter p)"
  let ?s = "\<lambda>r. s\<lparr>bs_bkpts := (bs_bkpts s)(p \<mapsto> b\<lparr>bk_lock := True\<rparr>), bs_table := (bs_table s)\<lparr>bt_tree := r\<rparr>\<rparr>"
  obtain r where r: "bp_rel (bs_table (?s r)) ?m" "\<exists>k. bp_ready (bs_table (?s r)) (bp_return p) k" "slots_inv (bs_slots s) zs ?m"
    and eq: "breakpoint_add calloc mmap p s = do {
       (ok, s) \<leftarrow> (if \<not> breakpoint_attr_flag BKPT_ATTR_FLAG_NO_SLOT b then slot_prepare calloc mmap p (?s r) else Some (True, ?s r));
       if \<not> ok then do {
         s \<leftarrow> bkpt_unlock p s;
         b \<leftarrow> load (bs_bkpts s) p;
         slots \<leftarrow> slot_free (bk_slot_set b) (bk_slot_index b) (bs_slots s);
         Some (-4, s\<lparr>bs_slots := slots\<rparr>) }
       else do {
         s \<leftarrow> object_attach q p s;
         s \<leftarrow> bkpt_unlock p s;
         Some (0, s) } }"
    by (rule breakpoint_add_start[OF inv ad])
  obtain k where k: "bp_ready (bs_table (?s r)) (bp_return p) k" using r(2) by blast
  have lists: "lists_inv (bs_objs s) xs B" using inv by (simp add: hook_inv_def)
  have q: "object_for (bs_objs s) xs a = Some q" "ob_objects (bs_objs s) q = Some ob"
    and a: "load_word a (bs_mem s) = Some instr" "outside_slots (bs_slots s) zs a"
    and un: "unlisted (bs_objs s) xs B (breakpoint_chain p)"
    and p: "p \<noteq> NULL" "bs_bkpts s p = Some b" "\<not> bk_lock b" "bp_ready (bs_table s) (bp_enter p) a"
    and ow: "owned (bs_table s) p" and chain: "ring (ob_lists (bs_objs s)) (breakpoint_chain p) []"
    using ad by (auto simp: addable_def bkpt_ready_def)
  note qs = object_for_listed[OF lists q]
  obtain en where en: "bt_entries (bs_table s) (bp_enter p) = Some en" "be_address en = a" "bp_enter p \<noteq> NULL" "bp_node (bp_enter p) \<noteq> NULL"
    using p(4) by (auto simp: bp_ready_def)
  obtain ss zs' where ss: "sset \<noteq> NULL" "ss_sets sl sset = Some ss"
    and g: "slot_granted pg (bs_slots s) zs ?m (BP_GET_SLOT_OFFSET ss idx) sl zs'"
    by (rule slot_alloc_granted[OF r(3) sup al])
  define w where "w = BP_GET_SLOT_OFFSET (the (ss_sets sl sset)) idx"
  have wss: "BP_GET_SLOT_OFFSET ss idx = w" using ss(2) by (simp add: w_def)
  note gr = g[unfolded wss slot_granted_def]
  have wm: "\<forall>x \<in> slot_words w. load_word x (ss_mem sl) \<noteq> None \<and> mem_writable (ss_mem sl) x" and new: "?m (w + 4) = None"
    and ne: "w \<noteq> a" "w + 4 \<noteq> a" and grown: "mem_grown (bs_mem s) (ss_mem sl)" using gr a by auto
  have am: "load_word a (ss_mem sl) = Some instr" using grown a(1) unfolding mem_grown_def by (metis option.distinct(1))
  let ?b = "b\<lparr>bk_lock := True\<rparr>"
  obtain r' where pr: "slot_prepare calloc mmap p (?s r) = Some (True, slot_taken p sset idx w instr sl ?b r' (?s r))"
    "bp_rel ((return_keyed p (w + 4) (bs_table (?s r)))\<lparr>bt_tree := r'\<rparr>) (?m(w + 4 \<mapsto> bp_return p))"
    using slot_prepare_ok[of p "?s r" ?b en k ?m calloc mmap sset idx sl ss w instr] p en k r(1) al(1) ss wm new am
    by (auto simp: wss load_def)
  let ?t = "slot_taken p sset idx w instr sl ?b r' (?s r)"
  have t: "bs_objs ?t = bs_objs s" "bs_bkpts ?t p = Some (?b\<lparr>bk_slot_set := sset, bk_slot_index := idx\<rparr>)" by (simp_all add: slot_taken_def)
  have "breakpoint_chain p \<notin> footprint (object_bps q) (B (object_chain q))" using un qs(2) by (auto simp: unlisted_def)
  then obtain h where h: "object_attach q p ?t = Some (?t\<lparr>bs_objs := (bs_objs s)\<lparr>ob_lists := h\<rparr>,
      bs_bkpts := (bs_bkpts ?t)(p \<mapsto> ?b\<lparr>bk_slot_set := sset, bk_slot_index := idx, bk_obj := q\<rparr>)\<rparr>)"
    "ring h (object_bps q) (breakpoint_chain p # B (object_chain q))"
    "relinked (ob_lists (bs_objs s)) (footprint (object_bps q) (breakpoint_chain p # B (object_chain q))) h"
    using object_attach_ok[of p ?t _ q ob "B (object_chain q)"] p(1) t qs q(2) chain by auto
  let ?b' = "b\<lparr>bk_slot_set := sset, bk_slot_index := idx, bk_obj := q\<rparr>"
  let ?u = "?t\<lparr>bs_objs := (bs_objs s)\<lparr>ob_lists := h\<rparr>, bs_bkpts := (bs_bkpts s)(p \<mapsto> ?b')\<rparr>"
  have lk: "b\<lparr>bk_slot_set := sset, bk_slot_index := idx, bk_obj := q, bk_lock := False\<rparr> = ?b'" using p(3) by (cases b) simp
  have "breakpoint_add calloc mmap p s = Some (0, ?u)"
    using slot pr(1) h(1) p(1) by (simp add: eq bkpt_unlock_ok slot_taken_def lk)
  moreover have "lists_inv (bs_objs ?u) xs (B(object_chain q := breakpoint_chain p # B (object_chain q)))"
    using lists_inv_attach[OF lists un qs(2)] h(2,3) by simp
  moreover have mem: "bs_mem ?u = slot_filled w instr (ss_mem sl)" by (simp add: slot_taken_def)
  moreover have "slots_inv (bs_slots ?u) zs' (?m(w + 4 \<mapsto> bp_return p))"
    using gr slots_inv_mem[OF _ slot_filled_like] wm by (simp add: slot_taken_def)
  moreover have tab: "bs_table ?u = (return_keyed p (w + 4) (bs_table (?s r)))\<lparr>bt_tree := r'\<rparr>" by (simp add: slot_taken_def)
  moreover have "bkpt_at ?u p ?b' a ob"
    using bp_holds_linked[of "bs_table ?u" _ a "bp_enter p"] pr(2) ne en p(1,3) qs(1) q(2) tab
    by (auto simp: bkpt_at_def bp_rel_def slot_taken_def return_keyed_def)
  moreover have "owned (bs_table ?u) p" using ow by (auto simp: owned_def slot_taken_def return_keyed_def)
  moreover have "slot_addr ?u ?b' = Some w" using ss wss by (simp add: slot_addr_def slot_taken_def load_def)
  moreover have "slot_written (ss_mem sl) w instr (bs_mem ?u)"
    unfolding slot_written_def mem using wm by (simp add: load_slot_filled)
  moreover have "others_kept s p ?u"
    using gr by (auto simp: others_kept_def slot_taken_def return_keyed_def sets_kept_def)
  moreover have "bs_slots ?u = sl\<lparr>ss_mem := bs_mem ?u\<rparr>" by (simp add: slot_taken_def)
  ultimately show ?thesis
    using pr(2) ne load_slot_filled[of w "ss_mem sl" _ instr] wm g[unfolded wss]
    unfolding Let_def w_def[symmetric] by (intro exI[of _ ?u] exI[of _ zs']) (auto simp: hook_inv_def registered_def)
qed

section \<open>The other branches\<close>

text \<open>A breakpoint that asks for no slot is entered under its address only.\<close>

lemma breakpoint_add_no_slot:
  assumes inv: "hook_inv s xs B zs m" and ad: "addable s xs B zs m p b a q ob instr"
    and flag: "breakpoint_attr_flag BKPT_ATTR_FLAG_NO_SLOT b"
  shows "\<exists>s'. breakpoint_add calloc mmap p s = Some (0, s') \<and> bkpt_at s' p (b\<lparr>bk_obj := q\<rparr>) a ob \<and> bs_slots s' = bs_slots s \<and>
    hook_inv s' xs (B(object_chain q := breakpoint_chain p # B (object_chain q))) zs (m(a \<mapsto> bp_enter p))"
proof -
  let ?s = "\<lambda>r. s\<lparr>bs_bkpts := (bs_bkpts s)(p \<mapsto> b\<lparr>bk_lock := True\<rparr>), bs_table := (bs_table s)\<lparr>bt_tree := r\<rparr>\<rparr>"
  obtain r where r: "bp_rel (bs_table (?s r)) (m(a \<mapsto> bp_enter p))" "slots_inv (bs_slots s) zs (m(a \<mapsto> bp_enter p))"
    and eq: "breakpoint_add calloc mmap p s = do { s \<leftarrow> object_attach q p (?s r); s \<leftarrow> bkpt_unlock p s; Some (0, s) }"
    by (rule breakpoint_add_start[OF inv ad, of calloc mmap]) (use flag in simp)
  have lists: "lists_inv (bs_objs s) xs B" using inv by (simp add: hook_inv_def)
  have q: "object_for (bs_objs s) xs a = Some q" "ob_objects (bs_objs s) q = Some ob"
    and un: "unlisted (bs_objs s) xs B (breakpoint_chain p)" and p: "p \<noteq> NULL" "bs_bkpts s p = Some b" "\<not> bk_lock b"
    and rdy: "bp_ready (bs_table s) (bp_enter p) a" and chain: "ring (ob_lists (bs_objs s)) (breakpoint_chain p) []"
    using ad by (auto simp: addable_def bkpt_ready_def)
  note qs = object_for_listed[OF lists q]
  have "breakpoint_chain p \<notin> footprint (object_bps q) (B (object_chain q))" using un qs(2) by (auto simp: unlisted_def)
  then obtain h where h: "object_attach q p (?s r) = Some ((?s r)\<lparr>bs_objs := (bs_objs s)\<lparr>ob_lists := h\<rparr>,
      bs_bkpts := (bs_bkpts (?s r))(p \<mapsto> b\<lparr>bk_lock := True, bk_obj := q\<rparr>)\<rparr>)"
    "ring h (object_bps q) (breakpoint_chain p # B (object_chain q))"
    "relinked (ob_lists (bs_objs s)) (footprint (object_bps q) (breakpoint_chain p # B (object_chain q))) h"
    using object_attach_ok[of p "?s r" "b\<lparr>bk_lock := True\<rparr>" q ob "B (object_chain q)"] p(1) qs q(2) chain by auto
  let ?u = "(?s r)\<lparr>bs_objs := (bs_objs s)\<lparr>ob_lists := h\<rparr>, bs_bkpts := (bs_bkpts s)(p \<mapsto> b\<lparr>bk_obj := q\<rparr>)\<rparr>"
  have lk: "b\<lparr>bk_obj := q, bk_lock := False\<rparr> = b\<lparr>bk_obj := q\<rparr>" using p(3) by (cases b) simp
  have "breakpoint_add calloc mmap p s = Some (0, ?u)" using h(1) p(1) by (simp add: eq bkpt_unlock_ok lk)
  moreover have "bkpt_at ?u p (b\<lparr>bk_obj := q\<rparr>) a ob"
    using bp_holds_linked[of "bs_table ?u" _ a "bp_enter p"] r(1) rdy p(1,3) qs(1) q(2)
    by (auto simp: bkpt_at_def bp_rel_def bp_ready_def)
  moreover have "lists_inv (bs_objs ?u) xs (B(object_chain q := breakpoint_chain p # B (object_chain q)))"
    using lists_inv_attach[OF lists un qs(2)] h(2,3) by simp
  ultimately show ?thesis using r by (intro exI[of _ ?u]) (simp add: hook_inv_def)
qed

text \<open>The copy of the instruction goes to a slot, whether the address of the slot is mapped or not.\<close>

lemma breakpoint_add_unmapped:
  assumes inv: "hook_inv s xs B zs m" and ad: "addable s xs B zs m p b a q ob instr"
    and slot: "\<not> breakpoint_attr_flag BKPT_ATTR_FLAG_NO_SLOT b"
    and al: "slot_alloc calloc mmap (bs_slots s) = Some (sset, idx, sl)" "ss_sets sl sset = Some ss"
    and w: "load_word (BP_GET_SLOT_OFFSET ss idx) (ss_mem sl) = None"
  shows "breakpoint_add calloc mmap p s = None"
proof -
  let ?s = "\<lambda>r. s\<lparr>bs_bkpts := (bs_bkpts s)(p \<mapsto> b\<lparr>bk_lock := True\<rparr>), bs_table := (bs_table s)\<lparr>bt_tree := r\<rparr>\<rparr>"
  have st: "store_word (BP_GET_SLOT_OFFSET ss idx) v (ss_mem sl) = None" for v using w by (simp add: store_word_def load_word_def)
  have none: "slot_prepare calloc mmap p (?s r) = None" for r
    using al st by (auto simp: slot_prepare_def set_bkpt_def bind_eq_None_conv load_def split: if_splits)
  show ?thesis by (rule breakpoint_add_start[OF inv ad, of calloc mmap]) (use slot none in simp)
qed

end
