(* ===== verification/Thread_Map.thy ===== *)
theory Thread_Map
  imports Intrusive_List Key_Index "HOL-Library.Signed_Division"
begin

text \<open>
  The table of threads, \<^verbatim>\<open>signal_test/thread.c\<close>: an array of 64 list heads, indexed by the thread id
  modulo 64, each the head of a ring of thread objects.  The link field of a thread is at offset
  16 of the structure.
\<close>

section \<open>State\<close>

record thread =
  th_tid :: "32 word"
  th_singlestep_bp :: addr

record thread_table =
  tt_lists :: list_heap
  tt_threads :: "thread heap"
  thread_map :: addr
  thread_map_lock :: bool

definition THREAD_MAP_SIZE :: int where
  "THREAD_MAP_SIZE = 64"

definition thread_list_entry :: "addr \<Rightarrow> addr" where
  "thread_list_entry t = t + 16"

definition thread_of_entry :: "addr \<Rightarrow> addr" where
  "thread_of_entry x = x - 16"

text \<open>
  The address of element \<^verbatim>\<open>i\<close> of the array, and the element for a thread id: \<^verbatim>\<open>%\<close> on the signed type
  \<^verbatim>\<open>pid_t\<close> rounds towards zero, so that a negative id gives a negative index.
\<close>

definition bucket :: "thread_table \<Rightarrow> int \<Rightarrow> addr" where
  "bucket s i = thread_map s + of_int (16 * i)"

definition thread_head :: "thread_table \<Rightarrow> 32 word \<Rightarrow> addr" where
  "thread_head s tid = bucket s (sint tid smod THREAD_MAP_SIZE)"

section \<open>Operations\<close>

function thread_map_init_loop :: "int \<Rightarrow> thread_table \<Rightarrow> thread_table option" where
  "thread_map_init_loop i s =
     (if i < THREAD_MAP_SIZE then do {
        h \<leftarrow> INIT_LIST_HEAD (bucket s i) (tt_lists s);
        thread_map_init_loop (i + 1) (s\<lparr>tt_lists := h\<rparr>) }
      else Some s)"
  by pat_completeness auto
termination by (relation "measure (\<lambda>(i, s). nat (THREAD_MAP_SIZE - i))") auto

definition thread_map_init :: "thread_table \<Rightarrow> thread_table option" where
  "thread_map_init s = thread_map_init_loop 0 s"

text \<open>The result of \<^verbatim>\<open>calloc\<close> is a parameter; \<^verbatim>\<open>NULL\<close> makes the function abort.\<close>

definition thread_new :: "addr \<Rightarrow> thread_table \<Rightarrow> (addr \<times> thread_table) option" where
  "thread_new thread s =
     (if thread = NULL then None
      else do {
        let s = s\<lparr>tt_threads := (tt_threads s)(thread \<mapsto> \<lparr>th_tid = 0, th_singlestep_bp = NULL\<rparr>),
          tt_lists := (tt_lists s)(thread_list_entry thread \<mapsto> \<lparr>lh_next = NULL, lh_prev = NULL\<rparr>)\<rparr>;
        h \<leftarrow> INIT_LIST_HEAD (thread_list_entry thread) (tt_lists s);
        Some (thread, s\<lparr>tt_lists := h\<rparr>) })"

definition thread_del :: "addr \<Rightarrow> thread_table \<Rightarrow> thread_table option" where
  "thread_del thread s = do {
     c_assert (thread \<noteq> NULL);
     e \<leftarrow> list_empty (thread_list_entry thread) (tt_lists s);
     c_assert e;
     Some (s\<lparr>tt_threads := (tt_threads s)(thread := None),
       tt_lists := (tt_lists s)(thread_list_entry thread := None)\<rparr>) }"

definition thread_map_find_internal :: "32 word \<Rightarrow> thread_table \<Rightarrow> addr option" where
  "thread_map_find_internal thread_id s = do {
     pos \<leftarrow> list_for_each_entry (tt_lists s)
       (\<lambda>x. map_option (\<lambda>t. th_tid t = thread_id) (load (tt_threads s) (thread_of_entry x)))
       (thread_head s thread_id);
     Some (case pos of None \<Rightarrow> NULL | Some x \<Rightarrow> thread_of_entry x) }"

definition thread_map_add :: "addr \<Rightarrow> thread_table \<Rightarrow> (int \<times> thread_table) option" where
  "thread_map_add thread s = do {
     c_assert (thread \<noteq> NULL);
     e \<leftarrow> list_empty (thread_list_entry thread) (tt_lists s);
     c_assert e;
     lk \<leftarrow> mutex_lock (thread_map_lock s);
     let s = s\<lparr>thread_map_lock := lk\<rparr>;
     t \<leftarrow> load (tt_threads s) thread;
     exist \<leftarrow> thread_map_find_internal (th_tid t) s;
     if exist \<noteq> NULL then do {
       lk \<leftarrow> mutex_unlock (thread_map_lock s);
       Some (-1, s\<lparr>thread_map_lock := lk\<rparr>) }
     else do {
       h \<leftarrow> list_add (thread_list_entry thread) (thread_head s (th_tid t)) (tt_lists s);
       lk \<leftarrow> mutex_unlock (thread_map_lock s);
       Some (0, s\<lparr>tt_lists := h, thread_map_lock := lk\<rparr>) } }"

definition thread_map_del :: "32 word \<Rightarrow> thread_table \<Rightarrow> (addr \<times> thread_table) option" where
  "thread_map_del thread_id s = do {
     lk \<leftarrow> mutex_lock (thread_map_lock s);
     let s = s\<lparr>thread_map_lock := lk\<rparr>;
     exist \<leftarrow> thread_map_find_internal thread_id s;
     if exist \<noteq> NULL then do {
       lk \<leftarrow> mutex_unlock (thread_map_lock s);
       Some (NULL, s\<lparr>thread_map_lock := lk\<rparr>) }
     else do {
       h \<leftarrow> list_del (thread_list_entry exist) (tt_lists s);
       lk \<leftarrow> mutex_unlock (thread_map_lock s);
       Some (NULL, s\<lparr>tt_lists := h, thread_map_lock := lk\<rparr>) } }"

definition thread_map_find :: "32 word \<Rightarrow> thread_table \<Rightarrow> (addr \<times> thread_table) option" where
  "thread_map_find thread_id s = do {
     lk \<leftarrow> mutex_lock (thread_map_lock s);
     let s = s\<lparr>thread_map_lock := lk\<rparr>;
     pos \<leftarrow> thread_map_find_internal thread_id s;
     lk \<leftarrow> mutex_unlock (thread_map_lock s);
     Some (pos, s\<lparr>thread_map_lock := lk\<rparr>) }"

section \<open>The table as a finite map\<close>

definition tid_of :: "thread_table \<Rightarrow> addr \<Rightarrow> 32 word" where
  "tid_of s x = th_tid (the (tt_threads s (thread_of_entry x)))"

abbreviation slot_of :: "32 word \<Rightarrow> int" where
  "slot_of tid \<equiv> sint tid mod THREAD_MAP_SIZE"

text \<open>
  \<^verbatim>\<open>thread_rings s bs\<close>: the 64 rings hold the entries \<^verbatim>\<open>bs\<close>, share no list head, and every entry
  belongs to a live thread whose id selects its ring.
\<close>

definition thread_rings :: "thread_table \<Rightarrow> (int \<Rightarrow> addr list) \<Rightarrow> bool" where
  "thread_rings s bs \<longleftrightarrow>
     (\<forall>i \<in> {0..<THREAD_MAP_SIZE}. ring (tt_lists s) (bucket s i) (bs i) \<and>
       (\<forall>x \<in> set (bs i). thread_of_entry x \<noteq> NULL \<and> tt_threads s (thread_of_entry x) \<noteq> None \<and>
          0 \<le> sint (tid_of s x) \<and> slot_of (tid_of s x) = i)) \<and>
     (\<forall>i \<in> {0..<THREAD_MAP_SIZE}. \<forall>j \<in> {0..<THREAD_MAP_SIZE}. i \<noteq> j \<longrightarrow>
       footprint (bucket s i) (bs i) \<inter> footprint (bucket s j) (bs j) = {})"

definition thread_at :: "thread_table \<Rightarrow> (int \<Rightarrow> addr list) \<Rightarrow> 32 word \<Rightarrow> addr option" where
  "thread_at s bs tid =
     (if 0 \<le> sint tid then map_option thread_of_entry (List.find (\<lambda>x. tid_of s x = tid) (bs (slot_of tid))) else None)"

definition thread_rel :: "thread_table \<Rightarrow> (32 word \<rightharpoonup> addr) \<Rightarrow> bool" where
  "thread_rel s m \<longleftrightarrow> \<not> thread_map_lock s \<and> (\<exists>bs. thread_rings s bs \<and> m = thread_at s bs)"

text \<open>An initialised thread object that is in no ring.\<close>

definition thread_ready :: "thread_table \<Rightarrow> addr \<Rightarrow> 32 word \<Rightarrow> bool" where
  "thread_ready s t tid \<longleftrightarrow> t \<noteq> NULL \<and> 0 \<le> sint tid \<and> (\<exists>th. tt_threads s t = Some th \<and> th_tid th = tid) \<and>
     ring (tt_lists s) (thread_list_entry t) [] \<and>
     (\<forall>i \<in> {0..<THREAD_MAP_SIZE}. thread_list_entry t \<noteq> bucket s i)"

lemma entry_inverse [simp]:
  "thread_of_entry (thread_list_entry t) = t" "thread_list_entry (thread_of_entry x) = x"
  by (simp_all add: thread_of_entry_def thread_list_entry_def)

lemma entry_inj [simp]: "thread_list_entry a = thread_list_entry b \<longleftrightarrow> a = b"
  by (simp add: thread_list_entry_def)

lemma slot_range [simp]: "slot_of tid \<in> {0..<THREAD_MAP_SIZE}" "0 \<le> slot_of tid" "slot_of tid < THREAD_MAP_SIZE"
  by (simp_all add: THREAD_MAP_SIZE_def)

lemma thread_head_nonneg: "0 \<le> sint tid \<Longrightarrow> thread_head s tid = bucket s (slot_of tid)"
  by (cases "sint tid = 0") (simp_all add: thread_head_def THREAD_MAP_SIZE_def smod_int_alt_def)

lemma bucket_simps [simp]:
  "bucket (s\<lparr>tt_lists := h\<rparr>) i = bucket s i" "bucket (s\<lparr>thread_map_lock := b\<rparr>) i = bucket s i"
  "thread_head (s\<lparr>thread_map_lock := b\<rparr>) tid = thread_head s tid"
  "tid_of (s\<lparr>tt_lists := h\<rparr>) x = tid_of s x" "tid_of (s\<lparr>thread_map_lock := b\<rparr>) x = tid_of s x"
  by (simp_all add: bucket_def thread_head_def tid_of_def)

lemma ring_alone:
  assumes "ring h x []" "ring h head xs" "x \<noteq> head"
  shows "x \<notin> set xs"
proof
  assume "x \<in> set xs"
  then obtain as bs where xs: "xs = as @ x # bs" by (auto simp: in_set_conv_decomp)
  have "nexts h x = Some (hd (bs @ [head]))" using ring_next_mid assms(2) xs by blast
  moreover have "nexts h x = Some x" using ring_nextsI[OF assms(1)] by simp
  ultimately have "x = hd (bs @ [head])" by simp
  then show False using ring_distinct[OF assms(2)] xs assms(3) by (cases bs) auto
qed

lemma thread_ringsD:
  assumes "thread_rings s bs" "i \<in> {0..<THREAD_MAP_SIZE}"
  shows "ring (tt_lists s) (bucket s i) (bs i)"
    "x \<in> set (bs i) \<Longrightarrow> thread_of_entry x \<noteq> NULL \<and> tt_threads s (thread_of_entry x) \<noteq> None"
    "x \<in> set (bs i) \<Longrightarrow> 0 \<le> sint (tid_of s x) \<and> slot_of (tid_of s x) = i"
  using assms unfolding thread_rings_def by blast+

lemma find_internal_rings:
  assumes "thread_rings s bs" "0 \<le> sint tid"
  shows "thread_map_find_internal tid s = Some (case thread_at s bs tid of None \<Rightarrow> NULL | Some t \<Rightarrow> t)"
proof -
  let ?i = "slot_of tid" and ?P = "\<lambda>x. tid_of s x = tid"
  have r: "ring (tt_lists s) (bucket s ?i) (bs ?i)"
    and l: "\<And>x. x \<in> set (bs ?i) \<Longrightarrow> thread_of_entry x \<noteq> NULL \<and> tt_threads s (thread_of_entry x) \<noteq> None"
    using thread_ringsD(1,2)[OF assms(1) slot_range(1)] by blast+
  have "list_for_each_entry (tt_lists s)
       (\<lambda>x. map_option (\<lambda>t. th_tid t = tid) (load (tt_threads s) (thread_of_entry x))) (bucket s ?i) =
     Some (List.find ?P (bs ?i))"
    using r l by (intro ringlist.search_law) (fastforce simp: load_def tid_of_def)+
  then show ?thesis
    using assms(2) by (cases "List.find ?P (bs ?i)") (auto simp: thread_map_find_internal_def thread_head_nonneg thread_at_def)
qed

lemma thread_rings_lock [simp]: "thread_rings (s\<lparr>thread_map_lock := b\<rparr>) bs = thread_rings s bs"
  by (simp add: thread_rings_def)

lemma thread_at_lock [simp]: "thread_at (s\<lparr>thread_map_lock := b\<rparr>) bs = thread_at s bs"
  by (simp add: thread_at_def fun_eq_iff)

lemma thread_ready_outside:
  assumes "thread_rings s bs" "thread_ready s t tid" "i \<in> {0..<THREAD_MAP_SIZE}"
  shows "thread_list_entry t \<notin> footprint (bucket s i) (bs i)"
  using assms ring_alone[of "tt_lists s" "thread_list_entry t" "bucket s i" "bs i"]
  by (auto simp: thread_ready_def thread_rings_def)

lemma thread_at_member:
  assumes "thread_rings s bs" "thread_at s bs tid = Some t"
  shows "t \<noteq> NULL"
proof -
  obtain x where "x \<in> set (bs (slot_of tid))" "t = thread_of_entry x"
    using assms(2) by (auto simp: thread_at_def dest: find_SomeD split: if_splits)
  then show ?thesis using thread_ringsD(2)[OF assms(1) slot_range(1)] by simp
qed

text \<open>Inserting a thread pushes it on the ring that its id selects; the other rings are untouched.\<close>

lemma thread_rings_push:
  assumes r: "thread_rings s bs" and t: "thread_ready s t tid"
  defines "i \<equiv> slot_of tid"
  shows "\<exists>h. list_add (thread_list_entry t) (thread_head s tid) (tt_lists s) = Some h \<and>
    thread_rings (s\<lparr>tt_lists := h\<rparr>) (bs(i := thread_list_entry t # bs i)) \<and>
    relinked (tt_lists s) (footprint (bucket s i) (thread_list_entry t # bs i)) h"
proof -
  let ?x = "thread_list_entry t" and ?head = "bucket s i"
  let ?bs = "bs(i := ?x # bs i)"
  have i: "i \<in> {0..<THREAD_MAP_SIZE}" unfolding i_def by simp
  have ri: "ring (tt_lists s) ?head (bs i)" using r i by (auto simp: thread_rings_def)
  have hd: "thread_head s tid = ?head" using t thread_head_nonneg[of tid s] by (simp add: thread_ready_def i_def)
  have "live (tt_lists s) ?x" using t ring_live[of _ ?x "[]"] by (auto simp: thread_ready_def)
  from ringlist.push_law[OF ri this thread_ready_outside[OF r t i]]
  obtain h where h: "list_add ?x ?head (tt_lists s) = Some h" "ring h ?head (?x # bs i)"
    "relinked (tt_lists s) (footprint ?head (?x # bs i)) h" by blast
  have disj: "footprint ?head (?x # bs i) \<inter> footprint (bucket s j) (bs j) = {}"
    if "j \<in> {0..<THREAD_MAP_SIZE}" "j \<noteq> i" for j
    using r that i thread_ready_outside[OF r t that(1)] unfolding thread_rings_def by auto
  have rj: "ring h (bucket s j) (?bs j)" if j: "j \<in> {0..<THREAD_MAP_SIZE}" for j
  proof (cases "j = i")
    case True
    with h(2) show ?thesis by simp
  next
    case False
    have "ring (tt_lists s) (bucket s j) (bs j)" using r j by (auto simp: thread_rings_def)
    then show ?thesis using ringlist.repr_frame[OF _ h(3)] disj[OF j False] False by simp
  qed
  have "thread_rings (s\<lparr>tt_lists := h\<rparr>) ?bs"
    unfolding thread_rings_def
  proof (intro conjI ballI impI)
    fix j assume j: "j \<in> {0..<THREAD_MAP_SIZE}"
    show "ring (tt_lists (s\<lparr>tt_lists := h\<rparr>)) (bucket (s\<lparr>tt_lists := h\<rparr>) j) (?bs j)" using rj[OF j] by simp
    fix x assume x: "x \<in> set (?bs j)"
    have "thread_of_entry x \<noteq> NULL \<and> tt_threads s (thread_of_entry x) \<noteq> None \<and> 0 \<le> sint (tid_of s x) \<and> slot_of (tid_of s x) = j"
    proof (cases "j = i \<and> x = ?x")
      case True
      then show ?thesis using t unfolding thread_ready_def tid_of_def i_def by auto
    next
      case False
      then have "x \<in> set (bs j)" using x by (auto split: if_splits)
      then show ?thesis using r j unfolding thread_rings_def by blast
    qed
    then show "thread_of_entry x \<noteq> NULL" "tt_threads (s\<lparr>tt_lists := h\<rparr>) (thread_of_entry x) \<noteq> None"
      "0 \<le> sint (tid_of (s\<lparr>tt_lists := h\<rparr>) x)" "slot_of (tid_of (s\<lparr>tt_lists := h\<rparr>) x) = j" by simp_all
  next
    fix j k assume jk: "j \<in> {0..<THREAD_MAP_SIZE}" "k \<in> {0..<THREAD_MAP_SIZE}" "j \<noteq> k"
    have "footprint (bucket s j) (bs j) \<inter> footprint (bucket s k) (bs k) = {}" using r jk by (auto simp: thread_rings_def)
    then show "footprint (bucket (s\<lparr>tt_lists := h\<rparr>) j) (?bs j) \<inter> footprint (bucket (s\<lparr>tt_lists := h\<rparr>) k) (?bs k) = {}"
      using disj[of j] disj[of k] jk by (cases "j = i"; cases "k = i") (simp_all add: Int_commute)
  qed
  with h hd show ?thesis by auto
qed

lemma thread_at_push:
  assumes "thread_ready s t tid" "thread_at s bs tid = None"
  shows "thread_at (s\<lparr>tt_lists := h\<rparr>) (bs(slot_of tid := thread_list_entry t # bs (slot_of tid))) =
    (thread_at s bs)(tid \<mapsto> t)"
  using assms by (auto simp: thread_at_def thread_ready_def fun_eq_iff tid_of_def)

lemma thread_ready_relinked:
  assumes "thread_ready s t tid" "relinked (tt_lists s) S h" "thread_list_entry t \<notin> S"
  shows "thread_ready (s\<lparr>tt_lists := h\<rparr>) t tid"
  using assms ring_relinked[of "tt_lists s" "thread_list_entry t" "[]" S h] by (auto simp: thread_ready_def)

lemma thread_map_add_new:
  assumes r: "thread_rel s m" and t: "thread_ready s t tid" and new: "m tid = None"
  shows "\<exists>s'. thread_map_add t s = Some (0, s') \<and> thread_rel s' (m(tid \<mapsto> t)) \<and> tt_threads s' = tt_threads s \<and>
    (\<forall>t' k. t' \<noteq> t \<longrightarrow> thread_ready s t' k \<longrightarrow> thread_ready s' t' k)"
proof -
  obtain bs where bs: "thread_rings s bs" "m = thread_at s bs" "\<not> thread_map_lock s" using r by (auto simp: thread_rel_def)
  obtain h where h: "list_add (thread_list_entry t) (thread_head s tid) (tt_lists s) = Some h"
    "thread_rings (s\<lparr>tt_lists := h\<rparr>) (bs(slot_of tid := thread_list_entry t # bs (slot_of tid)))"
    "relinked (tt_lists s) (footprint (bucket s (slot_of tid)) (thread_list_entry t # bs (slot_of tid))) h"
    using thread_rings_push[OF bs(1) t] by blast
  obtain th where th: "tt_threads s t = Some th" "th_tid th = tid" "t \<noteq> NULL" "0 \<le> sint tid"
    "list_empty (thread_list_entry t) (tt_lists s) = Some True"
    using t list_empty_ring[of "tt_lists s" "thread_list_entry t" "[]"] by (auto simp: thread_ready_def)
  have "thread_map_find_internal tid (s\<lparr>thread_map_lock := True\<rparr>) = Some NULL"
    using find_internal_rings[of "s\<lparr>thread_map_lock := True\<rparr>" bs tid] bs th(4) new by simp
  then have "thread_map_add t s = Some (0, s\<lparr>tt_lists := h\<rparr>)"
    using h(1) th bs(3) by (simp add: thread_map_add_def load_def)
  moreover have "thread_rel (s\<lparr>tt_lists := h\<rparr>) (m(tid \<mapsto> t))"
    using h(2) bs(3) thread_at_push[OF t, of bs h] new unfolding thread_rel_def bs(2) by auto
  moreover have "thread_ready (s\<lparr>tt_lists := h\<rparr>) t' k" if "t' \<noteq> t" "thread_ready s t' k" for t' k
    using thread_ready_relinked[OF that(2) h(3)] thread_ready_outside[OF bs(1) that(2), of "slot_of tid"] that(1) by auto
  ultimately show ?thesis by (intro exI[of _ "s\<lparr>tt_lists := h\<rparr>"]) simp
qed

lemma thread_map_add_old:
  assumes r: "thread_rel s m" and t: "thread_ready s t tid" and old: "m tid \<noteq> None"
  shows "thread_map_add t s = Some (-1, s)"
proof -
  obtain bs where bs: "thread_rings s bs" "m = thread_at s bs" "\<not> thread_map_lock s" using r by (auto simp: thread_rel_def)
  obtain th where th: "tt_threads s t = Some th" "th_tid th = tid" "t \<noteq> NULL" "0 \<le> sint tid"
    "list_empty (thread_list_entry t) (tt_lists s) = Some True"
    using t list_empty_ring[of "tt_lists s" "thread_list_entry t" "[]"] by (auto simp: thread_ready_def)
  obtain e where e: "m tid = Some e" "e \<noteq> NULL" using old thread_at_member[OF bs(1), of tid] bs(2) by auto
  then have "thread_map_find_internal tid (s\<lparr>thread_map_lock := True\<rparr>) = Some e"
    using find_internal_rings[of "s\<lparr>thread_map_lock := True\<rparr>" bs tid] bs th(4) by simp
  then show ?thesis using e th bs(3) by (simp add: thread_map_add_def load_def)
qed

lemma thread_map_find_rel:
  assumes "thread_rel s m" "0 \<le> sint tid"
  shows "thread_map_find tid s = Some (case m tid of None \<Rightarrow> NULL | Some t \<Rightarrow> t, s)"
proof -
  obtain bs where bs: "thread_rings s bs" "m = thread_at s bs" "\<not> thread_map_lock s" using assms by (auto simp: thread_rel_def)
  then show ?thesis
    using find_internal_rings[of "s\<lparr>thread_map_lock := True\<rparr>" bs tid] assms(2) by (simp add: thread_map_find_def)
qed

interpretation threads: key_index "\<lambda>tid. 0 \<le> sint tid" thread_rel thread_ready
  thread_map_find "\<lambda>t tid s. thread_map_add t s"
proof
  fix s m tid t
  show "\<lbrakk>thread_rel s m; 0 \<le> sint tid\<rbrakk> \<Longrightarrow> thread_map_find tid s = Some (found m tid, s)"
    using thread_map_find_rel[of s m tid] by (simp add: found_def)
  show "\<lbrakk>thread_rel s m; m tid = Some t\<rbrakk> \<Longrightarrow> t \<noteq> NULL" by (auto simp: thread_rel_def dest: thread_at_member)
  show "thread_ready s t tid \<Longrightarrow> 0 \<le> sint tid" by (simp add: thread_ready_def)
  show "\<lbrakk>thread_rel s m; thread_ready s t tid; m tid = None; t \<noteq> NULL\<rbrakk> \<Longrightarrow> \<exists>s'. thread_map_add t s = Some (0, s') \<and>
    thread_rel s' (m(tid \<mapsto> t)) \<and> (\<forall>t' k. t' \<noteq> t \<longrightarrow> thread_ready s t' k \<longrightarrow> thread_ready s' t' k)"
    using thread_map_add_new by blast
  show "\<lbrakk>thread_rel s m; thread_ready s t tid; m tid \<noteq> None \<or> t = NULL\<rbrakk> \<Longrightarrow> \<exists>s'. thread_map_add t s = Some (-1, s') \<and>
    thread_rel s' m \<and> (\<forall>t' k. thread_ready s t' k \<longrightarrow> thread_ready s' t' k)"
    using thread_map_add_old by (fastforce simp: thread_ready_def)
qed

section \<open>Deletion\<close>

text \<open>
  The test of \<^verbatim>\<open>thread_map_del\<close> is inverted: a thread that is in the table is not removed, and for one
  that is not the code unlinks the list head at offset 16 of the null pointer.
\<close>

lemma thread_map_del_present:
  assumes "thread_rel s m" "m tid = Some t"
  shows "thread_map_del tid s = Some (NULL, s)"
proof -
  obtain bs where bs: "thread_rings s bs" "m = thread_at s bs" "\<not> thread_map_lock s" using assms by (auto simp: thread_rel_def)
  have "0 \<le> sint tid" using assms(2) bs(2) by (auto simp: thread_at_def split: if_splits)
  then have "thread_map_find_internal tid (s\<lparr>thread_map_lock := True\<rparr>) = Some t"
    using find_internal_rings[of "s\<lparr>thread_map_lock := True\<rparr>" bs tid] bs assms(2) by simp
  then show ?thesis using thread_at_member[OF bs(1)] bs assms(2) by (simp add: thread_map_del_def)
qed

lemma thread_map_del_absent:
  assumes "thread_rel s m" "m tid = None" "0 \<le> sint tid" "tt_lists s (thread_list_entry NULL) = None"
  shows "thread_map_del tid s = None"
proof -
  obtain bs where bs: "thread_rings s bs" "m = thread_at s bs" "\<not> thread_map_lock s" using assms by (auto simp: thread_rel_def)
  then have "thread_map_find_internal tid (s\<lparr>thread_map_lock := True\<rparr>) = Some NULL"
    using find_internal_rings[of "s\<lparr>thread_map_lock := True\<rparr>" bs tid] assms(2,3) by simp
  then show ?thesis using assms(4) bs(3) by (simp add: thread_map_del_def list_del_def load_def)
qed

section \<open>Initialisation\<close>

text \<open>The heads of the array, and the table right after \<^verbatim>\<open>thread_map_init\<close>.\<close>

lemma bucket_inj:
  assumes "i \<in> {0..<THREAD_MAP_SIZE}" "j \<in> {0..<THREAD_MAP_SIZE}" "bucket s i = bucket s j"
  shows "i = j"
proof -
  have e: "word_of_int (16 * i) = (word_of_int (16 * j) :: addr)" using assms(3) by (simp add: bucket_def)
  have "16 * i < 2 ^ 64" "16 * j < 2 ^ 64" "0 \<le> 16 * i" "0 \<le> 16 * j" using assms(1,2) by (auto simp: THREAD_MAP_SIZE_def)
  then have "16 * i = 16 * j" using e unfolding word_of_int_eq_iff by (simp add: take_bit_int_eq_self)
  then show ?thesis by simp
qed

lemma init_loop:
  assumes "\<forall>j \<in> {0..<THREAD_MAP_SIZE}. live (tt_lists s) (bucket s j)" "0 \<le> i"
    and "\<forall>j \<in> {0..<THREAD_MAP_SIZE}. j < i \<longrightarrow> ring (tt_lists s) (bucket s j) []"
  shows "\<exists>h. thread_map_init_loop i s = Some (s\<lparr>tt_lists := h\<rparr>) \<and>
    (\<forall>j \<in> {0..<THREAD_MAP_SIZE}. ring h (bucket s j) [])"
  using assms
proof (induction i s rule: thread_map_init_loop.induct)
  case (1 i s)
  show ?case
  proof (cases "i < THREAD_MAP_SIZE")
    case True
    then have i: "i \<in> {0..<THREAD_MAP_SIZE}" using "1.prems"(2) by simp
    then obtain h where h: "INIT_LIST_HEAD (bucket s i) (tt_lists s) = Some h" "ring h (bucket s i) []"
      "relinked (tt_lists s) {bucket s i} h"
      using INIT_LIST_HEAD_ring "1.prems"(1) by blast
    have "ring h (bucket s j) []" if "j \<in> {0..<THREAD_MAP_SIZE}" "j < i + 1" for j
    proof (cases "j = i")
      case False
      then have "ring (tt_lists s) (bucket s j) []" "bucket s i \<noteq> bucket s j"
        using "1.prems"(3) that bucket_inj[OF i that(1)] by auto
      then show ?thesis using ring_relinked[OF _ h(3)] by simp
    qed (use h(2) in simp)
    moreover have "live h (bucket s j)" if "j \<in> {0..<THREAD_MAP_SIZE}" for j
      using "1.prems"(1) that relinked_live[OF h(3)] by simp
    ultimately show ?thesis
      using "1.IH"[OF True, of h] h(1) True "1.prems"(2) by (subst thread_map_init_loop.simps) auto
  next
    case False
    with "1.prems" show ?thesis
      by (subst thread_map_init_loop.simps) (auto intro!: exI[of _ "tt_lists s"])
  qed
qed

lemma thread_map_init_empty:
  assumes "\<forall>j \<in> {0..<THREAD_MAP_SIZE}. live (tt_lists s) (bucket s j)" "\<not> thread_map_lock s"
  shows "\<exists>s'. thread_map_init s = Some s' \<and> thread_rel s' Map.empty"
proof -
  obtain h where h: "thread_map_init_loop 0 s = Some (s\<lparr>tt_lists := h\<rparr>)"
    "\<forall>j \<in> {0..<THREAD_MAP_SIZE}. ring h (bucket s j) []"
    using init_loop[of s 0] assms(1) by auto
  have "thread_rings (s\<lparr>tt_lists := h\<rparr>) (\<lambda>_. [])"
    unfolding thread_rings_def using h(2) bucket_inj[of _ _ s] by auto
  then have "thread_rel (s\<lparr>tt_lists := h\<rparr>) Map.empty"
    unfolding thread_rel_def using assms(2) by (auto intro!: exI[of _ "\<lambda>_. []"] simp: thread_at_def fun_eq_iff)
  then show ?thesis using h(1) by (simp add: thread_map_init_def)
qed

lemma thread_new_ready:
  assumes r: "thread_rel s m" and t: "t \<noteq> NULL" "thread_list_entry t \<noteq> NULL"
    "tt_threads s t = None" "tt_lists s (thread_list_entry t) = None"
  shows "\<exists>s'. thread_new t s = Some (t, s') \<and> thread_rel s' m \<and> thread_ready s' t 0 \<and>
    tt_threads s' = (tt_threads s)(t \<mapsto> \<lparr>th_tid = 0, th_singlestep_bp = NULL\<rparr>)"
proof -
  obtain bs where bs: "thread_rings s bs" "m = thread_at s bs" "\<not> thread_map_lock s" using r by (auto simp: thread_rel_def)
  let ?x = "thread_list_entry t"
  let ?h = "(tt_lists s)(?x \<mapsto> \<lparr>lh_next = NULL, lh_prev = NULL\<rparr>)"
  let ?s = "\<lambda>h. s\<lparr>tt_threads := (tt_threads s)(t \<mapsto> \<lparr>th_tid = 0, th_singlestep_bp = NULL\<rparr>), tt_lists := h\<rparr>"
  obtain h where h: "INIT_LIST_HEAD ?x ?h = Some h" "ring h ?x []" "relinked ?h {?x} h"
    using INIT_LIST_HEAD_ring[of ?h ?x] t(2) by (auto simp: live_def)
  have "thread_new t s = Some (t, ?s h)" using t(1) h(1) by (simp add: thread_new_def)
  moreover have out: "?x \<notin> footprint (bucket s i) (bs i)" if "i \<in> {0..<THREAD_MAP_SIZE}" for i
    using t(4) ring_live[OF thread_ringsD(1)[OF bs(1) that], of ?x] by (auto simp: live_def load_def split: if_splits)
  have old: "ring h (bucket s i) (bs i)" if i: "i \<in> {0..<THREAD_MAP_SIZE}" for i
  proof -
    have "ring (tt_lists s) (bucket s i) (bs i)" using thread_ringsD(1)[OF bs(1) i] .
    then have "ring ?h (bucket s i) (bs i)" using ring_alloc out[OF i] by simp
    then show ?thesis using ring_relinked[OF _ h(3)] out[OF i] by auto
  qed
  have tid: "tid_of (?s h) x = tid_of s x \<and> tt_threads (?s h) (thread_of_entry x) = tt_threads s (thread_of_entry x)"
    if "i \<in> {0..<THREAD_MAP_SIZE}" "x \<in> set (bs i)" for i x
    using thread_ringsD(2)[OF bs(1) that] t(3) by (auto simp: tid_of_def)
  have bk: "bucket (?s h) i = bucket s i" for i by (simp add: bucket_def)
  have "thread_rings (?s h) bs"
    using bs(1) old tid unfolding thread_rings_def bk by simp
  moreover have "List.find (\<lambda>x. tid_of (?s h) x = k) (bs (slot_of k)) = List.find (\<lambda>x. tid_of s x = k) (bs (slot_of k))" for k
    using tid[OF slot_range(1)[of k]] by (intro find_cong) simp_all
  then have "thread_at (?s h) bs = m" unfolding bs(2) by (simp add: thread_at_def fun_eq_iff)
  moreover have "thread_ready (?s h) t 0"
    using t(1) h(2) out unfolding thread_ready_def bk by auto
  ultimately show ?thesis using bs(3) unfolding thread_rel_def by (intro exI[of _ "?s h"]) auto
qed

text \<open>Changes of the thread objects: the step mark of any, the id of one outside the table.\<close>

lemma thread_rel_cong:
  assumes r: "thread_rel s m" and same: "\<And>x. (ts x = None) = (tt_threads s x = None)"
    and tid: "\<And>x. x \<noteq> t \<Longrightarrow> map_option th_tid (ts x) = map_option th_tid (tt_threads s x)"
    and t: "map_option th_tid (ts t) = map_option th_tid (tt_threads s t) \<or> thread_ready s t k"
  shows "thread_rel (s\<lparr>tt_threads := ts\<rparr>) m"
proof -
  obtain bs where bs: "thread_rings s bs" "m = thread_at s bs" "\<not> thread_map_lock s" using r by (auto simp: thread_rel_def)
  let ?s = "s\<lparr>tt_threads := ts\<rparr>"
  have tid': "tid_of ?s x = tid_of s x" if x: "i \<in> {0..<THREAD_MAP_SIZE}" "x \<in> set (bs i)" for i x
  proof -
    have "thread_of_entry x \<noteq> t" if "thread_ready s t k"
      using thread_ready_outside[OF bs(1) that x(1)] x(2) by auto
    then have "map_option th_tid (ts (thread_of_entry x)) = map_option th_tid (tt_threads s (thread_of_entry x))"
      using tid t by metis
    moreover have "tt_threads s (thread_of_entry x) \<noteq> None" using thread_ringsD(2)[OF bs(1) x] by blast
    ultimately show ?thesis using same[of "thread_of_entry x"] by (auto simp: tid_of_def)
  qed
  have "thread_rings ?s bs"
    using bs(1) tid' same unfolding thread_rings_def by (simp add: bucket_def)
  moreover have "List.find (\<lambda>x. tid_of ?s x = k) (bs (slot_of k)) = List.find (\<lambda>x. tid_of s x = k) (bs (slot_of k))" for k
    using tid'[OF slot_range(1)[of k]] by (intro find_cong) simp_all
  then have "thread_at ?s bs = m" unfolding bs(2) by (simp add: thread_at_def fun_eq_iff)
  ultimately show ?thesis using bs(3) unfolding thread_rel_def by auto
qed

lemma thread_rel_entry: "\<lbrakk>thread_rel s m; m tid = Some t\<rbrakk> \<Longrightarrow> t \<noteq> NULL \<and> (\<exists>th. tt_threads s t = Some th \<and> th_tid th = tid)"
proof -
  assume r: "thread_rel s m" "m tid = Some t"
  then obtain bs where bs: "thread_rings s bs" "m = thread_at s bs" by (auto simp: thread_rel_def)
  then obtain x where x: "x \<in> set (bs (slot_of tid))" "t = thread_of_entry x" "tid_of s x = tid"
    using r(2) by (auto simp: thread_at_def dest: find_SomeD split: if_splits)
  then show ?thesis using thread_ringsD(2)[OF bs(1) slot_range(1) x(1)] by (auto simp: tid_of_def)
qed

lemma thread_del_ready:
  assumes "thread_ready s t tid"
  shows "thread_del t s = Some (s\<lparr>tt_threads := (tt_threads s)(t := None),
    tt_lists := (tt_lists s)(thread_list_entry t := None)\<rparr>)"
  using assms list_empty_ring[of "tt_lists s" "thread_list_entry t" "[]"] by (auto simp: thread_ready_def thread_del_def)

section \<open>Properties\<close>

text \<open>A table right after start, with every list head in place; two threads for it.\<close>

definition sample_threads :: thread_table where
  "sample_threads = \<lparr>tt_lists = (\<lambda>p. Some \<lparr>lh_next = p, lh_prev = p\<rparr>),
     tt_threads = [0x9000 \<mapsto> \<lparr>th_tid = 77, th_singlestep_bp = NULL\<rparr>, 0xA000 \<mapsto> \<lparr>th_tid = 77, th_singlestep_bp = NULL\<rparr>],
     thread_map = 0x1000, thread_map_lock = False\<rparr>"

lemma sample_bucket:
  assumes "j \<in> {0..<THREAD_MAP_SIZE}"
  shows "uint (bucket sample_threads j) = 0x1000 + 16 * j"
proof -
  have b: "bucket sample_threads j = word_of_int (0x1000 + 16 * j)" by (simp add: bucket_def sample_threads_def)
  have "0 \<le> 0x1000 + 16 * j" "0x1000 + 16 * j < 2 ^ 64" using assms by (auto simp: THREAD_MAP_SIZE_def)
  then show ?thesis unfolding b by (subst uint_word_of_int_eq) (simp add: take_bit_int_eq_self)
qed

lemma sample_threads_ok: "thread_rel sample_threads Map.empty" "thread_ready sample_threads 0x9000 77" "thread_ready sample_threads 0xA000 77"
proof -
  have ring: "ring (tt_lists sample_threads) p []" if "p \<noteq> NULL" for p
    using that by (simp add: ring_def nexts_def prevs_def load_def sample_threads_def)
  have nz: "bucket sample_threads j \<noteq> NULL" if "j \<in> {0..<THREAD_MAP_SIZE}" for j using sample_bucket[OF that] that by auto
  have "thread_rings sample_threads (\<lambda>_. [])"
    unfolding thread_rings_def using ring nz bucket_inj[of _ _ sample_threads] by auto
  then show "thread_rel sample_threads Map.empty"
    unfolding thread_rel_def by (auto intro!: exI[of _ "\<lambda>_. []"] simp: thread_at_def fun_eq_iff sample_threads_def)
  have ne: "p \<noteq> bucket sample_threads j" if "j \<in> {0..<THREAD_MAP_SIZE}" "0x2000 \<le> uint p" for p j
    using sample_bucket[OF that(1)] that by (auto simp: THREAD_MAP_SIZE_def)
  have entry: "thread_list_entry t \<noteq> bucket sample_threads j" if "t \<in> {0x9000, 0xA000}" "j \<in> {0..<THREAD_MAP_SIZE}" for t j
    using ne[OF that(2), of "thread_list_entry t"] that(1) by (auto simp: thread_list_entry_def)
  have "tt_threads sample_threads 0x9000 = Some \<lparr>th_tid = 77, th_singlestep_bp = NULL\<rparr>"
    "tt_threads sample_threads 0xA000 = Some \<lparr>th_tid = 77, th_singlestep_bp = NULL\<rparr>" by (simp_all add: sample_threads_def)
  then show "thread_ready sample_threads 0x9000 77" "thread_ready sample_threads 0xA000 77"
    unfolding thread_ready_def using ring[of "thread_list_entry 0x9000"] ring[of "thread_list_entry 0xA000"]
      entry[of "0x9000"] entry[of "0xA000"] by (auto simp: thread_list_entry_def)
qed

text \<open>
  \<^verbatim>\<open>thread_map_init\<close> returns, and the table is then empty: \<^verbatim>\<open>thread_map_find\<close> returns the null pointer for every
  thread id that is not negative.
\<close>

theorem thread_map_init_finds_nothing:
  assumes "\<forall>j \<in> {0..<THREAD_MAP_SIZE}. live (tt_lists s) (bucket s j)" "\<not> thread_map_lock s"
  shows "\<exists>s'. thread_map_init s = Some s' \<and> (\<forall>tid. 0 \<le> sint tid \<longrightarrow> thread_map_find tid s' = Some (NULL, s'))"
proof -
  obtain s' where "thread_map_init s = Some s'" "thread_rel s' Map.empty" using thread_map_init_empty[OF assms] by blast
  then show ?thesis using thread_map_find_rel[of s' Map.empty] by auto
qed

theorem thread_map_init_finds_nothing_witness:
  "\<exists>s'. thread_map_init sample_threads = Some s' \<and> (\<forall>tid. 0 \<le> sint tid \<longrightarrow> thread_map_find tid s' = Some (NULL, s'))"
proof (rule thread_map_init_finds_nothing)
  have "bucket sample_threads j \<noteq> NULL" if "j \<in> {0..<THREAD_MAP_SIZE}" for j using sample_bucket[OF that] that by auto
  then show "\<forall>j \<in> {0..<THREAD_MAP_SIZE}. live (tt_lists sample_threads) (bucket sample_threads j)"
    by (auto simp: live_def load_def sample_threads_def)
qed (simp add: sample_threads_def)

text \<open>
  C33: a thread that is added to the table is found under its id, a second one with the same id is refused with
  -1, and lookups of other ids are not affected.
\<close>

theorem thread_add_find:
  assumes "thread_rel s m" "thread_ready s t tid" "m tid = None" "thread_ready s t' tid" "t' \<noteq> t"
  shows "\<exists>s'. thread_map_add t s = Some (0, s') \<and> thread_map_find tid s' = Some (t, s') \<and> thread_map_add t' s' = Some (-1, s') \<and>
    (\<forall>k. 0 \<le> sint k \<longrightarrow> k \<noteq> tid \<longrightarrow> map_option fst (thread_map_find k s') = map_option fst (thread_map_find k s))"
proof -
  obtain s' where s': "thread_map_add t s = Some (0, s')" "thread_rel s' (m(tid \<mapsto> t))" "thread_ready s' t' tid"
    using thread_map_add_new[OF assms(1-3)] assms(4,5) by blast
  have tid: "0 \<le> sint tid" using assms(2) by (simp add: thread_ready_def)
  have "thread_map_find tid s' = Some (t, s')" using thread_map_find_rel[OF s'(2) tid] by simp
  moreover have "thread_map_add t' s' = Some (-1, s')" using thread_map_add_old[OF s'(2,3)] by simp
  moreover have "map_option fst (thread_map_find k s') = map_option fst (thread_map_find k s)" if "0 \<le> sint k" "k \<noteq> tid" for k
    using thread_map_find_rel[OF s'(2) that(1)] thread_map_find_rel[OF assms(1) that(1)] that(2) by simp
  ultimately show ?thesis using s'(1) by blast
qed

theorem thread_add_find_witness:
  "\<exists>s'. thread_map_add 0x9000 sample_threads = Some (0, s') \<and> thread_map_find 77 s' = Some (0x9000, s') \<and>
    thread_map_add 0xA000 s' = Some (-1, s')"
  using thread_add_find[OF sample_threads_ok(1,2) _ sample_threads_ok(3)] by auto

text \<open>
  C34: \<^verbatim>\<open>thread_map_del\<close> does not remove a thread that is in the table: it returns the null pointer, and the thread
  is found as before.
\<close>

theorem thread_del_keeps_thread:
  assumes "thread_rel s m" "m tid = Some t"
  shows "thread_map_del tid s = Some (NULL, s) \<and> thread_map_find tid s = Some (t, s)"
proof -
  have "0 \<le> sint tid" using assms by (auto simp: thread_rel_def thread_at_def split: if_splits)
  then show ?thesis using thread_map_del_present[OF assms] thread_map_find_rel[OF assms(1)] assms(2) by simp
qed

theorem thread_del_keeps_thread_witness:
  "\<exists>s'. thread_map_add 0x9000 sample_threads = Some (0, s') \<and> thread_map_del 77 s' = Some (NULL, s') \<and>
    thread_map_find 77 s' = Some (0x9000, s')"
proof -
  obtain s' where s': "thread_map_add 0x9000 sample_threads = Some (0, s')" "thread_rel s' [77 \<mapsto> 0x9000]"
    using thread_map_add_new[OF sample_threads_ok(1,2)] by auto
  from thread_del_keeps_thread[OF s'(2), of 77 "0x9000"] s'(1) show ?thesis by simp
qed

text \<open>
  For a thread id that is not in the table, \<^verbatim>\<open>thread_map_del\<close> unlinks the list head at offset 16 of the null
  pointer: the process does not survive the call.
\<close>

theorem thread_del_absent_crashes:
  assumes "thread_rel s m" "m tid = None" "0 \<le> sint tid" "tt_lists s (thread_list_entry NULL) = None"
  shows "thread_map_del tid s = None"
  using assms by (rule thread_map_del_absent)

theorem thread_del_absent_crashes_witness:
  "thread_map_del 78 (sample_threads\<lparr>tt_lists := (tt_lists sample_threads)(thread_list_entry NULL := None)\<rparr>) = None"
proof (rule thread_del_absent_crashes)
  let ?s = "sample_threads\<lparr>tt_lists := (tt_lists sample_threads)(thread_list_entry NULL := None)\<rparr>"
  have "thread_list_entry NULL \<noteq> bucket sample_threads j" if "j \<in> {0..<THREAD_MAP_SIZE}" for j
    using sample_bucket[OF that] that by (auto simp: thread_list_entry_def)
  moreover have "bucket sample_threads j \<noteq> NULL" if "j \<in> {0..<THREAD_MAP_SIZE}" for j using sample_bucket[OF that] that by auto
  moreover have "tt_lists sample_threads p = Some \<lparr>lh_next = p, lh_prev = p\<rparr>" for p by (simp add: sample_threads_def)
  ultimately have "ring (tt_lists ?s) (bucket sample_threads j) []" if "j \<in> {0..<THREAD_MAP_SIZE}" for j
    using that by (simp add: ring_def nexts_def prevs_def load_def eq_commute[of _ "thread_list_entry NULL"])
  then have "thread_rings ?s (\<lambda>_. [])"
    unfolding thread_rings_def using bucket_inj[of _ _ sample_threads] by auto
  moreover have "\<not> thread_map_lock sample_threads" by (simp add: sample_threads_def)
  ultimately show "thread_rel ?s Map.empty"
    unfolding thread_rel_def by (auto intro!: exI[of _ "\<lambda>_. []"] simp: thread_at_def fun_eq_iff)
qed simp_all

end
