(* ===== verification/Hook.thy ===== *)
theory Hook
  imports Registration Thread_Map
begin

text \<open>
  The hook library as a whole, \<^verbatim>\<open>signal_test/hook_main.c\<close>: the constructor that sets the first two
  breakpoints, and the two handlers of the signal that a \<^verbatim>\<open>brk\<close> raises.  A handler is a function of the
  thread that was stopped and of the program counter in its context; it returns the new program counter.
\<close>

section \<open>State\<close>

datatype trap_handler = Entrypoint_Trap | Sigtrap

record hook_state =
  hk_bps :: bp_state
  hk_threads :: thread_table
  hk_handler :: "trap_handler option"
  entry_bp :: addr
  entry_hit :: bool

text \<open>
  What the system calls and library calls return: \<^verbatim>\<open>sigaction\<close>, the reads of the memory map with the address
  of \<^verbatim>\<open>object_parse_mmap\<close> and the blocks for its objects, the link to the program and the header of its file,
  the blocks for breakpoints, slot sets and threads, the pages for slots and the changes of protection.
\<close>

record environment =
  sigaction_ok :: bool
  maps_opened :: bool
  maps_reads :: "(string option \<times> bool) list"
  maps_strndup :: "string \<Rightarrow> bool"
  maps_self :: addr
  calloc_objects :: "addr list"
  exe_malloc :: bool
  exe_link :: "string option"
  exe_strdup :: bool
  exe_header :: "u8 list option"
  calloc_bkpt :: "bp_state \<Rightarrow> addr"
  calloc_slot :: "slot_state \<Rightarrow> addr"
  mmap_slot :: "memory \<Rightarrow> addr"
  calloc_thread :: "thread_table \<Rightarrow> addr"
  mprotect_ok :: "object \<Rightarrow> bool \<Rightarrow> bool"

section \<open>Operations\<close>

definition set_sighandle :: "environment \<Rightarrow> trap_handler \<Rightarrow> hook_state \<Rightarrow> hook_state option" where
  "set_sighandle env handle s = (if sigaction_ok env then Some (s\<lparr>hk_handler := Some handle\<rparr>) else None)"

text \<open>Lines 47 to 53, and the same lines of the other handler: the object of the thread, made when it has none.\<close>

definition current_thread :: "environment \<Rightarrow> 32 word \<Rightarrow> thread_table \<Rightarrow> (addr \<times> thread_table) option" where
  "current_thread env thread_id s = do {
     (thread, s) \<leftarrow> thread_map_find thread_id s;
     if thread = NULL then do {
       (thread, s) \<leftarrow> thread_new (calloc_thread env s) s;
       ts \<leftarrow> modify (tt_threads s) thread (\<lambda>t. t\<lparr>th_tid := thread_id\<rparr>);
       (_, s) \<leftarrow> thread_map_add thread (s\<lparr>tt_threads := ts\<rparr>);
       Some (thread, s) }
     else Some (thread, s) }"

definition set_singlestep :: "addr \<Rightarrow> addr \<Rightarrow> hook_state \<Rightarrow> hook_state option" where
  "set_singlestep thread bp s = do {
     ts \<leftarrow> modify (tt_threads (hk_threads s)) thread (\<lambda>t. t\<lparr>th_singlestep_bp := bp\<rparr>);
     Some (s\<lparr>hk_threads := (hk_threads s)\<lparr>tt_threads := ts\<rparr>\<rparr>) }"

definition slot_of_bkpt :: "addr \<Rightarrow> bp_state \<Rightarrow> addr option" where
  "slot_of_bkpt bp s = do {
     b \<leftarrow> load (bs_bkpts s) bp;
     ss \<leftarrow> load (ss_sets (bs_slots s)) (bk_slot_set b);
     Some (BP_GET_SLOT_OFFSET ss (bk_slot_index b)) }"

definition sigtrap_handler :: "environment \<Rightarrow> 32 word \<Rightarrow> addr \<Rightarrow> hook_state \<Rightarrow> (addr \<times> hook_state) option" where
  "sigtrap_handler env thread_id pc s = do {
     (thread, ths) \<leftarrow> current_thread env thread_id (hk_threads s);
     let s = s\<lparr>hk_threads := ths\<rparr>;
     (bp, tab) \<leftarrow> breakpoint_find pc (bs_table (hk_bps s));
     let s = s\<lparr>hk_bps := (hk_bps s)\<lparr>bs_table := tab\<rparr>\<rparr>;
     c_assert (bp \<noteq> NULL);
     bps \<leftarrow> bkpt_lock bp (hk_bps s);
     let s = s\<lparr>hk_bps := bps\<rparr>;
     th \<leftarrow> load (tt_threads (hk_threads s)) thread;
     if th_singlestep_bp th \<noteq> NULL then do {
       enter \<leftarrow> load (bt_entries (bs_table (hk_bps s))) (bp_enter bp);
       bps \<leftarrow> bkpt_unlock bp (hk_bps s);
       let s = s\<lparr>hk_bps := bps\<rparr>;
       c_assert (th_singlestep_bp th = bp);
       s \<leftarrow> set_singlestep thread NULL s;
       Some (be_address enter + 4, s) }
     else do {
       s \<leftarrow> set_singlestep thread bp s;
       pc \<leftarrow> slot_of_bkpt bp (hk_bps s);
       bps \<leftarrow> bkpt_unlock bp (hk_bps s);
       Some (pc, s\<lparr>hk_bps := bps\<rparr>) } }"

definition load_objects :: "environment \<Rightarrow> hook_state \<Rightarrow> hook_state option" where
  "load_objects env s = do {
     objs \<leftarrow> object_load (maps_opened env) (maps_reads env) (maps_strndup env) (maps_self env) (calloc_objects env) (bs_objs (hk_bps s));
     Some (s\<lparr>hk_bps := (hk_bps s)\<lparr>bs_objs := objs\<rparr>\<rparr>) }"

definition entrypoint_trap_handler :: "environment \<Rightarrow> 32 word \<Rightarrow> addr \<Rightarrow> hook_state \<Rightarrow> (addr \<times> hook_state) option" where
  "entrypoint_trap_handler env thread_id pc s = do {
     (thread, ths) \<leftarrow> current_thread env thread_id (hk_threads s);
     let s = s\<lparr>hk_threads := ths\<rparr>;
     c_assert (entry_bp s \<noteq> NULL);
     if entry_hit s then do {
       s \<leftarrow> set_sighandle env Sigtrap s;
       s \<leftarrow> set_singlestep thread NULL s;
       enter \<leftarrow> load (bt_entries (bs_table (hk_bps s))) (bp_enter (entry_bp s));
       Some (be_address enter + 4, s) }
     else do {
       s \<leftarrow> load_objects env s;
       let s = s\<lparr>entry_hit := True\<rparr>;
       s \<leftarrow> set_singlestep thread (entry_bp s) s;
       pc \<leftarrow> slot_of_bkpt (entry_bp s) (hk_bps s);
       Some (pc, s) } }"

text \<open>Making a breakpoint at an address, registering and enabling it; a failure ends the process.\<close>

definition hook_address :: "environment \<Rightarrow> addr \<Rightarrow> hook_state \<Rightarrow> (addr \<times> hook_state) option" where
  "hook_address env a s = do {
     (bp, bps) \<leftarrow> breakpoint_new (calloc_bkpt env (hk_bps s)) (hk_bps s);
     ents \<leftarrow> modify (bt_entries (bs_table bps)) (bp_enter bp) (\<lambda>e. e\<lparr>be_address := a\<rparr>);
     (r, bps) \<leftarrow> breakpoint_add (calloc_slot env) (mmap_slot env) bp (bps\<lparr>bs_table := (bs_table bps)\<lparr>bt_entries := ents\<rparr>\<rparr>);
     c_assert (r = 0);
     (r, bps) \<leftarrow> breakpoint_enable (mprotect_ok env) bp bps;
     c_assert (r = 0);
     Some (bp, s\<lparr>hk_bps := bps\<rparr>) }"

definition lib_init :: "environment \<Rightarrow> hook_state \<Rightarrow> hook_state option" where
  "lib_init env s = do {
     s \<leftarrow> set_sighandle env Entrypoint_Trap s;
     ths \<leftarrow> thread_map_init (hk_threads s);
     s \<leftarrow> load_objects env (s\<lparr>hk_threads := ths\<rparr>);
     (entry_point, objs) \<leftarrow> object_get_self_entrypoint (exe_malloc env) (exe_link env) (exe_strdup env) (exe_header env)
       (bs_objs (hk_bps s));
     (bp, s) \<leftarrow> hook_address env entry_point (s\<lparr>hk_bps := (hk_bps s)\<lparr>bs_objs := objs\<rparr>\<rparr>);
     let s = s\<lparr>entry_bp := bp\<rparr>;
     b \<leftarrow> load (bs_bkpts (hk_bps s)) bp;
     ob \<leftarrow> load (ob_objects (bs_objs (hk_bps s))) (bk_obj b);
     (_, s) \<leftarrow> hook_address env (text_start ob + 0xdac) s;
     Some s }"

text \<open>Delivery of the signal: the handler that is installed runs.\<close>

definition deliver_trap :: "environment \<Rightarrow> 32 word \<Rightarrow> addr \<Rightarrow> hook_state \<Rightarrow> (addr \<times> hook_state) option" where
  "deliver_trap env tid pc s =
     (case hk_handler s of
        None \<Rightarrow> None
      | Some Entrypoint_Trap \<Rightarrow> entrypoint_trap_handler env tid pc s
      | Some Sigtrap \<Rightarrow> sigtrap_handler env tid pc s)"

section \<open>The handler of breakpoints\<close>

definition calloc_thread_ok :: "environment \<Rightarrow> thread_table \<Rightarrow> bool" where
  "calloc_thread_ok env s \<longleftrightarrow> (let t = calloc_thread env s in t \<noteq> NULL \<and> thread_list_entry t \<noteq> NULL \<and>
     tt_threads s t = None \<and> tt_lists s (thread_list_entry t) = None)"

text \<open>The block for a new thread is there, or it is not and the thread needs none.\<close>

definition thread_avail :: "environment \<Rightarrow> 32 word \<Rightarrow> thread_table \<Rightarrow> bool" where
  "thread_avail env tid s \<longleftrightarrow> calloc_thread_ok env s \<or> calloc_thread env s = NULL \<and> current_thread env tid s \<noteq> None"

text \<open>The mark of a thread: the breakpoint whose instruction it executes out of line.\<close>

definition step_mark :: "thread_table \<Rightarrow> (32 word \<rightharpoonup> addr) \<Rightarrow> 32 word \<Rightarrow> addr" where
  "step_mark s tm tid = (case tm tid of None \<Rightarrow> NULL | Some t \<Rightarrow> th_singlestep_bp (the (tt_threads s t)))"

lemma current_thread_ok:
  assumes r: "thread_rel s tm" and tid: "0 \<le> sint tid" and c: "thread_avail env tid s"
  obtains t th s' tm' where "current_thread env tid s = Some (t, s')" "thread_rel s' tm'" "tm' tid = Some t"
    "t \<noteq> NULL" "tt_threads s' t = Some th" "th_singlestep_bp th = step_mark s tm tid"
    "\<And>k. step_mark s' tm' k = step_mark s tm k" "\<And>k. k \<noteq> tid \<Longrightarrow> tm' k = tm k"
proof (cases "tm tid")
  case (Some t)
  obtain th where th: "t \<noteq> NULL" "tt_threads s t = Some th" using thread_rel_entry[OF r Some] by blast
  have "current_thread env tid s = Some (t, s)"
    using thread_map_find_rel[OF r tid] Some th(1) by (simp add: current_thread_def)
  then show thesis using that[OF _ r Some th] th by (simp add: step_mark_def Some)
next
  case None
  define t where "t = calloc_thread env s"
  have "current_thread env tid s = None" if "calloc_thread env s = NULL"
    using that thread_map_find_rel[OF r tid] None by (simp add: current_thread_def thread_new_def)
  then have "calloc_thread_ok env s" using c by (auto simp: thread_avail_def)
  then have t: "t \<noteq> NULL" "thread_list_entry t \<noteq> NULL" "tt_threads s t = None" "tt_lists s (thread_list_entry t) = None"
    by (simp_all add: calloc_thread_ok_def t_def Let_def)
  obtain s1 where s1: "thread_new t s = Some (t, s1)" "thread_rel s1 tm" "thread_ready s1 t 0"
    "tt_threads s1 = (tt_threads s)(t \<mapsto> \<lparr>th_tid = 0, th_singlestep_bp = NULL\<rparr>)"
    using thread_new_ready[OF r t] by blast
  let ?ts = "(tt_threads s)(t \<mapsto> \<lparr>th_tid = tid, th_singlestep_bp = NULL\<rparr>)" and ?s2 = "\<lambda>ts. s1\<lparr>tt_threads := ts\<rparr>"
  have rel2: "thread_rel (?s2 ?ts) tm"
    by (rule thread_rel_cong[OF s1(2), where t = t and k = 0]) (use s1(3,4) in auto)
  have rdy: "thread_ready (?s2 ?ts) t tid" using s1(3) tid by (auto simp: thread_ready_def bucket_def)
  obtain s3 where s3: "thread_map_add t (?s2 ?ts) = Some (0, s3)" "thread_rel s3 (tm(tid \<mapsto> t))" "tt_threads s3 = ?ts"
    using thread_map_add_new[OF rel2 rdy None] by auto
  have md: "modify (tt_threads s1) t (\<lambda>t. t\<lparr>th_tid := tid\<rparr>) = Some ?ts" using t(1) by (simp add: modify_def s1(4))
  have "current_thread env tid s = Some (t, s3)"
    using thread_map_find_rel[OF r tid] None s1(1) s3(1) by (simp add: current_thread_def md flip: t_def)
  moreover have ne: "x \<noteq> t" if "tm k = Some x" for x k using thread_rel_entry[OF r that] t(3) by auto
  have "step_mark s3 (tm(tid \<mapsto> t)) k = step_mark s tm k" for k
    using ne[of k] None by (auto simp: step_mark_def s3(3) split: option.splits)
  ultimately show thesis using that[OF _ s3(2)] t(1) None by (simp add: s3(3) step_mark_def)
qed

text \<open>The marks of all threads, and the effect of setting one.\<close>

definition marks :: "hook_state \<Rightarrow> (32 word \<Rightarrow> addr) \<Rightarrow> bool" where
  "marks s f \<longleftrightarrow> (\<exists>tm. thread_rel (hk_threads s) tm \<and> f = step_mark (hk_threads s) tm)"

lemma set_singlestep_ok:
  assumes r: "thread_rel (hk_threads s) tm" and t: "tm tid = Some t"
  shows "\<exists>ths. set_singlestep t v s = Some (s\<lparr>hk_threads := ths\<rparr>) \<and>
    marks (s\<lparr>hk_threads := ths\<rparr>) ((step_mark (hk_threads s) tm)(tid := v))"
proof -
  obtain th where th: "t \<noteq> NULL" "tt_threads (hk_threads s) t = Some th" "th_tid th = tid" using thread_rel_entry[OF r t] by blast
  let ?ts = "(tt_threads (hk_threads s))(t \<mapsto> th\<lparr>th_singlestep_bp := v\<rparr>)"
  let ?ths = "(hk_threads s)\<lparr>tt_threads := ?ts\<rparr>"
  have rel: "thread_rel ?ths tm" by (rule thread_rel_cong[OF r, where t = t]) (use th in auto)
  have ne: "k = tid" if "tm k = Some t" for k using thread_rel_entry[OF r that] th by auto
  have "step_mark ?ths tm k = ((step_mark (hk_threads s) tm)(tid := v)) k" for k
  proof (cases "k = tid")
    case False
    then have "tm k \<noteq> Some t" using ne by blast
    then show ?thesis using False by (cases "tm k") (simp_all add: step_mark_def)
  qed (simp add: step_mark_def t)
  then have "marks (s\<lparr>hk_threads := ?ths\<rparr>) ((step_mark (hk_threads s) tm)(tid := v))"
    using rel unfolding marks_def by (intro exI[of _ tm]) (simp add: fun_eq_iff)
  moreover have "set_singlestep t v s = Some (s\<lparr>hk_threads := ?ths\<rparr>)"
    using th by (simp add: set_singlestep_def modify_def load_def)
  ultimately show ?thesis by blast
qed

lemma breakpoint_find_owned:
  assumes "bp_rel t m" "owned t p" "m k = Some e" "e \<in> {bp_enter p, bp_return p}"
  shows "breakpoint_find k t = Some (p, t)"
proof -
  obtain en where "load (bt_entries t) e = Some en" "be_bkpt en = p" "e \<noteq> NULL"
    using assms(2,4) by (auto simp: owned_def load_def)
  moreover have "breakpoint_rb_find k t = Some (e, t)" using assms(1,3) bp_holds_find[of t m k] by (simp add: bp_rel_def)
  ultimately show ?thesis by (simp add: breakpoint_find_def)
qed

text \<open>A breakpoint the table knows under the address \<^verbatim>\<open>a\<close> and under the \<^verbatim>\<open>brk\<close> of its slot.\<close>

definition stop_at :: "bp_state \<Rightarrow> (addr \<rightharpoonup> addr) \<Rightarrow> addr \<Rightarrow> addr \<Rightarrow> addr \<Rightarrow> u32 \<Rightarrow> bool" where
  "stop_at s m p a w instr \<longleftrightarrow> (\<exists>b ob. registered s p b a ob w instr) \<and> bp_rel (bs_table s) m \<and>
     m a = Some (bp_enter p) \<and> m (w + 4) = Some (bp_return p)"

lemma bkpt_lock_unlock:
  assumes "p \<noteq> NULL" "bs_bkpts s p = Some b" "\<not> bk_lock b"
  shows "bkpt_unlock p (s\<lparr>bs_bkpts := (bs_bkpts s)(p \<mapsto> b\<lparr>bk_lock := True\<rparr>)\<rparr>) = Some s"
proof -
  have "b\<lparr>bk_lock := False\<rparr> = b" using assms(3) by (cases b) simp
  then show ?thesis using assms(1,2) by (simp add: bkpt_unlock_ok fun_upd_idem)
qed

text \<open>The lock of the breakpoint does not hide its slot.\<close>

lemma slot_of_registered:
  assumes "registered s p b a ob w instr"
  shows "slot_of_bkpt p s = Some w" "slot_of_bkpt p (s\<lparr>bs_bkpts := (bs_bkpts s)(p \<mapsto> b\<lparr>bk_lock := l\<rparr>)\<rparr>) = Some w"
proof -
  obtain ss where "load (ss_sets (bs_slots s)) (bk_slot_set b) = Some ss" "BP_GET_SLOT_OFFSET ss (bk_slot_index b) = w"
    "p \<noteq> NULL" "bs_bkpts s p = Some b"
    using assms by (auto simp: registered_def slot_addr_def bkpt_at_def)
  then show "slot_of_bkpt p s = Some w" "slot_of_bkpt p (s\<lparr>bs_bkpts := (bs_bkpts s)(p \<mapsto> b\<lparr>bk_lock := l\<rparr>)\<rparr>) = Some w"
    by (simp_all add: slot_of_bkpt_def load_def[of "bs_bkpts _"])
qed

lemma sigtrap_first:
  assumes mk: "marks s f" and tid: "0 \<le> sint tid" and c: "thread_avail env tid (hk_threads s)"
    and st: "stop_at (hk_bps s) m p a w instr" and nomark: "f tid = NULL"
  shows "\<exists>ths. sigtrap_handler env tid a s = Some (w, s\<lparr>hk_threads := ths\<rparr>) \<and> marks (s\<lparr>hk_threads := ths\<rparr>) (f(tid := p))"
proof -
  obtain b ob where reg: "registered (hk_bps s) p b a ob w instr" using st by (auto simp: stop_at_def)
  have p: "p \<noteq> NULL" "bs_bkpts (hk_bps s) p = Some b" "\<not> bk_lock b" using reg by (auto simp: registered_def bkpt_at_def)
  have find: "breakpoint_find a (bs_table (hk_bps s)) = Some (p, bs_table (hk_bps s))"
    using st reg by (intro breakpoint_find_owned[of _ m p a "bp_enter p"]) (auto simp: stop_at_def registered_def)
  obtain tm where tm: "thread_rel (hk_threads s) tm" "f = step_mark (hk_threads s) tm" using mk by (auto simp: marks_def)
  obtain t th s1 tm1 where cur: "current_thread env tid (hk_threads s) = Some (t, s1)" "thread_rel s1 tm1" "tm1 tid = Some t"
    "t \<noteq> NULL" "tt_threads s1 t = Some th" "th_singlestep_bp th = step_mark (hk_threads s) tm tid"
    "\<And>k. step_mark s1 tm1 k = step_mark (hk_threads s) tm k"
    using current_thread_ok[OF tm(1) tid c] by metis
  let ?l = "s\<lparr>hk_threads := s1, hk_bps := (hk_bps s)\<lparr>bs_bkpts := (bs_bkpts (hk_bps s))(p \<mapsto> b\<lparr>bk_lock := True\<rparr>)\<rparr>\<rparr>"
  obtain ths where ss: "set_singlestep t p ?l = Some (?l\<lparr>hk_threads := ths\<rparr>)"
    "marks (?l\<lparr>hk_threads := ths\<rparr>) ((step_mark s1 tm1)(tid := p))"
    using set_singlestep_ok[of ?l tm1 tid t p] cur(2,3) by auto
  have "sigtrap_handler env tid a s = Some (w, s\<lparr>hk_threads := ths\<rparr>)"
    using cur(1,4,5,6) nomark p tm(2) ss(1)
    by (simp add: sigtrap_handler_def find bkpt_lock_ok load_def slot_of_registered(2)[OF reg] bkpt_lock_unlock)
  moreover have "step_mark s1 tm1 = f" using cur(7) tm(2) by (simp add: fun_eq_iff)
  ultimately show ?thesis using ss(2) by (intro exI[of _ ths]) (simp add: marks_def)
qed

lemma sigtrap_second:
  assumes mk: "marks s f" and tid: "0 \<le> sint tid" and c: "thread_avail env tid (hk_threads s)"
    and st: "stop_at (hk_bps s) m p a w instr" and mark: "f tid = p"
  shows "\<exists>ths. sigtrap_handler env tid (w + 4) s = Some (a + 4, s\<lparr>hk_threads := ths\<rparr>) \<and> marks (s\<lparr>hk_threads := ths\<rparr>) (f(tid := NULL))"
proof -
  obtain b ob where reg: "registered (hk_bps s) p b a ob w instr" using st by (auto simp: stop_at_def)
  have p: "p \<noteq> NULL" "bs_bkpts (hk_bps s) p = Some b" "\<not> bk_lock b" using reg by (auto simp: registered_def bkpt_at_def)
  obtain en where en: "load (bt_entries (bs_table (hk_bps s))) (bp_enter p) = Some en" "be_address en = a"
    using reg by (auto simp: registered_def bkpt_at_def load_def)
  have find: "breakpoint_find (w + 4) (bs_table (hk_bps s)) = Some (p, bs_table (hk_bps s))"
    using st reg by (intro breakpoint_find_owned[of _ m p "w + 4" "bp_return p"]) (auto simp: stop_at_def registered_def)
  obtain tm where tm: "thread_rel (hk_threads s) tm" "f = step_mark (hk_threads s) tm" using mk by (auto simp: marks_def)
  obtain t th s1 tm1 where cur: "current_thread env tid (hk_threads s) = Some (t, s1)" "thread_rel s1 tm1" "tm1 tid = Some t"
    "t \<noteq> NULL" "tt_threads s1 t = Some th" "th_singlestep_bp th = step_mark (hk_threads s) tm tid"
    "\<And>k. step_mark s1 tm1 k = step_mark (hk_threads s) tm k"
    using current_thread_ok[OF tm(1) tid c] by metis
  let ?l = "s\<lparr>hk_threads := s1\<rparr>"
  obtain ths where ss: "set_singlestep t NULL ?l = Some (?l\<lparr>hk_threads := ths\<rparr>)"
    "marks (?l\<lparr>hk_threads := ths\<rparr>) ((step_mark s1 tm1)(tid := NULL))"
    using set_singlestep_ok[of ?l tm1 tid t NULL] cur(2,3) by auto
  have th: "load (tt_threads s1) t = Some th" using cur(4,5) by (simp add: load_def)
  have "sigtrap_handler env tid (w + 4) s = Some (a + 4, s\<lparr>hk_threads := ths\<rparr>)"
    using cur(1,6) mark p tm(2) ss(1) by (simp add: sigtrap_handler_def find bkpt_lock_ok th bkpt_lock_unlock en)
  moreover have "step_mark s1 tm1 = f" using cur(7) tm(2) by (simp add: fun_eq_iff)
  ultimately show ?thesis using ss(2) by (intro exI[of _ ths]) (simp add: marks_def)
qed

section \<open>The handler of the entry point\<close>

lemma entry_first:
  assumes mk: "marks s f" and tid: "0 \<le> sint tid" and c: "thread_avail env tid (hk_threads s)"
    and hit: "\<not> entry_hit s" and bp: "entry_bp s = p" "registered (hk_bps s) p b a ob w instr"
    and load: "object_load (maps_opened env) (maps_reads env) (maps_strndup env) (maps_self env) (calloc_objects env) (bs_objs (hk_bps s)) = Some objs"
  shows "\<exists>ths. let s' = s\<lparr>hk_threads := ths, hk_bps := (hk_bps s)\<lparr>bs_objs := objs\<rparr>, entry_hit := True\<rparr> in
    entrypoint_trap_handler env tid pc s = Some (w, s') \<and> marks s' (f(tid := p))"
proof -
  have p: "p \<noteq> NULL" using bp(2) by (auto simp: registered_def bkpt_at_def)
  obtain tm where tm: "thread_rel (hk_threads s) tm" "f = step_mark (hk_threads s) tm" using mk by (auto simp: marks_def)
  obtain t th s1 tm1 where cur: "current_thread env tid (hk_threads s) = Some (t, s1)" "thread_rel s1 tm1" "tm1 tid = Some t"
    "\<And>k. step_mark s1 tm1 k = step_mark (hk_threads s) tm k"
    using current_thread_ok[OF tm(1) tid c] by metis
  let ?l = "s\<lparr>hk_threads := s1, hk_bps := (hk_bps s)\<lparr>bs_objs := objs\<rparr>, entry_hit := True\<rparr>"
  obtain ths where ss: "set_singlestep t p ?l = Some (?l\<lparr>hk_threads := ths\<rparr>)"
    "marks (?l\<lparr>hk_threads := ths\<rparr>) ((step_mark s1 tm1)(tid := p))"
    using set_singlestep_ok[of ?l tm1 tid t p] cur(2,3) by auto
  have "slot_of_bkpt p ((hk_bps s)\<lparr>bs_objs := objs\<rparr>) = Some w"
    using slot_of_registered(1)[OF bp(2)] by (simp add: slot_of_bkpt_def)
  then have "entrypoint_trap_handler env tid pc s = Some (w, ?l\<lparr>hk_threads := ths\<rparr>)"
    using cur(1) p hit bp(1) load ss(1) by (simp add: entrypoint_trap_handler_def load_objects_def)
  moreover have "step_mark s1 tm1 = f" using cur(4) tm(2) by (simp add: fun_eq_iff)
  moreover have "?l\<lparr>hk_threads := ths\<rparr> = s\<lparr>hk_threads := ths, hk_bps := (hk_bps s)\<lparr>bs_objs := objs\<rparr>, entry_hit := True\<rparr>" by simp
  ultimately show ?thesis using ss(2) by (intro exI[of _ ths]) (simp add: Let_def marks_def)
qed

lemma entry_second:
  assumes mk: "marks s f" and tid: "0 \<le> sint tid" and c: "thread_avail env tid (hk_threads s)"
    and hit: "entry_hit s" "sigaction_ok env" and bp: "entry_bp s = p" "registered (hk_bps s) p b a ob w instr"
  shows "\<exists>ths. let s' = s\<lparr>hk_threads := ths, hk_handler := Some Sigtrap\<rparr> in
    entrypoint_trap_handler env tid pc s = Some (a + 4, s') \<and> marks s' (f(tid := NULL))"
proof -
  obtain en where en: "load (bt_entries (bs_table (hk_bps s))) (bp_enter p) = Some en" "be_address en = a" and p: "p \<noteq> NULL"
    using bp(2) by (auto simp: registered_def bkpt_at_def load_def)
  obtain tm where tm: "thread_rel (hk_threads s) tm" "f = step_mark (hk_threads s) tm" using mk by (auto simp: marks_def)
  obtain t th s1 tm1 where cur: "current_thread env tid (hk_threads s) = Some (t, s1)" "thread_rel s1 tm1" "tm1 tid = Some t"
    "\<And>k. step_mark s1 tm1 k = step_mark (hk_threads s) tm k"
    using current_thread_ok[OF tm(1) tid c] by metis
  let ?l = "s\<lparr>hk_threads := s1, hk_handler := Some Sigtrap\<rparr>"
  obtain ths where ss: "set_singlestep t NULL ?l = Some (?l\<lparr>hk_threads := ths\<rparr>)"
    "marks (?l\<lparr>hk_threads := ths\<rparr>) ((step_mark s1 tm1)(tid := NULL))"
    using set_singlestep_ok[of ?l tm1 tid t NULL] cur(2,3) by auto
  have "entrypoint_trap_handler env tid pc s = Some (a + 4, ?l\<lparr>hk_threads := ths\<rparr>)"
    using cur(1) p hit bp(1) en ss(1) by (simp add: entrypoint_trap_handler_def set_sighandle_def)
  moreover have "step_mark s1 tm1 = f" using cur(4) tm(2) by (simp add: fun_eq_iff)
  moreover have "?l\<lparr>hk_threads := ths\<rparr> = s\<lparr>hk_threads := ths, hk_handler := Some Sigtrap\<rparr>" by simp
  ultimately show ?thesis using ss(2) by (intro exI[of _ ths]) (simp add: Let_def marks_def)
qed

end
