(* ===== verification/Simulation.thy ===== *)
theory Simulation
  imports Prelude
begin

text \<open>
  Simulation of one step relation by another, the second being allowed to stand still: every run of
  the concrete machine is a run of the abstract one, and what holds of all abstract states that can
  be reached holds of the concrete ones, seen through the matching relation.
\<close>

locale simulation =
  fixes step1 :: "'a \<Rightarrow> 'a \<Rightarrow> bool"
    and step2 :: "'b \<Rightarrow> 'b \<Rightarrow> bool"
    and match :: "'a \<Rightarrow> 'b \<Rightarrow> bool"
  assumes simulated: "\<lbrakk>match s t; step2 t t'\<rbrakk> \<Longrightarrow> \<exists>s'. step1\<^sup>*\<^sup>* s s' \<and> match s' t'"
begin

lemma run_simulated:
  assumes "step2\<^sup>*\<^sup>* t t'" "match s t"
  shows "\<exists>s'. step1\<^sup>*\<^sup>* s s' \<and> match s' t'"
  using assms
proof (induction rule: rtranclp_induct)
  case base
  then show ?case by blast
next
  case (step t1 t2)
  then obtain s1 where s1: "step1\<^sup>*\<^sup>* s s1" "match s1 t1" by blast
  obtain s2 where "step1\<^sup>*\<^sup>* s1 s2" "match s2 t2" using simulated[OF s1(2) step.hyps(2)] by blast
  then show ?case using s1(1) by (blast intro: rtranclp_trans)
qed

lemma reachable_transfer:
  assumes "step2\<^sup>*\<^sup>* t t'" "match s t" "\<And>s'. step1\<^sup>*\<^sup>* s s' \<Longrightarrow> P s'" "\<And>s t. \<lbrakk>match s t; P s\<rbrakk> \<Longrightarrow> Q t"
  shows "Q t'"
  using run_simulated[OF assms(1,2)] assms(3,4) by blast

end

end
