(* ===== verification/Hook_Machine.thy ===== *)
theory Hook_Machine
  imports Hook Simulation
begin

text \<open>
  The processor under the hooks: threads that execute the patched text and trap into the handler of
  \<^verbatim>\<open>hook_main.c\<close>, against the same threads on the text as it was.  A breakpoint is transparent: the
  hooked machine is simulated by the native one, whatever the interleaving of the threads.
\<close>

section \<open>The machine under the hooks\<close>

text \<open>
  \<^verbatim>\<open>exec tid instr pc c\<close> is the effect of an instruction of the processor on the program counter of the
  thread and on everything else the program can see, \<^verbatim>\<open>c\<close>: a parameter.  Without hooks the program
  executes the words \<^verbatim>\<open>M\<close> of its text; with them it executes the memory the library patched, and a \<^verbatim>\<open>brk\<close> runs
  the handler.
\<close>

type_synonym 'c exec = "32 word \<Rightarrow> u32 \<Rightarrow> addr \<Rightarrow> 'c \<Rightarrow> addr \<times> 'c"
type_synonym 'c native = "(32 word \<rightharpoonup> addr) \<times> 'c"
type_synonym 'c hooked = "hook_state \<times> (32 word \<rightharpoonup> addr) \<times> 'c"

inductive native_step :: "'c exec \<Rightarrow> (addr \<rightharpoonup> u32) \<Rightarrow> 'c native \<Rightarrow> 'c native \<Rightarrow> bool" for exec M where
  native: "\<lbrakk>pcs tid = Some pc; M pc = Some i; exec tid i pc c = (pc', c')\<rbrakk> \<Longrightarrow>
    native_step exec M (pcs, c) (pcs(tid \<mapsto> pc'), c')"

inductive hooked_step :: "environment \<Rightarrow> 'c exec \<Rightarrow> 'c hooked \<Rightarrow> 'c hooked \<Rightarrow> bool" for env exec where
  run: "\<lbrakk>pcs tid = Some pc; load_word pc (bs_mem (hk_bps h)) = Some i; i \<noteq> BRK_INSTR; exec tid i pc c = (pc', c')\<rbrakk> \<Longrightarrow>
    hooked_step env exec (h, pcs, c) (h, pcs(tid \<mapsto> pc'), c')"
| trap: "\<lbrakk>pcs tid = Some pc; load_word pc (bs_mem (hk_bps h)) = Some BRK_INSTR; deliver_trap env tid pc h = Some (pc', h')\<rbrakk> \<Longrightarrow>
    hooked_step env exec (h, pcs, c) (h', pcs(tid \<mapsto> pc'), c)"

inductive_cases hooked_stepE: "hooked_step env exec (h, pcs, c) t"

text \<open>
  The hooks: for each breakpoint its address, its slot and the instruction it displaced, which has to be one
  that does the same at any address and continues behind it.
\<close>

type_synonym hooks = "addr \<rightharpoonup> addr \<times> addr \<times> u32"

definition relocatable :: "'c exec \<Rightarrow> u32 \<Rightarrow> bool" where
  "relocatable exec i \<longleftrightarrow> i \<noteq> BRK_INSTR \<and> (\<exists>f. \<forall>tid pc c. exec tid i pc c = (pc + 4, f tid c))"

definition hooks_ok :: "'c exec \<Rightarrow> hook_state \<Rightarrow> hooks \<Rightarrow> bool" where
  "hooks_ok exec h H \<longleftrightarrow> hk_handler h = Some Sigtrap \<and> (\<exists>m. \<forall>p a w i. H p = Some (a, w, i) \<longrightarrow>
     stop_at (hk_bps h) m p a w i \<and> load_word a (bs_mem (hk_bps h)) = Some BRK_INSTR \<and> relocatable exec i) \<and>
     (\<forall>x. load_word x (bs_mem (hk_bps h)) = Some BRK_INSTR \<longrightarrow> (\<exists>p a w i. H p = Some (a, w, i) \<and> x \<in> {a, w + 4}))"

text \<open>The text without the hooks.\<close>

definition native_text :: "hook_state \<Rightarrow> hooks \<Rightarrow> (addr \<rightharpoonup> u32) \<Rightarrow> bool" where
  "native_text h H M \<longleftrightarrow> (\<forall>p a w i. H p = Some (a, w, i) \<longrightarrow> M a = Some i) \<and>
     (\<forall>x i. load_word x (bs_mem (hk_bps h)) = Some i \<longrightarrow> i \<noteq> BRK_INSTR \<longrightarrow> M x = Some i)"

text \<open>Where a thread is in the two executions, given its mark.\<close>

definition same_place :: "hooks \<Rightarrow> addr \<Rightarrow> addr \<Rightarrow> addr \<Rightarrow> bool" where
  "same_place H mark pc npc \<longleftrightarrow>
     (if mark = NULL then pc = npc
      else (\<exists>a w i. H mark = Some (a, w, i) \<and> (pc = w \<and> npc = a \<or> pc = w + 4 \<and> npc = a + 4)))"

definition outside_returns :: "hooks \<Rightarrow> (32 word \<rightharpoonup> addr) \<Rightarrow> bool" where
  "outside_returns H npcs \<longleftrightarrow> (\<forall>tid pc p a w i. npcs tid = Some pc \<longrightarrow> H p = Some (a, w, i) \<longrightarrow> pc \<noteq> w + 4)"

definition simulates :: "hooks \<Rightarrow> hook_state \<Rightarrow> (32 word \<rightharpoonup> addr) \<Rightarrow> (32 word \<rightharpoonup> addr) \<Rightarrow> bool" where
  "simulates H h pcs npcs \<longleftrightarrow> (\<exists>f. marks h f \<and>
     (\<forall>tid. rel_option (same_place H (f tid)) (pcs tid) (npcs tid)))"

definition calloc_sound :: "environment \<Rightarrow> bool" where
  "calloc_sound env \<longleftrightarrow> (\<forall>s. calloc_thread env s = NULL \<or> calloc_thread_ok env s)"

section \<open>The hooks are transparent\<close>

lemma trap_avail:
  "\<lbrakk>calloc_sound env; hk_handler h = Some Sigtrap; deliver_trap env tid pc h = Some r\<rbrakk> \<Longrightarrow> thread_avail env tid (hk_threads h)"
  by (auto simp: calloc_sound_def thread_avail_def deliver_trap_def sigtrap_handler_def bind_eq_Some_conv)

lemma hooks_okD:
  assumes "hooks_ok exec h H" "H p = Some (a, w, i)"
  obtains m where "stop_at (hk_bps h) m p a w i" "p \<noteq> NULL" "load_word a (bs_mem (hk_bps h)) = Some BRK_INSTR"
    "load_word w (bs_mem (hk_bps h)) = Some i" "load_word (w + 4) (bs_mem (hk_bps h)) = Some BRK_INSTR" "relocatable exec i"
  using assms by (fastforce simp: hooks_ok_def stop_at_def registered_def bkpt_at_def)

lemma same_place_upd:
  assumes "\<And>tid. rel_option (same_place H (f tid)) (pcs tid) (npcs tid)" "same_place H v pc npc"
  shows "rel_option (same_place H ((f(tid := v)) k)) ((pcs(tid \<mapsto> pc)) k) ((npcs(tid \<mapsto> npc)) k)"
  using assms by simp

text \<open>A trap moves the thread into the slot or out of it, which the program does not see.\<close>

lemma trap_stutters:
  assumes ok: "hooks_ok exec h H" and c: "calloc_sound env" and tid: "0 \<le> sint tid"
    and sim: "marks h f" "\<And>tid. rel_option (same_place H (f tid)) (pcs tid) (npcs tid)" and out: "outside_returns H npcs"
    and st: "pcs tid = Some pc" "load_word pc (bs_mem (hk_bps h)) = Some BRK_INSTR" "deliver_trap env tid pc h = Some (pc', h')"
  shows "simulates H h' (pcs(tid \<mapsto> pc')) npcs \<and> (\<exists>ths. h' = h\<lparr>hk_threads := ths\<rparr>)"
proof -
  have hd: "hk_handler h = Some Sigtrap" using ok by (simp add: hooks_ok_def)
  have tr: "sigtrap_handler env tid pc h = Some (pc', h')" using st(3) hd by (simp add: deliver_trap_def)
  note av = trap_avail[OF c hd st(3)]
  obtain npc where npc: "npcs tid = Some npc" "same_place H (f tid) pc npc" using sim(2)[of tid] st(1) by (auto simp: option_rel_Some1)
  then have same: "npcs(tid \<mapsto> npc) = npcs" by (simp add: fun_upd_idem)
  have goal: ?thesis if "h' = h\<lparr>hk_threads := ths\<rparr>" "marks h' (f(tid := v))" "same_place H v pc' npc" for ths v
    using that same_place_upd[of H f pcs npcs, OF sim(2) that(3), of tid] unfolding same simulates_def by blast
  show ?thesis
  proof (cases "f tid = NULL")
    case True
    then have pcn: "pc = npc" using npc(2) by (simp add: same_place_def)
    then obtain p w i where p: "H p = Some (pc, w, i)"
      using ok st(2) out npc(1) unfolding hooks_ok_def outside_returns_def by blast
    obtain m where m: "stop_at (hk_bps h) m p pc w i" "p \<noteq> NULL" using hooks_okD[OF ok p] by metis
    obtain ths where "sigtrap_handler env tid pc h = Some (w, h\<lparr>hk_threads := ths\<rparr>)" "marks (h\<lparr>hk_threads := ths\<rparr>) (f(tid := p))"
      using sigtrap_first[OF sim(1) tid av m(1) True] by blast
    then show ?thesis using tr goal[of ths p] m(2) p pcn by (auto simp: same_place_def)
  next
    case False
    then obtain a w i where q: "H (f tid) = Some (a, w, i)" "pc = w \<and> npc = a \<or> pc = w + 4 \<and> npc = a + 4"
      using npc(2) by (auto simp: same_place_def)
    obtain m where m: "stop_at (hk_bps h) m (f tid) a w i" "load_word w (bs_mem (hk_bps h)) = Some i" "relocatable exec i"
      using hooks_okD[OF ok q(1)] by metis
    have pc: "pc = w + 4" "npc = a + 4" using q(2) m(2,3) st(2) by (auto simp: relocatable_def)
    obtain ths where "sigtrap_handler env tid pc h = Some (a + 4, h\<lparr>hk_threads := ths\<rparr>)" "marks (h\<lparr>hk_threads := ths\<rparr>) (f(tid := NULL))"
      using sigtrap_second[OF sim(1) tid av m(1)] pc by blast
    then show ?thesis using tr goal[of ths NULL] pc(2) by (simp add: same_place_def)
  qed
qed

text \<open>An instruction does the same in both executions, be it in its place or in the slot.\<close>

lemma run_matches:
  assumes ok: "hooks_ok exec h H" and M: "native_text h H M"
    and sim: "marks h f" "\<And>tid. rel_option (same_place H (f tid)) (pcs tid) (npcs tid)"
    and st: "pcs tid = Some pc" "load_word pc (bs_mem (hk_bps h)) = Some i" "i \<noteq> BRK_INSTR" "exec tid i pc c = (pc', c')"
  shows "\<exists>npcs'. native_step exec M (npcs, c) (npcs', c') \<and> simulates H h (pcs(tid \<mapsto> pc')) npcs'"
proof -
  obtain npc where npc: "npcs tid = Some npc" "same_place H (f tid) pc npc" using sim(2)[of tid] st(1) by (auto simp: option_rel_Some1)
  have goal: ?thesis if M': "M npc = Some i" "exec tid i npc c = (npc', c')" "same_place H (f tid) pc' npc'" for npc'
  proof (intro exI conjI)
    show "native_step exec M (npcs, c) (npcs(tid \<mapsto> npc'), c')" using native_step.native[of npcs tid npc M i exec c npc' c'] npc(1) M'(1,2) by simp
    have "f(tid := f tid) = f" by simp
    then show "simulates H h (pcs(tid \<mapsto> pc')) (npcs(tid \<mapsto> npc'))"
      using sim(1) same_place_upd[of H f pcs npcs, OF sim(2) M'(3), of tid] unfolding simulates_def by metis
  qed
  show ?thesis
  proof (cases "f tid = NULL")
    case True
    then show ?thesis using goal[of pc'] npc(2) M st by (simp add: same_place_def native_text_def)
  next
    case False
    then obtain a w j where q: "H (f tid) = Some (a, w, j)" "pc = w \<and> npc = a \<or> pc = w + 4 \<and> npc = a + 4"
      using npc(2) by (auto simp: same_place_def)
    have w: "load_word w (bs_mem (hk_bps h)) = Some j" "load_word (w + 4) (bs_mem (hk_bps h)) = Some BRK_INSTR" "relocatable exec j"
      using hooks_okD[OF ok q(1)] by metis+
    then have pc: "pc = w" "npc = a" "j = i" using q(2) st(2,3) by auto
    obtain g where g: "\<And>tid pc c. exec tid i pc c = (pc + 4, g tid c)" using w(3) pc(3) by (auto simp: relocatable_def)
    have "M npc = Some i" using M q(1) pc by (simp add: native_text_def)
    moreover have "same_place H (f tid) pc' (a + 4)" using q(1) pc st(4) g False by (simp add: same_place_def)
    ultimately show ?thesis using goal[of "a + 4"] g pc st(4) by simp
  qed
qed

lemma hooks_ok_threads [simp]: "hooks_ok exec (h\<lparr>hk_threads := ths\<rparr>) H = hooks_ok exec h H"
  by (simp add: hooks_ok_def)

lemma native_text_threads [simp]: "native_text (h\<lparr>hk_threads := ths\<rparr>) H M = native_text h H M"
  by (simp add: native_text_def)

lemma hooked_step_simulated:
  assumes ok: "hooks_ok exec h H" and M: "native_text h H M" and c: "calloc_sound env"
    and tid: "\<forall>tid \<in> dom pcs. 0 \<le> sint tid" and sim: "simulates H h pcs npcs" and out: "outside_returns H npcs"
    and st: "hooked_step env exec (h, pcs, c0) (h', pcs', c')"
  shows "\<exists>npcs'. (native_step exec M)\<^sup>*\<^sup>* (npcs, c0) (npcs', c') \<and> simulates H h' pcs' npcs' \<and>
    (\<exists>ths. h' = h\<lparr>hk_threads := ths\<rparr>) \<and> dom pcs' = dom pcs"
proof -
  obtain f where f: "marks h f" "\<And>tid. rel_option (same_place H (f tid)) (pcs tid) (npcs tid)"
    using sim by (auto simp: simulates_def)
  from st show ?thesis
  proof (cases rule: hooked_step.cases)
    case (run tid pc i pc')
    obtain npcs' where "native_step exec M (npcs, c0) (npcs', c')" "simulates H h (pcs(tid \<mapsto> pc')) npcs'"
      using run_matches[OF ok M f, of tid pc i c0 pc' c'] run by auto
    moreover have "h' = h\<lparr>hk_threads := hk_threads h\<rparr>" "dom pcs' = dom pcs" using run by auto
    ultimately show ?thesis using run(1,2) by (intro exI[of _ npcs']) (auto intro: exI[of _ "hk_threads h"])
  next
    case (trap tid pc pc')
    have "0 \<le> sint tid" using tid trap by auto
    then have "simulates H h' (pcs(tid \<mapsto> pc')) npcs \<and> (\<exists>ths. h' = h\<lparr>hk_threads := ths\<rparr>)"
      using trap_stutters[OF ok c _ f out, of tid pc pc' h'] trap by simp
    then show ?thesis using trap by (intro exI[of _ npcs]) auto
  qed
qed

text \<open>The states of the two machines that belong together, and the simulation.\<close>

definition hook_match :: "environment \<Rightarrow> 'c exec \<Rightarrow> (addr \<rightharpoonup> u32) \<Rightarrow> hooks \<Rightarrow> 'c native \<Rightarrow> 'c hooked \<Rightarrow> bool" where
  "hook_match env exec M H s t \<longleftrightarrow> (case (s, t) of ((npcs, c), (h, pcs, c')) \<Rightarrow>
     c = c' \<and> hooks_ok exec h H \<and> native_text h H M \<and> calloc_sound env \<and> (\<forall>tid \<in> dom pcs. 0 \<le> sint tid) \<and>
     simulates H h pcs npcs \<and> (\<forall>npcs' c'. (native_step exec M)\<^sup>*\<^sup>* (npcs, c) (npcs', c') \<longrightarrow> outside_returns H npcs'))"

interpretation hooks: simulation "native_step exec M" "hooked_step env exec" "hook_match env exec M H" for exec M env H
proof
  fix s t t'
  assume match: "hook_match env exec M H s t" and st: "hooked_step env exec t t'"
  obtain npcs c h pcs h' pcs' c' where s: "s = (npcs, c)" "t = (h, pcs, c)" "t' = (h', pcs', c')"
    using match by (cases s; cases t; cases t') (auto simp: hook_match_def)
  have m: "hooks_ok exec h H" "native_text h H M" "calloc_sound env" "\<forall>tid \<in> dom pcs. 0 \<le> sint tid" "simulates H h pcs npcs"
    "\<And>npcs' c'. (native_step exec M)\<^sup>*\<^sup>* (npcs, c) (npcs', c') \<Longrightarrow> outside_returns H npcs'"
    using match s by (auto simp: hook_match_def)
  obtain npcs' ths where n: "(native_step exec M)\<^sup>*\<^sup>* (npcs, c) (npcs', c')" "simulates H h' pcs' npcs'"
    "h' = h\<lparr>hk_threads := ths\<rparr>" "dom pcs' = dom pcs"
    using hooked_step_simulated[OF m(1-5) m(6)[OF rtranclp.rtrancl_refl]] st s by blast
  have "outside_returns H k" if "(native_step exec M)\<^sup>*\<^sup>* (npcs', c') (k, d)" for k d
    using m(6) rtranclp_trans[OF n(1) that] by blast
  then have "hook_match env exec M H (npcs', c') t'" using m(1-4) n(2-4) s(3) by (auto simp: hook_match_def)
  then show "\<exists>s'. (native_step exec M)\<^sup>*\<^sup>* s s' \<and> hook_match env exec M H s' t'" using n(1) s by blast
qed

text \<open>Progress: in a matched state no assertion of the handler fails, so a thread at mapped text can go on.\<close>

lemma hooked_progress:
  assumes match: "hook_match env exec M H (npcs, c) (h, pcs, c)" and av: "thread_avail env tid (hk_threads h)"
    and pc: "pcs tid = Some pc" "load_word pc (bs_mem (hk_bps h)) \<noteq> None"
  shows "\<exists>h' pc' c'. hooked_step env exec (h, pcs, c) (h', pcs(tid \<mapsto> pc'), c')"
proof -
  have m: "hooks_ok exec h H" "simulates H h pcs npcs" "outside_returns H npcs" "0 \<le> sint tid"
    using match pc(1) by (auto simp: hook_match_def)
  obtain i where i: "load_word pc (bs_mem (hk_bps h)) = Some i" using pc(2) by blast
  obtain f where f: "marks h f" "\<And>tid. rel_option (same_place H (f tid)) (pcs tid) (npcs tid)" using m(2) by (auto simp: simulates_def)
  obtain npc where npc: "npcs tid = Some npc" "same_place H (f tid) pc npc" using f(2)[of tid] pc(1) by (auto simp: option_rel_Some1)
  show ?thesis
  proof (cases "i = BRK_INSTR")
    case False
    obtain pc' c' where "exec tid i pc c = (pc', c')" by fastforce
    then show ?thesis using hooked_step.run[of pcs tid pc h i exec c pc' c' env] pc(1) i False by blast
  next
    case True
    have hd: "hk_handler h = Some Sigtrap" using m(1) by (simp add: hooks_ok_def)
    have "\<exists>r. sigtrap_handler env tid pc h = Some r"
    proof (cases "f tid = NULL")
      case True
      then have "pc = npc" using npc(2) by (simp add: same_place_def)
      then obtain p w j where p: "H p = Some (pc, w, j)"
        using m(1,3) i \<open>i = BRK_INSTR\<close> npc(1) unfolding hooks_ok_def outside_returns_def by blast
      show ?thesis using hooks_okD[OF m(1) p] sigtrap_first[OF f(1) m(4) av _ True] by metis
    next
      case False
      then obtain a w j where q: "H (f tid) = Some (a, w, j)" "pc = w \<or> pc = w + 4"
        using npc(2) by (auto simp: same_place_def)
      obtain mm where mm: "stop_at (hk_bps h) mm (f tid) a w j" "load_word w (bs_mem (hk_bps h)) = Some j" "relocatable exec j"
        using hooks_okD[OF m(1) q(1)] by metis
      then have "pc = w + 4" using q(2) i \<open>i = BRK_INSTR\<close> by (auto simp: relocatable_def)
      then show ?thesis using sigtrap_second[OF f(1) m(4) av mm(1)] by blast
    qed
    then show ?thesis
      using hooked_step.trap[of pcs tid pc h env _ _ exec c] pc(1) i True hd by (fastforce simp: deliver_trap_def)
  qed
qed

end
