(* ===== verification/Hooking.thy ===== *)
theory Hooking
  imports Hook_Machine
begin

text \<open>
  Hooking an address, as the constructor of \<^verbatim>\<open>hook_main.c\<close> does: a breakpoint is made, registered and
  enabled.  The invariant of the library with a set of hooks is kept, the hooks that are there are not
  disturbed, and a state with this invariant is one from which the hooked machine is simulated.
\<close>

section \<open>A new breakpoint\<close>

text \<open>What \<^verbatim>\<open>calloc\<close> promises of the block for a breakpoint: it is aligned and overlaps nothing in use.\<close>

definition bkpt_fresh :: "bp_state \<Rightarrow> addr \<Rightarrow> bool" where
  "bkpt_fresh s p \<longleftrightarrow> p \<noteq> NULL \<and> aligned p \<and> bs_bkpts s p = None \<and>
     (\<forall>e \<in> {bp_enter p, bp_return p}. e \<noteq> NULL \<and> bp_node e \<noteq> NULL \<and> bt_entries (bs_table s) e = None \<and>
        rb_nodes (bt_tree (bs_table s)) (bp_node e) = None) \<and>
     breakpoint_chain p \<noteq> NULL \<and> ob_lists (bs_objs s) (breakpoint_chain p) = None"

lemma bp_holds_extend:
  assumes h: "bp_holds s m" and r: "rb_root (bt_tree s') = rb_root (bt_tree s)"
    and n: "\<And>x. rb_nodes (bt_tree s) x \<noteq> None \<Longrightarrow> rb_nodes (bt_tree s') x = rb_nodes (bt_tree s) x"
    and e: "\<And>x. bt_entries s x \<noteq> None \<Longrightarrow> bt_entries s' x = bt_entries s x"
  shows "bp_holds s' m"
proof -
  obtain t where t: "rb_tree (bt_tree s) t" "\<forall>x \<in> set (inorder t). entry_address s x = Some (entry_key s x)"
    "bst (entry_key s) t" "m = (\<lambda>k. map_option bp_container (find_node (entry_key s) k t))"
    using bp_holdsE[OF h] .
  have "rb_nodes (bt_tree s) x \<noteq> None" if "x \<in> set (inorder t)" for x using rb_tree_member(3)[OF t(1) that] by auto
  then have "rb_tree (bt_tree s') t" by (intro rb_tree_outside_cong[OF t(1) r] n)
  moreover have same: "entry_address s' x = entry_address s x \<and> entry_key s' x = entry_key s x" if "x \<in> set (inorder t)" for x
  proof -
    have "bt_entries s (bp_container x) \<noteq> None" "bp_container x \<noteq> NULL"
      using t(2) that by (auto simp: entry_address_def load_def split: if_splits)
    then show ?thesis using e by (simp add: entry_address_def entry_key_def load_def)
  qed
  then have "map (entry_key s') (inorder t) = map (entry_key s) (inorder t)" by auto
  then have "bst (entry_key s') t" using t(3) unfolding bst_def sorted_keys_def by (simp only:)
  moreover have "find_node (entry_key s') k t = find_node (entry_key s) k t" for k
    using same by (intro find_node_cong) auto
  ultimately show ?thesis unfolding bp_holds_def using t(2,4) same by (intro exI[of _ t]) auto
qed

lemma lists_inv_extend:
  assumes inv: "lists_inv s xs B" and new: "ob_lists s c = None" and h: "\<And>p. p \<noteq> c \<Longrightarrow> h p = ob_lists s p"
  shows "lists_inv (s\<lparr>ob_lists := h\<rparr>) xs B" "unlisted s xs B c"
proof -
  have dead: "c \<notin> footprint hd ys" if "ring (ob_lists s) hd ys" for hd ys
    using ring_live[OF that, of c] new by (auto simp: live_def load_def split: if_splits)
  then show "unlisted s xs B c" using inv by (auto simp: unlisted_def lists_inv_def object_ok_def)
  have "ring h hd ys" if r: "ring (ob_lists s) hd ys" for hd ys
  proof (rule ring_cong[OF r])
    fix p
    assume "p \<in> set (hd # ys)"
    then have "p \<noteq> c" using dead[OF r] by auto
    then show "h p = ob_lists s p" by (rule h)
  qed
  then show "lists_inv (s\<lparr>ob_lists := h\<rparr>) xs B" using inv by (simp add: lists_inv_def object_ok_def)
qed

lemma aligned_fields: "aligned p \<Longrightarrow> aligned (bp_node (bp_enter p))" "aligned p \<Longrightarrow> aligned (bp_node (bp_return p))"
proof -
  have t: "aligned q \<longleftrightarrow> unat q mod 4 = 0" for q
  proof -
    have "aligned q \<longleftrightarrow> take_bit 2 q = 0" by (simp add: aligned_def take_bit_eq_mask mask_eq_exp_minus_1)
    also have "\<dots> \<longleftrightarrow> unat (take_bit 2 q) = 0" by (simp add: unat_eq_0)
    finally show ?thesis by (simp only: unsigned_take_bit_eq) (simp add: take_bit_eq_mod)
  qed
  have a: "aligned (p + c)" if "aligned p" "unat c mod 4 = 0" for c
  proof -
    have "unat (p + c) mod 4 = (unat p + unat c) mod 4" unfolding unat_word_ariths(1) by (rule mod_mod_cancel) simp
    then show ?thesis using that unfolding t by presburger
  qed
  show "aligned p \<Longrightarrow> aligned (bp_node (bp_enter p))" "aligned p \<Longrightarrow> aligned (bp_node (bp_return p))"
    using a[of 64] a[of 104] by (simp_all add: add.commute[of p] bp_enter_def bp_return_def rb_node_offset_def)
qed

text \<open>The state after \<^verbatim>\<open>breakpoint_new\<close> and the assignment of the address.\<close>

definition fresh_bkpt :: breakpoint where
  "fresh_bkpt = \<lparr>bk_lock = False, bk_attr = 0, bk_slot_set = NULL, bk_slot_index = 0, bk_obj = NULL\<rparr>"

definition bkpt_made :: "bp_state \<Rightarrow> addr \<Rightarrow> addr \<Rightarrow> list_heap \<Rightarrow> bp_state" where
  "bkpt_made s p a h = (let zero = \<lparr>rb_parent_color = 0, rb_right = NULL, rb_left = NULL\<rparr>; t = bs_table s in
     s\<lparr>bs_objs := (bs_objs s)\<lparr>ob_lists := h\<rparr>,
       bs_table := t\<lparr>bt_tree := (bt_tree t)\<lparr>rb_nodes := (rb_nodes (bt_tree t))(
           bp_node (bp_enter p) \<mapsto> rb_init_node (bp_node (bp_enter p)) zero,
           bp_node (bp_return p) \<mapsto> rb_init_node (bp_node (bp_return p)) zero)\<rparr>,
         bt_entries := (bt_entries t)(bp_enter p \<mapsto> \<lparr>be_address = a, be_bkpt = p\<rparr>, bp_return p \<mapsto> \<lparr>be_address = 0, be_bkpt = p\<rparr>)\<rparr>,
       bs_bkpts := (bs_bkpts s)(p \<mapsto> fresh_bkpt)\<rparr>)"

lemma bkpt_made_ready:
  assumes inv: "hook_inv s xs B zs m" and f: "bkpt_fresh s p"
  obtains s0 h where "breakpoint_new p s = Some (p, s0)"
    "modify (bt_entries (bs_table s0)) (bp_enter p) (\<lambda>e. e\<lparr>be_address := a\<rparr>) = Some (bt_entries (bs_table (bkpt_made s p a h)))"
    "s0\<lparr>bs_table := (bs_table s0)\<lparr>bt_entries := bt_entries (bs_table (bkpt_made s p a h))\<rparr>\<rparr> = bkpt_made s p a h"
    "hook_inv (bkpt_made s p a h) xs B zs m" "bkpt_ready (bkpt_made s p a h) p fresh_bkpt a"
    "unlisted (bs_objs (bkpt_made s p a h)) xs B (breakpoint_chain p)"
proof -
  let ?c = "breakpoint_chain p" and ?L = "ob_lists (bs_objs s)"
  let ?l = "?L(?c \<mapsto> \<lparr>lh_next = NULL, lh_prev = NULL\<rparr>)"
  have fr: "p \<noteq> NULL" "aligned p" "?c \<noteq> NULL" "?L ?c = None" "bp_enter p \<noteq> NULL" "bp_return p \<noteq> NULL"
    "bp_node (bp_enter p) \<noteq> NULL" "bp_node (bp_return p) \<noteq> NULL" using f by (simp_all add: bkpt_fresh_def)
  obtain h where h: "INIT_LIST_HEAD ?c ?l = Some h" "ring h ?c []" "relinked ?l {?c} h"
    using INIT_LIST_HEAD_ring[of ?l ?c] fr(3) by (auto simp: live_def)
  have out: "h q = ?L q" if "q \<noteq> ?c" for q using that h(3) by (simp add: relinked_def)
  let ?t = "bkpt_made s p a h"
  let ?s0 = "bkpt_made s p 0 h"
  have "lists_inv (bs_objs s) xs B" using inv by (simp add: hook_inv_def)
  note li = lists_inv_extend[OF this fr(4), of h, OF out]
  have "breakpoint_new p s = Some (p, ?s0)"
    using fr(1) h(1) by (simp add: breakpoint_new_def bkpt_made_def fresh_bkpt_def Let_def)
  moreover have "modify (bt_entries (bs_table ?s0)) (bp_enter p) (\<lambda>e. e\<lparr>be_address := a\<rparr>) = Some (bt_entries (bs_table ?t))"
    using fr(5) by (simp add: bkpt_made_def modify_def Let_def fun_upd_twist)
  moreover have "?s0\<lparr>bs_table := (bs_table ?s0)\<lparr>bt_entries := bt_entries (bs_table ?t)\<rparr>\<rparr> = ?t"
    by (simp add: bkpt_made_def Let_def)
  moreover have "bp_rel (bs_table ?t) m"
  proof -
    have "bp_holds (bs_table s) m" "\<not> breakpoint_lock (bs_table s)" using inv by (simp_all add: hook_inv_def bp_rel_def)
    moreover have "bp_holds (bs_table ?t) m"
      by (rule bp_holds_extend[OF calculation(1)]) (use f in \<open>auto simp: bkpt_made_def Let_def bkpt_fresh_def\<close>)
    ultimately show ?thesis by (simp add: bp_rel_def bkpt_made_def Let_def)
  qed
  then have "hook_inv ?t xs B zs m" using inv li(1) by (simp add: hook_inv_def bkpt_made_def Let_def)
  moreover have "RB_EMPTY_NODE n (rb_init_node n \<lparr>rb_parent_color = 0, rb_right = NULL, rb_left = NULL\<rparr>)" if "aligned n" for n
    using that by (simp add: rb_init_node_mk_node)
  then have "bkpt_ready ?t p fresh_bkpt a"
    using fr(1,5-8) aligned_fields[OF fr(2)] h(2)
    by (auto simp: bkpt_ready_def bp_ready_def owned_def bkpt_made_def Let_def fresh_bkpt_def)
  moreover have "unlisted (bs_objs ?t) xs B ?c" using li(2) by (simp add: unlisted_def bkpt_made_def Let_def)
  ultimately show thesis by (rule that)
qed

section \<open>The invariant with hooks\<close>

text \<open>The pages of the slots lie outside the texts of the objects.\<close>

definition text_apart :: "bp_state \<Rightarrow> addr list \<Rightarrow> addr list \<Rightarrow> bool" where
  "text_apart s xs zs \<longleftrightarrow> (\<forall>x \<in> set xs. \<forall>a. in_text (object_at (bs_objs s) x) a \<longrightarrow> outside_slots (bs_slots s) zs a)"

text \<open>The invariant of the library, with the enabled breakpoints \<^verbatim>\<open>H\<close>: they account for every \<^verbatim>\<open>brk\<close> in memory.\<close>

definition hooks_inv :: "bp_state \<Rightarrow> addr list \<Rightarrow> (addr \<Rightarrow> addr list) \<Rightarrow> addr list \<Rightarrow> (addr \<rightharpoonup> addr) \<Rightarrow> hooks \<Rightarrow> bool" where
  "hooks_inv s xs B zs m H \<longleftrightarrow> hook_inv s xs B zs m \<and> text_apart s xs zs \<and>
     (\<forall>p a w i. H p = Some (a, w, i) \<longrightarrow> stop_at s m p a w i \<and> load_word a (bs_mem s) = Some BRK_INSTR \<and>
        slot_at (bs_slots s) zs w \<and> outside_slots (bs_slots s) zs a) \<and>
     (\<forall>x. load_word x (bs_mem s) = Some BRK_INSTR \<longrightarrow> (\<exists>p a w i. H p = Some (a, w, i) \<and> x \<in> {a, w + 4}))"

text \<open>A hook is not disturbed by changes elsewhere.\<close>

lemma stop_at_frame:
  assumes st: "stop_at s m p a w i" and rel: "bp_rel (bs_table s') m'" "m' a = m a" "m' (w + 4) = m (w + 4)"
    and b: "bs_bkpts s' p = bs_bkpts s p" and e: "\<And>x. bt_entries (bs_table s) x \<noteq> None \<Longrightarrow> bt_entries (bs_table s') x = bt_entries (bs_table s) x"
    and ob: "ob_objects (bs_objs s') = ob_objects (bs_objs s)" and sk: "sets_kept (bs_slots s) (bs_slots s')"
    and w: "load_word w (bs_mem s') = load_word w (bs_mem s)" "load_word (w + 4) (bs_mem s') = load_word (w + 4) (bs_mem s)"
  shows "stop_at s' m' p a w i"
proof -
  obtain b ob where reg: "registered s p b a ob w i" and m: "m a = Some (bp_enter p)" "m (w + 4) = Some (bp_return p)"
    using st by (auto simp: stop_at_def)
  have ent: "bt_entries (bs_table s') x = bt_entries (bs_table s) x" if "x \<in> {bp_enter p, bp_return p}" for x
    using reg that by (intro e) (auto simp: registered_def owned_def)
  have "bkpt_at s' p b a ob"
    using reg bp_holds_linked[of "bs_table s'" m' a "bp_enter p"] rel m(1) ent b ob by (auto simp: registered_def bkpt_at_def bp_rel_def)
  moreover have "owned (bs_table s') p" using reg ent by (auto simp: registered_def owned_def)
  moreover have "slot_addr s' b = Some w"
    using reg sk by (fastforce simp: registered_def slot_addr_def load_def sets_kept_def BP_GET_SLOT_OFFSET_def split: if_splits)
  ultimately have "registered s' p b a ob w i" using reg w by (simp add: registered_def)
  then show ?thesis using rel m by (auto simp: stop_at_def)
qed

text \<open>Enabling a breakpoint: the invariant of the slots survives the change of protection of the text.\<close>

lemma slots_inv_patched:
  assumes inv: "slots_inv s zs m" and a: "load_word a (ss_mem s) \<noteq> None"
    and apart: "\<And>x. in_text ob x \<Longrightarrow> outside_slots s zs x"
  shows "slots_inv (s\<lparr>ss_mem := text_patched ob a v (ss_mem s)\<rparr>) zs m"
proof -
  have l: "load_word x (text_patched ob a v (ss_mem s)) \<noteq> None \<longleftrightarrow> load_word x (ss_mem s) \<noteq> None" for x
    using a load_word_not_NULL[OF a] by (auto simp: load_word_patched)
  have w: "mem_writable (text_patched ob a v (ss_mem s)) x" if "mem_writable (ss_mem s) x" "z \<in> set zs" "in_page (set_at s z) x" for x z
    using that apart[of x] by (auto simp: text_patched_def outside_slots_def)
  have rel: "slot_rel (s\<lparr>ss_mem := text_patched ob a v (ss_mem s)\<rparr>) zs" using inv by (simp add: slots_inv_def slot_rel_def slot_ok_def)
  show ?thesis using inv rel w by (simp add: slots_inv_def l del: not_None_eq)
qed

section \<open>Hooking an address\<close>

text \<open>The address is in the text of an object that takes breakpoints, and its protection can be changed.\<close>

definition hookable :: "environment \<Rightarrow> bp_state \<Rightarrow> addr list \<Rightarrow> (addr \<rightharpoonup> addr) \<Rightarrow> addr \<Rightarrow> addr \<Rightarrow> object \<Rightarrow> u32 \<Rightarrow> bool" where
  "hookable env s xs m a q ob instr \<longleftrightarrow> object_for (bs_objs s) xs a = Some q \<and> ob_objects (bs_objs s) q = Some ob \<and>
     \<not> object_attr_flag_NO_BKPT ob \<and> in_text ob a \<and> m a = None \<and> load_word a (bs_mem s) = Some instr \<and>
     mprotect_ok env ob True \<and> mprotect_ok env ob False"

text \<open>The allocators have what is needed.\<close>

definition no_text :: "bp_state \<Rightarrow> addr list \<Rightarrow> addr \<Rightarrow> bool" where
  "no_text s xs a \<longleftrightarrow> (\<forall>x \<in> set xs. \<not> in_text (object_at (bs_objs s) x) a)"

definition hook_blocks :: "environment \<Rightarrow> bp_state \<Rightarrow> addr list \<Rightarrow> addr list \<Rightarrow> bool" where
  "hook_blocks env s xs zs \<longleftrightarrow> bkpt_fresh s (calloc_bkpt env s) \<and>
     slot_supply (calloc_slot env) (mmap_slot env) (bs_slots s) zs (no_text s xs)"

text \<open>The memory after the call, with \<^verbatim>\<open>m\<close> the one behind the allocation of the slot: the displaced instruction and a \<^verbatim>\<open>brk\<close> in the slot, and a \<^verbatim>\<open>brk\<close> in its place.\<close>

definition hook_written :: "memory \<Rightarrow> addr \<Rightarrow> addr \<Rightarrow> u32 \<Rightarrow> memory \<Rightarrow> bool" where
  "hook_written m a w instr m' \<longleftrightarrow> (\<forall>x. load_word x m' =
     (if x = a \<or> x = w + 4 then Some BRK_INSTR else if x = w then Some instr else load_word x m))"

lemma hook_written_old:
  assumes g: "mem_grown m m1" and "hook_written m1 a w instr m'" "load_word x m' = Some BRK_INSTR" "x \<noteq> a" "x \<noteq> w + 4" "instr \<noteq> BRK_INSTR"
  shows "load_word x m = Some BRK_INSTR"
proof -
  have "load_word x m1 = Some BRK_INSTR" using assms(2-6) by (simp add: hook_written_def split: if_splits)
  moreover have "BRK_INSTR \<noteq> 0" by (simp add: BRK_INSTR_def)
  ultimately show ?thesis using g unfolding mem_grown_def by (metis option.inject)
qed

definition rest_kept :: "bp_state \<Rightarrow> addr \<Rightarrow> bp_state \<Rightarrow> bool" where
  "rest_kept s p s' \<longleftrightarrow> (\<forall>p'. p' \<noteq> p \<longrightarrow> bs_bkpts s' p' = bs_bkpts s p') \<and>
     (\<forall>e. bt_entries (bs_table s) e \<noteq> None \<longrightarrow> bt_entries (bs_table s') e = bt_entries (bs_table s) e) \<and>
     ob_objects (bs_objs s') = ob_objects (bs_objs s) \<and> objects (bs_objs s') = objects (bs_objs s) \<and>
     sets_kept (bs_slots s) (bs_slots s')"

lemma bkpt_made_simps [simp]:
  "bs_slots (bkpt_made s p a h) = bs_slots s" "ob_objects (bs_objs (bkpt_made s p a h)) = ob_objects (bs_objs s)"
  "objects (bs_objs (bkpt_made s p a h)) = objects (bs_objs s)" "object_for (bs_objs (bkpt_made s p a h)) = object_for (bs_objs s)"
  by (simp_all add: bkpt_made_def Let_def object_for_def fun_eq_iff)

lemma bkpt_made_kept:
  assumes f: "bkpt_fresh s p" and k: "others_kept (bkpt_made s p a h) p s'"
  shows "rest_kept s p s'"
proof -
  have "bs_bkpts (bkpt_made s p a h) p' = bs_bkpts s p'" if "p' \<noteq> p" for p' using that by (simp add: bkpt_made_def Let_def)
  moreover have "e \<noteq> bp_return p \<and> bt_entries (bs_table (bkpt_made s p a h)) e = bt_entries (bs_table s) e"
    if "bt_entries (bs_table s) e \<noteq> None" for e
    using that f by (auto simp: bkpt_made_def Let_def bkpt_fresh_def)
  ultimately show ?thesis using k unfolding rest_kept_def others_kept_def bkpt_made_simps by simp
qed

lemma fresh_flags: "\<not> breakpoint_attr_flag f fresh_bkpt"
  "\<not> breakpoint_attr_flag f (fresh_bkpt\<lparr>bk_slot_set := q, bk_slot_index := i, bk_obj := r\<rparr>)"
  by (simp_all add: breakpoint_attr_flag_def fresh_bkpt_def)

text \<open>The effect of enabling on what is known of a registered breakpoint.\<close>

lemma registered_enabled:
  assumes reg: "registered s p b a ob w instr" and off: "\<not> breakpoint_attr_flag BKPT_ATTR_FLAG_ENABLE b"
    and mp: "mprotect ob True" "mprotect ob False" and a: "in_text ob a" "load_word a (bs_mem s) \<noteq> None"
  obtains s' b' where "breakpoint_enable mprotect p s = Some (0, s')" "registered s' p b' a ob w instr"
    "bs_mem s' = text_patched ob a BRK_INSTR (bs_mem s)" "bs_slots s' = (bs_slots s)\<lparr>ss_mem := bs_mem s'\<rparr>"
    "bs_objs s' = bs_objs s" "bs_table s' = bs_table s" "\<And>p'. p' \<noteq> p \<Longrightarrow> bs_bkpts s' p' = bs_bkpts s p'"
proof -
  let ?b = "breakpoint_attr_set BKPT_ATTR_FLAG_ENABLE b"
  let ?s = "set_mem (text_patched ob a BRK_INSTR (bs_mem s)) (s\<lparr>bs_bkpts := (bs_bkpts s)(p \<mapsto> ?b)\<rparr>)"
  have at: "bkpt_at s p b a ob" using reg by (simp add: registered_def)
  note nn = load_word_not_NULL[OF a(2)]
  have "registered ?s p ?b a ob w instr"
    using reg by (auto simp: registered_def bkpt_at_def set_mem_def breakpoint_attr_set_def slot_addr_def load_word_patched[OF nn])
  then show thesis
    using that[of ?s ?b] breakpoint_enable_off[where mprotect = mprotect, OF at off mp a] by (simp add: set_mem_def)
qed

text \<open>The run of the calls, and what is known of the state behind it.\<close>

lemma hook_address_runs:
  fixes env :: environment and S :: bp_state and p w sset :: addr and idx :: u32 and sl :: slot_state
  defines "p \<equiv> calloc_bkpt env S" and "w \<equiv> BP_GET_SLOT_OFFSET (the (ss_sets sl sset)) idx"
  assumes inv: "hooks_inv S xs B zs m H" and S: "hk_bps s = S" and bl: "hook_blocks env S xs zs" and hk: "hookable env S xs m a q ob instr"
    and al: "slot_alloc (calloc_slot env) (mmap_slot env) (bs_slots S) = Some (sset, idx, sl)" "unat idx < 512"
  obtains s' zs' b where "hook_address env a s = Some (p, s\<lparr>hk_bps := s'\<rparr>)"
    "hook_inv s' xs (B(object_chain q := breakpoint_chain p # B (object_chain q))) zs' (m(a \<mapsto> bp_enter p, w + 4 \<mapsto> bp_return p))"
    "registered s' p b a ob w instr" "hook_written (ss_mem sl) a w instr (bs_mem s')" "rest_kept S p s'"
    "slot_granted (no_text S xs) (bs_slots S) zs (m(a \<mapsto> bp_enter p)) w sl zs'" "bs_slots s' = sl\<lparr>ss_mem := bs_mem s'\<rparr>"
proof -
  let ?B = "B(object_chain q := breakpoint_chain p # B (object_chain q))"
  have hi: "hook_inv S xs B zs m" and ta: "text_apart S xs zs" using inv by (simp_all add: hooks_inv_def)
  have fr: "bkpt_fresh S p" using bl by (simp add: hook_blocks_def p_def)
  obtain s0 h where made: "breakpoint_new p S = Some (p, s0)"
    "modify (bt_entries (bs_table s0)) (bp_enter p) (\<lambda>e. e\<lparr>be_address := a\<rparr>) = Some (bt_entries (bs_table (bkpt_made S p a h)))"
    "s0\<lparr>bs_table := (bs_table s0)\<lparr>bt_entries := bt_entries (bs_table (bkpt_made S p a h))\<rparr>\<rparr> = bkpt_made S p a h"
    "hook_inv (bkpt_made S p a h) xs B zs m" "bkpt_ready (bkpt_made S p a h) p fresh_bkpt a"
    "unlisted (bs_objs (bkpt_made S p a h)) xs B (breakpoint_chain p)"
    by (rule bkpt_made_ready[OF hi fr])
  let ?s1 = "bkpt_made S p a h"
  have q: "object_for (bs_objs S) xs a = Some q" "ob_objects (bs_objs S) q = Some ob" "\<not> object_attr_flag_NO_BKPT ob" "in_text ob a"
    "m a = None" "load_word a (bs_mem S) = Some instr" "mprotect_ok env ob True" "mprotect_ok env ob False"
    using hk by (simp_all add: hookable_def)
  have listed: "object_chain q \<in> set xs" "object_at (bs_objs S) (object_chain q) = ob"
    using object_for_listed(2)[OF _ q(1,2), of B] hi q(2) by (simp_all add: hook_inv_def)
  then have tx: "outside_slots (bs_slots S) zs x" if "in_text ob x" for x using ta that by (auto simp: text_apart_def)
  have ad: "addable ?s1 xs B zs m p fresh_bkpt a q ob instr" using made(5,6) q tx[OF q(4)] by (simp add: addable_def)
  have sup: "slot_supply (calloc_slot env) (mmap_slot env) (bs_slots S) zs (no_text S xs)" using bl by (simp add: hook_blocks_def)
  obtain s2 zs' where add: "breakpoint_add (calloc_slot env) (mmap_slot env) p ?s1 = Some (0, s2)"
    "hook_inv s2 xs ?B zs' (m(a \<mapsto> bp_enter p, w + 4 \<mapsto> bp_return p))"
    "registered s2 p (fresh_bkpt\<lparr>bk_slot_set := sset, bk_slot_index := idx, bk_obj := q\<rparr>) a ob w instr"
    "slot_written (ss_mem sl) w instr (bs_mem s2)" "others_kept ?s1 p s2"
    "slot_granted (no_text S xs) (bs_slots S) zs (m(a \<mapsto> bp_enter p)) w sl zs'" "bs_slots s2 = sl\<lparr>ss_mem := bs_mem s2\<rparr>"
    using breakpoint_add_ok[OF made(4) ad fresh_flags(1), of "calloc_slot env" "mmap_slot env" "no_text S xs" sset idx sl] sup al
    unfolding bkpt_made_simps Let_def w_def[symmetric] by blast
  note D = slot_grantedD[OF add(6)]
  have ne: "w \<noteq> a" "w + 4 \<noteq> a" using add(3) by (simp_all add: registered_def)
  have "load_word a (ss_mem sl) = Some instr" using D(4) q(6) unfolding mem_grown_def by (metis option.distinct(1))
  then have am: "load_word a (bs_mem s2) \<noteq> None" using add(4) ne by (simp add: slot_written_def)
  obtain s' b' where en: "breakpoint_enable (mprotect_ok env) p s2 = Some (0, s')" "registered s' p b' a ob w instr"
    "bs_mem s' = text_patched ob a BRK_INSTR (bs_mem s2)" "bs_slots s' = (bs_slots s2)\<lparr>ss_mem := bs_mem s'\<rparr>"
    "bs_objs s' = bs_objs s2" "bs_table s' = bs_table s2" "\<And>p'. p' \<noteq> p \<Longrightarrow> bs_bkpts s' p' = bs_bkpts s2 p'"
    by (rule registered_enabled[where mprotect = "mprotect_ok env", OF add(3) fresh_flags(2) q(7,8,4) am]) blast
  have "\<not> no_text S xs x" if "in_text ob x" for x using listed that unfolding no_text_def by blast
  then have "outside_slots sl zs' x" if "in_text ob x" for x using D(6) tx that by blast
  moreover have "ss_sets (bs_slots s2) = ss_sets sl" using arg_cong[OF add(7), of ss_sets] by simp
  ultimately have out: "outside_slots (bs_slots s2) zs' x" if "in_text ob x" for x using that unfolding outside_slots_def by metis
  have eq: "bs_slots s' = (bs_slots s2)\<lparr>ss_mem := text_patched ob a BRK_INSTR (bs_mem s2)\<rparr>" using en(4) unfolding en(3) .
  have "slots_inv (bs_slots s') zs' (m(a \<mapsto> bp_enter p, w + 4 \<mapsto> bp_return p))"
    using slots_inv_patched[OF _ am out] add(2) unfolding eq by (simp add: hook_inv_def)
  then have "hook_inv s' xs ?B zs' (m(a \<mapsto> bp_enter p, w + 4 \<mapsto> bp_return p))" using add(2) en(5,6) by (simp add: hook_inv_def)
  moreover have "hook_address env a s = Some (p, s\<lparr>hk_bps := s'\<rparr>)"
    using made(1-3) add(1) en(1) by (simp add: hook_address_def S p_def[symmetric])
  moreover have "hook_written (ss_mem sl) a w instr (bs_mem s')"
    using add(4) load_word_patched[OF load_word_not_NULL[OF am]] unfolding hook_written_def slot_written_def en(3) by simp
  moreover have "rest_kept S p s'" using bkpt_made_kept[OF fr add(5)] eq en(5-7) by (simp add: rest_kept_def sets_kept_def)
  moreover have "(bs_slots s2)\<lparr>ss_mem := v\<rparr> = sl\<lparr>ss_mem := v\<rparr>" for v using arg_cong[OF add(7), of "ss_mem_update (\<lambda>_. v)"] by simp
  then have "bs_slots s' = sl\<lparr>ss_mem := bs_mem s'\<rparr>" by (rule trans[OF en(4)])
  ultimately show thesis using that en(2) add(6) by blast
qed

text \<open>
  The invariant with hooks is kept, the new hook is one more of them, and outside the address the
  instructions of the program are what they were.
\<close>

lemma slot_not_outside: "slot_at s zs w \<Longrightarrow> \<not> outside_slots s zs w" "slot_at s zs w \<Longrightarrow> \<not> outside_slots s zs (w + 4)"
  by (auto simp: slot_at_def outside_slots_def intro!: slot_in_page bexI)

lemma hook_kept:
  assumes inv: "hooks_inv S xs B zs m H" and H: "H p' = Some (a', w', i')"
    and g: "slot_granted pg (bs_slots S) zs (m(a \<mapsto> e)) w t zs'" and sl: "bs_slots s' = t\<lparr>ss_mem := bs_mem s'\<rparr>"
    and wr: "hook_written (ss_mem t) a w instr (bs_mem s')" and k: "rest_kept S p s'" "bs_bkpts S p = None"
    and a: "m a = None" "outside_slots (bs_slots S) zs a"
    and rel: "bp_rel (bs_table s') (m(a \<mapsto> e, w + 4 \<mapsto> r))"
  shows "stop_at s' (m(a \<mapsto> e, w + 4 \<mapsto> r)) p' a' w' i' \<and> load_word a' (bs_mem s') = Some BRK_INSTR \<and>
    slot_at (bs_slots s') zs' w' \<and> outside_slots (bs_slots s') zs' a'"
proof -
  note D = slot_grantedD[OF g]
  have st: "stop_at S m p' a' w' i'" and ld: "load_word a' (bs_mem S) = Some BRK_INSTR"
    and at: "slot_at (bs_slots S) zs w'" and out: "outside_slots (bs_slots S) zs a'"
    using inv H unfolding hooks_inv_def by blast+
  have m: "m a' = Some (bp_enter p')" "m (w' + 4) = Some (bp_return p')" using st by (simp_all add: stop_at_def)
  have pp: "p' \<noteq> p" using st k(2) by (auto simp: stop_at_def registered_def bkpt_at_def)
  have mapped: "load_word w' (bs_mem S) = Some i'" "load_word (w' + 4) (bs_mem S) = Some BRK_INSTR"
    using st by (auto simp: stop_at_def registered_def)
  have keys: "a' \<noteq> a" "w' + 4 \<noteq> a" "a' \<noteq> w + 4" "w' + 4 \<noteq> w + 4" using m a(1) D(1) by (auto split: if_splits)
  have apart: "slot_words w \<inter> slot_words w' = {}" using D(7) at m(2) by simp
  have wa: "w' \<noteq> a" using slot_not_outside(1)[OF at] a(2) by auto
  have a'w: "outside_slots t zs' a'" "a' \<noteq> w" using D(5) ld out by auto
  have same: "load_word x (bs_mem s') = load_word x (bs_mem S)" if "load_word x (bs_mem S) \<noteq> None" "x \<notin> {a, w, w + 4}" for x
    using wr D(4) that unfolding hook_written_def mem_grown_def by (metis insertCI)
  have lw: "load_word w' (bs_mem s') = load_word w' (bs_mem S)" "load_word (w' + 4) (bs_mem s') = load_word (w' + 4) (bs_mem S)"
    using same mapped apart wa keys by auto
  have sets: "ss_sets (bs_slots s') = ss_sets t" using arg_cong[OF sl, of ss_sets] by simp
  have "stop_at s' (m(a \<mapsto> e, w + 4 \<mapsto> r)) p' a' w' i'"
    by (rule stop_at_frame[OF st rel]) (use keys k(1) pp lw in \<open>auto simp: rest_kept_def\<close>)
  moreover have "load_word a' (bs_mem s') = Some BRK_INSTR" using same[of a'] ld keys a'w by auto
  moreover have "slot_at (bs_slots s') zs' w'" using D(8) at unfolding slot_at_def sets by blast
  moreover have "outside_slots (bs_slots s') zs' a'" using a'w(1) unfolding outside_slots_def sets .
  ultimately show ?thesis by blast
qed

lemma hook_address_ok:
  fixes env :: environment and S :: bp_state and p w sset :: addr and idx :: u32 and sl :: slot_state
  defines "p \<equiv> calloc_bkpt env S" and "w \<equiv> BP_GET_SLOT_OFFSET (the (ss_sets sl sset)) idx"
  assumes inv: "hooks_inv S xs B zs m H" and S: "hk_bps s = S" and bl: "hook_blocks env S xs zs" and hk: "hookable env S xs m a q ob instr"
    and al: "slot_alloc (calloc_slot env) (mmap_slot env) (bs_slots S) = Some (sset, idx, sl)" "unat idx < 512"
  shows "\<exists>s' zs'. hook_address env a s = Some (p, s\<lparr>hk_bps := s'\<rparr>) \<and>
    hooks_inv s' xs (B(object_chain q := breakpoint_chain p # B (object_chain q))) zs'
      (m(a \<mapsto> bp_enter p, w + 4 \<mapsto> bp_return p)) (H(p \<mapsto> (a, w, instr))) \<and>
    hook_written (ss_mem sl) a w instr (bs_mem s') \<and> (\<exists>b. registered s' p b a ob w instr) \<and> rest_kept S p s' \<and>
    bs_slots s' = sl\<lparr>ss_mem := bs_mem s'\<rparr>"
proof -
  let ?m = "m(a \<mapsto> bp_enter p, w + 4 \<mapsto> bp_return p)"
  obtain s' zs' b where r: "hook_address env a s = Some (p, s\<lparr>hk_bps := s'\<rparr>)"
    "hook_inv s' xs (B(object_chain q := breakpoint_chain p # B (object_chain q))) zs' ?m"
    "registered s' p b a ob w instr" "hook_written (ss_mem sl) a w instr (bs_mem s')" "rest_kept S p s'"
    "slot_granted (no_text S xs) (bs_slots S) zs (m(a \<mapsto> bp_enter p)) w sl zs'" "bs_slots s' = sl\<lparr>ss_mem := bs_mem s'\<rparr>"
    unfolding p_def w_def by (rule hook_address_runs[OF inv S bl hk al])
  note D = slot_grantedD[OF r(6)]
  have fr: "bs_bkpts S p = None" using bl by (simp add: hook_blocks_def bkpt_fresh_def p_def)
  have q: "object_for (bs_objs S) xs a = Some q" "ob_objects (bs_objs S) q = Some ob" "in_text ob a" "m a = None"
    "load_word a (bs_mem S) = Some instr" using hk by (simp_all add: hookable_def)
  have ta: "text_apart S xs zs" and li: "lists_inv (bs_objs S) xs B" using inv by (simp_all add: hooks_inv_def hook_inv_def)
  have listed: "object_chain q \<in> set xs" "object_at (bs_objs S) (object_chain q) = ob"
    using object_for_listed(2)[OF li q(1,2)] q(2) by simp_all
  have out: "outside_slots (bs_slots S) zs a" using ta listed q(3) by (auto simp: text_apart_def)
  have sets: "ss_sets (bs_slots s') = ss_sets sl" using arg_cong[OF r(7), of ss_sets] by simp
  have rel: "bp_rel (bs_table s') ?m" using r(2) by (simp add: hook_inv_def)
  have ne: "w + 4 \<noteq> a" using r(3) by (simp add: registered_def)
  have apart: "text_apart s' xs zs'"
    unfolding text_apart_def
  proof (intro ballI allI impI)
    fix x y
    assume x: "x \<in> set xs" "in_text (object_at (bs_objs s') x) y"
    have ob: "ob_objects (bs_objs s') = ob_objects (bs_objs S)" using r(5) by (simp add: rest_kept_def)
    have "outside_slots (bs_slots S) zs y" "\<not> no_text S xs y"
      using x ta unfolding ob text_apart_def no_text_def by blast+
    then show "outside_slots (bs_slots s') zs' y" using D(6) unfolding outside_slots_def sets by blast
  qed
  have brk: "load_word a (bs_mem s') = Some BRK_INSTR" using r(4) by (auto simp: hook_written_def)
  have new: "stop_at s' ?m p a w instr \<and> load_word a (bs_mem s') = Some BRK_INSTR \<and> slot_at (bs_slots s') zs' w \<and> outside_slots (bs_slots s') zs' a"
  proof (intro conjI)
    show "stop_at s' ?m p a w instr" using r(3) rel ne unfolding stop_at_def by auto
    show "slot_at (bs_slots s') zs' w" using D(9) unfolding slot_at_def sets .
    show "outside_slots (bs_slots s') zs' a" using D(5) q(5) out unfolding outside_slots_def sets by auto
  qed (rule brk)
  have hooks: "stop_at s' ?m p' a' w' i' \<and> load_word a' (bs_mem s') = Some BRK_INSTR \<and> slot_at (bs_slots s') zs' w' \<and> outside_slots (bs_slots s') zs' a'"
    if "(H(p \<mapsto> (a, w, instr))) p' = Some (a', w', i')" for p' a' w' i'
    using that new hook_kept[OF inv _ r(6,7,4,5) fr q(4) out rel] by (cases "p' = p") auto
  have "\<exists>p' a' w' i'. (H(p \<mapsto> (a, w, instr))) p' = Some (a', w', i') \<and> x \<in> {a', w' + 4}" if x: "load_word x (bs_mem s') = Some BRK_INSTR" for x
  proof (cases "x = a \<or> x = w + 4")
    case False
    have old: "\<exists>p' a' w' i'. H p' = Some (a', w', i') \<and> y \<in> {a', w' + 4}" if "load_word y (bs_mem S) = Some BRK_INSTR" for y
      using inv that unfolding hooks_inv_def by blast
    have "m y \<noteq> None" if "load_word y (bs_mem S) = Some BRK_INSTR" for y
      using old[OF that] inv unfolding hooks_inv_def stop_at_def by (metis insertE option.distinct(1) singletonD)
    then have "instr \<noteq> BRK_INSTR" using q(4,5) by fastforce
    then have "load_word x (bs_mem S) = Some BRK_INSTR" using hook_written_old[OF D(4) r(4) x] False by simp
    then obtain p' a' w' i' where p': "H p' = Some (a', w', i')" "x \<in> {a', w' + 4}" using old by blast
    then have "bs_bkpts S p' \<noteq> None" using inv unfolding hooks_inv_def stop_at_def registered_def bkpt_at_def by blast
    then have "p' \<noteq> p" using fr by auto
    then show ?thesis using p' by (intro exI[of _ p'] exI[of _ a'] exI[of _ w'] exI[of _ i']) simp
  qed (auto intro!: exI[of _ p])
  then show ?thesis using r(1-5,7) apart hooks unfolding hooks_inv_def by blast
qed

section \<open>From the invariant to the simulation\<close>

lemma hooks_invD:
  assumes "hooks_inv s xs B zs m H" "H p = Some (a, w, i)"
  shows "stop_at s m p a w i" "load_word a (bs_mem s) = Some BRK_INSTR" "load_word w (bs_mem s) = Some i"
    "load_word (w + 4) (bs_mem s) = Some BRK_INSTR"
proof -
  show st: "stop_at s m p a w i" and "load_word a (bs_mem s) = Some BRK_INSTR" using assms unfolding hooks_inv_def by blast+
  show "load_word w (bs_mem s) = Some i" "load_word (w + 4) (bs_mem s) = Some BRK_INSTR"
    using st by (auto simp: stop_at_def registered_def)
qed

lemma hooks_inv_ok:
  assumes "hooks_inv (hk_bps h) xs B zs m H" "hk_handler h = Some Sigtrap" "\<And>p a w i. H p = Some (a, w, i) \<Longrightarrow> relocatable exec i"
  shows "hooks_ok exec h H"
  using assms unfolding hooks_ok_def hooks_inv_def by blast

end
