(* ===== verification/Hook_Properties.thy ===== *)
theory Hook_Properties
  imports Hooking
begin

text \<open>
  The properties of breakpoints, of the signal handlers and of the hooked program, and a small example
  of a process, on which they are applied: one object with one instruction, and one thread.
\<close>

section \<open>An example\<close>

definition sample_text :: object where
  "sample_text = \<lparr>file_name = Some ''/bin/app'', text_start = 0x400000, text_end = 0x402000, text_attr = 0xB, bpc_lock = False\<rparr>"

definition sample_boot :: bp_state where
  "sample_boot = \<lparr>bs_table = \<lparr>bt_tree = \<lparr>rb_nodes = Map.empty, rb_root = NULL\<rparr>, bt_entries = Map.empty, breakpoint_lock = False\<rparr>,
     bs_slots = sample_slots,
     bs_objs = \<lparr>ob_lists = [0x900 \<mapsto> \<lparr>lh_next = 0x1020, lh_prev = 0x1020\<rparr>, 0x1020 \<mapsto> \<lparr>lh_next = 0x900, lh_prev = 0x900\<rparr>,
         0x1030 \<mapsto> \<lparr>lh_next = 0x1030, lh_prev = 0x1030\<rparr>],
       ob_objects = [0x1000 \<mapsto> sample_text], objects = 0x900, object_lock = False\<rparr>,
     bs_bkpts = Map.empty\<rparr>"

definition sample_env :: environment where
  "sample_env = \<lparr>sigaction_ok = True, maps_opened = True, maps_reads = [(Some [], True)], maps_strndup = (\<lambda>_. True), maps_self = 0,
     calloc_objects = [], exe_malloc = True, exe_link = None, exe_strdup = True, exe_header = None,
     calloc_bkpt = (\<lambda>_. 0x8000), calloc_slot = (\<lambda>_. 0x5000), mmap_slot = (\<lambda>_. 0x10000), calloc_thread = (\<lambda>_. NULL),
     mprotect_ok = (\<lambda>_ _. True)\<rparr>"

lemma sample_apart:
  assumes "in_text sample_text a" "in_range 0x10000 (of_nat SLOT_PAGE_SIZE) a"
  shows False
proof -
  define d where "d = a - 0x400000"
  have d: "unat d < 0x2000" using assms(1) by (simp add: d_def sample_text_def in_range_def word_less_nat_alt)
  have "a - 0x10000 = d + 0x3F0000" by (simp add: d_def)
  then have "unat (d + 0x3F0000) < 0x1000" using assms(2) by (simp add: in_range_def slot_constants word_less_nat_alt add.commute[of _ d])
  moreover have "unat (d + 0x3F0000) = unat d + 0x3F0000" using d by (simp add: unat_word_ariths)
  ultimately show False by simp
qed

lemma sample_boot_inv: "hooks_inv sample_boot [0x1020] (\<lambda>_. []) [] Map.empty Map.empty"
proof -
  have "lists_inv (bs_objs sample_boot) [0x1020] (\<lambda>_. [])"
    by (simp add: lists_inv_def object_ok_def sample_boot_def ring_def nexts_def prevs_def load_def object_of_def object_bps_def sample_text_def)
  moreover have "slots_inv (bs_slots sample_boot) [] Map.empty"
    using sample_slots_ok(1) by (simp add: slots_inv_def sample_boot_def)
  moreover have "bp_rel (bs_table sample_boot) Map.empty"
    by (auto simp: bp_rel_def bp_holds_def sample_boot_def bst_def intro!: exI[of _ E] rb_tree_E)
  moreover have "load_word x (bs_mem sample_boot) \<noteq> Some BRK_INSTR" for x
    by (simp add: sample_boot_def sample_slots_def load_word_def load_def BRK_INSTR_def)
  ultimately show ?thesis by (simp add: hooks_inv_def hook_inv_def text_apart_def outside_slots_def)
qed

lemma sample_boot_blocks: "hook_blocks sample_env sample_boot [0x1020] []"
  using sample_slots_ok(2,3) sample_apart
  by (auto simp: hook_blocks_def slot_supply_def no_text_def sample_env_def bkpt_fresh_def sample_boot_def bp_enter_def bp_return_def breakpoint_chain_def
    rb_node_offset_def aligned_def object_of_def)

lemma sample_boot_hookable: "hookable sample_env sample_boot [0x1020] Map.empty 0x400DAC 0x1000 sample_text 0xD503201F"
  by (simp add: hookable_def sample_env_def object_for_def sample_boot_def sample_text_def object_of_def object_attr_flag_NO_BKPT_def
    OBJ_ATTR_FLAG_NO_BKPT_def in_range_def sample_slots_def load_word_def load_def)

lemma sample_boot_slot:
  obtains sl where "slot_alloc (calloc_slot sample_env) (mmap_slot sample_env) (bs_slots sample_boot) = Some (0x5000, 0, sl)"
    "BP_GET_SLOT_OFFSET (the (ss_sets sl 0x5000)) 0 = 0x10000"
    "ss_mem sl = map_anonymous 0x10000 (of_nat SLOT_PAGE_SIZE) (ss_mem sample_slots)"
proof -
  obtain h where h: "slot_alloc (\<lambda>_. 0x5000) (\<lambda>_. 0x10000) sample_slots = Some (0x5000, 0, sample_slots\<lparr>ss_lists := h,
      ss_sets := (ss_sets sample_slots)(0x5000 \<mapsto> take_slot 0 (fresh_set 0x10000)),
      ss_mem := map_anonymous 0x10000 (of_nat SLOT_PAGE_SIZE) (ss_mem sample_slots)\<rparr>)" (is "_ = Some (_, _, ?sl)")
    using slot_alloc_new[OF sample_slots_ok(1) _ sample_slots_ok(2,3)] by auto
  show thesis
    by (rule that[of ?sl]) (use h in \<open>simp_all add: sample_env_def sample_boot_def BP_GET_SLOT_OFFSET_def take_slot_def fresh_set_def\<close>)
qed

text \<open>The example with the address 0x400DAC hooked: slot at 0x10000, the breakpoint at 0x8000.\<close>

definition sample_hooked :: "bp_state \<Rightarrow> bool" where
  "sample_hooked s \<longleftrightarrow> (\<exists>B zs. hooks_inv s [0x1020] B zs [0x400DAC \<mapsto> bp_enter 0x8000, 0x10004 \<mapsto> bp_return 0x8000]
     [0x8000 \<mapsto> (0x400DAC, 0x10000, 0xD503201F)]) \<and>
     (\<forall>x i. load_word x (bs_mem s) = Some i \<longrightarrow> x \<in> {0x400DAC, 0x10000, 0x10004} \<or> i = 0)"

lemma sample_hookedI:
  assumes "hooks_inv s [0x1020] B zs [0x400DAC \<mapsto> bp_enter 0x8000, 0x10004 \<mapsto> bp_return 0x8000] [0x8000 \<mapsto> (0x400DAC, 0x10000, 0xD503201F)]"
    and l: "\<And>x. load_word x (bs_mem s) = (if x = 0x400DAC \<or> x = 0x10004 then Some BRK_INSTR else if x = 0x10000 then Some 0xD503201F
      else load_word x (map_anonymous 0x10000 (of_nat SLOT_PAGE_SIZE) (ss_mem sample_slots)))"
  shows "sample_hooked s"
proof -
  have "load_word x (ss_mem sample_slots) = Some i \<Longrightarrow> x = 0x400DAC" for x i
    by (auto simp: sample_slots_def load_word_def load_def split: if_splits)
  then have "x \<in> {0x400DAC, 0x10000, 0x10004} \<or> i = 0" if "load_word x (bs_mem s) = Some i" for x i
    using that l[of x] by (auto simp: load_word_map_anonymous split: if_splits)
  then show ?thesis using assms(1) unfolding sample_hooked_def by blast
qed

definition sample_start :: hook_state where
  "sample_start = \<lparr>hk_bps = sample_boot, hk_threads = sample_threads, hk_handler = Some Sigtrap, entry_bp = NULL, entry_hit = False\<rparr>"

lemma sample_start_ok:
  "hooks_inv (hk_bps sample_start) [0x1020] (\<lambda>_. []) [] Map.empty Map.empty" "hook_blocks sample_env (hk_bps sample_start) [0x1020] []"
  "hookable sample_env (hk_bps sample_start) [0x1020] Map.empty 0x400DAC 0x1000 sample_text 0xD503201F"
  "calloc_bkpt sample_env (hk_bps sample_start) = 0x8000" "hk_bps sample_start = sample_boot"
  using sample_boot_inv sample_boot_blocks sample_boot_hookable by (simp_all add: sample_start_def) (simp add: sample_env_def)

lemma sample_hooked_exists: obtains s' where "sample_hooked s'"
proof -
  obtain sl where sl: "slot_alloc (calloc_slot sample_env) (mmap_slot sample_env) (bs_slots sample_boot) = Some (0x5000, 0, sl)"
    "BP_GET_SLOT_OFFSET (the (ss_sets sl 0x5000)) 0 = 0x10000"
    "ss_mem sl = map_anonymous 0x10000 (of_nat SLOT_PAGE_SIZE) (ss_mem sample_slots)" by (rule sample_boot_slot)
  have "unat (0 :: u32) < 512" by simp
  note r = hook_address_ok[OF sample_start_ok(1) refl sample_start_ok(2,3), of "0x5000" 0 sl, unfolded sample_start_ok(5), OF sl(1) this,
      unfolded hook_written_def sl(2,3) sample_start_ok(4)[unfolded sample_start_ok(5)]]
  obtain s' B zs where "hooks_inv s' [0x1020] B zs [0x400DAC \<mapsto> bp_enter 0x8000, 0x10000 + 4 \<mapsto> bp_return 0x8000] [0x8000 \<mapsto> (0x400DAC, 0x10000, 0xD503201F)]"
    "\<forall>x. load_word x (bs_mem s') = (if x = 0x400DAC \<or> x = 0x10000 + 4 then Some BRK_INSTR else if x = 0x10000 then Some 0xD503201F
      else load_word x (map_anonymous 0x10000 (of_nat SLOT_PAGE_SIZE) (ss_mem sample_slots)))"
    using r by blast
  then show thesis using that[of s'] sample_hookedI[of s' B zs] by simp
qed

section \<open>Hooking an address\<close>

text \<open>
  C4: \<^verbatim>\<open>breakpoint_new\<close>, \<^verbatim>\<open>breakpoint_add\<close> and \<^verbatim>\<open>breakpoint_enable\<close>, as the constructor calls them on an address.  They
  return, the invariant of lists, slots, table and memory holds again with one hook more, and every
  hook that was there is still there; in memory, the instruction is replaced by a \<^verbatim>\<open>brk\<close> and its copy stands in
  a slot of its own in front of another \<^verbatim>\<open>brk\<close>.
\<close>

theorem hook_address_hooks:
  assumes "hooks_inv (hk_bps s) xs B zs m H" "hook_blocks env (hk_bps s) xs zs" "hookable env (hk_bps s) xs m a q ob instr"
    and "slot_alloc (calloc_slot env) (mmap_slot env) (bs_slots (hk_bps s)) = Some (sset, idx, sl)" "unat idx < 512"
  shows "\<exists>s' B' zs'. let p = calloc_bkpt env (hk_bps s); w = BP_GET_SLOT_OFFSET (the (ss_sets sl sset)) idx in
    hook_address env a s = Some (p, s\<lparr>hk_bps := s'\<rparr>) \<and>
    hooks_inv s' xs B' zs' (m(a \<mapsto> bp_enter p, w + 4 \<mapsto> bp_return p)) (H(p \<mapsto> (a, w, instr))) \<and>
    (\<forall>x. load_word x (bs_mem s') =
      (if x = a \<or> x = w + 4 then Some BRK_INSTR else if x = w then Some instr else load_word x (ss_mem sl)))"
  using hook_address_ok[OF assms(1) refl assms(2-5)] unfolding Let_def hook_written_def by blast

theorem hook_address_hooks_witness:
  "\<exists>s'. hook_address sample_env 0x400DAC sample_start = Some (0x8000, sample_start\<lparr>hk_bps := s'\<rparr>) \<and> sample_hooked s'"
proof -
  obtain sl where sl: "slot_alloc (calloc_slot sample_env) (mmap_slot sample_env) (bs_slots sample_boot) = Some (0x5000, 0, sl)"
    "BP_GET_SLOT_OFFSET (the (ss_sets sl 0x5000)) 0 = 0x10000"
    "ss_mem sl = map_anonymous 0x10000 (of_nat SLOT_PAGE_SIZE) (ss_mem sample_slots)" by (rule sample_boot_slot)
  have "unat (0 :: u32) < 512" by simp
  note r = hook_address_hooks[OF sample_start_ok(1-3), of "0x5000" 0 sl, unfolded sample_start_ok(5), OF sl(1) this,
      unfolded Let_def sl(2,3) sample_start_ok(4)[unfolded sample_start_ok(5)]]
  obtain s' B zs where "hook_address sample_env 0x400DAC sample_start = Some (0x8000, sample_start\<lparr>hk_bps := s'\<rparr>)"
    "hooks_inv s' [0x1020] B zs [0x400DAC \<mapsto> bp_enter 0x8000, 0x10000 + 4 \<mapsto> bp_return 0x8000] [0x8000 \<mapsto> (0x400DAC, 0x10000, 0xD503201F)]"
    "\<forall>x. load_word x (bs_mem s') = (if x = 0x400DAC \<or> x = 0x10000 + 4 then Some BRK_INSTR else if x = 0x10000 then Some 0xD503201F
      else load_word x (map_anonymous 0x10000 (of_nat SLOT_PAGE_SIZE) (ss_mem sample_slots)))"
    using r by blast
  then show ?thesis using sample_hookedI[of s' B zs] by (intro exI[of _ s']) simp
qed

section \<open>The hooked program\<close>

text \<open>Every run of the hooked machine is a run of the native one.\<close>

lemma hooked_run_simulated:
  assumes "hooks_inv (hk_bps h) xs B zs m H" "hk_handler h = Some Sigtrap" "marks h (\<lambda>_. NULL)"
    and "\<forall>p a w i. H p = Some (a, w, i) \<longrightarrow> relocatable exec i" "native_text h H M"
    and "calloc_sound env" "\<forall>tid \<in> dom pcs. 0 \<le> sint tid"
    and "\<forall>npcs d. (native_step exec M)\<^sup>*\<^sup>* (pcs, c) (npcs, d) \<longrightarrow> outside_returns H npcs"
    and "(hooked_step env exec)\<^sup>*\<^sup>* (h, pcs, c) (h', pcs', c')"
  shows "\<exists>npcs. (native_step exec M)\<^sup>*\<^sup>* (pcs, c) (npcs, c') \<and> simulates H h' pcs' npcs"
proof -
  have "hooks_ok exec h H" using hooks_inv_ok[OF assms(1,2)] assms(4) by blast
  moreover have "simulates H h pcs pcs"
    unfolding simulates_def using assms(3) by (intro exI[of _ "\<lambda>_. NULL"]) (auto simp: same_place_def option.rel_refl)
  ultimately have "hook_match env exec M H (pcs, c) (h, pcs, c)" using assms(5-8) by (simp add: hook_match_def)
  from hooks.run_simulated[OF assms(9) this] obtain npcs d where
    "(native_step exec M)\<^sup>*\<^sup>* (pcs, c) (npcs, d)" "hook_match env exec M H (npcs, d) (h', pcs', c')" by fastforce
  then show ?thesis by (auto simp: hook_match_def)
qed

text \<open>
  C2: the hooks are transparent.  Take a state with hooks on instructions that do the same anywhere, in which no
  thread is inside a slot.  However the threads are interleaved, with any number of traps, every run of the
  patched program is a run of the program as it was: it has the same effect on what the program can see, and each
  thread is where it would be without the hooks, or at the corresponding place in the slot.
\<close>

theorem hooks_transparent:
  assumes "hooks_inv (hk_bps h) xs B zs m H" "hk_handler h = Some Sigtrap" "marks h (\<lambda>_. NULL)"
    and "\<forall>p a w i. H p = Some (a, w, i) \<longrightarrow> relocatable exec i" "native_text h H M"
    and "calloc_sound env" "\<forall>tid \<in> dom pcs. 0 \<le> sint tid"
    and "\<forall>npcs d. (native_step exec M)\<^sup>*\<^sup>* (pcs, c) (npcs, d) \<longrightarrow> outside_returns H npcs"
    and "(hooked_step env exec)\<^sup>*\<^sup>* (h, pcs, c) (h', pcs', c')"
  shows "\<exists>npcs. (native_step exec M)\<^sup>*\<^sup>* (pcs, c) (npcs, c') \<and> simulates H h' pcs' npcs"
  by (rule hooked_run_simulated[OF assms])

text \<open>A processor for the example: it counts the instructions, and stops at anything but a \<^verbatim>\<open>nop\<close>.\<close>

definition sample_exec :: "nat exec" where
  "sample_exec tid i pc c = (if i = 0xD503201F then (pc + 4, c + 1) else (pc, c))"

definition sample_native :: "addr \<rightharpoonup> u32" where
  "sample_native x = (if x \<in> {0x400DAC, 0x10000} then Some 0xD503201F else if x = 0x10004 then None else Some 0)"

text \<open>The example with a thread in the table, ready to run at the hook.\<close>

definition sample_ready :: "hook_state \<Rightarrow> bool" where
  "sample_ready h \<longleftrightarrow> sample_hooked (hk_bps h) \<and> hk_handler h = Some Sigtrap \<and> thread_rel (hk_threads h) [77 \<mapsto> 0x9000] \<and>
     marks h (\<lambda>_. NULL)"

lemma sample_ready_exists: obtains h where "sample_ready h"
proof -
  obtain s' where s': "sample_hooked s'" by (rule sample_hooked_exists)
  obtain ths where t: "thread_rel ths [77 \<mapsto> 0x9000]" "tt_threads ths = tt_threads sample_threads"
    using thread_map_add_new[OF sample_threads_ok(1,2)] by auto
  let ?h = "\<lparr>hk_bps = s', hk_threads = ths, hk_handler = Some Sigtrap, entry_bp = NULL, entry_hit = False\<rparr>"
  have "step_mark ths [77 \<mapsto> 0x9000] = (\<lambda>_. NULL)" by (auto simp: step_mark_def t(2) sample_threads_def fun_eq_iff)
  then have "marks ?h (\<lambda>_. NULL)" using t(1) unfolding marks_def by (intro exI[of _ "[77 \<mapsto> 0x9000]"]) simp
  then show thesis using that[of ?h] s' t(1) by (simp add: sample_ready_def)
qed

lemma sample_ready_facts:
  assumes "sample_ready h"
  obtains B zs where "hooks_inv (hk_bps h) [0x1020] B zs [0x400DAC \<mapsto> bp_enter 0x8000, 0x10004 \<mapsto> bp_return 0x8000]
     [0x8000 \<mapsto> (0x400DAC, 0x10000, 0xD503201F)]" "native_text h [0x8000 \<mapsto> (0x400DAC, 0x10000, 0xD503201F)] sample_native"
    "relocatable sample_exec 0xD503201F" "thread_avail sample_env 77 (hk_threads h)" "calloc_sound sample_env"
proof -
  obtain B zs where inv: "hooks_inv (hk_bps h) [0x1020] B zs [0x400DAC \<mapsto> bp_enter 0x8000, 0x10004 \<mapsto> bp_return 0x8000]
     [0x8000 \<mapsto> (0x400DAC, 0x10000, 0xD503201F)]"
    and mem: "\<And>x i. load_word x (bs_mem (hk_bps h)) = Some i \<Longrightarrow> x \<in> {0x400DAC, 0x10000, 0x10004} \<or> i = 0"
    using assms by (auto simp: sample_ready_def sample_hooked_def)
  have "load_word 0x10000 (bs_mem (hk_bps h)) = Some 0xD503201F" "load_word 0x10004 (bs_mem (hk_bps h)) = Some BRK_INSTR"
    "load_word 0x400DAC (bs_mem (hk_bps h)) = Some BRK_INSTR"
    using hooks_invD(2-4)[OF inv, of "0x8000"] by simp_all
  then have "native_text h [0x8000 \<mapsto> (0x400DAC, 0x10000, 0xD503201F)] sample_native"
    using mem by (auto simp: native_text_def sample_native_def split: if_splits)
  moreover have "relocatable sample_exec 0xD503201F"
    by (auto simp: relocatable_def sample_exec_def BRK_INSTR_def intro!: exI[of _ "\<lambda>_ c. c + 1"])
  moreover have r: "thread_rel (hk_threads h) [77 \<mapsto> 0x9000]" using assms by (simp add: sample_ready_def)
  have "thread_map_find 77 (hk_threads h) = Some (0x9000, hk_threads h)" using thread_map_find_rel[OF r, of 77] by simp
  then have "thread_avail sample_env 77 (hk_threads h)" by (simp add: thread_avail_def sample_env_def current_thread_def)
  ultimately show thesis using that inv by (simp add: calloc_sound_def sample_env_def)
qed

text \<open>One passage of the thread through the hook: into the slot, over the instruction, and out of it.\<close>

lemma sample_trapped:
  obtains h t where "sample_ready h" "hk_bps t = hk_bps h" "sigtrap_handler sample_env 77 0x400DAC h = Some (0x10000, t)"
    "marks t ((\<lambda>_. NULL)(77 := 0x8000))" "thread_avail sample_env 77 (hk_threads t)"
    "hk_handler t = Some Sigtrap"
proof -
  let ?H = "[0x8000 \<mapsto> (0x400DAC, 0x10000, 0xD503201F)] :: hooks"
  obtain h where h: "sample_ready h" by (rule sample_ready_exists)
  obtain B zs where inv: "hooks_inv (hk_bps h) [0x1020] B zs [0x400DAC \<mapsto> bp_enter 0x8000, 0x10004 \<mapsto> bp_return 0x8000] ?H"
    and av: "thread_avail sample_env 77 (hk_threads h)" by (rule sample_ready_facts[OF h])
  have hd: "hk_handler h = Some Sigtrap" and mk: "marks h (\<lambda>_. NULL)" using h by (simp_all add: sample_ready_def)
  obtain t1 where t1: "sigtrap_handler sample_env 77 0x400DAC h = Some (0x10000, h\<lparr>hk_threads := t1\<rparr>)"
    "marks (h\<lparr>hk_threads := t1\<rparr>) ((\<lambda>_. NULL)(77 := 0x8000))"
    using sigtrap_first[OF mk _ av hooks_invD(1)[OF inv, of "0x8000"]] by auto
  obtain tm where tm: "thread_rel t1 tm" "step_mark t1 tm = (\<lambda>_. NULL)(77 := 0x8000)" using t1(2) by (auto simp: marks_def)
  then have "tm 77 \<noteq> None" by (auto simp: step_mark_def fun_eq_iff split: option.splits)
  then obtain t where t: "tm 77 = Some t" "t \<noteq> NULL" using thread_rel_entry[OF tm(1)] by blast
  then have "current_thread sample_env 77 t1 \<noteq> None" using thread_map_find_rel[OF tm(1), of 77] by (simp add: current_thread_def)
  then have "thread_avail sample_env 77 t1" by (simp add: thread_avail_def sample_env_def)
  then show thesis using that[OF h, of "h\<lparr>hk_threads := t1\<rparr>"] t1 hd by simp
qed

lemma sample_run:
  obtains h h' where "sample_ready h" "(hooked_step sample_env sample_exec)\<^sup>*\<^sup>* (h, [77 \<mapsto> 0x400DAC], 0) (h', [77 \<mapsto> 0x400DB0], 1)"
proof -
  let ?H = "[0x8000 \<mapsto> (0x400DAC, 0x10000, 0xD503201F)] :: hooks"
  let ?S = "hooked_step sample_env sample_exec"
  obtain h t where ht: "sample_ready h" "hk_bps t = hk_bps h" "sigtrap_handler sample_env 77 0x400DAC h = Some (0x10000, t)"
    "marks t ((\<lambda>_. NULL)(77 := 0x8000))" "thread_avail sample_env 77 (hk_threads t)" "hk_handler t = Some Sigtrap" by (rule sample_trapped)
  obtain B zs where inv: "hooks_inv (hk_bps h) [0x1020] B zs [0x400DAC \<mapsto> bp_enter 0x8000, 0x10004 \<mapsto> bp_return 0x8000] ?H"
    by (rule sample_ready_facts[OF ht(1)])
  note D = hooks_invD[OF inv, of "0x8000" "0x400DAC" "0x10000" "0xD503201F", simplified]
  obtain t2 where t2: "sigtrap_handler sample_env 77 0x10004 t = Some (0x400DB0, t\<lparr>hk_threads := t2\<rparr>)"
    using sigtrap_second[OF ht(4) _ ht(5), of _ "0x8000" "0x400DAC" "0x10000"] D(1) ht(2) by auto
  have hd: "hk_handler h = Some Sigtrap" using ht(1) by (simp add: sample_ready_def)
  have "?S (h, [77 \<mapsto> 0x400DAC], 0) (t, [77 \<mapsto> 0x400DAC, 77 \<mapsto> 0x10000], 0)"
    by (rule hooked_step.trap) (use D(2) ht(3) hd in \<open>simp_all add: deliver_trap_def\<close>)
  moreover have "?S (t, [77 \<mapsto> 0x10000], 0) (t, [77 \<mapsto> 0x10000, 77 \<mapsto> 0x10004], 1)"
    by (rule hooked_step.run[where i = "0xD503201F"]) (use D(3) ht(2) in \<open>simp_all add: sample_exec_def BRK_INSTR_def\<close>)
  moreover have "?S (t, [77 \<mapsto> 0x10004], 1) (t\<lparr>hk_threads := t2\<rparr>, [77 \<mapsto> 0x10004, 77 \<mapsto> 0x400DB0], 1)"
    by (rule hooked_step.trap) (use D(4) t2 ht(2,6) in \<open>simp_all add: deliver_trap_def\<close>)
  ultimately have "?S\<^sup>*\<^sup>* (h, [77 \<mapsto> 0x400DAC], 0) (t\<lparr>hk_threads := t2\<rparr>, [77 \<mapsto> 0x400DB0], 1)"
    unfolding fun_upd_upd by (blast intro: converse_rtranclp_into_rtranclp)
  then show thesis by (rule that[OF ht(1)])
qed

lemma sample_native_outside:
  assumes "(native_step sample_exec sample_native)\<^sup>*\<^sup>* ([77 \<mapsto> 0x400DAC], 0) t"
  shows "fst t = [77 \<mapsto> 0x400DAC] \<or> fst t = [77 \<mapsto> 0x400DB0]"
  using assms
proof (induction rule: rtranclp_induct)
  case (step t u)
  obtain pcs tid pc i c pc' c' where t: "t = (pcs, c)" "u = (pcs(tid \<mapsto> pc'), c')" "pcs tid = Some pc" "sample_native pc = Some i"
    "sample_exec tid i pc c = (pc', c')" using step(2) by (auto elim: native_step.cases)
  have "pcs = [77 \<mapsto> 0x400DAC] \<or> pcs = [77 \<mapsto> 0x400DB0]" using step(3) unfolding t(1) fst_conv .
  then show ?case using t(2-5) by (auto simp: sample_native_def sample_exec_def split: if_splits)
qed simp

lemma sample_match:
  assumes h: "sample_ready h"
  shows "hook_match sample_env sample_exec sample_native [0x8000 \<mapsto> (0x400DAC, 0x10000, 0xD503201F)] ([77 \<mapsto> 0x400DAC], 0) (h, [77 \<mapsto> 0x400DAC], 0)"
proof -
  let ?H = "[0x8000 \<mapsto> (0x400DAC, 0x10000, 0xD503201F)] :: hooks"
  obtain B zs where f: "hooks_inv (hk_bps h) [0x1020] B zs [0x400DAC \<mapsto> bp_enter 0x8000, 0x10004 \<mapsto> bp_return 0x8000] ?H"
    "native_text h ?H sample_native" "relocatable sample_exec 0xD503201F" "calloc_sound sample_env" by (rule sample_ready_facts[OF h])
  have "hooks_ok sample_exec h ?H" 
    by (rule hooks_inv_ok[OF f(1)]) (use h f(3) in \<open>auto simp: sample_ready_def split: if_splits\<close>)
  moreover have "simulates ?H h [77 \<mapsto> 0x400DAC] [77 \<mapsto> 0x400DAC]"
    unfolding simulates_def using h by (intro exI[of _ "\<lambda>_. NULL"]) (auto simp: sample_ready_def same_place_def)
  moreover have "outside_returns ?H npcs" if "(native_step sample_exec sample_native)\<^sup>*\<^sup>* ([77 \<mapsto> 0x400DAC], 0) (npcs, d)" for npcs d
    using sample_native_outside[OF that] by (auto simp: outside_returns_def split: if_splits)
  ultimately show ?thesis using f(2,4) by (auto simp: hook_match_def)
qed

theorem hooks_transparent_witness:
  "\<exists>h h' npcs. sample_ready h \<and> (hooked_step sample_env sample_exec)\<^sup>*\<^sup>* (h, [77 \<mapsto> 0x400DAC], 0) (h', [77 \<mapsto> 0x400DB0], 1) \<and>
    (native_step sample_exec sample_native)\<^sup>*\<^sup>* ([77 \<mapsto> 0x400DAC], 0) (npcs, 1) \<and>
    simulates [0x8000 \<mapsto> (0x400DAC, 0x10000, 0xD503201F)] h' [77 \<mapsto> 0x400DB0] npcs"
proof -
  let ?H = "[0x8000 \<mapsto> (0x400DAC, 0x10000, 0xD503201F)] :: hooks"
  obtain h h' where h: "sample_ready h" and run: "(hooked_step sample_env sample_exec)\<^sup>*\<^sup>* (h, [77 \<mapsto> 0x400DAC], 0) (h', [77 \<mapsto> 0x400DB0], 1)"
    by (rule sample_run)
  obtain B zs where f: "hooks_inv (hk_bps h) [0x1020] B zs [0x400DAC \<mapsto> bp_enter 0x8000, 0x10004 \<mapsto> bp_return 0x8000] ?H"
    "relocatable sample_exec 0xD503201F" by (rule sample_ready_facts[OF h])
  have m: "native_text h ?H sample_native" "calloc_sound sample_env"
    "\<forall>npcs d. (native_step sample_exec sample_native)\<^sup>*\<^sup>* ([77 \<mapsto> 0x400DAC], 0) (npcs, d) \<longrightarrow> outside_returns ?H npcs"
    using sample_match[OF h] by (simp_all add: hook_match_def)
  have "\<forall>p a w i. ?H p = Some (a, w, i) \<longrightarrow> relocatable sample_exec i" using f(2) by (simp split: if_splits)
  from hooks_transparent[OF f(1) _ _ this m(1,2) _ m(3) run] h run show ?thesis by (auto simp: sample_ready_def)
qed

text \<open>
  C7: the program does not stop at a hook.  In a state in which a thread executes mapped memory, the machine can
  make a step of this thread: when the instruction is a \<^verbatim>\<open>brk\<close>, none of the assertions of the handler fails, be it
  the trap at the hook or the one in the slot.
\<close>

theorem hooked_thread_proceeds:
  assumes "hook_match env exec M H (npcs, c) (h, pcs, c)" "thread_avail env tid (hk_threads h)"
    and "pcs tid = Some pc" "load_word pc (bs_mem (hk_bps h)) \<noteq> None"
  shows "\<exists>h' pc' c'. hooked_step env exec (h, pcs, c) (h', pcs(tid \<mapsto> pc'), c')"
  using assms by (rule hooked_progress)

theorem hooked_thread_proceeds_witness:
  "\<exists>h h' pc' c'. sample_ready h \<and> hooked_step sample_env sample_exec (h, [77 \<mapsto> 0x400DAC], 0) (h', [77 \<mapsto> 0x400DAC, 77 \<mapsto> pc'], c')"
proof -
  let ?H = "[0x8000 \<mapsto> (0x400DAC, 0x10000, 0xD503201F)] :: hooks"
  obtain h where h: "sample_ready h" by (rule sample_ready_exists)
  obtain B zs where f: "hooks_inv (hk_bps h) [0x1020] B zs [0x400DAC \<mapsto> bp_enter 0x8000, 0x10004 \<mapsto> bp_return 0x8000] ?H"
    "thread_avail sample_env 77 (hk_threads h)" by (rule sample_ready_facts[OF h])
  have "load_word 0x400DAC (bs_mem (hk_bps h)) = Some BRK_INSTR" by (rule hooks_invD(2)[OF f(1), of "0x8000" _ "0x10000" "0xD503201F"]) simp
  then have ld: "load_word 0x400DAC (bs_mem (hk_bps h)) \<noteq> None" by blast
  have "hook_match sample_env sample_exec sample_native ?H ([77 \<mapsto> 0x400DAC], 0) (h, [77 \<mapsto> 0x400DAC], 0)" by (rule sample_match[OF h])
  then have "\<exists>h' pc' c'. hooked_step sample_env sample_exec (h, [77 \<mapsto> 0x400DAC], 0) (h', [77 \<mapsto> 0x400DAC, 77 \<mapsto> pc'], c')"
    by (rule hooked_thread_proceeds[OF _ f(2) _ ld]) simp
  then show ?thesis using h by blast
qed

section \<open>The signal handlers\<close>

text \<open>
  The two traps of a breakpoint.  At the hook, \<^verbatim>\<open>sigtrap_handler\<close> sends the thread to the slot and marks it; at the
  end of the slot it sends the same thread to the instruction behind the hook and removes the mark.  Between
  the two, other threads may come and go; their marks are not touched, nor is any breakpoint.
\<close>

theorem trap_cycle:
  assumes "stop_at (hk_bps s) m p a w instr" "0 \<le> sint tid" "marks s f" "f tid = NULL" "thread_avail env tid (hk_threads s)"
    and "marks t g" "g tid = p" "thread_avail env tid (hk_threads t)" "hk_bps t = hk_bps s"
  shows "(\<exists>ths. sigtrap_handler env tid a s = Some (w, s\<lparr>hk_threads := ths\<rparr>) \<and> marks (s\<lparr>hk_threads := ths\<rparr>) (f(tid := p))) \<and>
    (\<exists>ths. sigtrap_handler env tid (w + 4) t = Some (a + 4, t\<lparr>hk_threads := ths\<rparr>) \<and> marks (t\<lparr>hk_threads := ths\<rparr>) (g(tid := NULL)))"
  using sigtrap_first[OF assms(3,2,5,1,4)] sigtrap_second[OF assms(6,2,8) _ assms(7), of m a w instr] assms(1,9) by simp

theorem trap_cycle_witness:
  "\<exists>h t ths. sigtrap_handler sample_env 77 0x400DAC h = Some (0x10000, t) \<and> sigtrap_handler sample_env 77 0x10004 t = Some (0x400DB0, t\<lparr>hk_threads := ths\<rparr>)"
proof -
  obtain h t where ht: "sample_ready h" "hk_bps t = hk_bps h" "sigtrap_handler sample_env 77 0x400DAC h = Some (0x10000, t)"
    "marks t ((\<lambda>_. NULL)(77 := 0x8000))" "thread_avail sample_env 77 (hk_threads t)" by (rule sample_trapped)
  obtain B zs where f: "hooks_inv (hk_bps h) [0x1020] B zs [0x400DAC \<mapsto> bp_enter 0x8000, 0x10004 \<mapsto> bp_return 0x8000]
      [0x8000 \<mapsto> (0x400DAC, 0x10000, 0xD503201F)]" "thread_avail sample_env 77 (hk_threads h)" by (rule sample_ready_facts[OF ht(1)])
  have st: "stop_at (hk_bps h) [0x400DAC \<mapsto> bp_enter 0x8000, 0x10004 \<mapsto> bp_return 0x8000] 0x8000 0x400DAC 0x10000 0xD503201F"
    using hooks_invD(1)[OF f(1), of "0x8000"] by simp
  have "marks h (\<lambda>_. NULL)" using ht(1) by (simp add: sample_ready_def)
  from trap_cycle[OF st _ this _ f(2) ht(4) _ ht(5,2)] ht(3) show ?thesis by auto
qed

text \<open>
  C8: the two traps at the entry point of the program.  At the first, \<^verbatim>\<open>entrypoint_trap_handler\<close> reads the memory map again
  and sends the thread to the slot of the entry breakpoint; at the second it installs the handler of breakpoints
  and sends the thread behind the entry point.  Neither looks at the address \<^verbatim>\<open>pc\<close> at which the thread trapped: until
  the second trap, a thread at any other \<^verbatim>\<open>brk\<close> is sent to the entry point, too.
\<close>

theorem entry_point_phases:
  assumes "0 \<le> sint tid" "sigaction_ok env" "entry_bp s = p" "entry_bp t = p"
    and "marks s f" "thread_avail env tid (hk_threads s)" "\<not> entry_hit s" "registered (hk_bps s) p b a ob w instr"
    and "object_load (maps_opened env) (maps_reads env) (maps_strndup env) (maps_self env) (calloc_objects env) (bs_objs (hk_bps s)) = Some objs"
    and "marks t g" "thread_avail env tid (hk_threads t)" "entry_hit t" "registered (hk_bps t) p b' a ob' w instr"
  shows "(\<exists>ths. let s' = s\<lparr>hk_threads := ths, hk_bps := (hk_bps s)\<lparr>bs_objs := objs\<rparr>, entry_hit := True\<rparr> in
      entrypoint_trap_handler env tid pc s = Some (w, s') \<and> marks s' (f(tid := p))) \<and>
    (\<exists>ths. let t' = t\<lparr>hk_threads := ths, hk_handler := Some Sigtrap\<rparr> in
      entrypoint_trap_handler env tid pc t = Some (a + 4, t') \<and> marks t' (g(tid := NULL)))"
  using entry_first[OF assms(5,1,6,7,3,8,9)] entry_second[OF assms(10,1,11,12,2,4,13)] by blast

theorem entry_point_phases_witness:
  "\<exists>h t u. entry_bp h = 0x8000 \<and> \<not> entry_hit h \<and> entrypoint_trap_handler sample_env 77 0x400DAC h = Some (0x10000, t) \<and>
    entrypoint_trap_handler sample_env 77 0x400DAC (t\<lparr>hk_threads := hk_threads h\<rparr>) = Some (0x400DB0, u) \<and> hk_handler u = Some Sigtrap"
proof -
  obtain g where g: "sample_ready g" by (rule sample_ready_exists)
  let ?h = "g\<lparr>hk_handler := Some Entrypoint_Trap, entry_bp := 0x8000, entry_hit := False\<rparr>"
  let ?t = "?h\<lparr>entry_hit := True\<rparr>"
  obtain B zs where f: "hooks_inv (hk_bps g) [0x1020] B zs [0x400DAC \<mapsto> bp_enter 0x8000, 0x10004 \<mapsto> bp_return 0x8000]
      [0x8000 \<mapsto> (0x400DAC, 0x10000, 0xD503201F)]" "thread_avail sample_env 77 (hk_threads g)" by (rule sample_ready_facts[OF g])
  obtain b ob where reg: "registered (hk_bps g) 0x8000 b 0x400DAC ob 0x10000 0xD503201F"
    using hooks_invD(1)[OF f(1), of "0x8000"] by (auto simp: stop_at_def)
  have mk: "marks ?h (\<lambda>_. NULL)" "marks ?t (\<lambda>_. NULL)" using g by (simp_all add: sample_ready_def marks_def)
  have ld: "object_load (maps_opened sample_env) (maps_reads sample_env) (maps_strndup sample_env) (maps_self sample_env) (calloc_objects sample_env)
      (bs_objs (hk_bps ?h)) = Some (bs_objs (hk_bps g))"
    by (simp add: sample_env_def object_load_def object_get_mmap_def object_parse_mmap.simps)
  have h: "0 \<le> sint (77 :: 32 word)" "sigaction_ok sample_env" "entry_bp ?h = 0x8000" "entry_bp ?t = 0x8000"
    "thread_avail sample_env 77 (hk_threads ?h)" "\<not> entry_hit ?h" "registered (hk_bps ?h) 0x8000 b 0x400DAC ob 0x10000 0xD503201F"
    "thread_avail sample_env 77 (hk_threads ?t)" "entry_hit ?t" "registered (hk_bps ?t) 0x8000 b 0x400DAC ob 0x10000 0xD503201F"
    using f(2) reg by (simp_all add: sample_env_def)
  note r = entry_point_phases[where pc = "0x400DAC", OF h(1-4) mk(1) h(5-7) ld mk(2) h(8-10), unfolded Let_def]
  obtain ths where "entrypoint_trap_handler sample_env 77 0x400DAC ?h =
      Some (0x10000, ?h\<lparr>hk_threads := ths, hk_bps := (hk_bps ?h)\<lparr>bs_objs := bs_objs (hk_bps g)\<rparr>, entry_hit := True\<rparr>)" using r by blast
  moreover obtain us where "entrypoint_trap_handler sample_env 77 0x400DAC ?t = Some (0x400DAC + 4, ?t\<lparr>hk_threads := us, hk_handler := Some Sigtrap\<rparr>)"
    using r by blast
  ultimately show ?thesis
    by (intro exI[of _ ?h] exI[of _ "?t\<lparr>hk_threads := ths\<rparr>"] exI[of _ "?t\<lparr>hk_threads := us, hk_handler := Some Sigtrap\<rparr>"]) simp
qed

section \<open>Breakpoints\<close>

text \<open>A breakpoint of the example, made for an address but not yet registered.\<close>

lemma sample_made:
  obtains s where "hook_inv s [0x1020] (\<lambda>_. []) [] Map.empty" "bkpt_ready s 0x8000 fresh_bkpt a"
    "unlisted (bs_objs s) [0x1020] (\<lambda>_. []) (breakpoint_chain 0x8000)" "bs_slots s = sample_slots"
    "ob_objects (bs_objs s) = [0x1000 \<mapsto> sample_text]" "object_for (bs_objs s) = object_for (bs_objs sample_boot)"
proof -
  have "hook_inv sample_boot [0x1020] (\<lambda>_. []) [] Map.empty" "bkpt_fresh sample_boot 0x8000"
    using sample_boot_inv sample_boot_blocks by (simp_all add: hooks_inv_def hook_blocks_def sample_env_def)
  then obtain s0 h where "hook_inv (bkpt_made sample_boot 0x8000 a h) [0x1020] (\<lambda>_. []) [] Map.empty"
    "bkpt_ready (bkpt_made sample_boot 0x8000 a h) 0x8000 fresh_bkpt a"
    "unlisted (bs_objs (bkpt_made sample_boot 0x8000 a h)) [0x1020] (\<lambda>_. []) (breakpoint_chain 0x8000)"
    by (rule bkpt_made_ready)
  then show thesis by (rule that) (simp_all add: sample_boot_def)
qed

lemma sample_addable:
  obtains s where "hook_inv s [0x1020] (\<lambda>_. []) [] Map.empty" "bs_slots s = sample_slots"
    "addable s [0x1020] (\<lambda>_. []) [] Map.empty 0x8000 fresh_bkpt 0x400DAC 0x1000 sample_text 0xD503201F"
proof -
  obtain s where s: "hook_inv s [0x1020] (\<lambda>_. []) [] Map.empty" "bkpt_ready s 0x8000 fresh_bkpt 0x400DAC"
    "unlisted (bs_objs s) [0x1020] (\<lambda>_. []) (breakpoint_chain 0x8000)" "bs_slots s = sample_slots"
    "ob_objects (bs_objs s) = [0x1000 \<mapsto> sample_text]" "object_for (bs_objs s) = object_for (bs_objs sample_boot)"
    by (rule sample_made)
  have "addable s [0x1020] (\<lambda>_. []) [] Map.empty 0x8000 fresh_bkpt 0x400DAC 0x1000 sample_text 0xD503201F"
    using s(2-6) sample_boot_hookable by (simp add: addable_def hookable_def outside_slots_def sample_boot_def)
  then show thesis using that s(1,4) by blast
qed

text \<open>
  C10: the refusals of \<^verbatim>\<open>breakpoint_add\<close>.  It returns -1 when the address is in no object, -2 when the object admits no
  breakpoints and -3 when there is a breakpoint at the address already, and leaves the state as it was each time.
\<close>

theorem breakpoint_add_refusals:
  assumes "bkpt_ready s p b a" "object_ok (bs_objs s) xs" "bp_rel (bs_table s) m"
  shows "case object_for (bs_objs s) xs a of
      None \<Rightarrow> breakpoint_add calloc mmap p s = Some (-1, s)
    | Some q \<Rightarrow> if object_attr_flag_NO_BKPT (the (ob_objects (bs_objs s) q)) then breakpoint_add calloc mmap p s = Some (-2, s)
        else m a = None \<or> breakpoint_add calloc mmap p s = Some (-3, s)"
proof (cases "object_for (bs_objs s) xs a")
  case (Some q)
  then obtain ob where "ob_objects (bs_objs s) q = Some ob" using object_for_Some[OF assms(2)] by metis
  then show ?thesis
    using breakpoint_add_refused(2,3)[OF assms Some, of ob calloc mmap] Some by (cases "m a") simp_all
qed (use breakpoint_add_refused(1)[OF assms] in simp)

theorem breakpoint_add_refusals_witness: "\<exists>s. breakpoint_add (\<lambda>_. NULL) (\<lambda>_. NULL) 0x8000 s = Some (-1, s)"
proof -
  obtain s where s: "hook_inv s [0x1020] (\<lambda>_. []) [] Map.empty" "bkpt_ready s 0x8000 fresh_bkpt 0x500000"
    "object_for (bs_objs s) = object_for (bs_objs sample_boot)" by (rule sample_made)
  have "object_ok (bs_objs s) [0x1020]" "bp_rel (bs_table s) Map.empty" using s(1) by (simp_all add: hook_inv_def lists_inv_def)
  moreover have "object_for (bs_objs s) [0x1020] 0x500000 = None"
    by (simp add: s(3)) (simp add: object_for_def sample_boot_def sample_text_def object_of_def)
  ultimately show ?thesis using breakpoint_add_refusals[OF s(2), of "[0x1020]" Map.empty "\<lambda>_. NULL" "\<lambda>_. NULL"] by auto
qed

text \<open>
  C9: enabling and disabling.  \<^verbatim>\<open>breakpoint_enable\<close> puts a \<^verbatim>\<open>brk\<close> at the address of a registered breakpoint, a second call
  does nothing, \<^verbatim>\<open>breakpoint_disable\<close> takes the instruction back from the slot, so that all words of the memory and the
  breakpoint are as they were, and a second call of it does nothing either.
\<close>

theorem breakpoint_enable_disable:
  assumes "registered s p b a ob w instr" "\<not> breakpoint_attr_flag BKPT_ATTR_FLAG_ENABLE b"
    and "load_word a (bs_mem s) = Some instr" "in_text ob a" "mprotect ob True" "mprotect ob False"
  shows "\<exists>s' s''. breakpoint_enable mprotect p s = Some (0, s') \<and> load_word a (bs_mem s') = Some BRK_INSTR \<and>
    breakpoint_enable mprotect p s' = Some (0, s') \<and> breakpoint_disable mprotect p s' = Some (0, s'') \<and>
    (\<forall>x. load_word x (bs_mem s'') = load_word x (bs_mem s)) \<and> bs_bkpts s'' = bs_bkpts s \<and> breakpoint_disable mprotect p s'' = Some (0, s'')"
proof -
  have a: "load_word a (bs_mem s) \<noteq> None" "a \<noteq> NULL" using assms(3) by (auto simp: load_word_def)
  let ?b = "breakpoint_attr_set BKPT_ATTR_FLAG_ENABLE b"
  let ?s = "set_mem (text_patched ob a BRK_INSTR (bs_mem s)) (s\<lparr>bs_bkpts := (bs_bkpts s)(p \<mapsto> ?b)\<rparr>)"
  let ?t = "set_mem (text_patched ob a instr (bs_mem ?s)) (?s\<lparr>bs_bkpts := (bs_bkpts ?s)(p \<mapsto> breakpoint_attr_clr BKPT_ATTR_FLAG_ENABLE ?b)\<rparr>)"
  have at: "bkpt_at s p b a ob" and sl: "slot_addr s b = Some w" "w \<noteq> a" "load_word w (bs_mem s) = Some instr"
    using assms(1) by (simp_all add: registered_def)
  have b: "breakpoint_attr_clr BKPT_ATTR_FLAG_ENABLE ?b = b"
    using assms(2) flag_set_clear[of "bk_attr b"]
    by (cases b) (simp add: breakpoint_attr_set_def breakpoint_attr_clr_def breakpoint_attr_flag_def BKPT_ATTR_FLAG_ENABLE_def)
  have on: "breakpoint_attr_flag BKPT_ATTR_FLAG_ENABLE ?b"
    by (simp add: breakpoint_attr_set_def breakpoint_attr_flag_def BKPT_ATTR_FLAG_ENABLE_def flag_set_test)
  have at1: "bkpt_at ?s p ?b a ob" using at by (auto simp: bkpt_at_def set_mem_def breakpoint_attr_set_def)
  have mem: "bs_mem ?s = text_patched ob a BRK_INSTR (bs_mem s)" by (simp add: set_mem_def)
  have sl1: "slot_addr ?s ?b = Some w" "load_word w (bs_mem ?s) = Some instr"
    using sl unfolding mem load_word_patched[OF a(2)] by (simp_all add: slot_addr_def set_mem_def breakpoint_attr_set_def)
  have brk: "load_word a (bs_mem ?s) = Some BRK_INSTR" unfolding mem load_word_patched[OF a(2)] by simp
  have words: "load_word x (bs_mem ?t) = load_word x (bs_mem s)" for x
    using assms(3) by (simp add: set_mem_def load_word_patched[OF a(2)])
  have same: "bs_bkpts ?t = bs_bkpts s" using at by (simp add: set_mem_def b bkpt_at_def fun_upd_idem)
  have "bkpt_at ?t p b a ob" using at b by (auto simp: bkpt_at_def set_mem_def)
  then have "breakpoint_disable mprotect p ?t = Some (0, ?t)" using assms(2) by (rule breakpoint_disable_off)
  moreover have "breakpoint_enable mprotect p s = Some (0, ?s)"
    by (rule breakpoint_enable_off[OF at assms(2)]) (use assms(4-6) a in auto)
  moreover have "breakpoint_enable mprotect p ?s = Some (0, ?s)" by (rule breakpoint_enable_on[OF at1 on])
  moreover have "breakpoint_disable mprotect p ?s = Some (0, ?t)"
    by (rule breakpoint_disable_on[OF at1 on _ _ assms(4) _ sl1]) (use assms(5,6) brk in auto)
  ultimately show ?thesis using brk words same by blast
qed

theorem breakpoint_enable_disable_witness:
  "\<exists>s s' s''. breakpoint_enable (\<lambda>_ _. True) 0x8000 s = Some (0, s') \<and> load_word 0x400DAC (bs_mem s') = Some BRK_INSTR \<and>
    breakpoint_disable (\<lambda>_ _. True) 0x8000 s' = Some (0, s'') \<and> load_word 0x400DAC (bs_mem s'') = Some 0xD503201F"
proof -
  obtain s where s: "hook_inv s [0x1020] (\<lambda>_. []) [] Map.empty" "bs_slots s = sample_slots"
    "addable s [0x1020] (\<lambda>_. []) [] Map.empty 0x8000 fresh_bkpt 0x400DAC 0x1000 sample_text 0xD503201F" by (rule sample_addable)
  obtain sl where sl: "slot_alloc (\<lambda>_. 0x5000) (\<lambda>_. 0x10000) sample_slots = Some (0x5000, 0, sl)"
    "BP_GET_SLOT_OFFSET (the (ss_sets sl 0x5000)) 0 = 0x10000"
    "ss_mem sl = map_anonymous 0x10000 (of_nat SLOT_PAGE_SIZE) (ss_mem sample_slots)"
    by (rule sample_boot_slot) (simp add: sample_env_def sample_boot_def)
  have "unat (0 :: u32) < 512" by simp
  then obtain t where t: "registered t 0x8000 (fresh_bkpt\<lparr>bk_slot_set := 0x5000, bk_slot_index := 0, bk_obj := 0x1000\<rparr>) 0x400DAC sample_text 0x10000 0xD503201F"
    "slot_written (ss_mem sl) 0x10000 0xD503201F (bs_mem t)"
    using breakpoint_add_ok[OF s(1,3) fresh_flags(1), of "\<lambda>_. 0x5000" "\<lambda>_. 0x10000" "\<lambda>_. True" "0x5000" 0 sl] sl(1) sample_slots_ok(2,3)
    unfolding s(2) Let_def sl(2) slot_supply_def by blast
  have a: "load_word 0x400DAC (bs_mem t) = Some 0xD503201F"
    using t(2) unfolding slot_written_def sl(3) by (simp add: load_word_map_anonymous word_in_range_def in_range_def slot_constants)
      (simp add: sample_slots_def load_word_def load_def)
  have "in_text sample_text 0x400DAC" by (simp add: sample_text_def in_range_def)
  from breakpoint_enable_disable[where mprotect = "\<lambda>_ _. True", OF t(1) fresh_flags(2) a this] a show ?thesis by metis
qed

text \<open>
  C37: a breakpoint with the attribute \<^verbatim>\<open>NO_SLOT\<close> is registered and enabled without an error, but \<^verbatim>\<open>breakpoint_disable\<close> does not
  look at the attribute: it takes the instruction from the slot that the breakpoint does not have, through the
  null pointer.
\<close>

theorem no_slot_breakpoint_crashes:
  assumes "hook_inv s xs B zs m" "addable s xs B zs m p b a q ob instr"
    and "breakpoint_attr_flag BKPT_ATTR_FLAG_NO_SLOT b" "\<not> breakpoint_attr_flag BKPT_ATTR_FLAG_ENABLE b" "bk_slot_set b = NULL"
    and "in_text ob a" "mprotect ob True" "mprotect ob False"
  shows "\<exists>s' s''. breakpoint_add calloc mmap p s = Some (0, s') \<and> breakpoint_enable mprotect p s' = Some (0, s'') \<and>
    breakpoint_disable mprotect p s'' = None"
proof -
  let ?b = "b\<lparr>bk_obj := q\<rparr>" let ?c = "breakpoint_attr_set BKPT_ATTR_FLAG_ENABLE ?b"
  obtain s' where s': "breakpoint_add calloc mmap p s = Some (0, s')" "bkpt_at s' p ?b a ob" "bs_slots s' = bs_slots s"
    using breakpoint_add_no_slot[OF assms(1-3)] by blast
  let ?s = "set_mem (text_patched ob a BRK_INSTR (bs_mem s')) (s'\<lparr>bs_bkpts := (bs_bkpts s')(p \<mapsto> ?c)\<rparr>)"
  have off: "\<not> breakpoint_attr_flag BKPT_ATTR_FLAG_ENABLE ?b" using assms(4) by (simp add: breakpoint_attr_flag_def)
  have "load_word a (bs_mem s') \<noteq> None" using assms(2) s'(3) by (simp add: addable_def)
  then have "breakpoint_enable mprotect p s' = Some (0, ?s)"
    by (intro breakpoint_enable_off[OF s'(2) off]) (use assms(6-8) in auto)
  moreover have "bkpt_at ?s p ?c a ob" using s'(2) by (auto simp: bkpt_at_def set_mem_def breakpoint_attr_set_def)
  then have "breakpoint_disable mprotect p ?s = None"
    by (rule breakpoint_disable_no_slot)
      (use assms(5) in \<open>simp_all add: breakpoint_attr_set_def breakpoint_attr_flag_def BKPT_ATTR_FLAG_ENABLE_def flag_set_test\<close>)
  ultimately show ?thesis using s'(1) by blast
qed

theorem no_slot_breakpoint_crashes_witness:
  "\<exists>s s' s''. breakpoint_add (\<lambda>_. NULL) (\<lambda>_. NULL) 0x8000 s = Some (0, s') \<and> breakpoint_enable (\<lambda>_ _. True) 0x8000 s' = Some (0, s'') \<and>
    breakpoint_disable (\<lambda>_ _. True) 0x8000 s'' = None"
proof -
  let ?b = "breakpoint_attr_set BKPT_ATTR_FLAG_NO_SLOT fresh_bkpt"
  obtain s where s: "hook_inv s [0x1020] (\<lambda>_. []) [] Map.empty"
    "addable s [0x1020] (\<lambda>_. []) [] Map.empty 0x8000 fresh_bkpt 0x400DAC 0x1000 sample_text 0xD503201F" by (rule sample_addable)
  let ?s = "s\<lparr>bs_bkpts := (bs_bkpts s)(0x8000 \<mapsto> ?b)\<rparr>"
  have "hook_inv ?s [0x1020] (\<lambda>_. []) [] Map.empty" using s(1) by (simp add: hook_inv_def)
  moreover have "addable ?s [0x1020] (\<lambda>_. []) [] Map.empty 0x8000 ?b 0x400DAC 0x1000 sample_text 0xD503201F"
    using s(2) by (simp add: addable_def bkpt_ready_def breakpoint_attr_set_def fresh_bkpt_def)
  moreover have "breakpoint_attr_flag BKPT_ATTR_FLAG_NO_SLOT ?b" "\<not> breakpoint_attr_flag BKPT_ATTR_FLAG_ENABLE ?b" "bk_slot_set ?b = NULL"
    by (simp_all add: breakpoint_attr_flag_def breakpoint_attr_set_def fresh_bkpt_def BKPT_ATTR_FLAG_NO_SLOT_def BKPT_ATTR_FLAG_ENABLE_def)
  moreover have "in_text sample_text 0x400DAC" by (simp add: sample_text_def in_range_def)
  ultimately show ?thesis
    using no_slot_breakpoint_crashes[where mprotect = "\<lambda>_ _. True", of ?s "[0x1020]" "\<lambda>_. []" "[]" Map.empty "0x8000" ?b "0x400DAC" "0x1000" sample_text "0xD503201F"
      "\<lambda>_. NULL" "\<lambda>_. NULL"] by blast
qed

text \<open>
  C36: when the 512 slots of the page of a set are in use, the next one that \<^verbatim>\<open>slot_alloc\<close> hands out lies behind the page.
  Unless something else is mapped there, \<^verbatim>\<open>breakpoint_add\<close> ends the process when it copies the instruction.
\<close>

theorem breakpoint_add_behind_page:
  assumes "hook_inv s xs B zs m" "addable s xs B zs m p b a q ob instr" "\<not> breakpoint_attr_flag BKPT_ATTR_FLAG_NO_SLOT b"
    and "zs = z # zs'" "\<forall>i < 512. i \<notin> free_at (bs_slots s) z" "512 \<in> free_at (bs_slots s) z"
    and "load_word (ss_slots (set_at (bs_slots s) z) + 4096) (bs_mem s) = None"
  shows "breakpoint_add calloc mmap p s = None"
proof -
  let ?S = "bs_slots s" and ?ss = "set_at (bs_slots s) z"
  have rel: "slot_rel ?S zs" using assms(1) by (simp add: hook_inv_def slots_inv_def)
  have "Min (free_at ?S z) = 512" using assms(5,6) by (intro Min_eqI) (auto simp: not_less[symmetric])
  moreover have "List.find (\<lambda>x. free_at ?S x \<noteq> {}) zs = Some z" using assms(4,6) by auto
  ultimately have al: "slot_alloc calloc mmap ?S = Some (slot_set_of z, of_nat 512, ?S\<lparr>ss_sets := (ss_sets ?S)(slot_set_of z \<mapsto> take_slot 512 ?ss)\<rparr>)"
    using slot_alloc_found[OF rel] by metis
  have "slot_word (take_slot 512 ?ss) 512 = ss_slots ?ss + 4096" by (simp add: slot_word_def)
  then have "BP_GET_SLOT_OFFSET (take_slot 512 ?ss) (of_nat 512) = ss_slots ?ss + 4096" using slot_offset[of 512 "take_slot 512 ?ss"] by simp
  then show ?thesis using assms(7) by (intro breakpoint_add_unmapped[OF assms(1-3) al, of "take_slot 512 ?ss"]) simp_all
qed

text \<open>A set whose page is used up.\<close>

definition sample_half_set :: slot_set where
  "sample_half_set = \<lparr>free_slot = replicate 16 0 @ replicate 16 (-1), used_slot_count = 512, ss_slots = 0x10000, ss_lock = False\<rparr>"

definition sample_full_page :: slot_state where
  "sample_full_page = sample_one_set\<lparr>ss_sets := [0x5000 \<mapsto> sample_half_set],
     ss_mem := map_anonymous 0x10000 (of_nat SLOT_PAGE_SIZE) (ss_mem sample_slots)\<rparr>"

lemma sample_full_page_set: "ss_sets sample_full_page (slot_set_of 0x50C0) = Some sample_half_set" "ss_slots sample_half_set = 0x10000"
  "ss_mem sample_full_page = map_anonymous 0x10000 (of_nat SLOT_PAGE_SIZE) (ss_mem sample_slots)"
  by (simp_all add: sample_full_page_def slot_set_of_def sample_half_set_def)

lemma nth_replicates: "k < n + l \<Longrightarrow> (replicate n x @ replicate l y) ! k = (if k < n then x else y)"
  by (auto simp: nth_append)

lemma sample_half_free: "free_set (free_slot sample_half_set) = {512..<1024}"
proof -
  have "free_bit (free_slot sample_half_set) i \<longleftrightarrow> 512 \<le> i \<and> i < 1024" for i
  proof (cases "i < 1024")
    case True
    then have "free_slot sample_half_set ! (i div 32) = (if i div 32 < 16 then 0 else -1)"
      unfolding sample_half_set_def slot_set.simps by (intro nth_replicates) simp
    moreover have "i div 32 < 16 \<longleftrightarrow> i < 512" by auto
    ultimately show ?thesis using True by (simp add: free_bit_def slot_constants bit_simps not_less)
  qed (simp add: free_bit_def slot_constants)
  then show ?thesis by (intro set_eqI) (simp only: free_set_def mem_Collect_eq atLeastLessThan_iff)
qed

lemma sample_full_page_inv: "slots_inv sample_full_page [0x50C0] Map.empty"
proof -
  have "set_ok sample_half_set"
    unfolding set_ok_def sample_half_free card_atLeastLessThan by (simp add: sample_half_set_def slot_constants)
  then have "slot_rel sample_full_page [0x50C0]"
    by (simp add: slot_rel_def slot_ok_def sample_full_page_def sample_one_set_def ring_def nexts_def prevs_def load_def slot_set_of_def)
  moreover have "load_word a (ss_mem sample_full_page) \<noteq> None \<and> mem_writable (ss_mem sample_full_page) a" if a: "in_page sample_half_set a" for a
  proof -
    have "in_page (fresh_set 0x10000) a" using a by (simp add: in_page_def sample_full_page_set(2) fresh_set_def)
    then have "a \<noteq> NULL" using in_page_not_NULL[OF sample_slots_ok(3), of a] by simp
    then show ?thesis using a unfolding sample_full_page_set(3) by (simp add: in_page_def sample_full_page_set(2) load_word_map_anonymous word_in_range_def)
  qed
  ultimately show ?thesis unfolding slots_inv_def by (simp add: sample_full_page_set(1) del: not_None_eq)
qed

theorem breakpoint_add_behind_page_witness: "\<exists>s. bs_slots s = sample_full_page \<and> breakpoint_add (\<lambda>_. NULL) (\<lambda>_. NULL) 0x8000 s = None"
proof -
  obtain s where s: "hook_inv s [0x1020] (\<lambda>_. []) [] Map.empty" "bs_slots s = sample_slots"
    "addable s [0x1020] (\<lambda>_. []) [] Map.empty 0x8000 fresh_bkpt 0x400DAC 0x1000 sample_text 0xD503201F" by (rule sample_addable)
  let ?s = "s\<lparr>bs_slots := sample_full_page\<rparr>"
  have inv: "hook_inv ?s [0x1020] (\<lambda>_. []) [0x50C0] Map.empty" using s(1) sample_full_page_inv by (simp add: hook_inv_def)
  have out: "\<not> in_page sample_half_set 0x400DAC" by (simp add: sample_full_page_set(2) in_page_def word_in_range_def in_range_def slot_constants)
  have word: "load_word x (ss_mem sample_full_page) = (if x = 0x400DAC then Some 0xD503201F else None)" if "x \<in> {0x400DAC, 0x11000}" for x
  proof -
    have "load_word x (ss_mem sample_full_page) = load_word x (ss_mem sample_slots)"
      using that unfolding sample_full_page_set(3) by (auto simp: load_word_map_anonymous word_in_range_def in_range_def slot_constants)
    then show ?thesis using that by (auto simp: sample_slots_def load_word_def load_def)
  qed
  have ad: "addable ?s [0x1020] (\<lambda>_. []) [0x50C0] Map.empty 0x8000 fresh_bkpt 0x400DAC 0x1000 sample_text 0xD503201F"
    using s(3) out word by (simp add: addable_def bkpt_ready_def outside_slots_def sample_full_page_set(1))
  have "breakpoint_add (\<lambda>_. NULL) (\<lambda>_. NULL) 0x8000 ?s = None"
  proof (rule breakpoint_add_behind_page[OF inv ad fresh_flags(1) refl])
    show "\<forall>i < 512. i \<notin> free_at (bs_slots ?s) 0x50C0" "512 \<in> free_at (bs_slots ?s) 0x50C0"
      by (simp_all add: sample_full_page_set(1) sample_half_free)
    show "load_word (ss_slots (set_at (bs_slots ?s) 0x50C0) + 4096) (bs_mem ?s) = None"
      using word[of "0x11000"] by (simp add: sample_full_page_set(1,2))
  qed
  then show ?thesis by (intro exI[of _ ?s]) simp
qed

end
