(* ===== verification/Startup.thy ===== *)
theory Startup
  imports Hook_Properties
begin

text \<open>
  The start of a hooked process.  The handler of the entry point reads the memory map again, since the libraries of the
  program have been loaded by then: this keeps the invariant of the library and all hooks.  After its two
  traps the process is in a state from which its hooks are transparent.
\<close>

section \<open>Reading the memory map with hooks in place\<close>

lemma lists_invD:
  assumes "lists_inv s xs B" "x \<in> set xs"
  shows "ring (ob_lists s) (bps_of x) (B x)" "footprint (bps_of x) (B x) \<inter> footprint (objects s) xs = {}" "\<not> bpc_lock (object_at s x)"
  using bspec[OF conjunct1[OF conjunct2[OF assms(1)[unfolded lists_inv_def]]] assms(2)] by simp_all

text \<open>The list heads of a new object are in none of the lists.\<close>

lemma fresh_unlisted:
  assumes inv: "lists_inv s xs B" and c: "ob_lists s c = None"
  shows "c \<notin> footprint (objects s) xs" "\<And>x. x \<in> set xs \<Longrightarrow> c \<notin> footprint (bps_of x) (B x)"
proof -
  have "ring (ob_lists s) (objects s) xs" using inv by (simp add: lists_inv_def object_ok_def)
  then show "c \<notin> footprint (objects s) xs" using c by (rule ring_fresh)
  show "c \<notin> footprint (bps_of x) (B x)" if "x \<in> set xs" for x using lists_invD(1)[OF inv that] c by (rule ring_fresh)
qed

lemma lists_inv_snoc:
  assumes inv: "lists_inv s xs B" and p: "object_fresh s p" and B: "B (object_chain p) = []" and ob: "\<not> bpc_lock ob"
    and h: "ring h (objects s) (xs @ [object_chain p])" "ring h (object_bps p) []"
    and frame: "\<forall>q. q \<notin> insert (object_bps p) (footprint (objects s) (xs @ [object_chain p])) \<longrightarrow> h q = ob_lists s q"
  shows "lists_inv (s\<lparr>ob_objects := (ob_objects s)(p \<mapsto> ob), ob_lists := h\<rparr>) (xs @ [object_chain p]) B"
proof -
  let ?c = "object_chain p" and ?b = "object_bps p"
  have ok: "object_ok s xs" using inv by (simp add: lists_inv_def)
  have none: "ob_lists s ?c = None" "ob_lists s ?b = None" using p by (simp_all add: object_fresh_def)
  note out = fresh_unlisted[OF inv none(1)] fresh_unlisted[OF inv none(2)]
  have old: "ring h (bps_of x) (B x) \<and> footprint (bps_of x) (B x) \<inter> footprint (objects s) (xs @ [?c]) = {}" if x: "x \<in> set xs" for x
  proof
    show apart: "footprint (bps_of x) (B x) \<inter> footprint (objects s) (xs @ [?c]) = {}"
      using lists_invD(2)[OF inv x] out(2)[OF x] by auto
    show "ring h (bps_of x) (B x)"
    proof (rule ring_cong[OF lists_invD(1)[OF inv x]])
      fix q assume "q \<in> set (bps_of x # B x)"
      then have q: "q \<in> footprint (bps_of x) (B x)" by simp
      then have "q \<notin> footprint (objects s) (xs @ [?c])" using apart by (simp only: disjoint_iff not_False_eq_True)
      moreover have "q \<noteq> ?b" using q out(4)[OF x] by (metis (no_types))
      ultimately show "h q = ob_lists s q" using frame by simp
    qed
  qed
  have at: "object_at (s\<lparr>ob_objects := (ob_objects s)(p \<mapsto> ob), ob_lists := h\<rparr>) x = object_at s x" if "x \<in> set xs" for x
    using ok p that by (auto simp: object_ok_def object_fresh_def)
  have "object_ok (s\<lparr>ob_objects := (ob_objects s)(p \<mapsto> ob), ob_lists := h\<rparr>) (xs @ [?c])" using object_ok_snoc(1)[OF ok p h(1)] .
  moreover have "bpc_lock (object_at s x) = False" if "x \<in> set xs" for x using lists_invD(3)[OF inv that] by simp
  moreover have new: "footprint ?b [] \<inter> footprint (objects s) (xs @ [?c]) = {}" using out(3) by simp
  moreover have "footprint (bps_of x) (B x) \<inter> footprint (bps_of y) (B y) = {}" if "x \<in> set (xs @ [?c])" "y \<in> set (xs @ [?c])" "x \<noteq> y" for x y
  proof -
    have both: "footprint (bps_of x) (B x) \<inter> footprint (bps_of y) (B y) = {}" if "x \<in> set xs" "y \<in> set xs"
      using inv that \<open>x \<noteq> y\<close> unfolding lists_inv_def by simp
    have b: "footprint (bps_of x) (B x) \<inter> {?b} = {}" if "x \<in> set xs" for x using out(4)[OF that] by simp
    show ?thesis using that both b[of x] b[of y] B by (auto simp: Int_commute)
  qed
  ultimately show ?thesis unfolding lists_inv_def using old at h(2) ob B by simp
qed

text \<open>The invariant during loading: the objects that were there are kept, and blocks for other purposes are left free.\<close>

definition heads_of :: "addr list \<Rightarrow> addr set" where
  "heads_of ps = object_chain ` set ps \<union> object_bps ` set ps"

interpretation lm: map_loading "object_parse_mmap (\<lambda>_. True) self"
  "\<lambda>s xs. lists_inv s xs B \<and> map_le Ob (ob_objects s) \<and> (\<forall>c \<in> C. ob_lists s c = None)"
  "\<lambda>s ps. supply_ok s ps \<and> (\<forall>p \<in> set ps. B (object_chain p) = []) \<and> C \<inter> heads_of ps = {}" object_list "load_region self" for self B Ob C
proof (unfold_locales, goal_cases)
  case 1 then show ?case by (rule om.parse_end)
next
  case 2 then show ?case by (intro om.parse_skip) (auto simp: lists_inv_def)
next
  case (3 s xs r p ps rest)
  have inv: "lists_inv s xs B" and ok: "object_ok s xs" and avail: "supply_ok s (p # ps)" and B: "B (object_chain p) = []"
    and p: "object_fresh s p" and C: "C \<inter> heads_of (p # ps) = {}" "\<forall>c \<in> C. ob_lists s c = None"
    using 3 by (simp_all add: lists_inv_def supply_ok_def)
  let ?s = "\<lambda>h. s\<lparr>ob_objects := (ob_objects s)(p \<mapsto> region_object self r), ob_lists := h\<rparr>"
  obtain h where h: "object_parse_mmap (\<lambda>_. True) self (p # ps) (print_region r @ rest) s = object_parse_mmap (\<lambda>_. True) self ps rest (?s h)"
    "ring h (objects s) (xs @ [object_chain p])" "ring h (object_bps p) []"
    "\<forall>q. q \<notin> insert (object_bps p) (footprint (objects s) (xs @ [object_chain p])) \<longrightarrow> h q = ob_lists s q"
    using object_parse_mmap_step[where dup = "\<lambda>_. True" and ps = ps and rest = rest, OF ok _ _ _ p] 3(2,3) by blast
  have "\<not> bpc_lock (region_object self r)" by (simp add: region_object_def new_object_def)
  then have "lists_inv (?s h) (xs @ [object_chain p]) B" using lists_inv_snoc[OF inv p B _ h(2-4)] by blast
  moreover have "Ob p = None" using 3(1) p unfolding map_le_def object_fresh_def by (metis domIff)
  then have "map_le Ob (ob_objects (?s h))" using 3(1) by (auto simp: map_le_def)
  moreover have "ob_lists (?s h) c = None" if "c \<in> C" for c
  proof -
    have c: "ob_lists s c = None" "c \<noteq> object_chain p" "c \<noteq> object_bps p" using that C by (auto simp: heads_of_def)
    then have "c \<notin> footprint (objects s) xs" using fresh_unlisted(1)[OF inv] by blast
    then show ?thesis using c h(4) by simp
  qed
  moreover have "C \<inter> heads_of ps = {}" using C(1) by (auto simp: heads_of_def)
  ultimately show ?case
    using h(1) object_ok_snoc(2)[OF ok p h(2)] supply_after_append[OF avail ok h(4)] load_region_new(4)[OF 3(3)] 3(4)
    by (intro exI[of _ "?s h"] exI[of _ "object_chain p"]) simp
next
  case 4 then show ?case by (rule om.load_grows)
next
  case 5 then show ?case by (rule om.load_again)
qed

text \<open>Hooks do not notice new objects.\<close>

lemma stop_at_objects:
  assumes "stop_at s m p a w i" "map_le (ob_objects (bs_objs s)) (ob_objects objs)"
  shows "stop_at (s\<lparr>bs_objs := objs\<rparr>) m p a w i"
proof -
  have "ob_objects objs q = Some ob" if "ob_objects (bs_objs s) q = Some ob" for q ob
    using assms(2) that unfolding map_le_def by (metis domI)
  then have "registered (s\<lparr>bs_objs := objs\<rparr>) p b a ob w i" if "registered s p b a ob w i" for b ob
    using that by (auto simp: registered_def bkpt_at_def slot_addr_def)
  then show ?thesis using assms(1) by (auto simp: stop_at_def)
qed

text \<open>The text of the memory map, as the environment delivers it, and room for new objects outside the pages of the slots.\<close>

definition map_read :: "environment \<Rightarrow> region list \<Rightarrow> bool" where
  "map_read env rs \<longleftrightarrow> maps_opened env \<and> (\<forall>x. maps_strndup env x) \<and> (\<forall>r \<in> set rs. region_ok r) \<and>
     (\<exists>chunks. maps_reads env = map (\<lambda>c. (Some c, True)) chunks @ [(Some [], True)] \<and> (\<forall>c \<in> set chunks. c \<noteq> []) \<and>
        concat chunks = concat (map print_region rs))"

definition room_for_objects :: "environment \<Rightarrow> bp_state \<Rightarrow> (addr \<Rightarrow> addr list) \<Rightarrow> addr list \<Rightarrow> region list \<Rightarrow> bool" where
  "room_for_objects env s B zs rs \<longleftrightarrow> supply_ok (bs_objs s) (calloc_objects env) \<and> length rs \<le> length (calloc_objects env) \<and>
     (\<forall>p \<in> set (calloc_objects env). B (object_chain p) = []) \<and>
     (\<forall>r \<in> set rs. atoi (rg_inode r) \<noteq> 0 \<longrightarrow> region_attr r AND OBJ_ATTR_FLAG_EXECUTE \<noteq> 0 \<longrightarrow>
       (\<forall>a. in_range (rg_start r) (rg_end r - rg_start r) a \<longrightarrow> outside_slots (bs_slots s) zs a))"

lemma load_region_texts:
  "ob \<in> set (fold (load_region self) rs obs) \<Longrightarrow> ob \<in> set obs \<or> (\<exists>r \<in> set rs. atoi (rg_inode r) \<noteq> 0 \<and>
    region_attr r AND OBJ_ATTR_FLAG_EXECUTE \<noteq> 0 \<and> text_start ob = rg_start r \<and> text_end ob = rg_end r)"
proof (induction rs arbitrary: obs)
  case (Cons r rs)
  then have "ob \<in> set (load_region self r obs) \<or> (\<exists>q \<in> set rs. atoi (rg_inode q) \<noteq> 0 \<and>
    region_attr q AND OBJ_ATTR_FLAG_EXECUTE \<noteq> 0 \<and> text_start ob = rg_start q \<and> text_end ob = rg_end q)" by auto
  then show ?case by (auto simp: load_region_def new_object_def split: if_splits)
qed simp

lemma object_load_map:
  assumes inv: "lists_inv (bs_objs s) xs B" and rd: "map_read env rs" and room: "room_for_objects env s B zs rs"
    and C: "\<forall>c \<in> C. ob_lists (bs_objs s) c = None" "C \<inter> heads_of (calloc_objects env) = {}"
  obtains objs ys where
    "object_load (maps_opened env) (maps_reads env) (maps_strndup env) (maps_self env) (calloc_objects env) (bs_objs s) = Some objs"
    "lists_inv objs (xs @ ys) B" "map_le (ob_objects (bs_objs s)) (ob_objects objs)"
    "object_list objs (xs @ ys) = fold (load_region (maps_self env)) rs (object_list (bs_objs s) xs)" "\<forall>c \<in> C. ob_lists objs c = None"
proof -
  obtain chunks where c: "maps_reads env = map (\<lambda>c. (Some c, True)) chunks @ [(Some [], True)]" "\<forall>c \<in> set chunks. c \<noteq> []"
    "concat chunks = concat (map print_region rs)" and ok: "maps_opened env" "\<forall>r \<in> set rs. region_ok r" and dup: "maps_strndup env = (\<lambda>_. True)"
    using rd by (auto simp: map_read_def)
  have i: "lists_inv (bs_objs s) xs B \<and> map_le (ob_objects (bs_objs s)) (ob_objects (bs_objs s)) \<and>
    (\<forall>c \<in> C. ob_lists (bs_objs s) c = None)" using inv C(1) by simp
  have a: "supply_ok (bs_objs s) (calloc_objects env) \<and> (\<forall>p \<in> set (calloc_objects env). B (object_chain p) = []) \<and>
      C \<inter> heads_of (calloc_objects env) = {}"
    "length rs \<le> length (calloc_objects env)" using room C(2) by (simp_all add: room_for_objects_def)
  obtain objs ys where r: "object_parse_mmap (\<lambda>_. True) (maps_self env) (calloc_objects env) (concat (map print_region rs)) (bs_objs s) = Some (0, objs)"
    "lists_inv objs (xs @ ys) B" "map_le (ob_objects (bs_objs s)) (ob_objects objs)"
    "object_list objs (xs @ ys) = fold (load_region (maps_self env)) rs (object_list (bs_objs s) xs)" "\<forall>c \<in> C. ob_lists objs c = None"
    using lm.parse_text[where self = "maps_self env", OF i a ok(2)] by (elim exE conjE)
  have "object_load (maps_opened env) (maps_reads env) (maps_strndup env) (maps_self env) (calloc_objects env) (bs_objs s) = Some objs"
    using c ok(1) r(1) by (simp add: object_load_def object_get_mmap_def read_loop_chunks dup)
  then show thesis using that r(2-5) by blast
qed

lemma hooks_inv_objects:
  assumes inv: "hooks_inv s xs B zs m H" and l: "lists_inv objs (xs @ ys) B" "map_le (ob_objects (bs_objs s)) (ob_objects objs)"
    and tx: "\<And>x a. \<lbrakk>x \<in> set ys; in_text (object_at objs x) a\<rbrakk> \<Longrightarrow> outside_slots (bs_slots s) zs a"
  shows "hooks_inv (s\<lparr>bs_objs := objs\<rparr>) (xs @ ys) B zs m H"
proof -
  have "object_at objs x = object_at (bs_objs s) x" if "x \<in> set xs" for x
  proof -
    have "ob_objects (bs_objs s) (object_of x) \<noteq> None" using inv that by (auto simp: hooks_inv_def hook_inv_def lists_inv_def object_ok_def)
    then show ?thesis using l(2) unfolding map_le_def by (metis domIff)
  qed
  then have "text_apart (s\<lparr>bs_objs := objs\<rparr>) (xs @ ys) zs" using inv tx by (auto simp: text_apart_def hooks_inv_def)
  moreover have "hook_inv (s\<lparr>bs_objs := objs\<rparr>) (xs @ ys) B zs m" using inv l(1) by (simp add: hooks_inv_def hook_inv_def)
  moreover have "stop_at (s\<lparr>bs_objs := objs\<rparr>) m p a w i" if "H p = Some (a, w, i)" for p a w i
    using stop_at_objects[OF hooks_invD(1)[OF inv that] l(2)] .
  ultimately show ?thesis using inv unfolding hooks_inv_def by simp
qed

lemma reload_ok:
  assumes inv: "hooks_inv (hk_bps s) xs B zs m H" and rd: "map_read env rs" and room: "room_for_objects env (hk_bps s) B zs rs"
    and C: "\<forall>c \<in> C. ob_lists (bs_objs (hk_bps s)) c = None" "C \<inter> heads_of (calloc_objects env) = {}"
  obtains objs ys where
    "object_load (maps_opened env) (maps_reads env) (maps_strndup env) (maps_self env) (calloc_objects env) (bs_objs (hk_bps s)) = Some objs"
    "hooks_inv ((hk_bps s)\<lparr>bs_objs := objs\<rparr>) (xs @ ys) B zs m H"
    "object_list objs (xs @ ys) = fold (load_region (maps_self env)) rs (object_list (bs_objs (hk_bps s)) xs)"
    "\<forall>c \<in> C. ob_lists objs c = None"
proof -
  have "lists_inv (bs_objs (hk_bps s)) xs B" and ta: "text_apart (hk_bps s) xs zs" using inv by (simp_all add: hooks_inv_def hook_inv_def)
  then obtain objs ys where o: "object_load (maps_opened env) (maps_reads env) (maps_strndup env) (maps_self env) (calloc_objects env) (bs_objs (hk_bps s)) = Some objs"
    "lists_inv objs (xs @ ys) B" "map_le (ob_objects (bs_objs (hk_bps s))) (ob_objects objs)"
    "object_list objs (xs @ ys) = fold (load_region (maps_self env)) rs (object_list (bs_objs (hk_bps s)) xs)"
    "\<forall>c \<in> C. ob_lists objs c = None"
    using object_load_map[OF _ rd room C] by blast
  have "outside_slots (bs_slots (hk_bps s)) zs a" if "x \<in> set ys" "in_text (object_at objs x) a" for x a
  proof -
    have "object_at objs x \<in> set (object_list objs (xs @ ys))" using that(1) by (simp add: object_list_def)
    then consider y where "y \<in> set xs" "object_at objs x = object_at (bs_objs (hk_bps s)) y"
      | r where "r \<in> set rs" "atoi (rg_inode r) \<noteq> 0" "region_attr r AND OBJ_ATTR_FLAG_EXECUTE \<noteq> 0" "text_start (object_at objs x) = rg_start r" "text_end (object_at objs x) = rg_end r"
      using load_region_texts unfolding o(4) by (fastforce simp: object_list_def)
    then show ?thesis
    proof cases
      case 1
      then show ?thesis using ta that(2) by (simp add: text_apart_def)
    next
      case 2
      then show ?thesis using room that(2) by (simp add: room_for_objects_def)
    qed
  qed
  then have "hooks_inv ((hk_bps s)\<lparr>bs_objs := objs\<rparr>) (xs @ ys) B zs m H" by (intro hooks_inv_objects[OF inv o(2,3)])
  then show thesis using that o(1,4,5) by blast
qed

lemma marked_avail:
  assumes "marks h f" "f tid \<noteq> NULL" "calloc_sound env" "0 \<le> sint tid"
  shows "thread_avail env tid (hk_threads h)"
proof -
  obtain tm where tm: "thread_rel (hk_threads h) tm" "f = step_mark (hk_threads h) tm" using assms(1) by (auto simp: marks_def)
  then obtain t where "tm tid = Some t" using assms(2) by (auto simp: step_mark_def split: option.splits)
  then have "current_thread env tid (hk_threads h) \<noteq> None"
    using thread_map_find_rel[OF tm(1) assms(4)] thread_rel_entry[OF tm(1)] by (fastforce simp: current_thread_def)
  then show ?thesis using assms(3) by (auto simp: thread_avail_def calloc_sound_def)
qed

section \<open>The two traps at the entry point\<close>

lemma startup_ok:
  assumes "hooks_inv (hk_bps h) xs B zs m H" "map_read env rs" "room_for_objects env (hk_bps h) B zs rs"
    and "hk_handler h = Some Entrypoint_Trap" "entry_bp h = p" "H p = Some (a, w, i)" "\<not> entry_hit h"
    and "marks h (\<lambda>_. NULL)" "thread_avail env tid (hk_threads h)" "calloc_sound env" "0 \<le> sint tid" "sigaction_ok env"
  shows "\<exists>h1 h2 ys. deliver_trap env tid a h = Some (w, h1) \<and> deliver_trap env tid (w + 4) h1 = Some (a + 4, h2) \<and>
    hk_handler h2 = Some Sigtrap \<and> marks h2 (\<lambda>_. NULL) \<and> hooks_inv (hk_bps h2) (xs @ ys) B zs m H \<and>
    bs_mem (hk_bps h1) = bs_mem (hk_bps h) \<and> bs_mem (hk_bps h2) = bs_mem (hk_bps h) \<and>
    object_list (bs_objs (hk_bps h2)) (xs @ ys) = fold (load_region (maps_self env)) rs (object_list (bs_objs (hk_bps h)) xs)"
proof -
  obtain objs ys where o: "object_load (maps_opened env) (maps_reads env) (maps_strndup env) (maps_self env) (calloc_objects env) (bs_objs (hk_bps h)) = Some objs"
    "hooks_inv ((hk_bps h)\<lparr>bs_objs := objs\<rparr>) (xs @ ys) B zs m H"
    "object_list objs (xs @ ys) = fold (load_region (maps_self env)) rs (object_list (bs_objs (hk_bps h)) xs)"
    by (rule reload_ok[OF assms(1-3), of "{}"]) simp_all
  obtain b ob b' ob' where reg: "registered (hk_bps h) p b a ob w i" "registered ((hk_bps h)\<lparr>bs_objs := objs\<rparr>) p b' a ob' w i"
    using hooks_invD(1)[OF assms(1,6)] hooks_invD(1)[OF o(2) assms(6)] by (auto simp: stop_at_def)
  have p: "p \<noteq> NULL" using reg(1) by (simp add: registered_def bkpt_at_def)
  let ?first = "\<lambda>t. h\<lparr>hk_threads := t, hk_bps := (hk_bps h)\<lparr>bs_objs := objs\<rparr>, entry_hit := True\<rparr>"
  obtain t1 where t1: "entrypoint_trap_handler env tid a h = Some (w, ?first t1)" "marks (?first t1) ((\<lambda>_. NULL)(tid := p))"
    using entry_first[OF assms(8,11,9,7,5) reg(1) o(1)] unfolding Let_def by blast
  let ?h1 = "?first t1" and ?second = "\<lambda>t. (?first t1)\<lparr>hk_threads := t, hk_handler := Some Sigtrap\<rparr>"
  have av: "thread_avail env tid (hk_threads ?h1)" by (rule marked_avail[OF t1(2) _ assms(10,11)]) (use p in simp)
  have "entry_hit ?h1" "entry_bp ?h1 = p" "registered (hk_bps ?h1) p b' a ob' w i" using assms(5) reg(2) by simp_all
  from entry_second[OF t1(2) assms(11) av this(1) assms(12) this(2,3)] obtain t2 where t2:
    "entrypoint_trap_handler env tid (w + 4) ?h1 = Some (a + 4, ?second t2)" "marks (?second t2) ((\<lambda>_. NULL)(tid := p, tid := NULL))"
    unfolding Let_def by blast
  let ?h2 = "?second t2"
  have "deliver_trap env tid a h = Some (w, ?h1)" "deliver_trap env tid (w + 4) ?h1 = Some (a + 4, ?h2)"
    using t1(1) t2(1) assms(4) by (simp_all add: deliver_trap_def)
  moreover have "marks ?h2 (\<lambda>_. NULL)" using t2(2) by (simp add: fun_upd_idem)
  ultimately show ?thesis using o(2,3) by (intro exI[of _ ?h1] exI[of _ ?h2] exI[of _ ys]) simp
qed

section \<open>Properties\<close>

text \<open>
  Reading the memory map while hooks are in place.  The objects of new executable mappings are appended, and the invariant of the
  library holds with all the hooks, their slots and table entries as before.
\<close>

theorem reload_keeps_hooks:
  assumes "hooks_inv (hk_bps s) xs B zs m H" "map_read env rs" "room_for_objects env (hk_bps s) B zs rs"
  shows "\<exists>objs ys. load_objects env s = Some (s\<lparr>hk_bps := (hk_bps s)\<lparr>bs_objs := objs\<rparr>\<rparr>) \<and>
    hooks_inv ((hk_bps s)\<lparr>bs_objs := objs\<rparr>) (xs @ ys) B zs m H \<and>
    object_list objs (xs @ ys) = fold (load_region (maps_self env)) rs (object_list (bs_objs (hk_bps s)) xs)"
proof -
  obtain objs ys where "object_load (maps_opened env) (maps_reads env) (maps_strndup env) (maps_self env) (calloc_objects env) (bs_objs (hk_bps s)) = Some objs"
    "hooks_inv ((hk_bps s)\<lparr>bs_objs := objs\<rparr>) (xs @ ys) B zs m H"
    "object_list objs (xs @ ys) = fold (load_region (maps_self env)) rs (object_list (bs_objs (hk_bps s)) xs)"
    by (rule reload_ok[OF assms, of "{}"]) simp_all
  then show ?thesis by (intro exI[of _ objs] exI[of _ ys]) (simp add: load_objects_def)
qed

text \<open>A library that is mapped after the example has started, and an environment that shows it.\<close>

definition sample_library :: region where
  "sample_library = \<lparr>rg_digits = 12, rg_start = 0x7F0000000000, rg_end = 0x7F0000010000, rg_perms = ''r-xp'', rg_offset = ''00000000'',
     rg_dev = ''08:01'', rg_inode = ''77'', rg_pad = 3, rg_path = ''/lib/libc.so''\<rparr>"

definition reload_env :: environment where
  "reload_env = sample_env\<lparr>maps_reads := [(Some (print_region sample_library), True), (Some [], True)], calloc_objects := [0xA000]\<rparr>"

lemma reload_env_ok: "map_read reload_env [sample_library]" "room_for_objects reload_env sample_boot (\<lambda>_. []) [] [sample_library]"
  "maps_self reload_env = 0"
proof -
  have "region_ok sample_library" by (simp add: region_ok_def sample_library_def)
  moreover have "print_region sample_library \<noteq> []" by (simp add: print_region_def)
  ultimately show "map_read reload_env [sample_library]"
    unfolding map_read_def by (auto simp: reload_env_def sample_env_def intro!: exI[of _ "[print_region sample_library]"])
  show "room_for_objects reload_env sample_boot (\<lambda>_. []) [] [sample_library]"
    by (simp add: room_for_objects_def reload_env_def supply_ok_def object_fresh_def sample_boot_def object_chain_def object_bps_def outside_slots_def)
qed (simp add: reload_env_def sample_env_def)

theorem reload_keeps_hooks_witness:
  "\<exists>objs ys. load_objects reload_env sample_start = Some (sample_start\<lparr>hk_bps := sample_boot\<lparr>bs_objs := objs\<rparr>\<rparr>) \<and>
    hooks_inv (sample_boot\<lparr>bs_objs := objs\<rparr>) ([0x1020] @ ys) (\<lambda>_. []) [] Map.empty Map.empty \<and>
    object_list objs ([0x1020] @ ys) = [sample_text, \<lparr>file_name = Some ''/lib/libc.so'', text_start = 0x7F0000000000, text_end = 0x7F0000010000,
      text_attr = 0xB, bpc_lock = False\<rparr>]"
proof -
  have "object_list (bs_objs sample_boot) [0x1020] = [sample_text]" by (simp add: object_list_def sample_boot_def object_of_def)
  moreover have "atoi (rg_inode sample_library) \<noteq> 0" by (simp add: sample_library_def atoi_def c_isspace_def c_isdigit_def)
  moreover have "region_attr sample_library = 0xB"
    by (simp add: region_attr_def sample_library_def attr_char_def OBJ_ATTR_FLAG_PRIVATE_def OBJ_ATTR_FLAG_EXECUTE_def OBJ_ATTR_FLAG_READ_def
      OBJ_ATTR_FLAG_WRITE_def)
  ultimately have "fold (load_region 0) [sample_library] (object_list (bs_objs sample_boot) [0x1020]) =
    [sample_text, \<lparr>file_name = Some ''/lib/libc.so'', text_start = 0x7F0000000000, text_end = 0x7F0000010000, text_attr = 0xB, bpc_lock = False\<rparr>]"
    by (simp add: load_region_def OBJ_ATTR_FLAG_EXECUTE_def new_object_def sample_text_def) (simp add: sample_library_def)
  then show ?thesis
    using reload_keeps_hooks[where s = sample_start, unfolded sample_start_ok(5), OF sample_boot_inv reload_env_ok(1,2)] unfolding reload_env_ok(3) by simp
qed

text \<open>
  C5: the start of the program.  A thread that reaches the entry point goes through its two traps and is sent behind the entry
  point; by then the memory map has been read again, the handler of breakpoints is installed, no thread is inside a
  slot, memory is as before, and the invariant holds with all the hooks.  These are the conditions under which the
  hooks are transparent.
\<close>

theorem startup_reaches_transparency:
  assumes "hooks_inv (hk_bps h) xs B zs m H" "map_read env rs" "room_for_objects env (hk_bps h) B zs rs"
    and "hk_handler h = Some Entrypoint_Trap" "entry_bp h = p" "H p = Some (a, w, i)" "\<not> entry_hit h"
    and "marks h (\<lambda>_. NULL)" "thread_avail env tid (hk_threads h)" "calloc_sound env" "0 \<le> sint tid" "sigaction_ok env"
  shows "\<exists>h1 h2 ys. deliver_trap env tid a h = Some (w, h1) \<and> deliver_trap env tid (w + 4) h1 = Some (a + 4, h2) \<and>
    hk_handler h2 = Some Sigtrap \<and> marks h2 (\<lambda>_. NULL) \<and> hooks_inv (hk_bps h2) (xs @ ys) B zs m H \<and>
    bs_mem (hk_bps h1) = bs_mem (hk_bps h) \<and> bs_mem (hk_bps h2) = bs_mem (hk_bps h) \<and>
    object_list (bs_objs (hk_bps h2)) (xs @ ys) = fold (load_region (maps_self env)) rs (object_list (bs_objs (hk_bps h)) xs)"
  by (rule startup_ok[OF assms])

theorem startup_reaches_transparency_witness:
  "\<exists>h h1 h2 B zs ys. entry_bp h = 0x8000 \<and> deliver_trap sample_env 77 0x400DAC h = Some (0x10000, h1) \<and>
    deliver_trap sample_env 77 0x10004 h1 = Some (0x400DB0, h2) \<and> hk_handler h2 = Some Sigtrap \<and> marks h2 (\<lambda>_. NULL) \<and>
    hooks_inv (hk_bps h2) ([0x1020] @ ys) B zs [0x400DAC \<mapsto> bp_enter 0x8000, 0x10004 \<mapsto> bp_return 0x8000] [0x8000 \<mapsto> (0x400DAC, 0x10000, 0xD503201F)] \<and>
    bs_mem (hk_bps h2) = bs_mem (hk_bps h)"
proof -
  let ?H = "[0x8000 \<mapsto> (0x400DAC, 0x10000, 0xD503201F)] :: hooks"
  obtain g where g: "sample_ready g" by (rule sample_ready_exists)
  let ?h = "g\<lparr>hk_handler := Some Entrypoint_Trap, entry_bp := 0x8000, entry_hit := False\<rparr>"
  obtain B zs where f: "hooks_inv (hk_bps g) [0x1020] B zs [0x400DAC \<mapsto> bp_enter 0x8000, 0x10004 \<mapsto> bp_return 0x8000] ?H"
    "thread_avail sample_env 77 (hk_threads g)" "calloc_sound sample_env" by (rule sample_ready_facts[OF g])
  have h: "hooks_inv (hk_bps ?h) [0x1020] B zs [0x400DAC \<mapsto> bp_enter 0x8000, 0x10004 \<mapsto> bp_return 0x8000] ?H" "map_read sample_env []"
    "room_for_objects sample_env (hk_bps ?h) B zs []" "hk_handler ?h = Some Entrypoint_Trap" "entry_bp ?h = 0x8000"
    "?H 0x8000 = Some (0x400DAC, 0x10000, 0xD503201F)" "\<not> entry_hit ?h" "marks ?h (\<lambda>_. NULL)" "thread_avail sample_env 77 (hk_threads ?h)"
    "0 \<le> sint (77 :: 32 word)" "sigaction_ok sample_env"
    using f g by (simp_all add: map_read_def room_for_objects_def sample_env_def supply_ok_def sample_ready_def marks_def)
  obtain h1 h2 ys where "deliver_trap sample_env 77 0x400DAC ?h = Some (0x10000, h1)"
    "deliver_trap sample_env 77 (0x10000 + 4) h1 = Some (0x400DAC + 4, h2)" "hk_handler h2 = Some Sigtrap" "marks h2 (\<lambda>_. NULL)"
    "hooks_inv (hk_bps h2) ([0x1020] @ ys) B zs [0x400DAC \<mapsto> bp_enter 0x8000, 0x10004 \<mapsto> bp_return 0x8000] ?H"
    "bs_mem (hk_bps h2) = bs_mem (hk_bps ?h)"
    using startup_reaches_transparency[OF h(1-9) f(3) h(10,11)] by (elim exE conjE)
  then show ?thesis
    by (intro exI[of _ ?h] exI[of _ h1] exI[of _ h2] exI[of _ B] exI[of _ zs] exI[of _ ys]) simp
qed

end
