(* ===== verification/Heap_Typing.thy ===== *)
theory Heap_Typing
  imports Hook
begin

text \<open>
  The types of the heaps.  A function of the library allocates an object or writes fields of objects that exist; whatever
  the state it starts from, it turns no address into one of another type and releases nothing.  The statements hold
  for every run that returns, without an invariant; they tell the addresses at which \<^verbatim>\<open>calloc\<close> may place
  the next object.  They are proved with rules in the style of weakest preconditions.
\<close>

section \<open>Rules\<close>

text \<open>Every result of the call satisfies \<^verbatim>\<open>P\<close>.\<close>

definition ensures :: "'r option \<Rightarrow> ('r \<Rightarrow> bool) \<Rightarrow> bool" where
  "ensures m P \<longleftrightarrow> (\<forall>r. m = Some r \<longrightarrow> P r)"

named_theorems wp \<open>rules for calls\<close>

lemma ensuresI: "(\<And>r. m = Some r \<Longrightarrow> P r) \<Longrightarrow> ensures m P"
  by (simp add: ensures_def)

lemma ensuresD: "\<lbrakk>ensures m P; m = Some r\<rbrakk> \<Longrightarrow> P r"
  by (simp add: ensures_def)

lemma ensures_Some [wp]: "P r \<Longrightarrow> ensures (Some r) P"
  by (simp add: ensures_def)

lemma ensures_None [wp]: "ensures None P"
  by (simp add: ensures_def)

lemma ensures_bind [wp]: "ensures m (\<lambda>r. ensures (f r) P) \<Longrightarrow> ensures (Option.bind m f) P"
  by (auto simp: ensures_def bind_eq_Some_conv)

lemma ensures_if [wp]: "\<lbrakk>b \<Longrightarrow> ensures m P; \<not> b \<Longrightarrow> ensures n P\<rbrakk> \<Longrightarrow> ensures (if b then m else n) P"
  by simp

lemma ensures_prod [wp]: "(\<And>a b. x = (a, b) \<Longrightarrow> ensures (f a b) P) \<Longrightarrow> ensures (case x of (a, b) \<Rightarrow> f a b) P"
  by (cases x) simp

lemma ensures_option [wp]: "\<lbrakk>x = None \<Longrightarrow> ensures m P; \<And>a. x = Some a \<Longrightarrow> ensures (f a) P\<rbrakk> \<Longrightarrow> ensures (case x of None \<Rightarrow> m | Some a \<Rightarrow> f a) P"
  by (cases x) simp_all

lemma ensures_let [wp]: "ensures (f x) P \<Longrightarrow> ensures (let y = x in f y) P"
  by simp

text \<open>A call that only reads.\<close>

lemma ensures_any: "(\<And>r. P r) \<Longrightarrow> ensures m P"
  by (simp add: ensures_def)

section \<open>Places\<close>

text \<open>The addresses of the objects of one type.\<close>

definition places :: "'a heap \<Rightarrow> addr \<Rightarrow> bool" where
  "places h = (\<lambda>p. h p \<noteq> None)"

lemma places_upd [simp]: "places (h(p \<mapsto> v)) = (places h)(p := True)"
  by (auto simp: places_def)

definition add_places :: "addr set \<Rightarrow> (addr \<Rightarrow> bool) \<Rightarrow> addr \<Rightarrow> bool" where
  "add_places A f = (\<lambda>p. p \<in> A \<or> f p)"

lemma add_places_simps [simp]: "add_places {} f = f" "add_places {p} f = f(p := True)" "add_places {p, q} f = f(p := True, q := True)"
  by (auto simp: add_places_def fun_eq_iff)

lemma places_None: "h p = None \<longleftrightarrow> \<not> places h p"
  by (auto simp: places_def)

lemma wp_modify [wp]: "(\<And>h'. places h' = places h \<Longrightarrow> P h') \<Longrightarrow> ensures (modify h p f) P"
proof (rule ensuresI)
  fix h' assume P: "\<And>h'. places h' = places h \<Longrightarrow> P h'" and "modify h p f = Some h'"
  then obtain v where "h p = Some v" "h' = h(p \<mapsto> f v)" by (auto simp: modify_eq_Some load_eq_Some)
  then show "P h'" by (intro P) (auto simp: places_def)
qed

lemma places_modify: "modify h p f = Some h' \<Longrightarrow> places h' = places h"
  by (rule ensuresD[OF wp_modify])

lemmas wp_reads [wp] = ensures_any[of _ "load h p" for h p] ensures_any[of _ "rd f p s" for f p s] ensures_any[of _ "map_option f (load h p)" for f h p]
  ensures_any[of _ "c_assert b" for b] ensures_any[of _ "mutex_lock b" for b] ensures_any[of _ "mutex_unlock b" for b]

section \<open>Lists\<close>

lemma wp_list_internal [wp]:
  assumes "\<And>h'. places h' = places h \<Longrightarrow> P h'"
  shows "ensures (INIT_LIST_HEAD l h) P" "ensures (list_add_internal x p n h) P" "ensures (list_del_internal p n h) P"
    "ensures (list_splice_internal l head h) P" "ensures (list_replace l x h) P"
  unfolding INIT_LIST_HEAD_def list_add_internal_def list_del_internal_def list_splice_internal_def list_replace_def
  by (intro wp assms; simp)+

lemma wp_list_ops [wp]:
  assumes "\<And>h'. places h' = places h \<Longrightarrow> P h'"
  shows "ensures (list_add x head h) P" "ensures (list_add_tail x head h) P" "ensures (list_del x h) P" "ensures (list_del_init x h) P"
    "ensures (list_replace_init l x h) P"
  unfolding list_add_def list_add_tail_def list_del_def list_del_init_def list_replace_init_def
  by (intro wp assms; simp)+

lemmas wp_list_reads [wp] = ensures_any[of _ "list_empty l h" for l h]

section \<open>Red-black trees\<close>

abbreviation nodes_of :: "rb_state \<Rightarrow> addr \<Rightarrow> bool" where
  "nodes_of s \<equiv> places (rb_nodes s)"

lemma wp_wr [wp]: "(\<And>s'. nodes_of s' = nodes_of s \<Longrightarrow> P s') \<Longrightarrow> ensures (wr f p s) P"
proof (rule ensuresI)
  fix s' assume P: "\<And>s'. nodes_of s' = nodes_of s \<Longrightarrow> P s'" and "wr f p s = Some s'"
  then obtain h where h: "modify (rb_nodes s) p f = Some h" "s' = s\<lparr>rb_nodes := h\<rparr>" by (auto simp: wr_def)
  have "places h = places (rb_nodes s)" by (rule ensuresD[OF wp_modify h(1)])
  then show "P s'" using h(2) by (intro P) simp
qed

lemma wp_write_link [wp]: "(\<And>s'. nodes_of s' = nodes_of s \<Longrightarrow> P s') \<Longrightarrow> ensures (write_link l v s) P"
  by (cases l; simp; intro wp; simp)

lemma wp_rb_fields [wp]:
  assumes "\<And>s'. nodes_of s' = nodes_of s \<Longrightarrow> P s'"
  shows "ensures (change_child old new p s) P" "ensures (change_child_mirror old new p s) P" "ensures (set_parent_opt c p s) P"
  unfolding change_child_def change_child_mirror_def set_parent_opt_def
  by (intro wp assms; simp)+

lemma wp_rb_rotate [wp]:
  assumes "\<And>s'. nodes_of s' = nodes_of s \<Longrightarrow> P s'"
  shows "ensures (rb_rotate_left n s) P" "ensures (rb_rotate_right n s) P"
  unfolding rb_rotate_left_def rb_rotate_right_def by (intro wp assms; simp)+

lemmas wp_rb_reads [wp] = ensures_any[of _ "is_red_ptr p s" for p s] ensures_any[of _ "is_black_ptr p s" for p s]
  ensures_any[of _ "children_black p s" for p s] ensures_any[of _ "rb_leftmost p s" for p s] ensures_any[of _ "rb_descend k a l p s" for k a l p s]
  ensures_any[of _ "rb_search k a p s" for k a p s]

text \<open>A loop that keeps the places, by induction on its runs.\<close>

lemma wp_loop: "\<lbrakk>\<And>s'. loop s = Some s' \<Longrightarrow> nodes_of s' = nodes_of s; \<And>s'. nodes_of s' = nodes_of s \<Longrightarrow> P s'\<rbrakk> \<Longrightarrow> ensures (loop s) P"
  by (simp add: ensures_def)

lemma rb_insert_loop_places:
  assumes "rb_insert_loop n s = Some s'"
  shows "nodes_of s' = nodes_of s"
proof (rule rb_insert_loop.raw_induct[OF _ assms], goal_cases)
  case (1 loop n s s')
  note IH = wp_loop[of "loop x" for x, OF 1(1)]
  show ?case by (rule ensuresD[OF _ 1(2)]) (intro wp IH; simp)
qed

lemma wp_rb_insert [wp]:
  assumes "\<And>s'. nodes_of s' = nodes_of s \<Longrightarrow> P s'"
  shows "ensures (rb_insert_color n s) P" "ensures (rb_link_node n p l s) P"
  unfolding rb_insert_color_def rb_link_node_def by (intro wp wp_loop[OF rb_insert_loop_places] assms; simp)+

lemma wp_erase_parts [wp]:
  assumes "\<And>s' r. nodes_of s' = nodes_of s \<Longrightarrow> P (r, s')"
  shows "ensures (erase_red_left p x s) P" "ensures (erase_red_right p x s) P"
  unfolding erase_red_left_def erase_red_right_def by (intro wp assms; simp)+

lemma wp_erase_close [wp]:
  assumes "\<And>s'. nodes_of s' = nodes_of s \<Longrightarrow> P s'"
  shows "ensures (erase_close_left p x s) P" "ensures (erase_close_right p x s) P"
  unfolding erase_close_left_def erase_close_right_def by (intro wp assms; simp)+

lemma wp_erase_body [wp]:
  assumes "\<And>s' r. nodes_of s' = nodes_of s \<Longrightarrow> P (r, s')"
  shows "ensures (erase_body_left p x s) P" "ensures (erase_body_right p x s) P"
  unfolding erase_body_left_def erase_body_right_def by (intro wp assms; simp)+

lemma rb_erase_loop_places:
  assumes "rb_erase_loop n p s = Some r"
  shows "nodes_of (snd r) = nodes_of s"
proof (rule rb_erase_loop.raw_induct[OF _ assms], goal_cases)
  case (1 loop n p s r)
  have IH: "ensures (loop n p s) P" if "\<And>r s'. nodes_of s' = nodes_of s \<Longrightarrow> P (r, s')" for n p s P
    using 1(1) that by (fastforce simp: ensures_def)
  show ?case by (rule ensuresD[OF _ 1(2)]) (intro wp IH; simp)
qed

lemma wp_rb_erase_loop [wp]: "(\<And>r s'. nodes_of s' = nodes_of s \<Longrightarrow> P (r, s')) \<Longrightarrow> ensures (rb_erase_loop n p s) P"
  using rb_erase_loop_places by (fastforce simp: ensures_def)

lemma wp_rb_erase_color [wp]: "(\<And>s'. nodes_of s' = nodes_of s \<Longrightarrow> P s') \<Longrightarrow> ensures (rb_erase_color n p s) P"
  unfolding rb_erase_color_def by (intro wp; simp)

lemma wp_rb_unlink [wp]:
  assumes "\<And>c p k s'. nodes_of s' = nodes_of s \<Longrightarrow> P (c, p, k, s')"
  shows "ensures (erase_one c n s) P" "ensures (erase_two n s) P"
  unfolding erase_one_def erase_two_def by (intro wp assms; simp)+

lemma wp_rb_erase [wp]:
  assumes "\<And>s'. nodes_of s' = nodes_of s \<Longrightarrow> P s'"
  shows "ensures (rb_erase n s) P" "ensures (rb_replace_node n v s) P"
  unfolding rb_erase_def rb_replace_node_def by (intro wp assms; simp)+

section \<open>The table of breakpoints\<close>

definition table_places :: "bp_table \<Rightarrow> (addr \<Rightarrow> bool) \<times> (addr \<Rightarrow> bool)" where
  "table_places s = (nodes_of (bt_tree s), places (bt_entries s))"

lemmas wp_table_reads [wp] = ensures_any[of _ "breakpoint_rb_find_internal a s" for a s]

lemma ensures_descent [wp]:
  "\<lbrakk>d = Present \<Longrightarrow> ensures m P; \<And>l p. d = Vacant l p \<Longrightarrow> ensures (f l p) P\<rbrakk> \<Longrightarrow> ensures (case d of Present \<Rightarrow> m | Vacant l p \<Rightarrow> f l p) P"
  by (cases d) simp_all

lemma wp_table_internal [wp]:
  assumes "\<And>r s'. table_places s' = table_places s \<Longrightarrow> P (r, s')"
  shows "ensures (breakpoint_rb_insert_internal e s) P"
  unfolding breakpoint_rb_insert_internal_def by (intro wp assms; simp add: table_places_def)

lemma wp_table_delete_internal [wp]:
  assumes "\<And>r s'. table_places s' = table_places s \<Longrightarrow> P (r, s')"
  shows "ensures (breakpoint_rb_delete_internal a s) P"
  unfolding breakpoint_rb_delete_internal_def by (intro wp assms; simp add: table_places_def)

lemma wp_table_insert [wp]:
  assumes "\<And>r s'. table_places s' = table_places s \<Longrightarrow> P (r, s')"
  shows "ensures (breakpoint_rb_insert e s) P" "ensures (breakpoint_rb_search_insert e s) P"
  unfolding breakpoint_rb_insert_def breakpoint_rb_search_insert_def by (intro wp assms; simp add: table_places_def)+

lemma wp_table_find [wp]:
  assumes "\<And>r s'. table_places s' = table_places s \<Longrightarrow> P (r, s')"
  shows "ensures (breakpoint_rb_find a s) P" "ensures (breakpoint_rb_delete a s) P"
  unfolding breakpoint_rb_find_def breakpoint_rb_delete_def by (intro wp assms; simp add: table_places_def)+

lemma wp_breakpoint_find [wp]: "(\<And>r s'. table_places s' = table_places s \<Longrightarrow> P (r, s')) \<Longrightarrow> ensures (breakpoint_find a s) P"
  unfolding breakpoint_find_def by (intro wp; simp add: table_places_def)

section \<open>Slots\<close>

text \<open>The places of slot sets and of the list heads in them, and those that a new set takes.\<close>

definition slot_places :: "slot_state \<Rightarrow> (addr \<Rightarrow> bool) \<times> (addr \<Rightarrow> bool)" where
  "slot_places s = (places (ss_sets s), places (ss_lists s))"

definition with_sets :: "addr set \<Rightarrow> slot_state \<Rightarrow> slot_state \<Rightarrow> bool" where
  "with_sets A s s' \<longleftrightarrow> slot_places s' = (add_places A (places (ss_sets s)), add_places (slot_set_list ` A) (places (ss_lists s)))"

definition one_set :: "(slot_state \<Rightarrow> addr) \<Rightarrow> slot_state \<Rightarrow> slot_state \<Rightarrow> bool" where
  "one_set calloc s s' \<longleftrightarrow> with_sets {} s s' \<or> (\<exists>sl. with_sets {calloc sl} s s')"

definition same_sets :: "slot_state \<Rightarrow> slot_state \<Rightarrow> bool" where
  "same_sets s s' \<longleftrightarrow> places (ss_sets s') = places (ss_sets s) \<and> ss_lists s' = ss_lists s \<and> slot_sets s' = slot_sets s"

lemma wp_set_slot_lock [wp]: "(\<And>s'. same_sets s s' \<Longrightarrow> P s') \<Longrightarrow> ensures (set_slot_lock p b s) P"
  unfolding set_slot_lock_def by (intro wp; simp add: same_sets_def)

lemma slot_scan_sets_same:
  assumes "slot_scan_sets pos idx s = Some (r, s')"
  shows "same_sets s s'"
proof -
  have "same_sets s (snd (r, s'))"
  proof (rule slot_scan_sets.raw_induct[OF _ assms, of "\<lambda>_ _ s r. same_sets s (snd r)"], goal_cases)
    case (1 scan pos idx s r)
    have IH: "ensures (scan x i t) (\<lambda>r. same_sets s (snd r))" if "same_sets s t" for x i t
      using 1(1)[of x i t] that by (auto simp: ensures_def same_sets_def)
    have scan: "ensures (case w of FoundBit i b \<Rightarrow> f i b | NoBit i \<Rightarrow> g i) P"
      if "\<And>i b. ensures (f i b) P" "\<And>i. ensures (g i) P" for w P and f :: "nat \<Rightarrow> nat \<Rightarrow> ((addr \<times> nat \<times> nat) option \<times> slot_state) option" and g
      using that by (cases w) simp_all
    show ?case
      by (rule ensuresD[OF _ 1(2)]) (intro wp scan ensures_any[of _ "get_next h x" for h x] IH; simp add: same_sets_def Let_def)
  qed
  then show ?thesis by simp
qed

lemma wp_slot_free [wp]: "(\<And>s'. slot_places s' = slot_places s \<Longrightarrow> P s') \<Longrightarrow> ensures (slot_free p i s) P"
  unfolding slot_free_def by (intro wp; simp add: same_sets_def slot_places_def)

text \<open>A run of \<^verbatim>\<open>slot_alloc\<close> up to the slot that it finds, or up to the new set with which it starts again.\<close>

lemma slot_alloc_run:
  assumes "slot_alloc calloc mmap s = Some (p, i, s')"
  obtains first r s1 where "get_next (ss_lists s) (slot_sets s) = Some first"
    "slot_scan_sets first 0 (s\<lparr>slot_sets_lock := True\<rparr>) = Some (r, s1)" "r \<noteq> None" "slot_places s' = slot_places s1"
  | first s1 s2 where "get_next (ss_lists s) (slot_sets s) = Some first" "slot_scan_sets first 0 (s\<lparr>slot_sets_lock := True\<rparr>) = Some (None, s1)"
    "slot_set_add calloc mmap (s1\<lparr>slot_sets_lock := False\<rparr>) = Some s2" "slot_alloc calloc mmap s2 = Some (p, i, s')"
proof -
  note run = assms[unfolded slot_alloc.simps[of calloc mmap s]]
  have lk: "\<not> slot_sets_lock s" using run by (cases "slot_sets_lock s") simp_all
  obtain first r s1 where c: "get_next (ss_lists s) (slot_sets s) = Some first"
    "slot_scan_sets first 0 (s\<lparr>slot_sets_lock := True\<rparr>) = Some (r, s1)" "slot_sets_lock s1"
    using run lk by (auto simp: bind_eq_Some_conv mutex_unlock_def split: if_splits)
  show thesis
  proof (cases r)
    case None
    then show thesis using that(2)[of first s1] run lk c by (auto simp: bind_eq_Some_conv)
  next
    case (Some x)
    obtain cur idx pos where x: "x = (cur, idx, pos)" by (cases x)
    obtain sets where "modify (ss_sets s1) cur (\<lambda>ss. ss\<lparr>
        free_slot := (free_slot ss)[idx := free_slot ss ! idx AND NOT (push_bit pos 1)],
        used_slot_count := used_slot_count ss + 1, ss_lock := False\<rparr>) = Some sets"
      "s' = s1\<lparr>slot_sets_lock := False, ss_sets := sets\<rparr>"
      using run lk c Some x by (auto simp: bind_eq_Some_conv)
    then have "slot_places s' = slot_places s1" by (auto simp: slot_places_def dest: places_modify)
    then show thesis using that(1)[OF c(1,2)] Some by simp
  qed
qed

lemma list_add_next:
  assumes "list_add x head h = Some h'" "x \<noteq> head"
  shows "get_next h' head = Some x"
  using assms by (auto simp: list_add_def list_add_internal_def modify_eq_Some bind_eq_Some_conv load_def split: if_splits)

lemma slot_set_add_one:
  assumes "slot_set_add calloc mmap s = Some s'" "slot_set_list (calloc s) \<noteq> slot_sets s"
  shows "with_sets {calloc s} s s' \<and> slot_sets s' = slot_sets s \<and> calloc s \<noteq> NULL \<and>
    (\<exists>a. ss_sets s' (calloc s) = Some \<lparr>free_slot = replicate SLOT_MAP_LEN (-1), used_slot_count = 0, ss_slots = a, ss_lock = False\<rparr>) \<and>
    get_next (ss_lists s') (slot_sets s') = Some (slot_set_list (calloc s))"
proof -
  let ?c = "calloc s" and ?x = "slot_set_list (calloc s)" and ?a = "mmap (ss_mem s)"
  let ?l = "(ss_lists s)(?x \<mapsto> \<lparr>lh_next = NULL, lh_prev = NULL\<rparr>)" and ?new = "\<lparr>free_slot = replicate SLOT_MAP_LEN (-1), used_slot_count = 0, ss_slots = ?a, ss_lock = False\<rparr>"
  obtain h h2 where h: "?c \<noteq> NULL" "INIT_LIST_HEAD ?x ?l = Some h" "list_add ?x (slot_sets s) h = Some h2"
    "s' = s\<lparr>ss_lists := h2, ss_sets := (ss_sets s)(?c \<mapsto> ?new), ss_mem := map_anonymous ?a (of_nat SLOT_PAGE_SIZE) (ss_mem s), slot_sets_lock := False\<rparr>"
    using assms(1) by (auto simp: slot_set_add_def Let_def bind_eq_Some_conv modify_eq_Some load_def mutex_lock_def mutex_unlock_def split: if_splits)
  have "places h = places ?l" by (rule ensuresD[OF wp_list_internal(1) h(2)])
  moreover have "places h2 = places h" by (rule ensuresD[OF wp_list_ops(1) h(3)])
  ultimately have "places h2 = places ?l" by simp
  then have "with_sets {?c} s s'" using h(4) by (simp add: with_sets_def slot_places_def del: fun_upd_apply)
  moreover have "get_next (ss_lists s') (slot_sets s') = Some ?x" using h(4) list_add_next[OF h(3) assms(2)] by simp
  ultimately show ?thesis using h(1,4) by auto
qed

text \<open>Of a new set the first slot is free, so the second search succeeds: at most one set is added.\<close>

lemma slot_alloc_one:
  assumes run: "slot_alloc calloc mmap s = Some (p, i, s')" and out: "\<And>sl. slot_set_list (calloc sl) \<noteq> slot_sets s"
  shows "one_set calloc s s'"
  using run
proof (cases rule: slot_alloc_run)
  case (1 first r s1)
  then show ?thesis using slot_scan_sets_same[OF 1(2)] by (simp add: one_set_def with_sets_def slot_places_def same_sets_def)
next
  case (2 first0 s1 s2)
  let ?s1 = "s1\<lparr>slot_sets_lock := False\<rparr>"
  have same: "same_sets s ?s1" using slot_scan_sets_same[OF 2(2)] by (simp add: same_sets_def)
  then have head: "slot_sets ?s1 = slot_sets s" by (simp only: same_sets_def)
  obtain a where add: "with_sets {calloc ?s1} ?s1 s2" "slot_sets s2 = slot_sets ?s1"
    "ss_sets s2 (calloc ?s1) = Some \<lparr>free_slot = replicate SLOT_MAP_LEN (-1), used_slot_count = 0, ss_slots = a, ss_lock = False\<rparr>"
    "get_next (ss_lists s2) (slot_sets s2) = Some (slot_set_list (calloc ?s1))" "calloc ?s1 \<noteq> NULL"
    using slot_set_add_one[OF 2(3)] out head by auto
  have "List.find (\<lambda>i. bit (-1 :: u32) i) [0..<32] = Some 0" by (subst upt_conv_Cons) simp_all
  then have ones: "ffs (-1) = 1" by (simp add: ffs_def)
  have words: "\<exists>k b. slot_scan_words (replicate SLOT_MAP_LEN (-1)) 0 = FoundBit k b"
    by (subst slot_scan_words.simps) (simp add: slot_constants Let_def ones)
  from 2(4) have "slot_places s' = slot_places s2"
  proof (cases rule: slot_alloc_run)
    case (1 first r t)
    then show ?thesis using slot_scan_sets_same[OF 1(2)] by (simp add: slot_places_def same_sets_def)
  next
    case (2 first t u)
    have "first = slot_set_list (calloc ?s1)" using 2(1) add(4) by simp
    moreover from this have "slot_set_of first = calloc ?s1" "first \<noteq> slot_sets s2" using out add(2) head by (simp_all add: slot_set_of_def slot_set_list_def)
    ultimately show ?thesis
      using 2(2) add(3,5) words by (subst (asm) slot_scan_sets.simps) (auto simp: load_def set_slot_lock_def modify_def slot_constants Let_def)
  qed
  then have "with_sets {calloc ?s1} s s'" using add(1) same by (simp add: with_sets_def slot_places_def same_sets_def)
  then show ?thesis unfolding one_set_def by blast
qed

section \<open>Breakpoints\<close>

text \<open>The places of tree nodes, entries, breakpoints, list heads and objects.\<close>

definition live_places :: "bp_state \<Rightarrow> ((addr \<Rightarrow> bool) \<times> (addr \<Rightarrow> bool)) \<times> (addr \<Rightarrow> bool) \<times> (addr \<Rightarrow> bool) \<times> (addr \<Rightarrow> bool)" where
  "live_places s = (table_places (bs_table s), places (bs_bkpts s), places (ob_lists (bs_objs s)), places (ob_objects (bs_objs s)))"

lemma wp_set_bkpt [wp]:
  assumes "\<And>s'. live_places s' = live_places s \<Longrightarrow> P s'"
  shows "ensures (set_bkpt p f s) P"
  unfolding set_bkpt_def by (intro wp assms; simp add: live_places_def)

lemma wp_bkpt_lock [wp]:
  assumes "\<And>s'. live_places s' = live_places s \<Longrightarrow> P s'"
  shows "ensures (bkpt_lock p s) P" "ensures (bkpt_unlock p s) P"
  unfolding bkpt_lock_def bkpt_unlock_def by (intro wp assms; simp)+

text \<open>The slots, the memory and the search for an object touch none of these heaps.\<close>

lemmas wp_slot_reads [wp] = ensures_any[of _ "slot_alloc calloc mmap s" for calloc mmap s] ensures_any[of _ "slot_free p i s" for p i s]
  ensures_any[of _ "load_word a m" for a m] ensures_any[of _ "store_word a v m" for a v m]
  ensures_any[of _ "object_memory_lock f p s m" for f p s m] ensures_any[of _ "object_memory_unlock f p s m" for f p s m]

lemma wp_get_by_address [wp]:
  assumes "\<And>p s'. ob_lists s' = ob_lists s \<Longrightarrow> ob_objects s' = ob_objects s \<Longrightarrow> P (p, s')"
  shows "ensures (object_get_by_address a s) P"
  unfolding object_get_by_address_def find_object_def by (intro wp ensures_any assms; simp)

lemma set_mem_simps [simp]:
  "bs_table (set_mem m s) = bs_table s" "bs_objs (set_mem m s) = bs_objs s" "bs_bkpts (set_mem m s) = bs_bkpts s"
  by (simp_all add: set_mem_def)

lemma wp_breakpoint_parts [wp]:
  assumes "\<And>s'. live_places s' = live_places s \<Longrightarrow> P s'"
  shows "ensures (object_attach q p s) P" "ensures (patch_text mp q a i s) P"
  unfolding object_attach_def patch_text_def by (intro wp assms; simp add: live_places_def)+

lemma wp_slot_prepare [wp]:
  assumes "\<And>r s'. live_places s' = live_places s \<Longrightarrow> P (r, s')"
  shows "ensures (slot_prepare calloc mmap p s) P"
  unfolding slot_prepare_def by (intro wp assms; simp add: live_places_def table_places_def set_mem_def)

lemma wp_breakpoint_ops [wp]:
  assumes "\<And>r s'. live_places s' = live_places s \<Longrightarrow> P (r, s')"
  shows "ensures (breakpoint_add calloc mmap p s) P" "ensures (breakpoint_enable mp p s) P" "ensures (breakpoint_disable mp p s) P"
  unfolding breakpoint_add_def breakpoint_enable_def breakpoint_disable_def
  by (intro wp assms; simp add: live_places_def)+

text \<open>The places that a new breakpoint takes.\<close>

definition with_bkpt :: "addr \<Rightarrow> bp_state \<Rightarrow> bp_state \<Rightarrow> bool" where
  "with_bkpt p s s' \<longleftrightarrow> live_places s' = ((add_places {bp_node (bp_enter p), bp_node (bp_return p)} (nodes_of (bt_tree (bs_table s))),
      add_places {bp_enter p, bp_return p} (places (bt_entries (bs_table s)))), add_places {p} (places (bs_bkpts s)),
    add_places {breakpoint_chain p} (places (ob_lists (bs_objs s))), places (ob_objects (bs_objs s)))"

lemma live_places_new:
  assumes "breakpoint_new p s = Some (q, s')"
  shows "with_bkpt p s s'"
proof -
  let ?l = "(ob_lists (bs_objs s))(breakpoint_chain p \<mapsto> \<lparr>lh_next = NULL, lh_prev = NULL\<rparr>)"
  obtain h where h: "INIT_LIST_HEAD (breakpoint_chain p) ?l = Some h"
    using assms by (auto simp: breakpoint_new_def bind_eq_Some_conv Let_def split: if_splits)
  have "places h = places ?l" by (rule ensuresD[OF wp_list_internal(1) h])
  moreover have "p \<noteq> NULL" using assms by (simp add: breakpoint_new_def split: if_splits)
  ultimately show ?thesis using assms h by (auto simp: with_bkpt_def breakpoint_new_def live_places_def table_places_def Let_def simp del: fun_upd_apply)
qed

lemma with_bkpt_cong: "\<lbrakk>with_bkpt p s t; live_places t' = live_places t\<rbrakk> \<Longrightarrow> with_bkpt p s t'"
  by (simp add: with_bkpt_def)

text \<open>
  The slot sets: the same rules for their places.  \<^verbatim>\<open>slot_prepare\<close> may add one set, the other parts keep the places and
  the head of the list.
\<close>

definition slots_kept :: "bp_state \<Rightarrow> bp_state \<Rightarrow> bool" where
  "slots_kept s s' \<longleftrightarrow> slot_places (bs_slots s') = slot_places (bs_slots s) \<and> slot_sets (bs_slots s') = slot_sets (bs_slots s)"

lemma slots_kept_mem [simp]: "slot_places (sl\<lparr>ss_mem := m\<rparr>) = slot_places sl"
  by (simp add: slot_places_def)

lemma one_set_kept: "\<lbrakk>slots_kept s t; one_set calloc (bs_slots t) u\<rbrakk> \<Longrightarrow> one_set calloc (bs_slots s) u"
  "\<lbrakk>one_set calloc r (bs_slots s); slots_kept s t\<rbrakk> \<Longrightarrow> one_set calloc r (bs_slots t)"
  by (simp_all add: one_set_def with_sets_def slots_kept_def slot_places_def)

lemma slots_kept_trans: "\<lbrakk>slots_kept s t; slots_kept t u\<rbrakk> \<Longrightarrow> slots_kept s u"
  by (simp add: slots_kept_def)

lemmas wp_calls = ensures_Some ensures_None ensures_bind ensures_if ensures_prod ensures_option ensures_let
  ensures_any[of _ "load h p" for h p] ensures_any[of _ "rd f p s" for f p s] ensures_any[of _ "c_assert b" for b]
  ensures_any[of _ "mutex_lock b" for b] ensures_any[of _ "mutex_unlock b" for b] ensures_any[of _ "modify h p f" for h p f]
  ensures_any[of _ "list_empty l h" for l h] ensures_any[of _ "list_add x l h" for x l h] ensures_any[of _ "load_word a m" for a m]
  ensures_any[of _ "store_word a v m" for a v m] ensures_any[of _ "object_memory_lock f p s m" for f p s m]
  ensures_any[of _ "object_memory_unlock f p s m" for f p s m] ensures_any[of _ "object_get_by_address a s" for a s]
  ensures_any[of _ "breakpoint_rb_search_insert e s" for e s]

named_theorems slots_wp \<open>rules for calls, on the places of the slot sets\<close>

lemma slots_set_bkpt [slots_wp]: "(\<And>s'. slots_kept s s' \<Longrightarrow> P s') \<Longrightarrow> ensures (set_bkpt p f s) P"
  unfolding set_bkpt_def by (intro wp_calls; simp add: slots_kept_def)

lemma slots_bkpt_lock [slots_wp]:
  assumes "\<And>s'. slots_kept s s' \<Longrightarrow> P s'"
  shows "ensures (bkpt_lock p s) P" "ensures (bkpt_unlock p s) P"
  unfolding bkpt_lock_def bkpt_unlock_def by (intro wp_calls slots_wp assms; simp)+

lemma slots_parts [slots_wp]:
  assumes "\<And>s'. slots_kept s s' \<Longrightarrow> P s'"
  shows "ensures (object_attach q p s) P" "ensures (patch_text mp q a i s) P"
  unfolding object_attach_def patch_text_def by (intro wp_calls slots_wp assms; simp add: slots_kept_def set_mem_def)+

lemma slots_prepare [slots_wp]:
  assumes out: "\<And>sl. slot_set_list (calloc sl) \<noteq> slot_sets (bs_slots s)" and P: "\<And>r s'. one_set calloc (bs_slots s) (bs_slots s') \<Longrightarrow> P (r, s')"
  shows "ensures (slot_prepare calloc mmap p s) P"
proof -
  have alloc: "ensures (slot_alloc calloc mmap (bs_slots s)) Q" if "\<And>a i t. one_set calloc (bs_slots s) t \<Longrightarrow> Q (a, i, t)" for Q
    using slot_alloc_one[OF _ out] that by (fastforce intro: ensuresI)
  show ?thesis
    unfolding slot_prepare_def
    by (intro alloc wp_calls slots_wp P; simp add: slots_kept_def set_mem_def one_set_def with_sets_def)
qed

lemma slots_enable [slots_wp]: "(\<And>r s'. slots_kept s s' \<Longrightarrow> P (r, s')) \<Longrightarrow> ensures (breakpoint_enable mp p s) P"
  unfolding breakpoint_enable_def by (intro wp_calls slots_wp; simp add: slots_kept_def)

lemma slots_add:
  assumes out: "\<And>sl. slot_set_list (calloc sl) \<noteq> slot_sets (bs_slots s)"
  shows "ensures (breakpoint_add calloc mmap p s) (\<lambda>r. one_set calloc (bs_slots s) (bs_slots (snd r)))"
  unfolding breakpoint_add_def
  by (intro wp_calls slots_wp wp_slot_free; simp add: slots_kept_def one_set_def with_sets_def slot_places_def out)

section \<open>Threads\<close>

text \<open>The places of threads and of the list heads in them, and those that a new thread takes.\<close>

definition with_threads :: "addr set \<Rightarrow> thread_table \<Rightarrow> thread_table \<Rightarrow> bool" where
  "with_threads A s s' \<longleftrightarrow> places (tt_threads s') = add_places A (places (tt_threads s)) \<and>
     places (tt_lists s') = add_places (thread_list_entry ` A) (places (tt_lists s))"

lemma thread_map_find_same: "thread_map_find tid s = Some (t, s') \<Longrightarrow> s' = s"
  by (auto simp: thread_map_find_def bind_eq_Some_conv mutex_lock_def split: if_splits)

lemma wp_thread_map_add: "(\<And>r s'. with_threads {} s s' \<Longrightarrow> P (r, s')) \<Longrightarrow> ensures (thread_map_add t s) P"
  unfolding thread_map_add_def
  by (intro wp ensures_any[of _ "thread_map_find_internal k s" for k s]; simp add: with_threads_def)

text \<open>The thread of the signal: an existing one, or a new one in the block of \<^verbatim>\<open>calloc\<close>.\<close>

lemma current_thread_places:
  assumes "current_thread env tid s = Some (t, s')"
  shows "with_threads {} s s' \<or> with_threads {calloc_thread env s} s s'"
proof -
  obtain q s1 where f: "thread_map_find tid s = Some (q, s1)" using assms by (auto simp: current_thread_def bind_eq_Some_conv)
  then have s1: "s1 = s" using thread_map_find_same by blast
  show ?thesis
  proof (cases "q = NULL")
    case True
    let ?c = "calloc_thread env s" and ?l = "(tt_lists s)(thread_list_entry (calloc_thread env s) \<mapsto> \<lparr>lh_next = NULL, lh_prev = NULL\<rparr>)"
    obtain h ts r where c: "INIT_LIST_HEAD (thread_list_entry ?c) ?l = Some h"
      "modify ((tt_threads s)(?c \<mapsto> \<lparr>th_tid = 0, th_singlestep_bp = NULL\<rparr>)) ?c (\<lambda>t. t\<lparr>th_tid := tid\<rparr>) = Some ts"
      "thread_map_add ?c (s\<lparr>tt_lists := h, tt_threads := ts\<rparr>) = Some (r, s')"
      using assms f s1 True by (auto simp: current_thread_def bind_eq_Some_conv thread_new_def Let_def split: if_splits)
    have "with_threads {} (s\<lparr>tt_lists := h, tt_threads := ts\<rparr>) s'"
      using ensuresD[OF wp_thread_map_add[where P = "\<lambda>r. with_threads {} (s\<lparr>tt_lists := h, tt_threads := ts\<rparr>) (snd r)"] c(3)] by simp
    moreover have "places h = places ?l" by (rule ensuresD[OF wp_list_internal(1) c(1)])
    ultimately show ?thesis using places_modify[OF c(2)] by (simp add: with_threads_def del: fun_upd_apply)
  next
    case False
    then show ?thesis using assms f s1 by (auto simp: current_thread_def with_threads_def)
  qed
qed

section \<open>The library\<close>

lemma hook_address_places:
  assumes "hook_address env a s = Some (p, s')"
  shows "p = calloc_bkpt env (hk_bps s) \<and> with_bkpt p (hk_bps s) (hk_bps s') \<and> (\<exists>bps. s' = s\<lparr>hk_bps := bps\<rparr>)"
proof -
  obtain q t ents r u r' v where c: "breakpoint_new (calloc_bkpt env (hk_bps s)) (hk_bps s) = Some (q, t)"
    "modify (bt_entries (bs_table t)) (bp_enter q) (\<lambda>e. e\<lparr>be_address := a\<rparr>) = Some ents"
    "breakpoint_add (calloc_slot env) (mmap_slot env) q (t\<lparr>bs_table := (bs_table t)\<lparr>bt_entries := ents\<rparr>\<rparr>) = Some (r, u)"
    "breakpoint_enable (mprotect_ok env) q u = Some (r', v)" "p = q" "s' = s\<lparr>hk_bps := v\<rparr>"
    using assms by (auto simp: hook_address_def bind_eq_Some_conv)
  have q: "q = calloc_bkpt env (hk_bps s)" using c(1) by (auto simp: breakpoint_new_def bind_eq_Some_conv Let_def split: if_splits)
  have "with_bkpt q (hk_bps s) t" using live_places_new[OF c(1)] unfolding q .
  moreover have "places ents = places (bt_entries (bs_table t))" by (rule ensuresD[OF wp_modify c(2)])
  then have "live_places (t\<lparr>bs_table := (bs_table t)\<lparr>bt_entries := ents\<rparr>\<rparr>) = live_places t" by (simp add: live_places_def table_places_def)
  moreover have "live_places u = live_places (t\<lparr>bs_table := (bs_table t)\<lparr>bt_entries := ents\<rparr>\<rparr>)"
    using ensuresD[OF wp_breakpoint_ops(1)[where P = "\<lambda>x. live_places (snd x) = live_places (t\<lparr>bs_table := (bs_table t)\<lparr>bt_entries := ents\<rparr>\<rparr>)"] c(3)] by simp
  moreover have "live_places v = live_places u"
    using ensuresD[OF wp_breakpoint_ops(2)[where P = "\<lambda>x. live_places (snd x) = live_places u"] c(4)] by simp
  ultimately show ?thesis using c(5,6) q by (auto intro: with_bkpt_cong)
qed

text \<open>Hooking an address adds at most one slot set.\<close>

lemma hook_address_sets:
  assumes "hook_address env a s = Some (p, s')" and out: "\<And>sl. slot_set_list (calloc_slot env sl) \<noteq> slot_sets (bs_slots (hk_bps s))"
  shows "one_set (calloc_slot env) (bs_slots (hk_bps s)) (bs_slots (hk_bps s'))"
proof -
  obtain q t ents r u r' v where c: "breakpoint_new (calloc_bkpt env (hk_bps s)) (hk_bps s) = Some (q, t)"
    "breakpoint_add (calloc_slot env) (mmap_slot env) q (t\<lparr>bs_table := (bs_table t)\<lparr>bt_entries := ents\<rparr>\<rparr>) = Some (r, u)"
    "breakpoint_enable (mprotect_ok env) q u = Some (r', v)" "s' = s\<lparr>hk_bps := v\<rparr>"
    using assms(1) by (auto simp: hook_address_def bind_eq_Some_conv)
  have "bs_slots t = bs_slots (hk_bps s)" using c(1) by (auto simp: breakpoint_new_def bind_eq_Some_conv Let_def split: if_splits)
  then have "one_set (calloc_slot env) (bs_slots (hk_bps s)) (bs_slots u)" using ensuresD[OF slots_add c(2)] out by simp
  moreover have "slots_kept u v" using ensuresD[OF slots_enable[where P = "\<lambda>r. slots_kept u (snd r)"] c(3)] by simp
  ultimately show ?thesis using one_set_kept(2) c(4) by simp
qed

text \<open>The handler adds at most the thread of the signal, and leaves the other heaps alone.\<close>

lemma sigtrap_handler_threads:
  assumes "sigtrap_handler env tid pc s = Some (pc', s')"
  shows "with_threads {} (hk_threads s) (hk_threads s') \<or> with_threads {calloc_thread env (hk_threads s)} (hk_threads s) (hk_threads s')"
    "bs_slots (hk_bps s') = bs_slots (hk_bps s)"
proof -
  obtain t ths where t: "current_thread env tid (hk_threads s) = Some (t, ths)"
    using assms by (auto simp: sigtrap_handler_def bind_eq_Some_conv)
  have kept: "ensures (set_bkpt p f u) P" if "\<And>v. bs_slots v = bs_slots u \<Longrightarrow> P v" for p f u and P :: "bp_state \<Rightarrow> bool"
    unfolding set_bkpt_def by (intro wp_calls that) simp
  have "ensures (sigtrap_handler env tid pc s) (\<lambda>r. places (tt_threads (hk_threads (snd r))) = places (tt_threads ths) \<and>
      places (tt_lists (hk_threads (snd r))) = places (tt_lists ths) \<and> bs_slots (hk_bps (snd r)) = bs_slots (hk_bps s))"
    unfolding sigtrap_handler_def set_singlestep_def slot_of_bkpt_def bkpt_lock_def bkpt_unlock_def t bind.bind_lunit prod.case
    by (intro wp_calls(1-12) wp_modify kept ensures_any[of _ "breakpoint_find a s" for a s]; simp)
  from ensuresD[OF this assms] have same: "places (tt_threads (hk_threads s')) = places (tt_threads ths)"
    "places (tt_lists (hk_threads s')) = places (tt_lists ths)" and "bs_slots (hk_bps s') = bs_slots (hk_bps s)" by simp_all
  then show "bs_slots (hk_bps s') = bs_slots (hk_bps s)" by simp
  show "with_threads {} (hk_threads s) (hk_threads s') \<or> with_threads {calloc_thread env (hk_threads s)} (hk_threads s) (hk_threads s')"
    using current_thread_places[OF t] same by (simp add: with_threads_def)
qed

lemma sigtrap_handler_places:
  assumes "sigtrap_handler env tid pc s = Some (pc', s')"
  shows "live_places (hk_bps s') = live_places (hk_bps s)"
proof -
  have "ensures (sigtrap_handler env tid pc s) (\<lambda>r. live_places (hk_bps (snd r)) = live_places (hk_bps s))"
    unfolding sigtrap_handler_def set_singlestep_def slot_of_bkpt_def
    by (intro wp ensures_any; simp add: live_places_def)
  from ensuresD[OF this assms] show ?thesis by simp
qed

end
