(* ===== verification/Constructor.thy ===== *)
theory Constructor
  imports Startup Heap_Typing
begin

text \<open>
  The constructor of the library, \<^verbatim>\<open>lib_init\<close> of \<^verbatim>\<open>signal_test/hook_main.c\<close>: from a fresh process to two hooks.
\<close>

section \<open>Blocks for breakpoints\<close>

text \<open>Two blocks of the size of \<^verbatim>\<open>breakpoint_t\<close> that do not overlap.\<close>

definition blocks_apart :: "addr \<Rightarrow> addr \<Rightarrow> bool" where
  "blocks_apart p q \<longleftrightarrow> 176 \<le> p - q \<and> 176 \<le> q - p"

lemma blocks_apart_fields:
  assumes "blocks_apart p q"
  shows "q \<noteq> p" "breakpoint_chain q \<noteq> breakpoint_chain p" "{bp_enter q, bp_return q} \<inter> {bp_enter p, bp_return p} = {}"
proof -
  have ne: "q - p \<noteq> 40" "p - q \<noteq> 40" "q \<noteq> p" using assms by (auto simp: blocks_apart_def)
  have "q - p = (q + 56) - (p + 96) + 40" "p - q = (p + 56) - (q + 96) + 40" by simp_all
  then have "q + 56 \<noteq> p + 96" "p + 56 \<noteq> q + 96" using ne by force+
  then show "{bp_enter q, bp_return q} \<inter> {bp_enter p, bp_return p} = {}" using ne(3) by (auto simp: bp_enter_def bp_return_def)
  show "q \<noteq> p" "breakpoint_chain q \<noteq> breakpoint_chain p" using ne(3) by (simp_all add: breakpoint_chain_def)
qed

lemma bkpt_fresh_apart:
  assumes w: "with_bkpt p s s'" and f: "bkpt_fresh s q" and a: "blocks_apart p q"
  shows "bkpt_fresh s' q"
proof -
  have pl: "nodes_of (bt_tree (bs_table s')) = add_places {bp_node (bp_enter p), bp_node (bp_return p)} (nodes_of (bt_tree (bs_table s)))"
    "places (bt_entries (bs_table s')) = add_places {bp_enter p, bp_return p} (places (bt_entries (bs_table s)))"
    "places (bs_bkpts s') = add_places {p} (places (bs_bkpts s))"
    "places (ob_lists (bs_objs s')) = add_places {breakpoint_chain p} (places (ob_lists (bs_objs s)))"
    using w by (simp_all add: with_bkpt_def live_places_def table_places_def)
  note fields = blocks_apart_fields[OF a]
  have "e \<notin> {bp_enter p, bp_return p}" if "e \<in> {bp_enter q, bp_return q}" for e using fields(3) that by blast
  then show ?thesis
    using f fields(1,2) unfolding bkpt_fresh_def places_None pl by (simp add: add_places_def)
qed

section \<open>Two slots of a new page\<close>

lemma ring_unique: "\<lbrakk>ring h l xs; ring h l ys\<rbrakk> \<Longrightarrow> xs = ys"
  using list_for_each_ring[of h l xs] list_for_each_ring[of h l ys] by simp

lemma two_slots:
  assumes rel: "slot_rel s []" and c: "calloc_ok calloc s" and m: "mmap_ok mmap (ss_mem s)"
  obtains sl where "slot_alloc calloc mmap s = Some (calloc s, 0, sl)"
    "BP_GET_SLOT_OFFSET (the (ss_sets sl (calloc s))) 0 = mmap (ss_mem s)"
    "ss_mem sl = map_anonymous (mmap (ss_mem s)) (of_nat SLOT_PAGE_SIZE) (ss_mem s)"
    "ring (ss_lists sl) (slot_sets sl) [slot_set_list (calloc s)]" "free_at sl (slot_set_list (calloc s)) \<noteq> {}"
    "ss_slots (set_at sl (slot_set_list (calloc s))) = mmap (ss_mem s)"
    "\<And>v. \<exists>sl'. slot_alloc calloc mmap (sl\<lparr>ss_mem := v\<rparr>) = Some (calloc s, 1, sl') \<and>
       BP_GET_SLOT_OFFSET (the (ss_sets sl' (calloc s))) 1 = mmap (ss_mem s) + 8 \<and> ss_mem sl' = v \<and>
       ss_slots (set_at sl' (slot_set_list (calloc s))) = mmap (ss_mem s) \<and> ss_lists sl' = ss_lists sl \<and> slot_sets sl' = slot_sets sl"
proof -
  let ?x = "slot_set_list (calloc s)" and ?pg = "mmap (ss_mem s)" and ?f = "take_slot 0 (fresh_set (mmap (ss_mem s)))"
  obtain h where h: "slot_alloc calloc mmap s = Some (calloc s, 0, s\<lparr>ss_lists := h, ss_sets := (ss_sets s)(calloc s \<mapsto> ?f),
      ss_mem := map_anonymous ?pg (of_nat SLOT_PAGE_SIZE) (ss_mem s)\<rparr>)" (is "_ = Some (_, _, ?sl)")
    "ring h (slot_sets s) [?x]"
    using slot_alloc_new[OF rel _ c m] by auto
  have zero: "0 \<in> free_set (free_slot (fresh_set ?pg))" by (simp add: slot_constants)
  have free: "free_set (free_slot ?f) = {..<1024} - {0}" using free_set_take[OF fresh_set_ok zero] by (simp add: slot_constants)
  have "1 \<in> {..<1024 :: nat} - {0}" by simp
  then have ne: "{..<1024 :: nat} - {0} \<noteq> {}" by blast
  have slots: "ss_slots (take_slot i S) = ss_slots S" "ss_slots (fresh_set ?pg) = ?pg" for i S by (simp_all add: take_slot_def fresh_set_def)
  have "\<exists>sl'. slot_alloc calloc mmap (?sl\<lparr>ss_mem := v\<rparr>) = Some (calloc s, 1, sl') \<and>
      BP_GET_SLOT_OFFSET (the (ss_sets sl' (calloc s))) 1 = ?pg + 8 \<and> ss_mem sl' = v \<and> ss_slots (set_at sl' ?x) = ?pg \<and>
      ss_lists sl' = ss_lists ?sl \<and> slot_sets sl' = slot_sets ?sl" for v
  proof -
    let ?t = "?sl\<lparr>ss_mem := v\<rparr>"
    have r: "slot_rel ?t [?x]"
      using rel h(2) c take_slot_ok[OF fresh_set_ok zero] by (simp add: slot_rel_def slot_ok_def calloc_ok_def)
    have at: "free_at ?t ?x = {..<1024} - {0}" using free by simp
    have "Min ({..<1024} - {0}) = (1 :: nat)" by (intro Min_eqI) auto
    moreover have "List.find (\<lambda>x. free_at ?t x \<noteq> {}) [?x] = Some ?x" using ne unfolding at by (simp only: find.simps at if_True not_False_eq_True simp_thms)
    ultimately have "slot_alloc calloc mmap ?t = Some (calloc s, 1, ?t\<lparr>ss_sets := (ss_sets ?t)(calloc s \<mapsto> take_slot 1 ?f)\<rparr>)"
      using slot_alloc_found[OF r, of ?x calloc mmap] unfolding at by simp
    moreover have "BP_GET_SLOT_OFFSET (take_slot 1 ?f) 1 = ?pg + 8"
      using slot_offset[of 1 "take_slot 1 ?f"] by (simp add: slot_word_def slots)
    ultimately show ?thesis using slots by simp
  qed
  moreover have "BP_GET_SLOT_OFFSET ?f 0 = ?pg" using slot_offset[of 0 ?f] by (simp add: slot_word_def slots)
  moreover have "free_set (free_slot ?f) \<noteq> {}" unfolding free by (rule ne)
  ultimately show thesis using that[of ?sl] h slots by simp
qed

section \<open>What the constructor needs\<close>

text \<open>An address with the instruction \<^verbatim>\<open>i\<close>, in the text of the first object of the list that reaches to it.\<close>

definition can_hook :: "environment \<Rightarrow> object list \<Rightarrow> memory \<Rightarrow> addr \<Rightarrow> object \<Rightarrow> u32 \<Rightarrow> bool" where
  "can_hook env obs mem a ob i \<longleftrightarrow> List.find (\<lambda>ob. text_start ob \<le> a \<and> a \<le> text_end ob) obs = Some ob \<and>
     \<not> object_attr_flag_NO_BKPT ob \<and> in_text ob a \<and> load_word a mem = Some i \<and> mprotect_ok env ob True \<and> mprotect_ok env ob False"

lemma find_map: "List.find P (map f xs) = map_option f (List.find (\<lambda>x. P (f x)) xs)"
  by (induction xs) simp_all

lemma can_hook_hookable:
  assumes li: "lists_inv (bs_objs s) xs B" and c: "can_hook env (object_list (bs_objs s) xs) mem a ob i"
    and m: "m a = None" "load_word a (bs_mem s) = Some i"
  obtains q where "hookable env s xs m a q ob i" "object_chain q \<in> set xs"
proof -
  obtain x where x: "List.find (\<lambda>x. text_start (object_at (bs_objs s) x) \<le> a \<and> a \<le> text_end (object_at (bs_objs s) x)) xs = Some x"
    "object_at (bs_objs s) x = ob"
    using c by (auto simp: can_hook_def object_list_def find_map)
  then have "x \<in> set xs" by (auto dest: find_SomeD)
  moreover have "ob_objects (bs_objs s) (object_of x) = Some ob" using li calculation x(2) by (auto simp: lists_inv_def object_ok_def)
  ultimately show thesis using that[of "object_of x"] c m x(1) by (simp add: hookable_def can_hook_def object_for_def)
qed

text \<open>
  The two hooks of the constructor: the blocks of their breakpoints, their addresses, the objects that contain these and
  the instructions there.
\<close>

record plan =
  first_bp :: addr
  first_at :: addr
  first_ob :: object
  first_instr :: u32
  second_bp :: addr
  second_at :: addr
  second_ob :: object
  second_instr :: u32

definition planned_hooks :: "addr \<Rightarrow> plan \<Rightarrow> hooks" where
  "planned_hooks pg P = [first_bp P \<mapsto> (first_at P, pg, first_instr P), second_bp P \<mapsto> (second_at P, pg + 8, second_instr P)]"

definition planned_table :: "addr \<Rightarrow> plan \<Rightarrow> addr \<rightharpoonup> addr" where
  "planned_table pg P = [first_at P \<mapsto> bp_enter (first_bp P), pg + 4 \<mapsto> bp_return (first_bp P),
     second_at P \<mapsto> bp_enter (second_bp P), pg + 8 + 4 \<mapsto> bp_return (second_bp P)]"

definition planned_memory :: "addr \<Rightarrow> plan \<Rightarrow> memory \<Rightarrow> memory \<Rightarrow> bool" where
  "planned_memory pg P m m' \<longleftrightarrow> (\<forall>x. load_word x m' =
     (if x \<in> {first_at P, pg + 4, second_at P, pg + 8 + 4} then Some BRK_INSTR
      else if x = pg then Some (first_instr P) else if x = pg + 8 then Some (second_instr P)
      else load_word x (map_anonymous pg (of_nat SLOT_PAGE_SIZE) m)))"

text \<open>\<^verbatim>\<open>calloc\<close> hands out the two blocks for breakpoints in turn.\<close>

definition bkpt_pool :: "environment \<Rightarrow> bp_state \<Rightarrow> addr \<Rightarrow> addr \<Rightarrow> bool" where
  "bkpt_pool env s p q \<longleftrightarrow> bkpt_fresh s p \<and> bkpt_fresh s q \<and> blocks_apart p q \<and>
     (\<forall>t. bs_bkpts t p = None \<longrightarrow> calloc_bkpt env t = p) \<and>
     (\<forall>t. bs_bkpts t p \<noteq> None \<longrightarrow> bs_bkpts t q = None \<longrightarrow> calloc_bkpt env t = q)"

definition hook_needs :: "environment \<Rightarrow> bp_state \<Rightarrow> object list \<Rightarrow> plan \<Rightarrow> bool" where
  "hook_needs env s obs P \<longleftrightarrow> bkpt_pool env s (first_bp P) (second_bp P) \<and>
     calloc_ok (calloc_slot env) (bs_slots s) \<and> mmap_ok (mmap_slot env) (bs_mem s) \<and>
     (\<forall>ob \<in> set obs. \<forall>a. in_text ob a \<longrightarrow> \<not> in_range (mmap_slot env (bs_mem s)) (of_nat SLOT_PAGE_SIZE) a) \<and>
     can_hook env obs (bs_mem s) (first_at P) (first_ob P) (first_instr P) \<and>
     can_hook env obs (bs_mem s) (second_at P) (second_ob P) (second_instr P) \<and> first_at P \<noteq> second_at P"

lemma unmapped_page:
  assumes "mmap_ok mmap m" "load_word a m \<noteq> None"
  shows "\<not> in_range (mmap m) (of_nat SLOT_PAGE_SIZE) a" "a \<noteq> mmap m" "a \<noteq> mmap m + 4" "a \<noteq> mmap m + 8" "a \<noteq> mmap m + 8 + 4"
proof -
  show out: "\<not> in_range (mmap m) (of_nat SLOT_PAGE_SIZE) a"
    using assms by (auto simp: mmap_ok_def load_word_def load_def split: if_splits)
  show "a \<noteq> mmap m" "a \<noteq> mmap m + 4" "a \<noteq> mmap m + 8" "a \<noteq> mmap m + 8 + 4"
    using out by (auto simp: in_range_def slot_constants add.assoc)
qed

lemma pool_next:
  assumes p: "bkpt_pool env s p q" and h: "hook_address env a t = Some (p, t')" and s: "hk_bps t = s"
  shows "calloc_bkpt env (hk_bps t') = q" "bkpt_fresh (hk_bps t') q"
proof -
  have w: "with_bkpt p s (hk_bps t')" using hook_address_places[OF h] unfolding s by blast
  then have "places (bs_bkpts (hk_bps t')) p" by (simp add: with_bkpt_def live_places_def add_places_def)
  moreover show fr: "bkpt_fresh (hk_bps t') q" using bkpt_fresh_apart[OF w] p by (simp add: bkpt_pool_def)
  ultimately show "calloc_bkpt env (hk_bps t') = q" using p by (auto simp: bkpt_pool_def places_def bkpt_fresh_def)
qed

text \<open>The state behind the two hooks.\<close>

definition hooked_twice :: "bp_state \<Rightarrow> addr list \<Rightarrow> addr \<Rightarrow> plan \<Rightarrow> bp_state \<Rightarrow> bool" where
  "hooked_twice s xs pg P s' \<longleftrightarrow> (\<exists>B z. hooks_inv s' xs B [z] (planned_table pg P) (planned_hooks pg P) \<and>
     (\<forall>y. y \<notin> set xs \<longrightarrow> B y = []) \<and> ss_slots (set_at (bs_slots s') z) = pg) \<and>
   ob_objects (bs_objs s') = ob_objects (bs_objs s) \<and> planned_memory pg P (bs_mem s) (bs_mem s')"

lemma slot_list_unique:
  assumes "hooks_inv s xs B zs m H" "bs_slots s = sl\<lparr>ss_mem := bs_mem s\<rparr>" "ring (ss_lists sl) (slot_sets sl) ys"
  shows "zs = ys"
proof -
  have "slot_rel (bs_slots s) zs" using assms(1) by (simp add: hooks_inv_def hook_inv_def slots_inv_def)
  moreover have "ss_lists (bs_slots s) = ss_lists sl" "slot_sets (bs_slots s) = slot_sets sl"
    using arg_cong[OF assms(2), of ss_lists] arg_cong[OF assms(2), of slot_sets] by simp_all
  ultimately have "ring (ss_lists sl) (slot_sets sl) zs" by (simp add: slot_rel_def slot_ok_def)
  then show ?thesis using assms(3) by (rule ring_unique)
qed

lemma two_hooks:
  assumes inv: "hooks_inv (hk_bps s) xs (\<lambda>_. []) [] Map.empty Map.empty"
    and needs: "hook_needs env (hk_bps s) (object_list (bs_objs (hk_bps s)) xs) P"
  defines "pg \<equiv> mmap_slot env (bs_mem (hk_bps s))"
  obtains s1 b where "hook_address env (first_at P) s = Some (first_bp P, s\<lparr>hk_bps := s1\<rparr>)"
    "load (bs_bkpts s1) (first_bp P) = Some b" "load (ob_objects (bs_objs s1)) (bk_obj b) = Some (first_ob P)"
    "\<forall>t. hk_bps t = s1 \<longrightarrow> (\<exists>s2. hook_address env (second_at P) t = Some (second_bp P, t\<lparr>hk_bps := s2\<rparr>) \<and>
       hooked_twice (hk_bps s) xs pg P s2)"
proof -
  let ?S = "hk_bps s" and ?p = "first_bp P" and ?q = "second_bp P" and ?a = "first_at P" and ?b = "second_at P"
  let ?x = "slot_set_list (calloc_slot env (bs_slots (hk_bps s)))" and ?obs = "object_list (bs_objs (hk_bps s)) xs"
  have pool: "bkpt_pool env ?S ?p ?q" and c: "calloc_ok (calloc_slot env) (bs_slots ?S)" and mm: "mmap_ok (mmap_slot env) (bs_mem ?S)"
    and page: "\<forall>ob \<in> set ?obs. \<forall>a. in_text ob a \<longrightarrow> \<not> in_range pg (of_nat SLOT_PAGE_SIZE) a"
    and c1: "can_hook env ?obs (bs_mem ?S) ?a (first_ob P) (first_instr P)"
    and c2: "can_hook env ?obs (bs_mem ?S) ?b (second_ob P) (second_instr P)" and ne: "?a \<noteq> ?b"
    using needs by (simp_all add: hook_needs_def pg_def)
  have li: "lists_inv (bs_objs ?S) xs (\<lambda>_. [])" and rel: "slot_rel (bs_slots ?S) []"
    using inv by (simp_all add: hooks_inv_def hook_inv_def slots_inv_def)
  have p: "calloc_bkpt env ?S = ?p" "bkpt_fresh ?S ?p" using pool by (simp_all add: bkpt_pool_def bkpt_fresh_def)
  obtain sl where sl: "slot_alloc (calloc_slot env) (mmap_slot env) (bs_slots ?S) = Some (calloc_slot env (bs_slots ?S), 0, sl)"
    "BP_GET_SLOT_OFFSET (the (ss_sets sl (calloc_slot env (bs_slots ?S)))) 0 = pg"
    "ss_mem sl = map_anonymous pg (of_nat SLOT_PAGE_SIZE) (bs_mem ?S)" "ring (ss_lists sl) (slot_sets sl) [?x]" "free_at sl ?x \<noteq> {}"
    and sl2: "\<And>v. \<exists>sl'. slot_alloc (calloc_slot env) (mmap_slot env) (sl\<lparr>ss_mem := v\<rparr>) = Some (calloc_slot env (bs_slots ?S), 1, sl') \<and>
       BP_GET_SLOT_OFFSET (the (ss_sets sl' (calloc_slot env (bs_slots ?S)))) 1 = pg + 8 \<and> ss_mem sl' = v \<and>
       ss_slots (set_at sl' ?x) = pg \<and> ss_lists sl' = ss_lists sl \<and> slot_sets sl' = slot_sets sl"
    unfolding pg_def by (rule two_slots[OF rel c mm]) blast
  obtain q1 where q1: "hookable env ?S xs Map.empty ?a q1 (first_ob P) (first_instr P)" "object_chain q1 \<in> set xs"
    using can_hook_hookable[OF li c1, of Map.empty] c1 by (auto simp: can_hook_def)
  have bl: "hook_blocks env ?S xs []"
    using p c mm page by (auto simp: hook_blocks_def slot_supply_def no_text_def object_list_def pg_def)
  have "unat (0 :: u32) < 512" by simp
  from hook_address_ok[OF inv refl bl q1(1) sl(1) this, unfolded p(1) sl(2)]
  obtain s1 zs b where r1: "hook_address env ?a s = Some (?p, s\<lparr>hk_bps := s1\<rparr>)"
    "hooks_inv s1 xs ((\<lambda>_. [])(object_chain q1 := [breakpoint_chain ?p])) zs [?a \<mapsto> bp_enter ?p, pg + 4 \<mapsto> bp_return ?p] [?p \<mapsto> (?a, pg, first_instr P)]"
    "hook_written (ss_mem sl) ?a pg (first_instr P) (bs_mem s1)" "registered s1 ?p b ?a (first_ob P) pg (first_instr P)"
    "rest_kept ?S ?p s1" "bs_slots s1 = sl\<lparr>ss_mem := bs_mem s1\<rparr>" by blast
  have bp: "load (bs_bkpts s1) ?p = Some b" "load (ob_objects (bs_objs s1)) (bk_obj b) = Some (first_ob P)"
    using r1(4) by (auto simp: registered_def bkpt_at_def load_def)
  have "\<exists>s2. hook_address env ?b t = Some (?q, t\<lparr>hk_bps := s2\<rparr>) \<and> hooked_twice ?S xs pg P s2" if t: "hk_bps t = s1" for t :: hook_state
  proof -
    note zs = slot_list_unique[OF r1(2,6) sl(4)]
    have obs: "ob_objects (bs_objs s1) = ob_objects (bs_objs ?S)" using r1(5) by (simp add: rest_kept_def)
    then have list: "object_list (bs_objs s1) xs = ?obs" by (simp add: object_list_def)
    have b2: "load_word ?b (bs_mem ?S) = Some (second_instr P)" using c2 by (simp add: can_hook_def)
    note out = unmapped_page[OF mm, of ?b, folded pg_def, unfolded b2, simplified]
    have "load_word ?a (bs_mem ?S) \<noteq> None" using c1 by (simp add: can_hook_def)
    note out1 = unmapped_page[OF mm this, folded pg_def]
    have "load_word ?b (ss_mem sl) = Some (second_instr P)"
      using b2 out(1) unfolding sl(3) by (simp add: load_word_map_anonymous word_in_range_def)
    then have "load_word ?b (bs_mem s1) = Some (second_instr P)" using r1(3) ne out by (simp add: hook_written_def)
    then have ld: "load_word ?b (bs_mem s1) = Some (second_instr P)" .
    have li1: "lists_inv (bs_objs s1) xs ((\<lambda>_. [])(object_chain q1 := [breakpoint_chain ?p]))" using r1(2) by (simp add: hooks_inv_def hook_inv_def)
    have free: "[?a \<mapsto> bp_enter ?p, pg + 4 \<mapsto> bp_return ?p] ?b = None" using ne out by simp
    obtain q2 where q2: "hookable env s1 xs [?a \<mapsto> bp_enter ?p, pg + 4 \<mapsto> bp_return ?p] ?b q2 (second_ob P) (second_instr P)"
      "object_chain q2 \<in> set xs"
      by (rule can_hook_hookable[OF li1 c2[folded list] _ ld]) (rule free)
    have nx: "calloc_bkpt env s1 = ?q" "bkpt_fresh s1 ?q" using pool_next[OF pool r1(1) refl] by simp_all
    have "free_at (bs_slots s1) ?x \<noteq> {}" using sl(5) by (subst r1(6)) simp
    then have bl: "hook_blocks env s1 xs zs" using nx unfolding zs by (simp add: hook_blocks_def slot_supply_def)
    obtain sl' where al: "slot_alloc (calloc_slot env) (mmap_slot env) (bs_slots s1) = Some (calloc_slot env (bs_slots ?S), 1, sl')"
      "BP_GET_SLOT_OFFSET (the (ss_sets sl' (calloc_slot env (bs_slots ?S)))) 1 = pg + 8" "ss_mem sl' = bs_mem s1"
      "ss_slots (set_at sl' ?x) = pg" "ss_lists sl' = ss_lists sl" "slot_sets sl' = slot_sets sl"
      using sl2[of "bs_mem s1"] r1(6) by metis
    have "unat (1 :: u32) < 512" by simp
    from hook_address_ok[where m = "[?a \<mapsto> bp_enter ?p, pg + 4 \<mapsto> bp_return ?p]" and H = "[?p \<mapsto> (?a, pg, first_instr P)]"
        and B = "(\<lambda>_. [])(object_chain q1 := [breakpoint_chain ?p])" and s = t, OF r1(2) t bl q2(1) al(1) this, unfolded nx(1) al(2,3)]
    obtain s2 zs2 B where r2: "hook_address env ?b t = Some (?q, t\<lparr>hk_bps := s2\<rparr>)"
      "hooks_inv s2 xs B zs2 (planned_table pg P) (planned_hooks pg P)"
      "B = (((\<lambda>_. [])(object_chain q1 := [breakpoint_chain ?p]))(object_chain q2 := breakpoint_chain ?q # ((\<lambda>_. [])(object_chain q1 := [breakpoint_chain ?p])) (object_chain q2)))"
      "hook_written (bs_mem s1) ?b (pg + 8) (second_instr P) (bs_mem s2)" "rest_kept s1 ?q s2" "bs_slots s2 = sl'\<lparr>ss_mem := bs_mem s2\<rparr>"
      unfolding planned_table_def planned_hooks_def by blast
    have "ring (ss_lists sl') (slot_sets sl') [?x]" using sl(4) al(5,6) by simp
    note zs2 = slot_list_unique[OF r2(2,6) this]
    have "ss_slots (set_at (bs_slots s2) ?x) = pg" using al(4) by (subst r2(6)) simp
    moreover have "B y = []" if "y \<notin> set xs" for y using that q1(2) q2(2) unfolding r2(3) by auto
    moreover have "ob_objects (bs_objs s2) = ob_objects (bs_objs ?S)" using r2(5) obs by (simp add: rest_kept_def)
    moreover have "planned_memory pg P (bs_mem ?S) (bs_mem s2)"
      using r1(3) r2(4) out out1 unfolding planned_memory_def hook_written_def sl(3)[symmetric] by (auto simp: add.assoc)
    ultimately show ?thesis using r2(1,2) unfolding hooked_twice_def zs2 by blast
  qed
  then show thesis using that[OF r1(1) bp] by blast
qed

section \<open>The constructor\<close>

text \<open>
  The process when the library is loaded: no objects, no breakpoints, no slots, no threads, the heads of the thread table not yet
  initialised, and no \<^verbatim>\<open>brk\<close> in memory.
\<close>

definition boot_state :: "hook_state \<Rightarrow> bool" where
  "boot_state h \<longleftrightarrow> hooks_inv (hk_bps h) [] (\<lambda>_. []) [] Map.empty Map.empty \<and> \<not> entry_hit h \<and> \<not> thread_map_lock (hk_threads h) \<and>
     (\<forall>j \<in> {0..<THREAD_MAP_SIZE}. live (tt_lists (hk_threads h)) (bucket (hk_threads h) j))"

definition loaded :: "environment \<Rightarrow> region list \<Rightarrow> object list" where
  "loaded env rs = fold (load_region (maps_self env)) rs []"

text \<open>The entry point of the program: the link to the program names one of the objects.\<close>

definition entry_address :: "environment \<Rightarrow> object list \<Rightarrow> addr \<Rightarrow> bool" where
  "entry_address env obs a \<longleftrightarrow> exe_malloc env \<and> exe_strdup env \<and> (\<exists>path ob. exe_link env = Some path \<and> length path < 4096 \<and>
     List.find (\<lambda>ob. file_name ob = Some path) obs = Some ob \<and> a = text_start ob + object_get_exe_entrypoint (exe_header env))"

definition init_needs :: "environment \<Rightarrow> hook_state \<Rightarrow> region list \<Rightarrow> plan \<Rightarrow> bool" where
  "init_needs env h rs P \<longleftrightarrow> sigaction_ok env \<and> map_read env rs \<and> room_for_objects env (hk_bps h) (\<lambda>_. []) [] rs \<and>
     {breakpoint_chain (first_bp P), breakpoint_chain (second_bp P)} \<inter> heads_of (calloc_objects env) = {} \<and>
     hook_needs env (hk_bps h) (loaded env rs) P \<and> entry_address env (loaded env rs) (first_at P) \<and>
     second_at P = text_start (first_ob P) + 0xdac"

lemma loaded_named: "ob \<in> set (loaded env rs) \<Longrightarrow> file_name ob \<noteq> None"
proof -
  have "\<forall>ob \<in> set (fold (load_region (maps_self env)) rs obs). file_name ob \<noteq> None" if "\<forall>ob \<in> set obs. file_name ob \<noteq> None" for obs
    using that
  proof (induction rs arbitrary: obs)
    case (Cons r rs)
    have "\<forall>ob \<in> set (load_region (maps_self env) r obs). file_name ob \<noteq> None"
      using Cons.prems by (auto simp: load_region_def new_object_def)
    then show ?case using Cons.IH by simp
  qed simp
  from this[of "[]"] show "ob \<in> set (loaded env rs) \<Longrightarrow> file_name ob \<noteq> None" by (simp add: loaded_def)
qed

lemma entry_address_ok:
  assumes ok: "object_ok s xs" and e: "entry_address env (object_list s xs) a" and nm: "\<forall>ob \<in> set (object_list s xs). file_name ob \<noteq> None"
  shows "object_get_self_entrypoint (exe_malloc env) (exe_link env) (exe_strdup env) (exe_header env) s = Some (a, s)"
proof -
  obtain path x where x: "exe_link env = Some path" "length path < 4096" "exe_malloc env" "exe_strdup env"
    "List.find (\<lambda>x. file_name (object_at s x) = Some path) xs = Some x" "a = text_start (object_at s x) + object_get_exe_entrypoint (exe_header env)"
    using e by (auto simp: entry_address_def object_list_def find_map)
  then have "x \<in> set xs" by (auto dest: find_SomeD)
  then have "object_of x \<noteq> NULL" "load (ob_objects s) (object_of x) = Some (object_at s x)" using ok by (auto simp: object_ok_def load_def)
  then show ?thesis using x get_by_file_ok[OF ok nm, of path]
    by (simp add: object_get_self_entrypoint_def object_get_self_exe_def)
qed

lemma bkpt_fresh_objects: "\<lbrakk>bkpt_fresh s p; ob_lists objs (breakpoint_chain p) = None\<rbrakk> \<Longrightarrow> bkpt_fresh (s\<lparr>bs_objs := objs\<rparr>) p"
  by (simp add: bkpt_fresh_def)

lemma lib_init_ok:
  assumes boot: "boot_state h" and needs: "init_needs env h rs P"
  defines "pg \<equiv> mmap_slot env (bs_mem (hk_bps h))"
  obtains h' S xs where "lib_init env h = Some h'" "hk_handler h' = Some Entrypoint_Trap" "entry_bp h' = first_bp P" "\<not> entry_hit h'"
    "thread_rel (hk_threads h') Map.empty" "hooked_twice S xs pg P (hk_bps h')" "bs_mem S = bs_mem (hk_bps h)"
    "object_list (bs_objs (hk_bps h')) xs = loaded env rs" "thread_map_init (hk_threads h) = Some (hk_threads h')"
proof -
  let ?h = "h\<lparr>hk_handler := Some Entrypoint_Trap\<rparr>" and ?C = "{breakpoint_chain (first_bp P), breakpoint_chain (second_bp P)}"
  have n: "sigaction_ok env" "map_read env rs" "room_for_objects env (hk_bps h) (\<lambda>_. []) [] rs" "?C \<inter> heads_of (calloc_objects env) = {}"
    "hook_needs env (hk_bps h) (loaded env rs) P" "entry_address env (loaded env rs) (first_at P)" "second_at P = text_start (first_ob P) + 0xdac"
    using needs by (simp_all add: init_needs_def)
  have inv: "hooks_inv (hk_bps h) [] (\<lambda>_. []) [] Map.empty Map.empty" using boot by (simp add: boot_state_def)
  obtain ths where ths: "thread_map_init (hk_threads h) = Some ths" "thread_rel ths Map.empty"
    using thread_map_init_empty[of "hk_threads h"] boot by (auto simp: boot_state_def)
  have fr: "bkpt_fresh (hk_bps h) (first_bp P)" "bkpt_fresh (hk_bps h) (second_bp P)" using n(5) by (simp_all add: hook_needs_def bkpt_pool_def)
  then have "\<forall>c \<in> ?C. ob_lists (bs_objs (hk_bps h)) c = None" by (simp add: bkpt_fresh_def)
  then obtain objs xs where o: "object_load (maps_opened env) (maps_reads env) (maps_strndup env) (maps_self env) (calloc_objects env) (bs_objs (hk_bps h)) = Some objs"
    "hooks_inv ((hk_bps h)\<lparr>bs_objs := objs\<rparr>) xs (\<lambda>_. []) [] Map.empty Map.empty" "object_list objs xs = loaded env rs"
    "\<forall>c \<in> ?C. ob_lists objs c = None"
    using reload_ok[OF inv n(2,3) _ n(4)] by (auto simp: loaded_def object_list_def)
  let ?S = "(hk_bps h)\<lparr>bs_objs := objs\<rparr>"
  let ?s = "?h\<lparr>hk_threads := ths, hk_bps := ?S\<rparr>"
  have "bkpt_fresh ?S (first_bp P)" "bkpt_fresh ?S (second_bp P)" using bkpt_fresh_objects fr o(4) by simp_all
  then have "hook_needs env ?S (loaded env rs) P" using n(5) by (simp add: hook_needs_def bkpt_pool_def)
  then have nd: "hook_needs env (hk_bps ?s) (object_list (bs_objs (hk_bps ?s)) xs) P" and inv': "hooks_inv (hk_bps ?s) xs (\<lambda>_. []) [] Map.empty Map.empty"
    using o(2,3) by simp_all
  obtain s1 b where s1: "hook_address env (first_at P) ?s = Some (first_bp P, ?s\<lparr>hk_bps := s1\<rparr>)"
    "load (bs_bkpts s1) (first_bp P) = Some b" "load (ob_objects (bs_objs s1)) (bk_obj b) = Some (first_ob P)"
    "\<forall>t. hk_bps t = s1 \<longrightarrow> (\<exists>s2. hook_address env (second_at P) t = Some (second_bp P, t\<lparr>hk_bps := s2\<rparr>) \<and> hooked_twice ?S xs pg P s2)"
    by (rule two_hooks[OF inv' nd]) (rule that; simp add: pg_def)
  let ?t = "?s\<lparr>hk_bps := s1, entry_bp := first_bp P\<rparr>"
  have "hk_bps ?t = s1" by simp
  then obtain s2 where s2: "hook_address env (second_at P) ?t = Some (second_bp P, ?t\<lparr>hk_bps := s2\<rparr>)" "hooked_twice ?S xs pg P s2"
    using s1(4) by blast
  have "object_ok objs xs" using o(2) by (simp add: hooks_inv_def hook_inv_def lists_inv_def)
  then have entry: "object_get_self_entrypoint (exe_malloc env) (exe_link env) (exe_strdup env) (exe_header env) objs = Some (first_at P, objs)"
    using entry_address_ok[of objs xs env "first_at P"] n(6) o(3) loaded_named[of _ env rs] by simp
  let ?h' = "?t\<lparr>hk_bps := s2\<rparr>"
  have "?s = ?h\<lparr>hk_threads := ths, hk_bps := (hk_bps h)\<lparr>bs_objs := objs\<rparr>\<rparr>" by simp
  then have "lib_init env h = Some ?h'"
    using n(1,7) ths(1) o(1) entry s1(1-3) s2(1) by (simp add: lib_init_def set_sighandle_def load_objects_def)
  moreover have "object_list (bs_objs (hk_bps ?h')) xs = loaded env rs"
    using s2(2) o(3) by (simp add: hooked_twice_def object_list_def)
  ultimately show thesis using that[of ?h' ?S xs] ths s2(2) boot by (simp add: boot_state_def)
qed

section \<open>An example\<close>

text \<open>
  A process at the start: one program with a \<^verbatim>\<open>nop\<close> at its entry point 0x401000 and one at 0x400DAC; the thread table has its heads
  at 0x100000.
\<close>

definition boot_threads :: thread_table where
  "boot_threads = \<lparr>tt_lists = (\<lambda>p. if 0x100000 \<le> p \<and> p < 0x200000 then Some \<lparr>lh_next = NULL, lh_prev = NULL\<rparr> else None),
     tt_threads = Map.empty, thread_map = 0x100000, thread_map_lock = False\<rparr>"

definition boot_sample :: hook_state where
  "boot_sample = \<lparr>hk_bps = \<lparr>bs_table = bs_table sample_boot,
       bs_slots = sample_slots\<lparr>ss_mem := \<lparr>mem_words = [0x401000 \<mapsto> 0xD503201F, 0x401004 \<mapsto> 0, 0x400DAC \<mapsto> 0xD503201F, 0x400DB0 \<mapsto> 0], mem_writable = (\<lambda>_. False)\<rparr>\<rparr>,
       bs_objs = \<lparr>ob_lists = [0x900 \<mapsto> \<lparr>lh_next = 0x900, lh_prev = 0x900\<rparr>], ob_objects = Map.empty, objects = 0x900, object_lock = False\<rparr>,
       bs_bkpts = Map.empty\<rparr>,
     hk_threads = boot_threads, hk_handler = None, entry_bp = NULL, entry_hit = False\<rparr>"

definition boot_env :: environment where
  "boot_env = sample_env\<lparr>maps_reads := [(Some (print_region sample_region), True), (Some [], True)], calloc_objects := [0x1000],
     exe_link := Some ''/bin/app'', exe_header := Some ([0x7F, 0x45, 0x4C, 0x46] @ replicate 20 0 @ [0, 0x10, 0, 0] @ replicate 24 0),
     calloc_bkpt := (\<lambda>t. if bs_bkpts t 0x8000 = None then 0x8000 else 0x8200)\<rparr>"

definition boot_plan :: plan where
  "boot_plan = \<lparr>first_bp = 0x8000, first_at = 0x401000, first_ob = sample_text, first_instr = 0xD503201F,
     second_bp = 0x8200, second_at = 0x400DAC, second_ob = sample_text, second_instr = 0xD503201F\<rparr>"

lemma boot_bucket:
  assumes "j \<in> {0..<THREAD_MAP_SIZE}"
  shows "live (tt_lists boot_threads) (bucket boot_threads j)"
proof -
  have b: "bucket boot_threads j = word_of_int (0x100000 + 16 * j)" by (simp add: bucket_def boot_threads_def)
  have "0 \<le> 0x100000 + 16 * j" "0x100000 + 16 * j < 2 ^ 64" using assms by (auto simp: THREAD_MAP_SIZE_def)
  then have u: "uint (bucket boot_threads j) = 0x100000 + 16 * j" unfolding b by (subst uint_word_of_int_eq) (simp add: take_bit_int_eq_self)
  then have "0x100000 \<le> bucket boot_threads j" "bucket boot_threads j < 0x200000" "bucket boot_threads j \<noteq> NULL"
    using assms u by (auto simp: word_le_def word_less_def THREAD_MAP_SIZE_def)
  then show ?thesis by (simp add: live_def load_def) (simp add: boot_threads_def)
qed

lemma boot_sample_state: "boot_state boot_sample"
proof -
  have "lists_inv (bs_objs (hk_bps boot_sample)) [] (\<lambda>_. [])"
    by (simp add: lists_inv_def object_ok_def boot_sample_def ring_def nexts_def prevs_def load_def)
  moreover have "slots_inv (bs_slots (hk_bps boot_sample)) [] Map.empty"
    using sample_slots_ok(1) by (simp add: slots_inv_def boot_sample_def slot_rel_def slot_ok_def)
  moreover have "bp_rel (bs_table (hk_bps boot_sample)) Map.empty"
    using sample_boot_inv by (simp add: boot_sample_def hooks_inv_def hook_inv_def)
  moreover have "load_word x (bs_mem (hk_bps boot_sample)) \<noteq> Some BRK_INSTR" for x
    by (simp add: boot_sample_def load_word_def load_def BRK_INSTR_def)
  ultimately have "hooks_inv (hk_bps boot_sample) [] (\<lambda>_. []) [] Map.empty Map.empty"
    by (simp add: hooks_inv_def hook_inv_def text_apart_def outside_slots_def)
  then show ?thesis using boot_bucket by (simp add: boot_state_def) (simp add: boot_sample_def boot_threads_def)
qed

lemma boot_loaded: "loaded boot_env [sample_region] = [sample_text]"
proof -
  have "atoi (rg_inode sample_region) \<noteq> 0" using sample_region_ok(2) by simp
  moreover have "region_attr sample_region = 0xB"
    by (simp add: region_attr_def sample_region_def attr_char_def OBJ_ATTR_FLAG_PRIVATE_def OBJ_ATTR_FLAG_EXECUTE_def OBJ_ATTR_FLAG_READ_def
      OBJ_ATTR_FLAG_WRITE_def)
  ultimately show ?thesis
    by (simp add: loaded_def load_region_def OBJ_ATTR_FLAG_EXECUTE_def new_object_def boot_env_def sample_env_def)
      (simp add: sample_region_def sample_text_def)
qed

lemma boot_entry: "object_get_exe_entrypoint (exe_header boot_env) = 0x1000"
  by (simp add: object_get_exe_entrypoint_def boot_env_def le32_def nth_append)

lemma boot_sample_needs: "init_needs boot_env boot_sample [sample_region] boot_plan" "mmap_slot boot_env (bs_mem (hk_bps boot_sample)) = 0x10000"
proof -
  let ?s = "hk_bps boot_sample"
  have parts: "bs_bkpts ?s = Map.empty" "bt_entries (bs_table ?s) = Map.empty" "rb_nodes (bt_tree (bs_table ?s)) = Map.empty"
    "ob_lists (bs_objs ?s) = [0x900 \<mapsto> \<lparr>lh_next = 0x900, lh_prev = 0x900\<rparr>]" "ob_objects (bs_objs ?s) = Map.empty"
    by (simp_all add: boot_sample_def sample_boot_def)
  have fresh: "bkpt_fresh ?s 0x8000" "bkpt_fresh ?s 0x8200"
    by (simp_all add: bkpt_fresh_def parts bp_enter_def bp_return_def breakpoint_chain_def rb_node_offset_def aligned_def)
  then have pool: "bkpt_pool boot_env ?s 0x8000 0x8200" by (simp add: bkpt_pool_def blocks_apart_def) (simp add: boot_env_def)
  have env: "calloc_slot boot_env = (\<lambda>_. 0x5000)" "mmap_slot boot_env = (\<lambda>_. 0x10000)" "mprotect_ok boot_env = (\<lambda>_ _. True)"
    by (simp_all add: boot_env_def sample_env_def)
  have "calloc_ok (\<lambda>_. 0x5000) (bs_slots ?s)" using sample_slots_ok(2) by (simp add: calloc_ok_def boot_sample_def)
  moreover have "\<not> in_range 0x10000 (of_nat SLOT_PAGE_SIZE) 0x401000" "\<not> in_range 0x10000 (of_nat SLOT_PAGE_SIZE) 0x400DAC"
    "\<not> in_range 0x10000 (of_nat SLOT_PAGE_SIZE) 0x401004" "\<not> in_range 0x10000 (of_nat SLOT_PAGE_SIZE) 0x400DB0"
    by (simp_all add: in_range_def slot_constants)
  then have "mmap_ok (\<lambda>_. 0x10000) (bs_mem ?s)" by (auto simp: mmap_ok_def boot_sample_def slot_constants)
  moreover have "can_hook boot_env [sample_text] (bs_mem ?s) 0x401000 sample_text 0xD503201F"
    "can_hook boot_env [sample_text] (bs_mem ?s) 0x400DAC sample_text 0xD503201F"
    by (simp_all add: can_hook_def env sample_text_def object_attr_flag_NO_BKPT_def OBJ_ATTR_FLAG_NO_BKPT_def in_range_def boot_sample_def
      load_word_def load_def)
  ultimately have hn: "hook_needs boot_env ?s [sample_text] boot_plan"
    using pool sample_apart by (auto simp: hook_needs_def env boot_plan_def)
  have "region_ok sample_region" by (rule sample_region_ok(1))
  moreover have "print_region sample_region \<noteq> []" by (simp add: print_region_def)
  ultimately have "map_read boot_env [sample_region]"
    unfolding map_read_def by (auto simp: boot_env_def sample_env_def intro!: exI[of _ "[print_region sample_region]"])
  moreover have "room_for_objects boot_env ?s (\<lambda>_. []) [] [sample_region]"
    by (simp add: room_for_objects_def boot_env_def supply_ok_def object_fresh_def parts object_chain_def object_bps_def outside_slots_def)
  moreover have "entry_address boot_env [sample_text] 0x401000"
    using boot_entry by (simp add: entry_address_def boot_env_def sample_env_def sample_text_def)
  moreover have "{breakpoint_chain 0x8000, breakpoint_chain 0x8200} \<inter> heads_of (calloc_objects boot_env) = {}"
    by (simp add: breakpoint_chain_def heads_of_def boot_env_def object_chain_def object_bps_def)
  moreover have "sigaction_ok boot_env" by (simp add: boot_env_def sample_env_def)
  ultimately show "init_needs boot_env boot_sample [sample_region] boot_plan"
    using hn unfolding init_needs_def boot_loaded by (simp add: boot_plan_def sample_text_def)
  show "mmap_slot boot_env (bs_mem (hk_bps boot_sample)) = 0x10000" by (simp add: env)
qed

section \<open>Properties\<close>

text \<open>
  C3: the constructor.  In a fresh process whose memory map, link and file can be read and whose allocators have what is needed,
  \<^verbatim>\<open>lib_init\<close> returns, with the handler of the entry point installed and no thread in the table.  The objects are those of the
  executable mappings; there are two hooks, on the entry point of the program and on the fixed offset in its text, with the
  first two slots of one new page; and memory is as before but for the two \<^verbatim>\<open>brk\<close> and that page.
\<close>

theorem lib_init_hooks:
  assumes "boot_state h" "init_needs env h rs P" "pg = mmap_slot env (bs_mem (hk_bps h))"
  shows "\<exists>h' xs B zs. lib_init env h = Some h' \<and> hk_handler h' = Some Entrypoint_Trap \<and> entry_bp h' = first_bp P \<and>
    thread_rel (hk_threads h') Map.empty \<and> hooks_inv (hk_bps h') xs B zs (planned_table pg P) (planned_hooks pg P) \<and>
    object_list (bs_objs (hk_bps h')) xs = loaded env rs \<and> planned_memory pg P (bs_mem (hk_bps h)) (bs_mem (hk_bps h'))"
proof -
  obtain h' S xs where r: "lib_init env h = Some h'" "hk_handler h' = Some Entrypoint_Trap" "entry_bp h' = first_bp P"
    "thread_rel (hk_threads h') Map.empty" "hooked_twice S xs pg P (hk_bps h')" "bs_mem S = bs_mem (hk_bps h)"
    "object_list (bs_objs (hk_bps h')) xs = loaded env rs"
    unfolding assms(3) by (rule lib_init_ok[OF assms(1,2)])
  then show ?thesis unfolding hooked_twice_def by metis
qed

theorem lib_init_hooks_witness:
  "\<exists>h' xs B zs. lib_init boot_env boot_sample = Some h' \<and> hk_handler h' = Some Entrypoint_Trap \<and> entry_bp h' = 0x8000 \<and>
    hooks_inv (hk_bps h') xs B zs (planned_table 0x10000 boot_plan)
      [0x8000 \<mapsto> (0x401000, 0x10000, 0xD503201F), 0x8200 \<mapsto> (0x400DAC, 0x10008, 0xD503201F)] \<and>
    object_list (bs_objs (hk_bps h')) xs = [sample_text] \<and> load_word 0x401000 (bs_mem (hk_bps h')) = Some BRK_INSTR"
proof -
  have hooks: "planned_hooks 0x10000 boot_plan = [0x8000 \<mapsto> (0x401000, 0x10000, 0xD503201F), 0x8200 \<mapsto> (0x400DAC, 0x10008, 0xD503201F)]"
    by (simp add: planned_hooks_def boot_plan_def)
  obtain h' xs B zs where r: "lib_init boot_env boot_sample = Some h'" "hk_handler h' = Some Entrypoint_Trap" "entry_bp h' = first_bp boot_plan"
    "hooks_inv (hk_bps h') xs B zs (planned_table 0x10000 boot_plan) (planned_hooks 0x10000 boot_plan)"
    "object_list (bs_objs (hk_bps h')) xs = loaded boot_env [sample_region]"
    "planned_memory 0x10000 boot_plan (bs_mem (hk_bps boot_sample)) (bs_mem (hk_bps h'))"
    using lib_init_hooks[OF boot_sample_state boot_sample_needs(1) boot_sample_needs(2)[symmetric]] by (elim exE conjE)
  have "load_word 0x401000 (bs_mem (hk_bps h')) = Some BRK_INSTR" using r(6) by (simp add: planned_memory_def boot_plan_def)
  then show ?thesis using r(1-5) unfolding hooks boot_loaded by (simp add: boot_plan_def) blast
qed

text \<open>
  C6: the types of the heaps.  Hooking an address, from any state in which it returns, adds the places of one breakpoint, that of the
  block of \<^verbatim>\<open>calloc\<close>, and of at most one slot set with its list head, in the block of the \<^verbatim>\<open>calloc\<close> in \<^verbatim>\<open>slot_set_add\<close>; it does not touch the threads.  No
  address changes its type, none is released, and a block that was free and does not overlap with that of the breakpoint is free for
  the next one.  The handler of breakpoints adds at most the thread of the signal, with its list head, and no place of another type;
  it releases nothing.  The one assumption is that no block of \<^verbatim>\<open>calloc\<close> lies over the static head of the list of slot sets.
\<close>

theorem hook_address_typing:
  assumes "hook_address env a s = Some (p, s')"
    and "\<forall>sl. slot_set_list (calloc_slot env sl) \<noteq> slot_sets (bs_slots (hk_bps s))"
  shows "p = calloc_bkpt env (hk_bps s) \<and> with_bkpt p (hk_bps s) (hk_bps s') \<and>
    one_set (calloc_slot env) (bs_slots (hk_bps s)) (bs_slots (hk_bps s')) \<and> hk_threads s' = hk_threads s \<and>
    (\<forall>q. bkpt_fresh (hk_bps s) q \<longrightarrow> blocks_apart p q \<longrightarrow> bkpt_fresh (hk_bps s') q) \<and>
    (\<forall>tid pc pc' t. sigtrap_handler env tid pc s' = Some (pc', t) \<longrightarrow>
      live_places (hk_bps t) = live_places (hk_bps s') \<and> bs_slots (hk_bps t) = bs_slots (hk_bps s') \<and>
      (with_threads {} (hk_threads s') (hk_threads t) \<or> with_threads {calloc_thread env (hk_threads s')} (hk_threads s') (hk_threads t)))"
proof (intro conjI)
  note h = hook_address_places[OF assms(1)]
  show "p = calloc_bkpt env (hk_bps s)" "with_bkpt p (hk_bps s) (hk_bps s')" "hk_threads s' = hk_threads s" using h by auto
  show "one_set (calloc_slot env) (bs_slots (hk_bps s)) (bs_slots (hk_bps s'))" using hook_address_sets[OF assms(1)] assms(2) by blast
  show "\<forall>q. bkpt_fresh (hk_bps s) q \<longrightarrow> blocks_apart p q \<longrightarrow> bkpt_fresh (hk_bps s') q" using h bkpt_fresh_apart by blast
  show "\<forall>tid pc pc' t. sigtrap_handler env tid pc s' = Some (pc', t) \<longrightarrow>
      live_places (hk_bps t) = live_places (hk_bps s') \<and> bs_slots (hk_bps t) = bs_slots (hk_bps s') \<and>
      (with_threads {} (hk_threads s') (hk_threads t) \<or> with_threads {calloc_thread env (hk_threads s')} (hk_threads s') (hk_threads t))"
    by (intro allI impI conjI; erule sigtrap_handler_places sigtrap_handler_threads)
qed

theorem hook_address_typing_witness:
  "\<exists>s'. hook_address sample_env 0x400DAC sample_start = Some (0x8000, s') \<and> bs_bkpts (hk_bps s') 0x8000 \<noteq> None \<and>
    bkpt_fresh (hk_bps s') 0x8200 \<and> one_set (calloc_slot sample_env) (bs_slots sample_boot) (bs_slots (hk_bps s'))"
proof -
  obtain sl where sl: "slot_alloc (calloc_slot sample_env) (mmap_slot sample_env) (bs_slots sample_boot) = Some (0x5000, 0, sl)"
    by (rule sample_boot_slot)
  have "unat (0 :: u32) < 512" by simp
  with sl obtain s' where s': "hook_address sample_env 0x400DAC sample_start = Some (0x8000, sample_start\<lparr>hk_bps := s'\<rparr>)"
    using hook_address_ok[OF sample_start_ok(1) refl sample_start_ok(2,3), of "0x5000" 0 sl, unfolded sample_start_ok(5)]
      sample_start_ok(4)[unfolded sample_start_ok(5)] by auto
  have "bkpt_fresh (hk_bps sample_start) 0x8200"
    unfolding sample_start_ok(5)
    by (simp add: bkpt_fresh_def sample_boot_def bp_enter_def bp_return_def breakpoint_chain_def rb_node_offset_def aligned_def)
  moreover have "blocks_apart 0x8000 0x8200" by (simp add: blocks_apart_def)
  moreover have "\<forall>sl. slot_set_list (calloc_slot sample_env sl) \<noteq> slot_sets (bs_slots (hk_bps sample_start))"
    unfolding sample_start_ok(5) by (simp add: sample_env_def sample_boot_def sample_slots_def slot_set_list_def)
  ultimately have r: "with_bkpt 0x8000 (hk_bps sample_start) s' \<and> bkpt_fresh s' 0x8200 \<and> one_set (calloc_slot sample_env) (bs_slots sample_boot) (bs_slots s')"
    using hook_address_typing[OF s'] unfolding sample_start_ok(5) by simp
  then have "places (bs_bkpts s') 0x8000" by (simp add: with_bkpt_def live_places_def add_places_def)
  then show ?thesis using s' r by (simp add: places_def)
qed

end
