(* ===== verification/Whole_Process.thy ===== *)
theory Whole_Process
  imports Constructor
begin

text \<open>
  A process with the library, from the constructor through the two traps at the entry point to the hooked program: it does
  what the program does on the memory it had before the library was loaded.
\<close>

section \<open>The program without the library\<close>

text \<open>Its threads never leave the mapped memory.\<close>

definition mapped_program :: "'c exec \<Rightarrow> (addr \<rightharpoonup> u32) \<Rightarrow> (32 word \<rightharpoonup> addr) \<Rightarrow> 'c \<Rightarrow> bool" where
  "mapped_program exec M pcs c \<longleftrightarrow>
     (\<forall>npcs d. (native_step exec M)\<^sup>*\<^sup>* (pcs, c) (npcs, d) \<longrightarrow> (\<forall>tid pc. npcs tid = Some pc \<longrightarrow> M pc \<noteq> None))"

text \<open>More memory makes no difference to such a program.\<close>

lemma native_run_smaller:
  assumes le: "M \<subseteq>\<^sub>m N" and m: "mapped_program exec M pcs c" and r: "(native_step exec N)\<^sup>*\<^sup>* (pcs, c) (npcs, d)"
  shows "(native_step exec M)\<^sup>*\<^sup>* (pcs, c) (npcs, d)"
  using r
proof (induction rule: rtranclp_induct2)
  case (step ps e qs f)
  have "native_step exec M (ps, e) (qs, f)"
    using step.hyps(2)
  proof (cases rule: native_step.cases)
    case (native tid pc i pc')
    have "M pc \<noteq> None" using m step.IH native(2) unfolding mapped_program_def by blast
    then have "M pc = Some i" using le native(3) unfolding map_le_def by (metis domI domIff)
    then show ?thesis using native native_step.native[of ps tid pc M i exec e pc' f] by simp
  qed
  then show ?case using step.IH by (rule rtranclp.rtrancl_into_rtrancl[rotated])
qed simp

text \<open>The memory of the program, extended by the page of the slots.\<close>

definition with_page :: "memory \<Rightarrow> memory \<Rightarrow> addr \<rightharpoonup> u32" where
  "with_page m m' = (\<lambda>x. case load_word x m of Some i \<Rightarrow> Some i | None \<Rightarrow> load_word x m')"

lemma planned_native:
  assumes mm: "mmap_ok mmap m" and pm: "planned_memory (mmap m) P m (bs_mem (hk_bps h))"
    and l: "load_word (first_at P) m = Some (first_instr P)" "load_word (second_at P) m = Some (second_instr P)" and ne: "first_bp P \<noteq> second_bp P"
  shows "native_text h (planned_hooks (mmap m) P) (with_page m (bs_mem (hk_bps h)))"
proof -
  have "with_page m (bs_mem (hk_bps h)) x = Some i" if x: "load_word x (bs_mem (hk_bps h)) = Some i" "i \<noteq> BRK_INSTR" for x i
  proof (cases "load_word x m")
    case (Some j)
    then have out: "\<not> in_range (mmap m) (of_nat SLOT_PAGE_SIZE) x" "x \<noteq> mmap m" "x \<noteq> mmap m + 8" using unmapped_page[OF mm, of x] by auto
    then have "load_word x (bs_mem (hk_bps h)) = (if x \<in> {first_at P, mmap m + 4, second_at P, mmap m + 8 + 4} then Some BRK_INSTR else Some j)"
      using pm Some by (simp add: planned_memory_def load_word_map_anonymous word_in_range_def)
    then show ?thesis using x Some by (simp add: with_page_def split: if_splits)
  qed (simp add: with_page_def x(1))
  then show ?thesis using l ne by (auto simp: native_text_def planned_hooks_def with_page_def split: if_splits)
qed

section \<open>From the constructor on\<close>

text \<open>What the two traps at the entry point need of the environment they run in.\<close>

definition trap_needs :: "environment \<Rightarrow> 32 word \<Rightarrow> region list \<Rightarrow> addr \<Rightarrow> hook_state \<Rightarrow> bool" where
  "trap_needs env tid rs pg h \<longleftrightarrow> map_read env rs \<and> supply_ok (bs_objs (hk_bps h)) (calloc_objects env) \<and>
     length rs \<le> length (calloc_objects env) \<and>
     (\<forall>r \<in> set rs. atoi (rg_inode r) \<noteq> 0 \<longrightarrow> region_attr r AND OBJ_ATTR_FLAG_EXECUTE \<noteq> 0 \<longrightarrow>
       (\<forall>a. in_range (rg_start r) (rg_end r - rg_start r) a \<longrightarrow> \<not> in_range pg (of_nat SLOT_PAGE_SIZE) a)) \<and>
     sigaction_ok env \<and> calloc_sound env \<and> thread_avail env tid (hk_threads h)"

lemma trap_needs_room:
  assumes t: "trap_needs env tid rs pg h" and li: "lists_inv (bs_objs (hk_bps h)) xs B" and B: "\<forall>y. y \<notin> set xs \<longrightarrow> B y = []"
    and z: "ss_slots (set_at (bs_slots (hk_bps h)) z) = pg"
  shows "room_for_objects env (hk_bps h) B [z] rs"
proof -
  have "object_chain p \<notin> set xs" if "p \<in> set (calloc_objects env)" for p
  proof
    assume "object_chain p \<in> set xs"
    then have "ob_objects (bs_objs (hk_bps h)) p \<noteq> None" using li by (fastforce simp: lists_inv_def object_ok_def)
    then show False using t that by (simp add: trap_needs_def supply_ok_def object_fresh_def)
  qed
  then have "\<forall>p \<in> set (calloc_objects env). B (object_chain p) = []" using B by simp
  moreover have "outside_slots (bs_slots (hk_bps h)) [z] a" if "\<not> in_range pg (of_nat SLOT_PAGE_SIZE) a" for a
    using that z by (simp add: outside_slots_def in_page_def word_in_range_def)
  ultimately show ?thesis using t by (simp add: room_for_objects_def trap_needs_def)
qed

text \<open>The state behind the two traps: transparent hooks over the memory of the program.\<close>

definition under_hooks :: "memory \<Rightarrow> addr \<Rightarrow> plan \<Rightarrow> hook_state \<Rightarrow> bool" where
  "under_hooks m pg P h \<longleftrightarrow> (\<exists>xs B zs. hooks_inv (hk_bps h) xs B zs (planned_table pg P) (planned_hooks pg P)) \<and>
     hk_handler h = Some Sigtrap \<and> marks h (\<lambda>_. NULL) \<and> planned_memory pg P m (bs_mem (hk_bps h))"

lemma process_starts:
  assumes boot: "boot_state h" and needs: "init_needs env h rs P" and pg: "pg = mmap_slot env (bs_mem (hk_bps h))"
    and trap: "\<And>h1. lib_init env h = Some h1 \<Longrightarrow> trap_needs env' tid rs' pg h1" and tid: "0 \<le> sint tid"
  obtains h1 h2 h3 where "lib_init env h = Some h1" "deliver_trap env' tid (first_at P) h1 = Some (pg, h2)"
    "deliver_trap env' tid (pg + 4) h2 = Some (first_at P + 4, h3)" "under_hooks (bs_mem (hk_bps h)) pg P h3"
    "planned_memory pg P (bs_mem (hk_bps h)) (bs_mem (hk_bps h1))" "planned_memory pg P (bs_mem (hk_bps h)) (bs_mem (hk_bps h2))"
proof -
  obtain h1 S xs where r: "lib_init env h = Some h1" "hk_handler h1 = Some Entrypoint_Trap" "entry_bp h1 = first_bp P" "\<not> entry_hit h1"
    "thread_rel (hk_threads h1) Map.empty" "hooked_twice S xs pg P (hk_bps h1)" "bs_mem S = bs_mem (hk_bps h)"
    unfolding pg by (rule lib_init_ok[OF boot needs])
  obtain B z where k: "hooks_inv (hk_bps h1) xs B [z] (planned_table pg P) (planned_hooks pg P)" "\<forall>y. y \<notin> set xs \<longrightarrow> B y = []"
    "ss_slots (set_at (bs_slots (hk_bps h1)) z) = pg" and pm: "planned_memory pg P (bs_mem (hk_bps h)) (bs_mem (hk_bps h1))"
    using r(6,7) by (auto simp: hooked_twice_def)
  note t = trap[OF r(1)]
  have "lists_inv (bs_objs (hk_bps h1)) xs B" using k(1) by (simp add: hooks_inv_def hook_inv_def)
  note room = trap_needs_room[OF t this k(2,3)]
  have mr: "map_read env' rs'" and av: "thread_avail env' tid (hk_threads h1)" and cs: "calloc_sound env'" and sa: "sigaction_ok env'"
    using t by (simp_all add: trap_needs_def)
  have ne: "first_bp P \<noteq> second_bp P"
    using needs by (auto simp: init_needs_def hook_needs_def bkpt_pool_def blocks_apart_def)
  then have H: "planned_hooks pg P (first_bp P) = Some (first_at P, pg, first_instr P)" by (simp add: planned_hooks_def)
  have mk: "marks h1 (\<lambda>_. NULL)" using r(5) by (auto simp: marks_def step_mark_def intro!: exI[of _ Map.empty])
  obtain h2 h3 ys where s: "deliver_trap env' tid (first_at P) h1 = Some (pg, h2)" "deliver_trap env' tid (pg + 4) h2 = Some (first_at P + 4, h3)"
    "hk_handler h3 = Some Sigtrap" "marks h3 (\<lambda>_. NULL)" "hooks_inv (hk_bps h3) (xs @ ys) B [z] (planned_table pg P) (planned_hooks pg P)"
    "bs_mem (hk_bps h2) = bs_mem (hk_bps h1)" "bs_mem (hk_bps h3) = bs_mem (hk_bps h1)"
    using startup_ok[OF k(1) mr room r(2,3) H r(4) mk av cs tid sa] by (elim exE conjE)
  have "under_hooks (bs_mem (hk_bps h)) pg P h3" using s(3-5,7) pm by (auto simp: under_hooks_def)
  then show thesis using that[OF r(1) s(1,2)] pm s(6) by simp
qed

lemma under_hooks_transparent:
  assumes u: "under_hooks m (mmap m) P h" and mm: "mmap_ok mmap m"
    and l: "load_word (first_at P) m = Some (first_instr P)" "load_word (second_at P) m = Some (second_instr P)" and ne: "first_bp P \<noteq> second_bp P"
    and rel: "relocatable exec (first_instr P)" "relocatable exec (second_instr P)" and cs: "calloc_sound env"
    and tids: "\<forall>tid \<in> dom pcs. 0 \<le> sint tid" and mp: "mapped_program exec (\<lambda>x. load_word x m) pcs c"
    and run: "(hooked_step env exec)\<^sup>*\<^sup>* (h, pcs, c) (h', pcs', c')"
  shows "\<exists>npcs. (native_step exec (\<lambda>x. load_word x m))\<^sup>*\<^sup>* (pcs, c) (npcs, c') \<and> simulates (planned_hooks (mmap m) P) h' pcs' npcs"
proof -
  let ?H = "planned_hooks (mmap m) P" and ?N = "with_page m (bs_mem (hk_bps h))"
  obtain xs B zs where k: "hooks_inv (hk_bps h) xs B zs (planned_table (mmap m) P) ?H" "hk_handler h = Some Sigtrap" "marks h (\<lambda>_. NULL)"
    and pm: "planned_memory (mmap m) P m (bs_mem (hk_bps h))"
    using u by (auto simp: under_hooks_def)
  have re: "\<forall>p a w i. ?H p = Some (a, w, i) \<longrightarrow> relocatable exec i" using rel by (auto simp: planned_hooks_def split: if_splits)
  note nt = planned_native[OF mm pm l ne]
  have "(\<lambda>x. load_word x m) \<subseteq>\<^sub>m ?N" by (auto simp: map_le_def with_page_def split: option.splits)
  note small = native_run_smaller[OF this mp]
  have "outside_returns ?H npcs" if "(native_step exec ?N)\<^sup>*\<^sup>* (pcs, c) (npcs, d)" for npcs d
  proof -
    have "load_word pc m \<noteq> None" if "npcs tid = Some pc" for tid pc
      using mp small[OF \<open>(native_step exec ?N)\<^sup>*\<^sup>* (pcs, c) (npcs, d)\<close>] that unfolding mapped_program_def by blast
    then have "pc \<noteq> mmap m + 4 \<and> pc \<noteq> mmap m + 8 + 4" if "npcs tid = Some pc" for tid pc using unmapped_page[OF mm] that by metis
    then show ?thesis by (auto simp: outside_returns_def planned_hooks_def split: if_splits)
  qed
  then obtain npcs where "(native_step exec ?N)\<^sup>*\<^sup>* (pcs, c) (npcs, c')" "simulates ?H h' pcs' npcs"
    using hooked_run_simulated[OF k re nt cs tids _ run] by blast
  then show ?thesis using small by blast
qed

text \<open>The first instruction of the program, executed in the slot between the two traps.\<close>

lemma entry_steps:
  assumes t: "deliver_trap env tid a h1 = Some (w, h2)" "deliver_trap env tid (w + 4) h2 = Some (a + 4, h3)"
    and l: "load_word a (bs_mem (hk_bps h1)) = Some BRK_INSTR" "load_word w (bs_mem (hk_bps h2)) = Some i"
      "load_word (w + 4) (bs_mem (hk_bps h2)) = Some BRK_INSTR" "M a = Some i"
    and rel: "relocatable exec i" and pc: "pcs tid = Some a"
  shows "\<exists>c'. native_step exec M (pcs, c) (pcs(tid \<mapsto> a + 4), c') \<and> (hooked_step env exec)\<^sup>*\<^sup>* (h1, pcs, c) (h3, pcs(tid \<mapsto> a + 4), c')"
proof -
  obtain f where f: "\<And>tid pc c. exec tid i pc c = (pc + 4, f tid c)" and i: "i \<noteq> BRK_INSTR" using rel by (auto simp: relocatable_def)
  have "hooked_step env exec (h1, pcs, c) (h2, pcs(tid \<mapsto> w), c)" by (rule hooked_step.trap[OF _ l(1) t(1)]) (rule pc)
  moreover have "hooked_step env exec (h2, pcs(tid \<mapsto> w), c) (h2, (pcs(tid \<mapsto> w))(tid \<mapsto> w + 4), f tid c)"
    by (rule hooked_step.run[where exec = exec and pc' = "w + 4", OF _ l(2) i]) (simp_all add: f)
  moreover have "hooked_step env exec (h2, (pcs(tid \<mapsto> w))(tid \<mapsto> w + 4), f tid c) (h3, ((pcs(tid \<mapsto> w))(tid \<mapsto> w + 4))(tid \<mapsto> a + 4), f tid c)"
    by (rule hooked_step.trap[OF _ l(3) t(2)]) simp
  ultimately have "(hooked_step env exec)\<^sup>*\<^sup>* (h1, pcs, c) (h3, pcs(tid \<mapsto> a + 4), f tid c)"
    by (simp add: rtranclp.rtrancl_into_rtrancl[OF rtranclp.rtrancl_into_rtrancl[OF r_into_rtranclp]])
  moreover have "native_step exec M (pcs, c) (pcs(tid \<mapsto> a + 4), f tid c)" by (rule native_step.native[where M = M and pc = a and i = i]) (simp_all add: f l(4) pc)
  ultimately show ?thesis by blast
qed

section \<open>An example\<close>

lemma thread_map_init_places:
  assumes "thread_map_init s = Some s'"
  shows "places (tt_lists s') = places (tt_lists s)" "tt_threads s' = tt_threads s"
proof -
  have "places (tt_lists s') = places (tt_lists s) \<and> tt_threads s' = tt_threads s" if "thread_map_init_loop i s = Some s'" for i s
    using that
  proof (induction i s rule: thread_map_init_loop.induct)
    case (1 i s)
    show ?case
    proof (cases "i < THREAD_MAP_SIZE")
      case True
      then obtain h where h: "INIT_LIST_HEAD (bucket s i) (tt_lists s) = Some h" "thread_map_init_loop (i + 1) (s\<lparr>tt_lists := h\<rparr>) = Some s'"
        using "1.prems" by (subst (asm) thread_map_init_loop.simps) (auto simp: bind_eq_Some_conv)
      have "places h = places (tt_lists s)" by (rule ensuresD[OF wp_list_internal(1) h(1)])
      then show ?thesis using "1.IH"[OF True h(1,2)] by simp
    qed (use "1.prems" in \<open>subst (asm) thread_map_init_loop.simps, simp\<close>)
  qed
  then show "places (tt_lists s') = places (tt_lists s)" "tt_threads s' = tt_threads s"
    using assms unfolding thread_map_init_def by blast+
qed

definition trap_env :: environment where
  "trap_env = sample_env\<lparr>calloc_thread := (\<lambda>t. if tt_threads t 0x9000 = None \<and> tt_lists t (thread_list_entry 0x9000) = None then 0x9000 else NULL)\<rparr>"

lemma trap_env_needs:
  assumes "lib_init boot_env boot_sample = Some h1" "hk_bps h1 = s"
  shows "trap_needs trap_env 77 [] 0x10000 h1"
proof -
  obtain h2 where h2: "lib_init boot_env boot_sample = Some h2" "thread_map_init (hk_threads boot_sample) = Some (hk_threads h2)"
    by (rule lib_init_ok[OF boot_sample_state boot_sample_needs(1)])
  then have "thread_map_init boot_threads = Some (hk_threads h1)" using assms by (simp add: boot_sample_def)
  note t = thread_map_init_places[OF this]
  have "tt_threads (hk_threads h1) 0x9000 = None" using t(2) by (simp add: boot_threads_def)
  moreover have "\<not> places (tt_lists (hk_threads h1)) (thread_list_entry 0x9000)"
    unfolding t(1) by (simp add: places_def boot_threads_def thread_list_entry_def)
  ultimately have "calloc_thread_ok trap_env (hk_threads h1)"
    by (simp add: calloc_thread_ok_def trap_env_def places_def thread_list_entry_def)
  moreover have "calloc_sound trap_env" by (simp add: calloc_sound_def calloc_thread_ok_def trap_env_def thread_list_entry_def)
  ultimately show ?thesis
    by (simp add: trap_needs_def thread_avail_def map_read_def) (simp add: trap_env_def sample_env_def supply_ok_def)
qed

lemma sample_relocatable: "relocatable sample_exec 0xD503201F"
  by (auto simp: relocatable_def sample_exec_def BRK_INSTR_def)

text \<open>The thread of the example behind the entry point, without hooks: it executes one \<^verbatim>\<open>nop\<close> and stops.\<close>

lemma sample_native_run:
  assumes "(native_step sample_exec (\<lambda>x. load_word x (bs_mem (hk_bps boot_sample))))\<^sup>*\<^sup>* ([77 \<mapsto> 0x400DAC], 0) (npcs, d)"
  shows "npcs = [77 \<mapsto> 0x400DAC] \<and> d = 0 \<or> npcs = [77 \<mapsto> 0x400DB0] \<and> d = 1"
  using assms
proof (induction rule: rtranclp_induct2)
  case (step ps e qs f)
  from step.hyps(2) show ?case
  proof (cases rule: native_step.cases)
    case (native tid pc i pc')
    have "load_word 0x400DAC (bs_mem (hk_bps boot_sample)) = Some 0xD503201F" "load_word 0x400DB0 (bs_mem (hk_bps boot_sample)) = Some 0"
      by (simp_all add: boot_sample_def load_word_def load_def)
    then show ?thesis using native step.IH by (auto simp: sample_exec_def split: if_splits)
  qed
qed simp

section \<open>Properties\<close>

text \<open>
  C1: the whole process.  In a fresh process the constructor returns; the thread that then runs into the entry point goes through its two
  traps and the slot and has executed the first instruction of the program, no more and no less.  In the state
  that is reached, take any threads at any places from which the program does not leave its mapped memory: every run with the hooks is a run of
  the program on the memory it had before the library was loaded, with the same effect on what it can see, however the threads
  interleave.  The two displaced instructions have to do the same at any address.
\<close>

theorem process_transparent:
  assumes "boot_state h" "init_needs env h rs P" "pg = mmap_slot env (bs_mem (hk_bps h))" "M = (\<lambda>x. load_word x (bs_mem (hk_bps h)))"
    and "\<forall>h1. lib_init env h = Some h1 \<longrightarrow> trap_needs env' tid rs' pg h1" "0 \<le> sint tid" "calloc_sound env'"
    and "relocatable exec (first_instr P)" "relocatable exec (second_instr P)"
  shows "\<exists>h1 h2. lib_init env h = Some h1 \<and>
    (\<forall>pcs c. pcs tid = Some (first_at P) \<longrightarrow> (\<exists>c'. native_step exec M (pcs, c) (pcs(tid \<mapsto> first_at P + 4), c') \<and>
       (hooked_step env' exec)\<^sup>*\<^sup>* (h1, pcs, c) (h2, pcs(tid \<mapsto> first_at P + 4), c'))) \<and>
    (\<forall>pcs c h' pcs' c'. (\<forall>t \<in> dom pcs. 0 \<le> sint t) \<longrightarrow> mapped_program exec M pcs c \<longrightarrow>
       (hooked_step env' exec)\<^sup>*\<^sup>* (h2, pcs, c) (h', pcs', c') \<longrightarrow>
       (\<exists>npcs. (native_step exec M)\<^sup>*\<^sup>* (pcs, c) (npcs, c') \<and> simulates (planned_hooks pg P) h' pcs' npcs))"
proof -
  obtain h1 h2 h3 where s: "lib_init env h = Some h1" "deliver_trap env' tid (first_at P) h1 = Some (pg, h2)"
    "deliver_trap env' tid (pg + 4) h2 = Some (first_at P + 4, h3)" "under_hooks (bs_mem (hk_bps h)) pg P h3"
    "planned_memory pg P (bs_mem (hk_bps h)) (bs_mem (hk_bps h1))" "planned_memory pg P (bs_mem (hk_bps h)) (bs_mem (hk_bps h2))"
    using process_starts[OF assms(1-3) _ assms(6)] assms(5) by blast
  have mm: "mmap_ok (mmap_slot env) (bs_mem (hk_bps h))" and ne: "first_bp P \<noteq> second_bp P"
    and l: "load_word (first_at P) (bs_mem (hk_bps h)) = Some (first_instr P)" "load_word (second_at P) (bs_mem (hk_bps h)) = Some (second_instr P)"
    using assms(2) by (auto simp: init_needs_def hook_needs_def bkpt_pool_def blocks_apart_def can_hook_def)
  have "pg \<noteq> first_at P" "pg \<noteq> second_at P" using unmapped_page(2)[OF mm] l unfolding assms(3) by (metis option.distinct(1))+
  then have w: "load_word (first_at P) (bs_mem (hk_bps h1)) = Some BRK_INSTR" "load_word pg (bs_mem (hk_bps h2)) = Some (first_instr P)"
    "load_word (pg + 4) (bs_mem (hk_bps h2)) = Some BRK_INSTR"
    using s(5,6) by (simp_all add: planned_memory_def)
  have first: "\<exists>c'. native_step exec M (pcs, c) (pcs(tid \<mapsto> first_at P + 4), c') \<and>
      (hooked_step env' exec)\<^sup>*\<^sup>* (h1, pcs, c) (h3, pcs(tid \<mapsto> first_at P + 4), c')" if "pcs tid = Some (first_at P)" for pcs c
    by (rule entry_steps[where M = M and exec = exec and pcs = pcs and c = c, OF s(2,3) w _ assms(8) that]) (simp add: assms(4) l)
  have "\<exists>npcs. (native_step exec M)\<^sup>*\<^sup>* (pcs, c) (npcs, c') \<and> simulates (planned_hooks pg P) h' pcs' npcs"
    if "\<forall>t \<in> dom pcs. 0 \<le> sint t" "mapped_program exec M pcs c" "(hooked_step env' exec)\<^sup>*\<^sup>* (h3, pcs, c) (h', pcs', c')" for pcs c h' pcs' c'
    using under_hooks_transparent[OF s(4)[unfolded assms(3)] mm l ne assms(8,9,7) that(1) that(2)[unfolded assms(4)] that(3)] unfolding assms(3,4) .
  then show ?thesis using s(1) first by (intro exI[of _ h1] exI[of _ h3] conjI allI impI)
qed

theorem process_transparent_witness:
  "\<exists>h1 h2 c'. lib_init boot_env boot_sample = Some h1 \<and>
    (hooked_step trap_env sample_exec)\<^sup>*\<^sup>* (h1, [77 \<mapsto> 0x401000], 0) (h2, [77 \<mapsto> 0x401004], c') \<and> c' = 1 \<and>
    (\<forall>h' pcs' c'. (hooked_step trap_env sample_exec)\<^sup>*\<^sup>* (h2, [77 \<mapsto> 0x400DAC], 0) (h', pcs', c') \<longrightarrow> c' \<le> 1)"
proof -
  let ?M = "\<lambda>x. load_word x (bs_mem (hk_bps boot_sample))"
  have needs: "\<forall>h1. lib_init boot_env boot_sample = Some h1 \<longrightarrow> trap_needs trap_env 77 [] 0x10000 h1" using trap_env_needs by blast
  have cs: "calloc_sound trap_env" by (simp add: calloc_sound_def calloc_thread_ok_def trap_env_def thread_list_entry_def)
  have plan: "first_at boot_plan = 0x401000" "relocatable sample_exec (first_instr boot_plan)" "relocatable sample_exec (second_instr boot_plan)"
    using sample_relocatable by (simp_all add: boot_plan_def)
  have tid: "0 \<le> sint (77 :: 32 word)" by simp
  obtain h1 h2 where h: "lib_init boot_env boot_sample = Some h1"
    "\<forall>pcs c. pcs 77 = Some 0x401000 \<longrightarrow> (\<exists>c'. native_step sample_exec ?M (pcs, c) (pcs(77 \<mapsto> 0x401000 + 4), c') \<and>
       (hooked_step trap_env sample_exec)\<^sup>*\<^sup>* (h1, pcs, c) (h2, pcs(77 \<mapsto> 0x401000 + 4), c'))"
    "\<forall>pcs c h' pcs' c'. (\<forall>t \<in> dom pcs. 0 \<le> sint t) \<longrightarrow> mapped_program sample_exec ?M pcs c \<longrightarrow>
       (hooked_step trap_env sample_exec)\<^sup>*\<^sup>* (h2, pcs, c) (h', pcs', c') \<longrightarrow>
       (\<exists>npcs. (native_step sample_exec ?M)\<^sup>*\<^sup>* (pcs, c) (npcs, c') \<and> simulates (planned_hooks 0x10000 boot_plan) h' pcs' npcs)"
    using process_transparent[OF boot_sample_state boot_sample_needs(1) boot_sample_needs(2)[symmetric] refl needs tid cs plan(2,3), unfolded plan(1)]
    by (elim exE conjE)
  obtain c' where c': "native_step sample_exec ?M ([77 \<mapsto> 0x401000], 0) ([77 \<mapsto> 0x401000, 77 \<mapsto> 0x401000 + 4], c')"
    "(hooked_step trap_env sample_exec)\<^sup>*\<^sup>* (h1, [77 \<mapsto> 0x401000], 0) (h2, [77 \<mapsto> 0x401000, 77 \<mapsto> 0x401000 + 4], c')"
    using h(2)[rule_format, of "[77 \<mapsto> 0x401000]" 0] by auto
  have "c' = 1"
    using c'(1)
  proof (cases rule: native_step.cases)
    case (native tid pc i pc')
    have "?M 0x401000 = Some 0xD503201F" by (simp add: boot_sample_def load_word_def load_def)
    then show ?thesis using native by (auto simp: sample_exec_def split: if_splits)
  qed
  have mapped: "mapped_program sample_exec ?M [77 \<mapsto> 0x400DAC] 0"
  proof -
    have "?M 0x400DAC \<noteq> None" "?M 0x400DB0 \<noteq> None" by (simp_all add: boot_sample_def load_word_def load_def)
    then have "?M pc \<noteq> None" if "npcs = [77 \<mapsto> 0x400DAC] \<or> npcs = [77 \<mapsto> 0x400DB0]" "npcs tid = Some pc" for npcs and tid :: "32 word" and pc
      using that by (auto split: if_splits)
    then have "\<forall>tid pc. npcs tid = Some pc \<longrightarrow> ?M pc \<noteq> None"
      if "(native_step sample_exec ?M)\<^sup>*\<^sup>* ([77 \<mapsto> 0x400DAC], 0) (npcs, d)" for npcs d
      using sample_native_run[OF that] by metis
    then show ?thesis unfolding mapped_program_def by iprover
  qed
  note sim = h(3)[THEN spec, THEN spec, THEN spec, THEN spec, THEN spec, THEN mp, THEN mp, THEN mp]
  have "c \<le> 1" if "(hooked_step trap_env sample_exec)\<^sup>*\<^sup>* (h2, [77 \<mapsto> 0x400DAC], 0) (h', pcs', c)" for h' pcs' c
  proof -
    have "\<forall>t \<in> dom [77 \<mapsto> (0x400DAC :: addr)]. 0 \<le> sint (t :: 32 word)" by simp
    from sim[OF this mapped that] obtain npcs where "(native_step sample_exec ?M)\<^sup>*\<^sup>* ([77 \<mapsto> 0x400DAC], 0) (npcs, c)" by (elim exE conjE)
    from sample_native_run[OF this] show ?thesis by auto
  qed
  then show ?thesis using h(1) c'(2) \<open>c' = 1\<close> by (intro exI[of _ h1] exI[of _ h2] exI[of _ c']) simp
qed

end
