(* ===== verification/Delay_Test.thy ===== *)
theory Delay_Test
  imports Prelude
begin

text \<open>
  The test program of the hook library, \<^verbatim>\<open>signal_test/test_main.c\<close>: ten threads that measure how long an instruction takes, with
  or without a breakpoint on it, each of which keeps the largest, the smallest and a mean delay, and the report of the main
  program.  The clock is a parameter; what is printed is left out.
\<close>

section \<open>State\<close>

definition MAX_THREAD :: nat where
  "MAX_THREAD = 10"

record timeval =
  tv_sec :: "64 word"
  tv_usec :: "64 word"

record delays =
  max_delay :: "64 word list"
  min_delay :: "64 word list"
  avg_delay :: "64 word list"

definition delays_zero :: delays where
  "delays_zero = \<lparr>max_delay = replicate MAX_THREAD 0, min_delay = replicate MAX_THREAD 0, avg_delay = replicate MAX_THREAD 0\<rparr>"

section \<open>Operations\<close>

text \<open>The difference of two readings of the clock in microseconds, cut to the width of an \<^verbatim>\<open>int\<close>.\<close>

definition microseconds :: "timeval \<Rightarrow> u64" where
  "microseconds t = tv_sec t * 1000000 + tv_usec t"

definition delay_diff :: "timeval \<times> timeval \<Rightarrow> 32 word" where
  "delay_diff r = (case r of (tv_before, tv_after) \<Rightarrow> ucast (microseconds tv_after - microseconds tv_before))"

text \<open>One round of \<^verbatim>\<open>thread_fun\<close> after the readings; \<^verbatim>\<open>divider\<close> is 0 in the first round and 1 later.\<close>

definition thread_round :: "nat \<Rightarrow> u64 \<Rightarrow> timeval \<times> timeval \<Rightarrow> delays \<Rightarrow> (u64 \<times> delays) option" where
  "thread_round i divider r s = do {
     c_assert (i < MAX_THREAD);
     let diff = delay_diff r;
     c_assert (0 \<le> sint diff);
     let s = s\<lparr>avg_delay := (avg_delay s)[i := signed_drop_bit (unat divider) (avg_delay s ! i + scast diff)]\<rparr>;
     let divider = 1;
     let s = (if max_delay s ! i <s scast diff then s\<lparr>max_delay := (max_delay s)[i := scast diff]\<rparr> else s);
     let s = (if scast diff <s min_delay s ! i then s\<lparr>min_delay := (min_delay s)[i := scast diff]\<rparr> else s);
     Some (divider, s) }"

text \<open>The readings that a thread makes until it sees \<^verbatim>\<open>exit_flag\<close>.\<close>

fun thread_fun :: "nat \<Rightarrow> u64 \<Rightarrow> (timeval \<times> timeval) list \<Rightarrow> delays \<Rightarrow> delays option" where
  "thread_fun i divider [] s = Some s"
| "thread_fun i divider (r # rs) s = do {
     (divider, s) \<leftarrow> thread_round i divider r s;
     thread_fun i divider rs s }"

text \<open>The threads together: a sequence of rounds, each of some thread with its own \<^verbatim>\<open>divider\<close>.\<close>

fun threads_run :: "(nat \<Rightarrow> u64) \<Rightarrow> (nat \<times> timeval \<times> timeval) list \<Rightarrow> delays \<Rightarrow> delays option" where
  "threads_run ds [] s = Some s"
| "threads_run ds ((i, r) # es) s = do {
     (divider, s) \<leftarrow> thread_round i (ds i) r s;
     threads_run (ds(i := divider)) es s }"

text \<open>The two loops of \<^verbatim>\<open>main\<close>, before the threads are created and after they have ended.\<close>

definition min_delay_init :: "delays \<Rightarrow> delays" where
  "min_delay_init s = foldl (\<lambda>s i. s\<lparr>min_delay := (min_delay s)[i := 999999]\<rparr>) s [0..<MAX_THREAD]"

definition report :: "delays \<Rightarrow> 64 word \<times> 64 word" where
  "report s = foldl (\<lambda>(max, min) i.
       (if max <s max_delay s ! i then max_delay s ! i else max, if min_delay s ! i <s min then min_delay s ! i else min))
     (0, 999999) [0..<MAX_THREAD]"

definition delay_main :: "(nat \<times> timeval \<times> timeval) list \<Rightarrow> (delays \<times> 64 word \<times> 64 word) option" where
  "delay_main es = do {
     s \<leftarrow> threads_run (\<lambda>_. 0) es (min_delay_init delays_zero);
     Some (s, report s) }"

section \<open>The statistics of one thread\<close>

text \<open>The delays of a thread, in order, and the mean that it keeps: the first one, then the half of the mean and the next.\<close>

definition delays_of :: "nat \<Rightarrow> (nat \<times> timeval \<times> timeval) list \<Rightarrow> int list" where
  "delays_of i es = map (\<lambda>(_, r). sint (delay_diff r)) (filter (\<lambda>(j, _). j = i) es)"

fun mean_of :: "int list \<Rightarrow> int" where
  "mean_of [] = 0"
| "mean_of (d # ds) = foldl (\<lambda>m d. (m + d) div 2) d ds"

lemma delays_of_append: "delays_of i (es @ [(j, r)]) = delays_of i es @ (if j = i then [sint (delay_diff r)] else [])"
  by (simp add: delays_of_def)

lemma mean_of_append: "mean_of (ds @ [d]) = (if ds = [] then d else (mean_of ds + d) div 2)"
  by (cases ds) simp_all

lemma mean_of_bounds: "\<lbrakk>ds \<noteq> []; \<forall>d \<in> set ds. l \<le> d \<and> d \<le> u\<rbrakk> \<Longrightarrow> l \<le> mean_of ds \<and> mean_of ds \<le> u"
proof (induction ds rule: rev_induct)
  case (snoc d ds)
  then show ?case by (cases "ds = []") (auto simp: mean_of_append)
qed simp

text \<open>The statistics of all threads after the rounds \<^verbatim>\<open>es\<close>.\<close>

definition measured :: "(nat \<times> timeval \<times> timeval) list \<Rightarrow> (nat \<Rightarrow> u64) \<Rightarrow> delays \<Rightarrow> bool" where
  "measured es ds s \<longleftrightarrow> length (max_delay s) = MAX_THREAD \<and> length (min_delay s) = MAX_THREAD \<and> length (avg_delay s) = MAX_THREAD \<and>
     (\<forall>i < MAX_THREAD. let xs = delays_of i es in ds i = (if xs = [] then 0 else 1) \<and>
        sint (max_delay s ! i) = Max (insert 0 (set xs)) \<and> sint (min_delay s ! i) = Min (insert 999999 (set xs)) \<and>
        sint (avg_delay s ! i) = mean_of xs)"

definition rounds_ok :: "(nat \<times> timeval \<times> timeval) list \<Rightarrow> bool" where
  "rounds_ok es \<longleftrightarrow> (\<forall>(i, r) \<in> set es. i < MAX_THREAD \<and> 0 \<le> sint (delay_diff r))"

lemma delay_range: "- (2 ^ 31) \<le> sint (d :: 32 word)" "sint (d :: 32 word) < 2 ^ 31"
  using sint_greater_eq[of d] sint_less[of d] by simp_all

lemma sint_scast_delay: "sint (scast (d :: 32 word) :: 64 word) = sint d"
  using delay_range[of d] by (simp add: signed_scast_eq signed_take_bit_int_eq_self)

lemma sint_sum:
  assumes "- (2 ^ 62) \<le> sint a" "sint a < 2 ^ 62" "- (2 ^ 62) \<le> sint b" "sint b < 2 ^ 62"
  shows "sint (a + b :: 64 word) = sint a + sint b"
  using assms by (simp add: sint_word_ariths signed_take_bit_int_eq_self)

lemma Max_snoc: "Max (insert a (set (xs @ [d]))) = max (Max (insert a (set xs))) (d :: int)"
proof -
  have "insert a (set (xs @ [d])) = insert d (insert a (set xs))" by auto
  then show ?thesis using Max_insert[of "insert a (set xs)" d] by (simp add: max.commute del: Max_insert)
qed

lemma Min_snoc: "Min (insert a (set (xs @ [d]))) = min (Min (insert a (set xs))) (d :: int)"
proof -
  have "insert a (set (xs @ [d])) = insert d (insert a (set xs))" by auto
  then show ?thesis using Min_insert[of "insert a (set xs)" d] by (simp add: min.commute del: Min_insert)
qed

text \<open>One round extends the delays of its thread.\<close>

lemma thread_round_measured:
  assumes m: "measured es ds s" and ok: "rounds_ok es" and i: "i < MAX_THREAD" and d: "0 \<le> sint (delay_diff r)"
  obtains s' where "thread_round i (ds i) r s = Some (1, s')" "measured (es @ [(i, r)]) (ds(i := 1)) s'"
proof -
  let ?d = "sint (delay_diff r)" and ?w = "scast (delay_diff r) :: 64 word" and ?xs = "delays_of i es"
  have len: "length (max_delay s) = MAX_THREAD" "length (min_delay s) = MAX_THREAD" "length (avg_delay s) = MAX_THREAD"
    and at: "\<And>j. j < MAX_THREAD \<Longrightarrow> ds j = (if delays_of j es = [] then 0 else 1)"
      "\<And>j. j < MAX_THREAD \<Longrightarrow> sint (max_delay s ! j) = Max (insert 0 (set (delays_of j es)))"
      "\<And>j. j < MAX_THREAD \<Longrightarrow> sint (min_delay s ! j) = Min (insert 999999 (set (delays_of j es)))"
      "\<And>j. j < MAX_THREAD \<Longrightarrow> sint (avg_delay s ! j) = mean_of (delays_of j es)"
    using m by (auto simp: measured_def Let_def)
  have xs: "\<forall>x \<in> set ?xs. 0 \<le> x \<and> x \<le> 2 ^ 31"
  proof
    fix x assume "x \<in> set ?xs"
    then obtain q where "(i, q) \<in> set es" "x = sint (delay_diff q)" by (auto simp: delays_of_def)
    then show "0 \<le> x \<and> x \<le> 2 ^ 31" using ok delay_range(2)[of "delay_diff q"] by (auto simp: rounds_ok_def)
  qed
  have mean: "0 \<le> mean_of ?xs \<and> mean_of ?xs \<le> 2 ^ 31" using mean_of_bounds[OF _ xs] by (cases "?xs = []") auto
  have w: "sint ?w = ?d" by (rule sint_scast_delay)
  have sum: "sint (avg_delay s ! i + ?w) = mean_of ?xs + ?d"
    using sint_sum[of "avg_delay s ! i" ?w] mean d delay_range[of "delay_diff r"] at(4)[OF i] w by simp
  have avg: "sint (signed_drop_bit (unat (ds i)) (avg_delay s ! i + ?w)) = mean_of (?xs @ [?d])"
  proof (cases "?xs = []")
    case True
    then have "ds i = 0" using at(1)[OF i] by simp
    then show ?thesis using sum True by (simp add: sint_signed_drop_bit_eq)
  next
    case False
    then have "ds i = 1" using at(1)[OF i] by simp
    then have "sint (signed_drop_bit (unat (ds i)) (avg_delay s ! i + ?w)) = (mean_of ?xs + ?d) div 2"
      unfolding sint_signed_drop_bit_eq sum by (simp add: drop_bit_Suc)
    then show ?thesis using False by (simp add: mean_of_append)
  qed
  let ?s1 = "s\<lparr>avg_delay := (avg_delay s)[i := signed_drop_bit (unat (ds i)) (avg_delay s ! i + ?w)]\<rparr>"
  let ?s2 = "if max_delay s ! i <s ?w then ?s1\<lparr>max_delay := (max_delay s)[i := ?w]\<rparr> else ?s1"
  let ?s3 = "if ?w <s min_delay s ! i then ?s2\<lparr>min_delay := (min_delay s)[i := ?w]\<rparr> else ?s2"
  have run: "thread_round i (ds i) r s = Some (1, ?s3)" using i d by (simp add: thread_round_def Let_def)
  have mx: "sint (max_delay ?s3 ! j) = Max (insert 0 (set (delays_of j (es @ [(i, r)]))))" if "j < MAX_THREAD" for j
  proof (cases "j = i")
    case True
    have "sint (max_delay ?s3 ! i) = max (sint (max_delay s ! i)) ?d" using w len i by (simp add: word_sless_alt max_def)
    then show ?thesis unfolding True delays_of_append at(2)[OF i] by (simp only: if_True Max_snoc simp_thms)
  next
    case False
    then show ?thesis using at(2)[OF that] by (simp add: delays_of_append)
  qed
  have mn: "sint (min_delay ?s3 ! j) = Min (insert 999999 (set (delays_of j (es @ [(i, r)]))))" if "j < MAX_THREAD" for j
  proof (cases "j = i")
    case True
    have "sint (min_delay ?s3 ! i) = min (sint (min_delay s ! i)) ?d" using w len i by (simp add: word_sless_alt min_def)
    then show ?thesis unfolding True delays_of_append at(3)[OF i] by (simp only: if_True Min_snoc simp_thms)
  next
    case False
    then show ?thesis using at(3)[OF that] by (simp add: delays_of_append)
  qed
  have av: "sint (avg_delay ?s3 ! j) = mean_of (delays_of j (es @ [(i, r)]))" if "j < MAX_THREAD" for j
    using at(4)[OF that] avg len i by (auto simp: delays_of_append nth_list_update)
  have dv: "(ds(i := 1)) j = (if delays_of j (es @ [(i, r)]) = [] then 0 else 1)" if "j < MAX_THREAD" for j
    using at(1)[OF that] by (simp add: delays_of_append)
  have "length (max_delay ?s3) = MAX_THREAD" "length (min_delay ?s3) = MAX_THREAD" "length (avg_delay ?s3) = MAX_THREAD"
    using len by simp_all
  then have "measured (es @ [(i, r)]) (ds(i := 1)) ?s3" using mx mn av dv unfolding measured_def Let_def by blast
  then show thesis using that run by blast
qed

section \<open>All threads\<close>

lemma measured_divider: "measured es ds s \<Longrightarrow> measured es (\<lambda>i. if i < MAX_THREAD then ds i else d i) s"
  by (simp add: measured_def Let_def)

lemma rounds_ok_simps [simp]: "rounds_ok []" "rounds_ok (es @ es') \<longleftrightarrow> rounds_ok es \<and> rounds_ok es'"
  "rounds_ok ((i, r) # es) \<longleftrightarrow> i < MAX_THREAD \<and> 0 \<le> sint (delay_diff r) \<and> rounds_ok es"
  by (auto simp: rounds_ok_def)

lemma threads_run_measured:
  assumes "measured es ds s" "rounds_ok es" "rounds_ok es'"
  shows "\<exists>s' ds'. threads_run ds es' s = Some s' \<and> measured (es @ es') ds' s'"
  using assms
proof (induction es' arbitrary: es ds s)
  case (Cons e es')
  obtain i r where e: "e = (i, r)" by (cases e)
  obtain s1 where s1: "thread_round i (ds i) r s = Some (1, s1)" "measured (es @ [(i, r)]) (ds(i := 1)) s1"
    by (rule thread_round_measured[OF Cons.prems(1,2), of i r]) (use Cons.prems(3) e in simp_all)
  have "rounds_ok (es @ [(i, r)])" "rounds_ok es'" using Cons.prems(2,3) e by simp_all
  from Cons.IH[OF s1(2) this] show ?case using s1(1) e by (simp del: fun_upd_apply)
qed auto

lemma threads_run_ok: "threads_run ds es s = Some s' \<Longrightarrow> rounds_ok es"
proof (induction es arbitrary: ds s)
  case (Cons e es)
  obtain i r where e: "e = (i, r)" by (cases e)
  obtain d s1 where "thread_round i (ds i) r s = Some (d, s1)" "threads_run (ds(i := d)) es s1 = Some s'"
    using Cons.prems e by (auto simp: bind_eq_Some_conv)
  moreover from this(1) have "i < MAX_THREAD \<and> 0 \<le> sint (delay_diff r)" by (auto simp: thread_round_def Let_def bind_eq_Some_conv)
  ultimately show ?case using Cons.IH e by auto
qed simp

lemma thread_fun_run: "ds i = d \<Longrightarrow> thread_fun i d rs s = threads_run ds (map (Pair i) rs) s"
proof (induction rs arbitrary: d ds s)
  case (Cons r rs)
  have "thread_fun i e rs t = threads_run (ds(i := e)) (map (Pair i) rs) t" for e t by (rule Cons.IH) simp
  then show ?case using Cons.prems by (simp add: case_prod_unfold)
qed simp

lemma init_measured: "measured [] (\<lambda>_. 0) (min_delay_init delays_zero)"
proof -
  have "min_delay_init delays_zero = delays_zero\<lparr>min_delay := replicate MAX_THREAD 999999\<rparr>" by code_simp
  then show ?thesis by (simp add: measured_def delays_of_def delays_zero_def)
qed

text \<open>The report of the main program.\<close>

lemma sint_larger: "sint (if a <s b then b else a) = max (sint a) (sint b)" "sint (if b <s a then b else a) = min (sint a) (sint b)"
  by (simp_all add: word_sless_alt max_def min_def)

lemma report_loop:
  fixes s :: delays and n :: nat and D :: "nat \<Rightarrow> int set"
  defines "r \<equiv> foldl (\<lambda>(max, min) i. (if max <s max_delay s ! i then max_delay s ! i else max, if min_delay s ! i <s min then min_delay s ! i else min))
    (0, 999999) [0..<n]"
  assumes "\<And>i. i < n \<Longrightarrow> finite (D i)" "\<And>i. i < n \<Longrightarrow> sint (max_delay s ! i) = Max (insert 0 (D i))"
    "\<And>i. i < n \<Longrightarrow> sint (min_delay s ! i) = Min (insert 999999 (D i))"
  shows "sint (fst r) = Max (insert 0 (\<Union>i<n. D i)) \<and> sint (snd r) = Min (insert 999999 (\<Union>i<n. D i))"
  using assms(2-4) unfolding r_def
proof (induction n)
  case (Suc n)
  have up: "insert a (\<Union>i<Suc n. D i) = insert a (\<Union>i<n. D i) \<union> insert a (D n)" for a by (auto simp: less_Suc_eq)
  have fin: "finite (\<Union>i<n. D i)" "finite (D n)" using Suc.prems(1) by simp_all
  have IH: "sint (fst (foldl (\<lambda>(max, min) i. (if max <s max_delay s ! i then max_delay s ! i else max, if min_delay s ! i <s min then min_delay s ! i else min))
      (0, 999999) [0..<n])) = Max (insert 0 (\<Union>i<n. D i))"
    "sint (snd (foldl (\<lambda>(max, min) i. (if max <s max_delay s ! i then max_delay s ! i else max, if min_delay s ! i <s min then min_delay s ! i else min))
      (0, 999999) [0..<n])) = Min (insert 999999 (\<Union>i<n. D i))"
    using Suc by simp_all
  show ?case
    unfolding up Max_Un[OF finite.insertI[OF fin(1)] insert_not_empty finite.insertI[OF fin(2)] insert_not_empty]
      Min_Un[OF finite.insertI[OF fin(1)] insert_not_empty finite.insertI[OF fin(2)] insert_not_empty]
    using IH Suc.prems(2,3)[of n] by (simp add: case_prod_unfold sint_larger)
qed simp

lemma delays_of_all: "rounds_ok es \<Longrightarrow> (\<Union>i<MAX_THREAD. set (delays_of i es)) = set (map (\<lambda>(_, r). sint (delay_diff r)) es)"
  by (force simp: delays_of_def rounds_ok_def)

lemma measured_same:
  assumes "measured es ds s" "measured es' ds' t" "i < MAX_THREAD" "delays_of i es = delays_of i es'"
  shows "max_delay s ! i = max_delay t ! i \<and> min_delay s ! i = min_delay t ! i \<and> avg_delay s ! i = avg_delay t ! i"
proof -
  have "sint (max_delay s ! i) = sint (max_delay t ! i)" "sint (min_delay s ! i) = sint (min_delay t ! i)"
    "sint (avg_delay s ! i) = sint (avg_delay t ! i)"
    using assms unfolding measured_def Let_def by metis+
  then show ?thesis by (simp add: signed_word_eqI[where v = "max_delay s ! i" and w = "max_delay t ! i"] signed_word_eqI[where v = "min_delay s ! i" and w = "min_delay t ! i"] signed_word_eqI[where v = "avg_delay s ! i" and w = "avg_delay t ! i"])
qed

section \<open>Properties\<close>

text \<open>The rounds of one thread, alone.\<close>

definition readings_of :: "nat \<Rightarrow> (nat \<times> timeval \<times> timeval) list \<Rightarrow> (timeval \<times> timeval) list" where
  "readings_of i es = map snd (filter (\<lambda>(j, _). j = i) es)"

lemma own_rounds: "map (Pair i) (readings_of i es) = filter (\<lambda>(j, _). j = i) es"
  unfolding readings_of_def by (induction es) auto

lemma delays_of_own: "delays_of i (filter (\<lambda>(j, _). j = i) es) = delays_of i es"
  by (simp add: delays_of_def)

text \<open>
  C31: the statistics of the test program.  However the rounds of the ten threads interleave, each ends with the values it
  would have alone, which are the largest and the smallest of its delays (at least 0 and at most 999999), and a mean in which each
  delay weighs half of what the next one does; the report is the largest and the smallest of all delays.
  A delay that is negative as an \<^verbatim>\<open>int\<close>, as after the clock was set back, ends the program.
\<close>

theorem delay_report:
  "if rounds_ok es then
     (\<exists>s max min. delay_main es = Some (s, max, min) \<and>
        (let all = map (\<lambda>(_, r). sint (delay_diff r)) es in sint max = Max (insert 0 (set all)) \<and> sint min = Min (insert 999999 (set all))) \<and>
        (\<forall>i < MAX_THREAD. let ds = delays_of i es in sint (max_delay s ! i) = Max (insert 0 (set ds)) \<and>
           sint (min_delay s ! i) = Min (insert 999999 (set ds)) \<and> sint (avg_delay s ! i) = mean_of ds \<and>
           (\<exists>t. thread_fun i 0 (readings_of i es) (min_delay_init delays_zero) = Some t \<and>
              max_delay s ! i = max_delay t ! i \<and> min_delay s ! i = min_delay t ! i \<and> avg_delay s ! i = avg_delay t ! i)))
   else delay_main es = None"
proof (cases "rounds_ok es")
  case True
  obtain s ds where s: "threads_run (\<lambda>_. 0) es (min_delay_init delays_zero) = Some s" "measured es ds s"
    using threads_run_measured[OF init_measured _ True] by auto
  have at: "sint (max_delay s ! i) = Max (insert 0 (set (delays_of i es)))" "sint (min_delay s ! i) = Min (insert 999999 (set (delays_of i es)))"
    "sint (avg_delay s ! i) = mean_of (delays_of i es)" if "i < MAX_THREAD" for i
    using s(2) that by (simp_all add: measured_def Let_def)
  have rep: "sint (fst (report s)) = Max (insert 0 (\<Union>i<MAX_THREAD. set (delays_of i es)))"
    "sint (snd (report s)) = Min (insert 999999 (\<Union>i<MAX_THREAD. set (delays_of i es)))"
    using report_loop[of MAX_THREAD "\<lambda>i. set (delays_of i es)" s] at by (simp_all add: report_def)
  have alone: "\<exists>t. thread_fun i 0 (readings_of i es) (min_delay_init delays_zero) = Some t \<and>
      max_delay s ! i = max_delay t ! i \<and> min_delay s ! i = min_delay t ! i \<and> avg_delay s ! i = avg_delay t ! i" if i: "i < MAX_THREAD" for i
  proof -
    let ?own = "filter (\<lambda>(j, _). j = i) es"
    have own: "rounds_ok ?own" using True by (auto simp: rounds_ok_def)
    then obtain t ds' where t: "threads_run (\<lambda>_. 0) ?own (min_delay_init delays_zero) = Some t" "measured ?own ds' t"
      using threads_run_measured[OF init_measured _ own] by auto
    have "thread_fun i 0 (readings_of i es) (min_delay_init delays_zero) = Some t"
      using thread_fun_run[of "\<lambda>_. 0" i 0] t(1) unfolding own_rounds[symmetric] by simp
    then show ?thesis using measured_same[OF s(2) t(2) i] by (simp add: delays_of_own)
  qed
  have "delay_main es = Some (s, fst (report s), snd (report s))" using s(1) by (simp add: delay_main_def)
  moreover obtain mx mn where "report s = (mx, mn)" by fastforce
  ultimately show ?thesis using True at alone rep unfolding delays_of_all[OF True] Let_def by auto
next
  case False
  then have "threads_run (\<lambda>_. 0) es (min_delay_init delays_zero) = None" using threads_run_ok by fastforce
  then show ?thesis using False by (simp add: delay_main_def)
qed

text \<open>Three readings of two threads, of 7, 2 and 4 microseconds.\<close>

definition sample_rounds :: "(nat \<times> timeval \<times> timeval) list" where
  "sample_rounds = [(0, \<lparr>tv_sec = 9, tv_usec = 999996\<rparr>, \<lparr>tv_sec = 10, tv_usec = 3\<rparr>), (3, \<lparr>tv_sec = 10, tv_usec = 5\<rparr>, \<lparr>tv_sec = 10, tv_usec = 7\<rparr>),
     (0, \<lparr>tv_sec = 10, tv_usec = 10\<rparr>, \<lparr>tv_sec = 10, tv_usec = 14\<rparr>)]"

theorem delay_report_witness:
  "\<exists>s max min. delay_main sample_rounds = Some (s, max, min) \<and> sint max = 7 \<and> sint min = 2 \<and>
    sint (max_delay s ! 0) = 7 \<and> sint (avg_delay s ! 0) = 5 \<and> sint (min_delay s ! 2) = 999999"
proof -
  have ok: "rounds_ok sample_rounds" by (simp add: sample_rounds_def delay_diff_def microseconds_def MAX_THREAD_def)
  have ds: "map (\<lambda>(_, r). sint (delay_diff r)) sample_rounds = [7, 2, 4]" "delays_of 0 sample_rounds = [7, 4]" "delays_of 2 sample_rounds = []"
    by (simp_all add: sample_rounds_def delays_of_def delay_diff_def microseconds_def)
  obtain s max min where r: "delay_main sample_rounds = Some (s, max, min)" "sint max = Max (insert 0 {7, 2, 4})" "sint min = Min (insert 999999 {7, 2, 4})"
    "\<forall>i < MAX_THREAD. sint (max_delay s ! i) = Max (insert 0 (set (delays_of i sample_rounds))) \<and>
       sint (min_delay s ! i) = Min (insert 999999 (set (delays_of i sample_rounds))) \<and> sint (avg_delay s ! i) = mean_of (delays_of i sample_rounds)"
    using delay_report[of sample_rounds] unfolding if_P[OF ok] Let_def ds by auto
  show ?thesis using r(1-3) r(4)[rule_format, of 0] r(4)[rule_format, of 2] by (intro exI[of _ s] exI[of _ max] exI[of _ min]) (simp add: ds MAX_THREAD_def)
qed

end
