(* ===== verification/List_Loops.thy ===== *)
theory List_Loops
  imports Intrusive_List
begin

text \<open>
  The iteration macros of \<^verbatim>\<open>include/list.h\<close> around a body that changes the state, and the rules for proofs about them.
  The lists are a part of the state, given by the function \<^verbatim>\<open>heap_of\<close>.  The plain macros read the link of an entry
  after the body has run, the safe ones before it.  The loops themselves are the same for all macros; they follow a link field,
  \<^verbatim>\<open>next\<close> or \<^verbatim>\<open>prev\<close>, which is a parameter of them.
\<close>

section \<open>The macros\<close>

partial_function (option) list_each_from ::
  "('s \<Rightarrow> addr \<Rightarrow> addr option) \<Rightarrow> (addr \<Rightarrow> 's \<Rightarrow> 's option) \<Rightarrow> addr \<Rightarrow> addr \<Rightarrow> 's \<Rightarrow> 's option" where
  "list_each_from link body head pos s =
     (if pos = head then Some s
      else do {
        s \<leftarrow> body pos s;
        pos \<leftarrow> link s pos;
        list_each_from link body head pos s })"

partial_function (option) list_each_safe_from ::
  "('s \<Rightarrow> addr \<Rightarrow> addr option) \<Rightarrow> (addr \<Rightarrow> 's \<Rightarrow> 's option) \<Rightarrow> addr \<Rightarrow> addr \<Rightarrow> addr \<Rightarrow> 's \<Rightarrow> 's option" where
  "list_each_safe_from link body head pos n s =
     (if pos = head then Some s
      else do {
        s \<leftarrow> body pos s;
        m \<leftarrow> link s n;
        list_each_safe_from link body head n m s })"

definition list_each_entry :: "('s \<Rightarrow> list_heap) \<Rightarrow> (addr \<Rightarrow> 's \<Rightarrow> 's option) \<Rightarrow> addr \<Rightarrow> 's \<Rightarrow> 's option" where
  "list_each_entry heap_of body head s = do {
     pos \<leftarrow> get_next (heap_of s) head;
     list_each_from (\<lambda>s. get_next (heap_of s)) body head pos s }"

definition list_for_each_entry_reverse :: "('s \<Rightarrow> list_heap) \<Rightarrow> (addr \<Rightarrow> 's \<Rightarrow> 's option) \<Rightarrow> addr \<Rightarrow> 's \<Rightarrow> 's option" where
  "list_for_each_entry_reverse heap_of body head s = do {
     pos \<leftarrow> get_prev (heap_of s) head;
     list_each_from (\<lambda>s. get_prev (heap_of s)) body head pos s }"

text \<open>
  \<^verbatim>\<open>list_prepare_entry\<close> gives a structure, or the address at which the structure around the list head would be, for a
  link field at the offset \<^verbatim>\<open>member\<close>.
\<close>

definition list_prepare_entry :: "addr \<Rightarrow> addr \<Rightarrow> addr \<Rightarrow> addr" where
  "list_prepare_entry member pos head = (if pos \<noteq> NULL then pos else head - member)"

definition list_for_each_entry_continue :: "('s \<Rightarrow> list_heap) \<Rightarrow> (addr \<Rightarrow> 's \<Rightarrow> 's option) \<Rightarrow> addr \<Rightarrow> addr \<Rightarrow> 's \<Rightarrow> 's option" where
  "list_for_each_entry_continue heap_of body head pos s = do {
     pos \<leftarrow> get_next (heap_of s) pos;
     list_each_from (\<lambda>s. get_next (heap_of s)) body head pos s }"

definition list_for_each_entry_from :: "('s \<Rightarrow> list_heap) \<Rightarrow> (addr \<Rightarrow> 's \<Rightarrow> 's option) \<Rightarrow> addr \<Rightarrow> addr \<Rightarrow> 's \<Rightarrow> 's option" where
  "list_for_each_entry_from heap_of body head pos s = list_each_from (\<lambda>s. get_next (heap_of s)) body head pos s"

definition list_for_each_safe :: "('s \<Rightarrow> list_heap) \<Rightarrow> (addr \<Rightarrow> 's \<Rightarrow> 's option) \<Rightarrow> addr \<Rightarrow> 's \<Rightarrow> 's option" where
  "list_for_each_safe heap_of body head s = do {
     pos \<leftarrow> get_next (heap_of s) head;
     n \<leftarrow> get_next (heap_of s) pos;
     list_each_safe_from (\<lambda>s. get_next (heap_of s)) body head pos n s }"

definition list_for_each_entry_safe :: "('s \<Rightarrow> list_heap) \<Rightarrow> (addr \<Rightarrow> 's \<Rightarrow> 's option) \<Rightarrow> addr \<Rightarrow> 's \<Rightarrow> 's option" where
  "list_for_each_entry_safe heap_of body head s = do {
     pos \<leftarrow> get_next (heap_of s) head;
     n \<leftarrow> get_next (heap_of s) pos;
     list_each_safe_from (\<lambda>s. get_next (heap_of s)) body head pos n s }"

definition list_for_each_entry_safe_continue ::
  "('s \<Rightarrow> list_heap) \<Rightarrow> (addr \<Rightarrow> 's \<Rightarrow> 's option) \<Rightarrow> addr \<Rightarrow> addr \<Rightarrow> 's \<Rightarrow> 's option" where
  "list_for_each_entry_safe_continue heap_of body head pos s = do {
     pos \<leftarrow> get_next (heap_of s) pos;
     n \<leftarrow> get_next (heap_of s) pos;
     list_each_safe_from (\<lambda>s. get_next (heap_of s)) body head pos n s }"

definition list_for_each_entry_safe_from ::
  "('s \<Rightarrow> list_heap) \<Rightarrow> (addr \<Rightarrow> 's \<Rightarrow> 's option) \<Rightarrow> addr \<Rightarrow> addr \<Rightarrow> 's \<Rightarrow> 's option" where
  "list_for_each_entry_safe_from heap_of body head pos s = do {
     n \<leftarrow> get_next (heap_of s) pos;
     list_each_safe_from (\<lambda>s. get_next (heap_of s)) body head pos n s }"

definition list_for_each_entry_safe_reverse :: "('s \<Rightarrow> list_heap) \<Rightarrow> (addr \<Rightarrow> 's \<Rightarrow> 's option) \<Rightarrow> addr \<Rightarrow> 's \<Rightarrow> 's option" where
  "list_for_each_entry_safe_reverse heap_of body head s = do {
     pos \<leftarrow> get_prev (heap_of s) head;
     n \<leftarrow> get_prev (heap_of s) pos;
     list_each_safe_from (\<lambda>s. get_prev (heap_of s)) body head pos n s }"

section \<open>Routes\<close>

text \<open>A link field leads from the head through the entries \<^verbatim>\<open>xs\<close> back to the head.\<close>

definition route :: "(addr \<Rightarrow> addr option) \<Rightarrow> addr \<Rightarrow> addr list \<Rightarrow> bool" where
  "route N head xs \<longleftrightarrow> distinct (head # xs) \<and> chain N (head # xs @ [head])"

lemma ring_route: "ring h head xs \<Longrightarrow> route (get_next h) head xs" "ring h head xs \<Longrightarrow> route (get_prev h) head (rev xs)"
  using ext[of "get_next h" "nexts h", OF get_next_nexts] ext[of "get_prev h" "prevs h", OF get_prev_prevs]
  by (simp_all add: ring_def route_def)

lemma route_first: "route N head xs \<Longrightarrow> N head = Some (hd (xs @ [head]))"
  by (simp add: route_def chain_Cons)

lemma route_mid: "route N head (as @ x # bs) \<Longrightarrow> N x = Some (hd (bs @ [head])) \<and> x \<noteq> head"
  using chain_middle[of N "head # as" x "bs @ [head]"] by (auto simp: route_def)

lemma route_second: "route N head xs \<Longrightarrow> \<exists>n. N (hd (xs @ [head])) = Some n \<and> (xs = [] \<or> n = hd (tl xs @ [head]))"
  using route_first[of N head xs] route_mid[of N head "[]"] by (cases xs) auto

lemmas loop_defs = list_each_entry_def list_for_each_entry_reverse_def list_for_each_entry_continue_def list_for_each_entry_from_def
  list_for_each_safe_def list_for_each_entry_safe_def list_for_each_entry_safe_continue_def list_for_each_entry_safe_from_def
  list_for_each_entry_safe_reverse_def

section \<open>Rules\<close>

text \<open>
  The invariant \<^verbatim>\<open>I s ds rs\<close> speaks about a state in which the list consists, in the direction of the loop, of the entries \<^verbatim>\<open>ds\<close>
  that the loop has left behind and the entries \<^verbatim>\<open>rs\<close> before it.
\<close>

lemma list_each_prefix:
  assumes route: "\<And>s ds rs. I s ds rs \<Longrightarrow> route (link s) head (ds @ rs)"
    and body: "\<And>s ds x rs. \<lbrakk>I s ds (x # rs @ rest); x \<in> set as\<rbrakk> \<Longrightarrow> \<exists>s'. body x s = Some s' \<and> I s' (ds @ [x]) (rs @ rest)"
    and "I s ds (as @ rest)"
  shows "\<exists>s'. list_each_from link body head (hd (as @ rest @ [head])) s = list_each_from link body head (hd (rest @ [head])) s' \<and>
    I s' (ds @ as) rest"
  using assms(2,3)
proof (induction as arbitrary: s ds)
  case (Cons x as)
  obtain s2 where s2: "body x s = Some s2" "I s2 (ds @ [x]) (as @ rest)" using Cons.prems(1)[of s ds x as] Cons.prems(2) by auto
  have "route (link s2) head (ds @ x # as @ rest)" using route[OF s2(2)] by simp
  then have "list_each_from link body head x s = list_each_from link body head (hd (as @ rest @ [head])) s2"
    using s2(1) route_mid[of "link s2" head ds x "as @ rest"] by (subst list_each_from.simps) simp
  moreover have "\<exists>s'. list_each_from link body head (hd (as @ rest @ [head])) s2 = list_each_from link body head (hd (rest @ [head])) s' \<and>
    I s' ((ds @ [x]) @ as) rest"
    by (rule Cons.IH[OF _ s2(2)]) (use Cons.prems(1) in auto)
  ultimately show ?case by simp
qed auto

lemma list_each_from_route:
  assumes "\<And>s ds rs. I s ds rs \<Longrightarrow> route (link s) head (ds @ rs)"
    and "\<And>s ds x rs. \<lbrakk>I s ds (x # rs); x \<in> set xs\<rbrakk> \<Longrightarrow> \<exists>s'. body x s = Some s' \<and> I s' (ds @ [x]) rs"
    and "I s ds xs"
  shows "\<exists>s'. list_each_from link body head (hd (xs @ [head])) s = Some s' \<and> I s' (ds @ xs) []"
  using list_each_prefix[of I link head "[]" xs body s ds, OF assms(1)] assms(2,3) by (auto simp: list_each_from.simps)

lemma list_each_safe_from_route:
  assumes route: "\<And>s ds rs. I s ds rs \<Longrightarrow> route (link s) head (ds @ rs)"
    and body: "\<And>s ds x rs. I s ds (x # rs) \<Longrightarrow> \<exists>s' ds'. body x s = Some s' \<and> I s' ds' rs"
    and "I s ds rs" "rs = [] \<or> n = hd (tl rs @ [head])"
  shows "\<exists>s' ds'. list_each_safe_from link body head (hd (rs @ [head])) n s = Some s' \<and> I s' ds' []"
  using assms(3,4)
proof (induction rs arbitrary: s ds n)
  case Nil
  then show ?case by (auto simp: list_each_safe_from.simps)
next
  case (Cons x rs)
  have n: "n = hd (rs @ [head])" using Cons.prems(2) by simp
  have "x \<noteq> head" using route_mid[OF route[OF Cons.prems(1)]] by auto
  moreover obtain s2 ds2 where s2: "body x s = Some s2" "I s2 ds2 rs" using body[OF Cons.prems(1)] by blast
  moreover obtain k where k: "link s2 n = Some k" "rs = [] \<or> k = hd (tl rs @ [head])"
    using route_first[OF route[OF s2(2)]] route_mid[of "link s2" head ds2] route[OF s2(2)] n by (cases rs) auto
  ultimately show ?case
    using Cons.IH[OF s2(2) k(2)] n by (subst list_each_safe_from.simps) auto
qed

text \<open>
  The plain macros.  On a list they run through all entries, forwards or backwards; those that continue behind the entry \<^verbatim>\<open>p\<close> of a
  list \<^verbatim>\<open>ps @ p # xs\<close>, and those that start at the first entry of \<^verbatim>\<open>xs\<close> in a list \<^verbatim>\<open>ps @ xs\<close>, run through \<^verbatim>\<open>xs\<close>.
\<close>

lemma list_for_each_entry_from_ring:
  assumes "\<And>s ds rs. I s ds rs \<Longrightarrow> ring (heap_of s) head (ds @ rs)"
    and "\<And>s ds x rs. \<lbrakk>I s ds (x # rs); x \<in> set xs\<rbrakk> \<Longrightarrow> \<exists>s'. body x s = Some s' \<and> I s' (ds @ [x]) rs"
    and "I s ps xs"
  shows "\<exists>s'. list_for_each_entry_from heap_of body head (hd (xs @ [head])) s = Some s' \<and> I s' (ps @ xs) []"
  unfolding list_for_each_entry_from_def
  by (rule list_each_from_route[where I = I, OF ring_route(1)[OF assms(1)] assms(2,3)])

lemma list_for_each_entry_continue_ring:
  assumes "\<And>s ds rs. I s ds rs \<Longrightarrow> ring (heap_of s) head (ds @ rs)"
    and "\<And>s ds x rs. \<lbrakk>I s ds (x # rs); x \<in> set xs\<rbrakk> \<Longrightarrow> \<exists>s'. body x s = Some s' \<and> I s' (ds @ [x]) rs"
    and "I s (ps @ [p]) xs"
  shows "\<exists>s'. list_for_each_entry_continue heap_of body head p s = Some s' \<and> I s' (ps @ p # xs) []"
proof -
  have "route (get_next (heap_of s)) head (ps @ p # xs)" using ring_route(1)[OF assms(1)[OF assms(3)]] by simp
  then have "list_for_each_entry_continue heap_of body head p s = list_for_each_entry_from heap_of body head (hd (xs @ [head])) s"
    using route_mid by (fastforce simp: loop_defs)
  moreover have "\<exists>s'. list_for_each_entry_from heap_of body head (hd (xs @ [head])) s = Some s' \<and> I s' ((ps @ [p]) @ xs) []"
    by (rule list_for_each_entry_from_ring[where I = I, OF assms])
  ultimately show ?thesis by simp
qed

lemma list_each_entry_ring:
  assumes "\<And>s ds rs. I s ds rs \<Longrightarrow> ring (heap_of s) head (ds @ rs)"
    and "\<And>s ds x rs. \<lbrakk>I s ds (x # rs); x \<in> set xs\<rbrakk> \<Longrightarrow> \<exists>s'. body x s = Some s' \<and> I s' (ds @ [x]) rs"
    and "I s [] xs"
  shows "\<exists>s'. list_each_entry heap_of body head s = Some s' \<and> I s' xs []"
proof -
  have "list_each_entry heap_of body head s = list_for_each_entry_from heap_of body head (hd (xs @ [head])) s"
    using route_first[OF ring_route(1)[OF assms(1)[OF assms(3)]]] by (auto simp: loop_defs)
  moreover have "\<exists>s'. list_for_each_entry_from heap_of body head (hd (xs @ [head])) s = Some s' \<and> I s' ([] @ xs) []"
    by (rule list_for_each_entry_from_ring[where I = I, OF assms])
  ultimately show ?thesis by simp
qed

lemma list_for_each_entry_reverse_ring:
  assumes "\<And>s ds rs. I s ds rs \<Longrightarrow> ring (heap_of s) head (rev (ds @ rs))"
    and "\<And>s ds x rs. \<lbrakk>I s ds (x # rs); x \<in> set xs\<rbrakk> \<Longrightarrow> \<exists>s'. body x s = Some s' \<and> I s' (ds @ [x]) rs"
    and "I s [] (rev xs)"
  shows "\<exists>s'. list_for_each_entry_reverse heap_of body head s = Some s' \<and> I s' (rev xs) []"
proof -
  have route: "route (get_prev (heap_of s)) head (ds @ rs)" if "I s ds rs" for s ds rs using ring_route(2)[OF assms(1)[OF that]] by simp
  have "list_for_each_entry_reverse heap_of body head s = list_each_from (\<lambda>s. get_prev (heap_of s)) body head (hd (rev xs @ [head])) s"
    using route_first[OF route[OF assms(3)]] by (auto simp: loop_defs)
  moreover have "\<exists>s'. list_each_from (\<lambda>s. get_prev (heap_of s)) body head (hd (rev xs @ [head])) s = Some s' \<and> I s' ([] @ rev xs) []"
    by (rule list_each_from_route[where I = I, OF route _ assms(3)]) (use assms(2) in auto)
  ultimately show ?thesis by simp
qed

text \<open>A body that releases the entry makes the plain macro read released memory.\<close>

lemma list_each_entry_released:
  assumes ring: "\<And>s ds rs. I s ds rs \<Longrightarrow> ring (heap_of s) head (ds @ rs)"
    and body: "\<And>s ds y rs. \<lbrakk>I s ds (y # rs @ x # rest); y \<in> set as\<rbrakk> \<Longrightarrow> \<exists>s'. body y s = Some s' \<and> I s' (ds @ [y]) (rs @ x # rest)"
    and released: "\<And>s ds s'. \<lbrakk>I s ds (x # rest); body x s = Some s'\<rbrakk> \<Longrightarrow> heap_of s' x = None"
    and "I s [] (as @ x # rest)"
  shows "list_each_entry heap_of body head s = None"
proof -
  let ?loop = "list_each_from (\<lambda>s. get_next (heap_of s)) body head"
  have route: "route (get_next (heap_of s)) head (ds @ rs)" if "I s ds rs" for s ds rs by (rule ring_route(1)[OF ring[OF that]])
  have "\<exists>s'. ?loop (hd (as @ (x # rest) @ [head])) s = ?loop (hd ((x # rest) @ [head])) s' \<and> I s' ([] @ as) (x # rest)"
    by (rule list_each_prefix[where I = I, OF route body assms(4)])
  then obtain s' where s': "?loop (hd (as @ (x # rest) @ [head])) s = ?loop x s'" "I s' as (x # rest)" by auto
  have "?loop x s' = None"
    using ring_distinct[OF ring[OF s'(2)]] released[OF s'(2)]
    by (subst list_each_from.simps) (auto simp: load_def bind_eq_None_conv)
  then show ?thesis using s'(1) route_first[OF route[OF assms(4)]] by (auto simp: list_each_entry_def)
qed

text \<open>The safe macros, whose body may take the entry out of the list.\<close>

lemma list_for_each_entry_safe_from_ring:
  assumes "\<And>s ds rs. I s ds rs \<Longrightarrow> ring (heap_of s) head (ds @ rs)"
    and "\<And>s ds x rs. I s ds (x # rs) \<Longrightarrow> \<exists>s' ds'. body x s = Some s' \<and> I s' ds' rs"
    and "I s ps xs"
  shows "\<exists>s' ds'. list_for_each_entry_safe_from heap_of body head (hd (xs @ [head])) s = Some s' \<and> I s' ds' []"
proof -
  have r: "route (get_next (heap_of s)) head (ps @ xs)" by (rule ring_route(1)[OF assms(1)[OF assms(3)]])
  obtain n where n: "get_next (heap_of s) (hd (xs @ [head])) = Some n" "xs = [] \<or> n = hd (tl xs @ [head])"
    using route_first[OF r] route_mid[of "get_next (heap_of s)" head ps] r by (cases xs) auto
  have "\<exists>s' ds'. list_each_safe_from (\<lambda>s. get_next (heap_of s)) body head (hd (xs @ [head])) n s = Some s' \<and> I s' ds' []"
    by (rule list_each_safe_from_route[where I = I, OF ring_route(1)[OF assms(1)] assms(2,3) n(2)])
  then show ?thesis using n(1) by (auto simp: loop_defs)
qed

lemma list_for_each_entry_safe_ring:
  assumes "\<And>s ds rs. I s ds rs \<Longrightarrow> ring (heap_of s) head (ds @ rs)"
    and "\<And>s ds x rs. I s ds (x # rs) \<Longrightarrow> \<exists>s' ds'. body x s = Some s' \<and> I s' ds' rs"
    and "I s [] xs"
  shows "\<exists>s' ds'. list_for_each_entry_safe heap_of body head s = Some s' \<and> I s' ds' []"
proof -
  have "list_for_each_entry_safe heap_of body head s = list_for_each_entry_safe_from heap_of body head (hd (xs @ [head])) s"
    using route_first[OF ring_route(1)[OF assms(1)[OF assms(3)]]] by (auto simp: loop_defs)
  then show ?thesis using list_for_each_entry_safe_from_ring[where I = I, OF assms] by simp
qed

lemma list_for_each_entry_safe_continue_ring:
  assumes "\<And>s ds rs. I s ds rs \<Longrightarrow> ring (heap_of s) head (ds @ rs)"
    and "\<And>s ds x rs. I s ds (x # rs) \<Longrightarrow> \<exists>s' ds'. body x s = Some s' \<and> I s' ds' rs"
    and "I s (ps @ [p]) xs"
  shows "\<exists>s' ds'. list_for_each_entry_safe_continue heap_of body head p s = Some s' \<and> I s' ds' []"
proof -
  have "route (get_next (heap_of s)) head (ps @ p # xs)" using ring_route(1)[OF assms(1)[OF assms(3)]] by simp
  then have "list_for_each_entry_safe_continue heap_of body head p s = list_for_each_entry_safe_from heap_of body head (hd (xs @ [head])) s"
    using route_mid by (fastforce simp: loop_defs)
  then show ?thesis using list_for_each_entry_safe_from_ring[where I = I, OF assms] by simp
qed

lemma list_for_each_entry_safe_reverse_ring:
  assumes "\<And>s ds rs. I s ds rs \<Longrightarrow> ring (heap_of s) head (rev (ds @ rs))"
    and "\<And>s ds x rs. I s ds (x # rs) \<Longrightarrow> \<exists>s' ds'. body x s = Some s' \<and> I s' ds' rs"
    and "I s [] (rev xs)"
  shows "\<exists>s' ds'. list_for_each_entry_safe_reverse heap_of body head s = Some s' \<and> I s' ds' []"
proof -
  have route: "route (get_prev (heap_of s)) head (ds @ rs)" if "I s ds rs" for s ds rs using ring_route(2)[OF assms(1)[OF that]] by simp
  have r: "route (get_prev (heap_of s)) head (rev xs)" using route[OF assms(3)] by simp
  obtain n where n: "get_prev (heap_of s) (hd (rev xs @ [head])) = Some n" "rev xs = [] \<or> n = hd (tl (rev xs) @ [head])"
    using route_second[OF r] by blast
  have "\<exists>s' ds'. list_each_safe_from (\<lambda>s. get_prev (heap_of s)) body head (hd (rev xs @ [head])) n s = Some s' \<and> I s' ds' []"
    by (rule list_each_safe_from_route[where I = I, OF route assms(2,3) n(2)])
  then show ?thesis using n(1) route_first[OF r] by (auto simp: loop_defs)
qed

lemma list_for_each_safe_eq: "list_for_each_safe = list_for_each_entry_safe"
  by (simp add: fun_eq_iff loop_defs)

text \<open>A prepared entry: to continue from a null pointer is to start at the first entry.\<close>

lemma list_prepare_continue:
  "list_for_each_entry_continue heap_of body head (list_prepare_entry member NULL head + member) s = list_each_entry heap_of body head s"
  by (simp add: loop_defs list_prepare_entry_def)

end
