(* ===== verification/Unload.thy ===== *)
theory Unload
  imports Registration List_Loops
begin

text \<open>
  \<^verbatim>\<open>object_unload\<close> of \<^verbatim>\<open>signal_test/object.c\<close>, which empties the list of objects.  It calls \<^verbatim>\<open>object_del\<close>, a function that is declared in the
  header and has no definition; it is a parameter, which is assumed to release an object that is in no list.
\<close>

section \<open>The function\<close>

definition unload_body :: "(addr \<Rightarrow> object_state \<Rightarrow> object_state option) \<Rightarrow> addr \<Rightarrow> object_state \<Rightarrow> object_state option" where
  "unload_body object_del x s = do {
     let curr = object_of x;
     empty \<leftarrow> list_empty (object_bps curr) (ob_lists s);
     h \<leftarrow> (if \<not> empty then list_del_init (object_bps curr) (ob_lists s) else Some (ob_lists s));
     ob \<leftarrow> load (ob_objects s) curr;
     h \<leftarrow> list_del_init (object_chain curr) h;
     object_del curr (s\<lparr>ob_lists := h\<rparr>) }"

definition object_unload :: "(addr \<Rightarrow> object_state \<Rightarrow> object_state option) \<Rightarrow> object_state \<Rightarrow> object_state option" where
  "object_unload object_del s = do {
     lk \<leftarrow> mutex_lock (object_lock s);
     s \<leftarrow> list_for_each_entry_safe ob_lists (unload_body object_del) (objects s) (s\<lparr>object_lock := lk\<rparr>);
     lk \<leftarrow> mutex_unlock (object_lock s);
     Some (s\<lparr>object_lock := lk\<rparr>) }"

text \<open>The object and the list heads in it are released.\<close>

definition release_object :: "addr \<Rightarrow> object_state \<Rightarrow> object_state" where
  "release_object p s = s\<lparr>ob_objects := (ob_objects s)(p := None), ob_lists := (ob_lists s)(object_chain p := None, object_bps p := None)\<rparr>"

definition releases :: "(addr \<Rightarrow> object_state \<Rightarrow> object_state option) \<Rightarrow> bool" where
  "releases object_del \<longleftrightarrow> (\<forall>p s. p \<noteq> NULL \<longrightarrow> ring (ob_lists s) (object_bps p) [] \<longrightarrow> ring (ob_lists s) (object_chain p) [] \<longrightarrow>
     object_del p s = Some (release_object p s))"

section \<open>Taking the head out of a list\<close>

lemma ring_rotate: "ring h head (x # xs) \<Longrightarrow> ring h x (xs @ [head])"
proof -
  assume r: "ring h head (x # xs)"
  have "chain (nexts h) ((x # xs @ [head]) @ [x])" using r by (subst chain_append) (auto simp: ring_def chain_Cons)
  moreover have "chain (prevs h) ((head # rev xs @ [x]) @ [head])" using r by (simp add: ring_def)
  then have "chain (prevs h) (head # rev xs @ [x])" "prevs h x = Some head" by (simp_all add: chain_append del: append_Cons)
  ultimately show ?thesis using r by (auto simp: ring_def chain_Cons)
qed

text \<open>The entries stay linked with each other.\<close>

lemma list_del_init_head:
  assumes "ring h head (b # bs)"
  shows "\<exists>h'. list_del_init head h = Some h' \<and> ring h' b bs \<and> ring h' head [] \<and> relinked h (footprint head (b # bs)) h'"
  using list_del_init_ring[OF ring_rotate[OF assms]] by (auto simp: insert_commute)

section \<open>The loop\<close>

text \<open>
  After some objects have been released: the rest of the list and the lists of its breakpoints are as before, and the
  breakpoints of a released object are linked with each other.
\<close>

definition unload_inv :: "object_state \<Rightarrow> addr list \<Rightarrow> (addr \<Rightarrow> addr list) \<Rightarrow> object_state \<Rightarrow> addr list \<Rightarrow> addr list \<Rightarrow> bool" where
  "unload_inv s0 xs B s ds rs \<longleftrightarrow> ds = [] \<and> objects s = objects s0 \<and> object_lock s \<and> ring (ob_lists s) (objects s) rs \<and>
     (\<exists>us. xs = us @ rs \<and> ob_objects s = ob_objects s0 |` (- object_of ` set us) \<and>
       (\<forall>x \<in> set rs. ring (ob_lists s) (bps_of x) (B x)) \<and>
       (\<forall>x \<in> set us. \<forall>b bs. B x = b # bs \<longrightarrow> ring (ob_lists s) b bs))"

lemma unload_lists:
  assumes "ring h head (x # rs)" "ring h c (B x)" "footprint c (B x) \<inter> footprint head (x # rs) = {}"
  obtains e h1 h2 where "list_empty c h = Some e" "(if \<not> e then list_del_init c h else Some h) = Some h1" "list_del_init x h1 = Some h2"
    "ring h2 head rs" "ring h2 x []" "ring h2 c []" "\<And>b bs. B x = b # bs \<Longrightarrow> ring h2 b bs"
    "relinked h (footprint c (B x) \<union> footprint head (x # rs)) h2"
proof -
  obtain h1 where h1: "(if \<not> B x = [] then list_del_init c h else Some h) = Some h1" "ring h1 c []" "\<And>b bs. B x = b # bs \<Longrightarrow> ring h1 b bs"
    "relinked h (footprint c (B x)) h1"
    using assms(2) list_del_init_head[of h c] by (cases "B x") auto
  have "ring h1 head ([] @ x # rs)" using ring_relinked[OF assms(1) h1(4)] assms(3) by auto
  from list_del_init_ring[OF this] obtain h2 where h2: "list_del_init x h1 = Some h2" "ring h2 head rs" "ring h2 x []"
    "relinked h1 (footprint head (x # rs)) h2" by auto
  have "ring h2 c []" using ring_relinked[OF h1(2) h2(4)] assms(3) by auto
  moreover have "ring h2 b bs" if "B x = b # bs" for b bs using ring_relinked[OF h1(3)[OF that] h2(4)] assms(3) that by auto
  ultimately show thesis using that[of "B x = []" h1 h2] list_empty_ring[OF assms(2)] h1(1) h2 relinked_trans[OF h1(4) h2(4)] by blast
qed

lemma lists_apart:
  assumes "lists_inv s xs B" "x \<in> set xs" "y \<in> set xs" "y \<noteq> x" "ys \<subseteq> set xs"
  shows "footprint (bps_of y) (B y) \<inter> (footprint (bps_of x) (B x) \<union> insert (objects s) ys) = {}"
proof -
  have "footprint (bps_of y) (B y) \<inter> footprint (bps_of x) (B x) = {}"
    using conjunct2[OF conjunct2[OF assms(1)[unfolded lists_inv_def]]] assms(2-4) by blast
  moreover have "footprint (bps_of y) (B y) \<inter> footprint (objects s) xs = {}"
    using bspec[OF conjunct1[OF conjunct2[OF assms(1)[unfolded lists_inv_def]]] assms(3)] by blast
  ultimately show ?thesis using assms(5) by blast
qed

lemma unload_step:
  assumes inv: "lists_inv s0 xs B" and del: "releases object_del" and I: "unload_inv s0 xs B s ds (x # rs)"
  shows "\<exists>s' ds'. unload_body object_del x s = Some s' \<and> unload_inv s0 xs B s' ds' rs"
proof -
  obtain us where us: "xs = us @ x # rs" "ob_objects s = ob_objects s0 |` (- object_of ` set us)"
    "\<forall>y \<in> set (x # rs). ring (ob_lists s) (bps_of y) (B y)" "\<forall>y \<in> set us. \<forall>b bs. B y = b # bs \<longrightarrow> ring (ob_lists s) b bs"
    and s: "objects s = objects s0" "object_lock s" "ring (ob_lists s) (objects s0) (x # rs)" using I by (auto simp: unload_inv_def)
  let ?c = "bps_of x" and ?S = "footprint (bps_of x) (B x) \<union> footprint (objects s0) (x # rs)"
  have ok: "object_ok s0 xs" using inv by (simp add: lists_inv_def)
  then have d: "distinct (objects s0 # us @ x # rs)"
    using us(1) ring_distinct[of "ob_lists s0" "objects s0" xs] by (simp add: object_ok_def)
  then have ob: "load (ob_objects s) (object_of x) \<noteq> None" "object_of x \<noteq> NULL" using ok us(1,2) by (auto simp: object_ok_def load_def restrict_map_def)
  have dx: "footprint ?c (B x) \<inter> footprint (objects s0) xs = {}"
    using bspec[OF conjunct1[OF conjunct2[OF inv[unfolded lists_inv_def]]], of x] us(1) by simp
  then have "footprint ?c (B x) \<inter> footprint (objects s0) (x # rs) = {}" using us(1) by auto
  then obtain e h1 h2 where h: "list_empty ?c (ob_lists s) = Some e" "(if \<not> e then list_del_init ?c (ob_lists s) else Some (ob_lists s)) = Some h1"
    "list_del_init x h1 = Some h2" "ring h2 (objects s0) rs" "ring h2 x []" "ring h2 ?c []" "\<And>b bs. B x = b # bs \<Longrightarrow> ring h2 b bs"
    "relinked (ob_lists s) ?S h2"
    using unload_lists[OF s(3), of ?c B] us(3) by auto
  let ?h = "h2(x := None, ?c := None)" and ?s = "release_object (object_of x) (s\<lparr>ob_lists := h2\<rparr>)"
  have "unload_body object_del x s = Some ?s"
    using h(1-3,5,6) ob del by (auto simp: unload_body_def releases_def)
  moreover have rings: "ring ?h (objects s0) rs" using d dx us(1) by (intro ring_alloc h(4)) auto
  moreover have out: "ring ?h q qs" if "ring (ob_lists s) q qs" "footprint q qs \<subseteq> footprint (bps_of y) (B y)" "y \<in> set (us @ rs)" for q qs y
  proof (rule ring_cong[OF that(1)])
    fix p assume "p \<in> set (q # qs)"
    moreover have "footprint (bps_of y) (B y) \<inter> ?S = {}" by (rule lists_apart[OF inv]) (use us(1) d that(3) in auto)
    ultimately have "p \<notin> ?S" using that(2) by auto
    then show "?h p = ob_lists s p" using relinked_eq[OF h(8), of p] by auto
  qed
  have "ring ?h b bs" if "B x = b # bs" for b bs
    using h(7)[OF that] dx that ring_distinct[of "ob_lists s" ?c "B x"] us(1,3) by (intro ring_alloc) auto
  moreover have "ring ?h b bs" if "y \<in> set us" "B y = b # bs" for y b bs using us(4) that by (intro out[of b bs y]) auto
  moreover have "ring ?h (bps_of y) (B y)" if "y \<in> set rs" for y using us(3) that by (intro out[of "bps_of y" "B y" y]) auto
  ultimately have "unload_inv s0 xs B ?s [] rs"
    unfolding unload_inv_def using s(1,2) us(1,2)
    by (intro conjI exI[of _ "us @ [x]"]) (auto simp: release_object_def restrict_map_def fun_eq_iff)
  then show ?thesis using \<open>unload_body object_del x s = Some ?s\<close> by blast
qed

section \<open>Property\<close>

text \<open>
  C15: \<^verbatim>\<open>object_unload\<close> returns, leaves an empty list and has released exactly the objects of it.  The breakpoints of an object
  are not unlinked from each other: they form a ring without a head.
\<close>

theorem object_unload_orphans:
  assumes "lists_inv s xs B" "releases object_del"
  shows "\<exists>s'. object_unload object_del s = Some s' \<and> ring (ob_lists s') (objects s) [] \<and> objects s' = objects s \<and> \<not> object_lock s' \<and>
    ob_objects s' = ob_objects s |` (- object_of ` set xs) \<and>
    (\<forall>x \<in> set xs. \<forall>b bs. B x = b # bs \<longrightarrow> ring (ob_lists s') b bs)"
proof -
  let ?s = "s\<lparr>object_lock := True\<rparr>"
  have lk: "\<not> object_lock s" using assms(1) by (simp add: lists_inv_def object_ok_def)
  have I: "unload_inv s xs B ?s [] xs"
    using assms(1) by (auto simp: unload_inv_def lists_inv_def object_ok_def restrict_map_def intro!: exI[of _ "[]"])
  have ring: "ring (ob_lists t) (objects s) (ds @ rs)" if "unload_inv s xs B t ds rs" for t ds rs using that by (auto simp: unload_inv_def)
  have "\<exists>t ds. list_for_each_entry_safe ob_lists (unload_body object_del) (objects s) ?s = Some t \<and> unload_inv s xs B t ds []"
    by (rule list_for_each_entry_safe_ring[where I = "unload_inv s xs B", OF ring unload_step[OF assms] I])
  then obtain t ds where t: "list_for_each_entry_safe ob_lists (unload_body object_del) (objects s) ?s = Some t" "unload_inv s xs B t ds []"
    by blast
  then have "object_unload object_del s = Some (t\<lparr>object_lock := False\<rparr>)" using lk by (simp add: object_unload_def unload_inv_def)
  then show ?thesis using t(2) by (auto simp: unload_inv_def)
qed

text \<open>An object with one breakpoint, and a function that asserts that the object is in no list and releases it.\<close>

definition loaded_object :: object_state where
  "loaded_object = \<lparr>ob_lists = [0x100 \<mapsto> \<lparr>lh_next = 0x1020, lh_prev = 0x1020\<rparr>, 0x1020 \<mapsto> \<lparr>lh_next = 0x100, lh_prev = 0x100\<rparr>,
       0x1030 \<mapsto> \<lparr>lh_next = 0x5000, lh_prev = 0x5000\<rparr>, 0x5000 \<mapsto> \<lparr>lh_next = 0x1030, lh_prev = 0x1030\<rparr>],
     ob_objects = [0x1000 \<mapsto> \<lparr>file_name = None, text_start = 0x400000, text_end = 0x401000, text_attr = 0, bpc_lock = False\<rparr>],
     objects = 0x100, object_lock = False\<rparr>"

definition checked_release :: "addr \<Rightarrow> object_state \<Rightarrow> object_state option" where
  "checked_release obj s = do {
     c_assert (obj \<noteq> NULL);
     e \<leftarrow> list_empty (object_bps obj) (ob_lists s);
     c_assert e;
     e \<leftarrow> list_empty (object_chain obj) (ob_lists s);
     c_assert e;
     Some (release_object obj s) }"

theorem object_unload_orphans_witness:
  "\<exists>s'. object_unload checked_release loaded_object = Some s' \<and> ring (ob_lists s') 0x100 [] \<and> objects s' = 0x100 \<and> \<not> object_lock s' \<and>
    ob_objects s' = Map.empty \<and> ring (ob_lists s') 0x5000 []"
proof -
  have "lists_inv loaded_object [0x1020] (\<lambda>_. [0x5000])"
    by (simp add: lists_inv_def object_ok_def loaded_object_def ring_def nexts_def prevs_def load_def object_of_def object_bps_def)
  moreover have "releases checked_release" by (auto simp: releases_def checked_release_def list_empty_ring)
  ultimately obtain s' where "object_unload checked_release loaded_object = Some s'" "ring (ob_lists s') (objects loaded_object) []"
    "objects s' = objects loaded_object" "\<not> object_lock s'" "ob_objects s' = ob_objects loaded_object |` (- object_of ` set [0x1020])"
    "\<forall>x \<in> set [0x1020 :: addr]. \<forall>b bs. [0x5000] = b # bs \<longrightarrow> ring (ob_lists s') b bs"
    using object_unload_orphans[of loaded_object "[0x1020]" "\<lambda>_. [0x5000]" checked_release] by blast
  then show ?thesis by (intro exI[of _ s']) (auto simp: loaded_object_def object_of_def restrict_map_def)
qed

end
