(* ===== verification/Tracer_Text.thy ===== *)
theory Tracer_Text
  imports Prelude
begin

text \<open>
  The text of the traced process as \<^verbatim>\<open>ptrace\<close> shows it to the tracer of \<^verbatim>\<open>src/src/\<close>, and the breakpoint
  instructions of \<^verbatim>\<open>arch-x86/breakpoint.c\<close>.  \<^verbatim>\<open>PTRACE_PEEKTEXT\<close> reads the eight bytes from an address on as a
  little-endian word and returns -1 when one of them is not mapped, \<^verbatim>\<open>PTRACE_POKETEXT\<close> writes them, whatever
  their protection.  The instruction \<^verbatim>\<open>int3\<close> has one byte, 0xCC: setting a breakpoint changes the first byte of the
  word, and the words of neighbouring breakpoints overlap.
\<close>

section \<open>Words of bytes\<close>

type_synonym text_mem = "addr \<rightharpoonup> u8"

primrec le_word :: "nat \<Rightarrow> (nat \<Rightarrow> u8) \<Rightarrow> u64" where
  "le_word 0 f = 0"
| "le_word (Suc k) f = ucast (f 0) OR push_bit 8 (le_word k (\<lambda>i. f (Suc i)))"

definition word_mapped :: "text_mem \<Rightarrow> addr \<Rightarrow> bool" where
  "word_mapped m a \<longleftrightarrow> (\<forall>i \<in> set [0..<8]. m (a + of_nat i) \<noteq> None)"

definition peek_text :: "text_mem \<Rightarrow> addr \<Rightarrow> u64" where
  "peek_text m a = (if word_mapped m a then le_word 8 (\<lambda>i. the (m (a + of_nat i))) else -1)"

definition poke_text :: "text_mem \<Rightarrow> addr \<Rightarrow> u64 \<Rightarrow> text_mem" where
  "poke_text m a v =
     (if word_mapped m a then (\<lambda>x. if x - a < 8 then Some (ucast (drop_bit (8 * unat (x - a)) v)) else m x) else m)"

section \<open>Breakpoint instructions\<close>

definition arch_make_breakpoint :: "u64 \<Rightarrow> u64" where
  "arch_make_breakpoint ori_instr = (ori_instr AND NOT 0xFF) OR 0xCC"

definition arch_remove_breakpoint :: "u64 \<Rightarrow> u64 \<Rightarrow> u64 option" where
  "arch_remove_breakpoint instr ori_instr = do {
     c_assert (instr AND 0xFF = 0xCC);
     Some ((instr AND NOT 0xFF) OR (ori_instr AND 0xFF)) }"

definition arch_get_breakpoint_pc :: "addr \<Rightarrow> addr" where
  "arch_get_breakpoint_pc a = a - 1"

section \<open>Only the first byte changes\<close>

lemma bit_le_word: "bit (le_word k f) n \<longleftrightarrow> n < 64 \<and> n < 8 * k \<and> bit (f (n div 8)) (n mod 8)"
proof (induction k arbitrary: f n)
  case (Suc k)
  show ?case
  proof (cases "n < 8")
    case True
    then show ?thesis by (auto simp: bit_simps)
  next
    case False
    then obtain l where n: "n = l + 8" using le_Suc_ex[of 8 n] by (auto simp: add.commute)
    have "\<not> bit (ucast (f 0) :: u64) n" using False by (auto simp: bit_simps dest: bit_imp_le_length)
    moreover have "(l + 8) div 8 = Suc (l div 8)" "(l + 8) mod 8 = l mod 8" by simp_all
    ultimately show ?thesis using Suc.IH[of "\<lambda>i. f (Suc i)" l] unfolding n by (auto simp: bit_simps)
  qed
qed simp

lemma low_bits:
  "bit (v AND 0xFF) n \<longleftrightarrow> n < 8 \<and> bit v n" "bit (v AND NOT 0xFF) n \<longleftrightarrow> 8 \<le> n \<and> bit v n" for v :: u64
proof -
  have m: "(0xFF :: u64) = mask 8" by (simp add: mask_eq_exp_minus_1)
  show "bit (v AND 0xFF) n \<longleftrightarrow> n < 8 \<and> bit v n" unfolding m bit_and_iff bit_mask_iff by (auto dest: bit_imp_le_length)
  show "bit (v AND NOT 0xFF) n \<longleftrightarrow> 8 \<le> n \<and> bit v n"
    unfolding m bit_and_iff bit_not_iff bit_mask_iff by (auto dest: bit_imp_le_length)
qed

lemma byte_bit: "bit (ucast (drop_bit (8 * k) v) :: u8) n \<longleftrightarrow> n < 8 \<and> bit (v :: u64) (8 * k + n)"
  by (auto simp: bit_simps)

lemma low_byte_bit: "bit (ucast (v :: u64) :: u8) n \<longleftrightarrow> n < 8 \<and> bit v n"
  using byte_bit[of 0 v n] by simp

lemma low_byte: "ucast ((u AND NOT 0xFF) OR (v AND 0xFF)) = (ucast (v :: u64) :: u8)" for u :: u64
  by (rule bit_eqI) (auto simp only: low_byte_bit bit_or_iff low_bits)

lemma peek_byte:
  assumes "word_mapped m a" "k < 8"
  shows "Some (ucast (drop_bit (8 * k) (peek_text m a))) = m (a + of_nat k)"
proof -
  obtain b where b: "m (a + of_nat k) = Some b" using assms unfolding word_mapped_def by fastforce
  have "bit (ucast (drop_bit (8 * k) (peek_text m a)) :: u8) n \<longleftrightarrow> bit b n" if "n < 8" for n
  proof -
    have "(8 * k + n) div 8 = k" "(8 * k + n) mod 8 = n" "8 * k + n < 64" using that assms(2) by auto
    then show ?thesis using that b assms(1) by (simp add: byte_bit peek_text_def bit_le_word)
  qed
  then have "ucast (drop_bit (8 * k) (peek_text m a)) = b" by (intro bit_word_eqI) simp
  then show ?thesis using b by simp
qed

text \<open>Writing back the word with another first byte.\<close>

lemma poke_first_byte:
  assumes w: "word_mapped m a"
  shows "poke_text m a ((peek_text m a AND NOT 0xFF) OR (v AND 0xFF)) = m(a \<mapsto> ucast v)"
proof
  fix x
  let ?u = "(peek_text m a AND NOT 0xFF) OR (v AND 0xFF)" and ?k = "unat (x - a)"
  show "poke_text m a ?u x = (m(a \<mapsto> ucast v)) x"
  proof (cases "x - a < 8")
    case True
    then have k: "?k < 8" by (simp add: word_less_nat_alt)
    have x: "x = a + of_nat ?k" by simp
    show ?thesis
    proof (cases "x = a")
      case False
      then have "0 < ?k" by (simp add: unat_gt_0)
      then have "(ucast (drop_bit (8 * ?k) ?u) :: u8) = ucast (drop_bit (8 * ?k) (peek_text m a))"
        by (intro bit_eqI) (auto simp only: byte_bit bit_or_iff low_bits)
      then show ?thesis using peek_byte[OF w k] w True False x by (simp add: poke_text_def)
    qed (use w low_byte[of "peek_text m a" v] in \<open>simp add: poke_text_def\<close>)
  qed (use w in \<open>auto simp: poke_text_def\<close>)
qed

lemma word_mapped_upd: "word_mapped m a \<Longrightarrow> word_mapped (m(x \<mapsto> v)) a"
  by (simp add: word_mapped_def)

lemma peek_low: "word_mapped m a \<Longrightarrow> m a = Some (ucast (peek_text m a))"
  using peek_byte[of m a 0] by simp

lemma low_byte_eq: "(u AND 0xFF = v AND 0xFF) \<longleftrightarrow> (ucast u :: u8) = ucast v" for u v :: u64
proof
  assume "u AND 0xFF = v AND 0xFF"
  then have "bit (u AND 0xFF) n \<longleftrightarrow> bit (v AND 0xFF) n" for n by simp
  then show "(ucast u :: u8) = ucast v" unfolding low_bits by (intro bit_eqI) (auto simp only: low_byte_bit)
next
  assume "(ucast u :: u8) = ucast v"
  then have "bit (ucast u :: u8) n \<longleftrightarrow> bit (ucast v :: u8) n" for n by simp
  then show "u AND 0xFF = v AND 0xFF" unfolding low_byte_bit by (intro bit_eqI) (auto simp only: low_bits)
qed

text \<open>Setting a breakpoint, and removing it, in terms of bytes.\<close>

lemma set_breakpoint: "word_mapped m a \<Longrightarrow> poke_text m a (arch_make_breakpoint (peek_text m a)) = m(a \<mapsto> 0xCC)"
  using poke_first_byte[of m a "0xCC"] by (simp add: arch_make_breakpoint_def)

lemma remove_breakpoint:
  assumes "word_mapped m a" "m a = Some 0xCC"
  shows "map_option (poke_text m a) (arch_remove_breakpoint (peek_text m a) ori) = Some (m(a \<mapsto> ucast ori))"
proof -
  have "(ucast (peek_text m a) :: u8) = ucast (0xCC :: u64)" using peek_low[OF assms(1)] assms(2) by simp
  then have "peek_text m a AND 0xFF = 0xCC AND 0xFF" unfolding low_byte_eq .
  then show ?thesis using poke_first_byte[OF assms(1)] by (simp add: arch_remove_breakpoint_def c_assert_def)
qed

lemma remove_breakpoint_fails:
  assumes "word_mapped m a" "m a \<noteq> Some 0xCC"
  shows "arch_remove_breakpoint (peek_text m a) ori = None"
proof -
  have "(ucast (peek_text m a) :: u8) \<noteq> ucast (0xCC :: u64)" using peek_low[OF assms(1)] assms(2) by auto
  then have "peek_text m a AND 0xFF \<noteq> 0xCC AND 0xFF" unfolding low_byte_eq .
  then show ?thesis by (simp add: arch_remove_breakpoint_def c_assert_def)
qed

end
