(* ===== verification/Tracer_State.thy ===== *)
theory Tracer_State
  imports Tracer_Text List_Loops
begin

text \<open>
  The state of the tracer of \<^verbatim>\<open>src/src/\<close>: its objects, breakpoints and threads, the lists that join them, and what it
  sees of the traced process through \<^verbatim>\<open>ptrace\<close>, its text and the program counters of its threads.  The list of all
  objects and the list of all threads have their heads in the variables \<^verbatim>\<open>objects\<close> and \<^verbatim>\<open>threads\<close>; the head of the list of the
  breakpoints of an object is in the object.
\<close>

type_synonym pid = u32

record tr_object =
  tr_file_name :: "string option"
  tr_text_start :: addr
  tr_text_end :: addr

record tr_breakpoint =
  tb_address :: addr
  ori_instrction :: u64
  tb_attr :: u32

record tr_thread =
  th_pid :: pid
  th_code :: u32
  th_status :: u32

record tracer =
  tr_lists :: list_heap
  tr_objs :: "tr_object heap"
  tr_objects :: addr
  tr_bkpts :: "tr_breakpoint heap"
  tr_thrs :: "tr_thread heap"
  tr_threads :: addr
  tr_text :: text_mem
  tr_regs :: "pid \<rightharpoonup> addr"

definition BKPT_F_ENTER_CTX :: u32 where "BKPT_F_ENTER_CTX = push_bit 0 1"
definition BKPT_F_ENABLE :: u32 where "BKPT_F_ENABLE = push_bit 1 1"

section \<open>Embedded list heads\<close>

text \<open>
  The offsets of the link fields.  The structure \<^verbatim>\<open>object\<close> names its link field \<^verbatim>\<open>object_chain_\<close>, the functions call it
  \<^verbatim>\<open>object_chain\<close>; it is the same field here.
\<close>

definition tr_breakpoint_chain :: "addr \<Rightarrow> addr" where "tr_breakpoint_chain p = p + 24"
definition tr_object_chain :: "addr \<Rightarrow> addr" where "tr_object_chain p = p + 40"
definition tr_object_of :: "addr \<Rightarrow> addr" where "tr_object_of x = x - 40"
definition bkp_chain :: "addr \<Rightarrow> addr" where "bkp_chain p = p + 16"
definition bkpt_of :: "addr \<Rightarrow> addr" where "bkpt_of x = x - 16"
definition context_chain :: "addr \<Rightarrow> addr" where "context_chain p = p + 16"
definition thread_chain :: "addr \<Rightarrow> addr" where "thread_chain p = p + 32"
definition thread_of :: "addr \<Rightarrow> addr" where "thread_of x = x - 32"

lemma embedded [simp]:
  "tr_object_of (tr_object_chain p) = p" "tr_object_chain (tr_object_of x) = x"
  "bkpt_of (bkp_chain p) = p" "bkp_chain (bkpt_of x) = x"
  "thread_of (thread_chain p) = p" "thread_chain (thread_of x) = x"
  by (simp_all add: tr_object_of_def tr_object_chain_def bkpt_of_def bkp_chain_def thread_of_def thread_chain_def)

lemma embedded_inj [simp]:
  "tr_object_of x = tr_object_of y \<longleftrightarrow> x = y" "bkpt_of x = bkpt_of y \<longleftrightarrow> x = y" "thread_of x = thread_of y \<longleftrightarrow> x = y"
  "tr_object_chain p = tr_object_chain q \<longleftrightarrow> p = q" "tr_breakpoint_chain p = tr_breakpoint_chain q \<longleftrightarrow> p = q"
  "bkp_chain p = bkp_chain q \<longleftrightarrow> p = q" "thread_chain p = thread_chain q \<longleftrightarrow> p = q" "context_chain p = context_chain q \<longleftrightarrow> p = q"
  by (simp_all add: tr_object_of_def bkpt_of_def thread_of_def tr_object_chain_def tr_breakpoint_chain_def bkp_chain_def
    thread_chain_def context_chain_def)

lemma embedded_apart [simp]:
  "tr_breakpoint_chain p \<noteq> tr_object_chain p" "tr_object_chain p \<noteq> tr_breakpoint_chain p"
  "context_chain p \<noteq> thread_chain p" "thread_chain p \<noteq> context_chain p"
  by (simp_all add: tr_object_chain_def tr_breakpoint_chain_def thread_chain_def context_chain_def)

text \<open>A list head that \<^verbatim>\<open>calloc\<close> has just cleared.\<close>

abbreviation null_links :: list_head where
  "null_links \<equiv> \<lparr>lh_next = NULL, lh_prev = NULL\<rparr>"

text \<open>Two list heads of a new structure are initialised as empty lists, without an effect on other lists.\<close>

lemma init_two:
  assumes "b \<noteq> NULL" "c \<noteq> NULL" "b \<noteq> c"
  shows "\<exists>h1 h2. INIT_LIST_HEAD b (h(b \<mapsto> null_links, c \<mapsto> null_links)) = Some h1 \<and> INIT_LIST_HEAD c h1 = Some h2 \<and>
    ring h2 b [] \<and> ring h2 c [] \<and> (\<forall>q. q \<notin> {b, c} \<longrightarrow> h2 q = h q)"
proof -
  let ?h = "h(b \<mapsto> null_links, c \<mapsto> null_links)"
  obtain h1 where h1: "INIT_LIST_HEAD b ?h = Some h1" "ring h1 b []" "relinked ?h {b} h1"
    using INIT_LIST_HEAD_ring[of ?h b] assms by (auto simp: live_def)
  have "live h1 c" using relinked_live[OF h1(3), of c] assms by (simp add: live_def)
  then obtain h2 where h2: "INIT_LIST_HEAD c h1 = Some h2" "ring h2 c []" "relinked h1 {c} h2"
    using INIT_LIST_HEAD_ring by blast
  have "ring h2 b []" using ring_relinked[OF h1(2) h2(3)] assms by simp
  moreover have "h2 q = h q" if "q \<notin> {b, c}" for q using that h1(3) h2(3) by (auto simp: relinked_def)
  ultimately show ?thesis using h1(1) h2(1,2) by blast
qed

lemma ring_outside: "\<lbrakk>ring h head xs; h x = None\<rbrakk> \<Longrightarrow> x \<notin> footprint head xs"
  using ring_live[of h head xs x] by (auto simp: live_def load_def split: if_splits)

end
