(* ===== verification/Tracer_Threads.thy ===== *)
theory Tracer_Threads
  imports Tracer_State
begin

text \<open>
  The threads of the traced process, \<^verbatim>\<open>src/src/thread.c\<close> and \<^verbatim>\<open>arch-x86/thread.c\<close>: the list of threads, the loops that stop and
  resume all of them, and the program counter.  \<^verbatim>\<open>thread_stop\<close>, \<^verbatim>\<open>thread_run\<close> and \<^verbatim>\<open>thread_wait\<close> refer to undeclared variables
  and fields; the loops take the first two as a parameter, a function that gives the return value, the value of
  \<^verbatim>\<open>errno\<close> and the thread afterwards.
\<close>

section \<open>Operations\<close>

definition thread_add :: "addr \<Rightarrow> pid \<Rightarrow> u32 \<Rightarrow> u32 \<Rightarrow> tracer \<Rightarrow> (addr \<times> tracer) option" where
  "thread_add t pid code status s =
     (if t = NULL then Some (NULL, s)
      else do {
        let s = s\<lparr>tr_thrs := (tr_thrs s)(t \<mapsto> \<lparr>th_pid = 0, th_code = 0, th_status = 0\<rparr>),
            tr_lists := (tr_lists s)(context_chain t \<mapsto> null_links, thread_chain t \<mapsto> null_links)\<rparr>;
        ts \<leftarrow> modify (tr_thrs s) t (\<lambda>th. th\<lparr>th_pid := pid, th_code := code, th_status := status\<rparr>);
        h \<leftarrow> INIT_LIST_HEAD (context_chain t) (tr_lists s);
        h \<leftarrow> INIT_LIST_HEAD (thread_chain t) h;
        h \<leftarrow> list_add_tail (thread_chain t) (tr_threads s) h;
        Some (t, s\<lparr>tr_thrs := ts, tr_lists := h\<rparr>) })"

definition thread_delete :: "addr \<Rightarrow> tracer \<Rightarrow> tracer option" where
  "thread_delete t s = do {
     c_assert (t \<noteq> NULL);
     h \<leftarrow> list_del_poison (thread_chain t) (tr_lists s);
     Some (s\<lparr>tr_thrs := (tr_thrs s)(t := None), tr_lists := h(context_chain t := None, thread_chain t := None)\<rparr>) }"

definition thread_get_by_pid :: "pid \<Rightarrow> tracer \<Rightarrow> addr option" where
  "thread_get_by_pid pid s = do {
     r \<leftarrow> list_for_each_entry (tr_lists s) (\<lambda>x. map_option (\<lambda>th. th_pid th = pid) (load (tr_thrs s) (thread_of x))) (tr_threads s);
     Some (case r of None \<Rightarrow> NULL | Some x \<Rightarrow> thread_of x) }"

definition ECHILD :: int where "ECHILD = 10"

text \<open>The body of the two loops: a thread that does not exist any more is deleted.\<close>

definition drop_lost :: "(tr_thread \<Rightarrow> int \<times> int \<times> tr_thread) \<Rightarrow> addr \<Rightarrow> tracer \<Rightarrow> tracer option" where
  "drop_lost call x s = do {
     th \<leftarrow> load (tr_thrs s) (thread_of x);
     let (rv, errno, th) = call th;
     let s = s\<lparr>tr_thrs := (tr_thrs s)(thread_of x \<mapsto> th)\<rparr>;
     if rv = 0 then Some s
     else if errno = ECHILD then thread_delete (thread_of x) s
     else Some s }"

definition thread_all_stop :: "(tr_thread \<Rightarrow> int \<times> int \<times> tr_thread) \<Rightarrow> tracer \<Rightarrow> (int \<times> tracer) option" where
  "thread_all_stop stop s = do {
     s \<leftarrow> list_for_each_entry_safe tr_lists (drop_lost stop) (tr_threads s) s;
     Some (0, s) }"

definition thread_all_run :: "(tr_thread \<Rightarrow> int \<times> int \<times> tr_thread) \<Rightarrow> tracer \<Rightarrow> (int \<times> tracer) option" where
  "thread_all_run run s = do {
     s \<leftarrow> list_each_entry tr_lists (drop_lost run) (tr_threads s) s;
     Some (0, s) }"

text \<open>
  The program counter.  \<^verbatim>\<open>PTRACE_GETREGS\<close> fails for a thread that is not traced; whether \<^verbatim>\<open>PTRACE_SETREGS\<close> succeeds
  is a parameter.
\<close>

definition arch_get_thread_pc :: "addr \<Rightarrow> tracer \<Rightarrow> addr option" where
  "arch_get_thread_pc t s = do {
     c_assert (t \<noteq> NULL);
     th \<leftarrow> load (tr_thrs s) t;
     Some (case tr_regs s (th_pid th) of None \<Rightarrow> 0 | Some rip \<Rightarrow> rip) }"

definition arch_set_thread_pc :: "bool \<Rightarrow> addr \<Rightarrow> addr \<Rightarrow> tracer \<Rightarrow> (int \<times> tracer) option" where
  "arch_set_thread_pc setregs t pc s = do {
     c_assert (t \<noteq> NULL);
     th \<leftarrow> load (tr_thrs s) t;
     Some (case tr_regs s (th_pid th) of
       None \<Rightarrow> (-1, s)
     | Some _ \<Rightarrow> if setregs then (0, s\<lparr>tr_regs := (tr_regs s)(th_pid th \<mapsto> pc)\<rparr>) else (-1, s)) }"

section \<open>The list of threads\<close>

definition threads_ok :: "tracer \<Rightarrow> addr list \<Rightarrow> bool" where
  "threads_ok s xs \<longleftrightarrow> ring (tr_lists s) (tr_threads s) xs \<and>
     (\<forall>x \<in> set xs. thread_of x \<noteq> NULL \<and> tr_thrs s (thread_of x) \<noteq> None \<and>
        context_chain (thread_of x) \<notin> footprint (tr_threads s) xs)"

abbreviation tr_thread_at :: "tracer \<Rightarrow> addr \<Rightarrow> tr_thread" where
  "tr_thread_at s x \<equiv> the (tr_thrs s (thread_of x))"

text \<open>What the list shows to its users: the threads in their order.\<close>

definition thread_list :: "tracer \<Rightarrow> addr list \<Rightarrow> tr_thread list" where
  "thread_list s xs = map (tr_thread_at s) xs"

lemma get_by_pid_ok:
  assumes "threads_ok s xs"
  shows "thread_get_by_pid k s = Some (case List.find (\<lambda>x. th_pid (tr_thread_at s x) = k) xs of None \<Rightarrow> NULL | Some x \<Rightarrow> thread_of x)"
proof -
  have "list_for_each_entry (tr_lists s) (\<lambda>x. map_option (\<lambda>th. th_pid th = k) (load (tr_thrs s) (thread_of x))) (tr_threads s) =
    Some (List.find (\<lambda>x. th_pid (tr_thread_at s x) = k) xs)"
    using assms by (intro ringlist.search_law) (auto simp: threads_ok_def load_def)
  then show ?thesis by (simp add: thread_get_by_pid_def)
qed

definition thread_fresh :: "tracer \<Rightarrow> addr list \<Rightarrow> addr \<Rightarrow> bool" where
  "thread_fresh s xs t \<longleftrightarrow> t \<noteq> NULL \<and> context_chain t \<noteq> NULL \<and> thread_chain t \<noteq> NULL \<and> tr_thrs s t = None \<and>
     tr_lists s (context_chain t) = None \<and> tr_lists s (thread_chain t) = None \<and>
     thread_chain t \<notin> (\<lambda>x. context_chain (thread_of x)) ` set xs"

lemma thread_add_ok:
  assumes ok: "threads_ok s xs" and t: "thread_fresh s xs t"
  shows "\<exists>h. thread_add t pid code status s =
      Some (t, s\<lparr>tr_thrs := (tr_thrs s)(t \<mapsto> \<lparr>th_pid = pid, th_code = code, th_status = status\<rparr>), tr_lists := h\<rparr>) \<and>
    ring h (tr_threads s) (xs @ [thread_chain t])"
proof -
  have ring: "ring (tr_lists s) (tr_threads s) xs" using ok by (simp add: threads_ok_def)
  obtain h1 h2 where h: "INIT_LIST_HEAD (context_chain t) ((tr_lists s)(context_chain t \<mapsto> null_links, thread_chain t \<mapsto> null_links)) = Some h1"
    "INIT_LIST_HEAD (thread_chain t) h1 = Some h2" "ring h2 (thread_chain t) []"
    "\<forall>q. q \<notin> {context_chain t, thread_chain t} \<longrightarrow> h2 q = tr_lists s q"
    using init_two[of "context_chain t" "thread_chain t" "tr_lists s"] t by (auto simp: thread_fresh_def)
  have out: "context_chain t \<notin> footprint (tr_threads s) xs" "thread_chain t \<notin> footprint (tr_threads s) xs"
    using ring_outside[OF ring] t by (auto simp: thread_fresh_def)
  have "h2 q = tr_lists s q" if "q \<in> set (tr_threads s # xs)" for q using h(4) out that by (metis insertE list.simps(15) singletonD)
  then have "ring h2 (tr_threads s) xs" by (rule ring_cong[OF ring])
  then obtain h3 where "list_add_tail (thread_chain t) (tr_threads s) h2 = Some h3" "ring h3 (tr_threads s) (xs @ [thread_chain t])"
    using ringlist.enqueue_law[OF _ _ out(2)] ring_live[OF h(3)] by blast
  then show ?thesis using h(1,2) t by (auto simp: thread_add_def thread_fresh_def modify_def)
qed

lemma threads_ok_snoc:
  assumes ok: "threads_ok s xs" and t: "thread_fresh s xs t" and h: "ring h (tr_threads s) (xs @ [thread_chain t])"
  shows "threads_ok (s\<lparr>tr_thrs := (tr_thrs s)(t \<mapsto> th), tr_lists := h\<rparr>) (xs @ [thread_chain t])"
proof -
  have "ring (tr_lists s) (tr_threads s) xs" using ok by (simp add: threads_ok_def)
  then have "context_chain t \<notin> footprint (tr_threads s) xs" using ring_outside t by (auto simp: thread_fresh_def)
  moreover have "thread_of x \<noteq> t" if "x \<in> set xs" for x using ok t that by (auto simp: threads_ok_def thread_fresh_def)
  moreover have "context_chain (thread_of x) \<noteq> thread_chain t" if "x \<in> set xs" for x
    using t imageI[OF that, of "\<lambda>x. context_chain (thread_of x)"] unfolding thread_fresh_def by metis
  ultimately show ?thesis using ok t h by (auto simp: threads_ok_def thread_fresh_def)
qed

lemma thread_delete_ok:
  assumes ok: "threads_ok s (as @ x # bs)"
  shows "\<exists>h. thread_delete (thread_of x) s = Some (s\<lparr>tr_thrs := (tr_thrs s)(thread_of x := None), tr_lists := h\<rparr>) \<and>
    threads_ok (s\<lparr>tr_thrs := (tr_thrs s)(thread_of x := None), tr_lists := h\<rparr>) (as @ bs) \<and> h x = None"
proof -
  have ring: "ring (tr_lists s) (tr_threads s) (as @ x # bs)" using ok by (simp add: threads_ok_def)
  obtain h where h: "list_del_poison x (tr_lists s) = Some h" "ring h (tr_threads s) (as @ bs)"
    using list_del_poison_ring[OF ring] by blast
  let ?h = "h(context_chain (thread_of x) := None, x := None)"
  have "distinct (as @ x # bs)" "x \<noteq> tr_threads s" using ring_distinct[OF ring] by auto
  moreover have "context_chain (thread_of x) \<notin> footprint (tr_threads s) (as @ bs)" using ok by (auto simp: threads_ok_def)
  ultimately have "ring ?h (tr_threads s) (as @ bs)" by (intro ring_cong[OF h(2)]) auto
  then show ?thesis
    using ok h(1) \<open>distinct (as @ x # bs)\<close> by (intro exI[of _ ?h]) (auto simp: threads_ok_def thread_delete_def)
qed

section \<open>The loops over all threads\<close>

definition lost :: "(tr_thread \<Rightarrow> int \<times> int \<times> tr_thread) \<Rightarrow> tr_thread \<Rightarrow> bool" where
  "lost call th \<longleftrightarrow> (case call th of (rv, errno, _) \<Rightarrow> rv \<noteq> 0 \<and> errno = ECHILD)"

definition after_call :: "(tr_thread \<Rightarrow> int \<times> int \<times> tr_thread) \<Rightarrow> tr_thread \<Rightarrow> tr_thread" where
  "after_call call th = snd (snd (call th))"

text \<open>The state in the middle of a loop: the threads behind it are those that were found, as the call left them.\<close>

definition loop_inv :: "(tr_thread \<Rightarrow> int \<times> int \<times> tr_thread) \<Rightarrow> tracer \<Rightarrow> addr list \<Rightarrow> tracer \<Rightarrow> addr list \<Rightarrow> addr list \<Rightarrow> bool" where
  "loop_inv call s0 xs s ds rs \<longleftrightarrow> threads_ok s (ds @ rs) \<and> tr_threads s = tr_threads s0 \<and>
     (\<exists>ps. xs = ps @ rs \<and> ds = filter (\<lambda>x. \<not> lost call (tr_thread_at s0 x)) ps) \<and>
     thread_list s (ds @ rs) = map (after_call call \<circ> tr_thread_at s0) ds @ thread_list s0 rs"

lemma loop_inv_ring: "loop_inv call s0 xs s ds rs \<Longrightarrow> ring (tr_lists s) (tr_threads s0) (ds @ rs)"
  by (auto simp: loop_inv_def threads_ok_def)

lemma loop_inv_update:
  assumes inv: "loop_inv call s0 xs s ds (x # rs)"
  shows "threads_ok (s\<lparr>tr_thrs := (tr_thrs s)(thread_of x \<mapsto> th)\<rparr>) (ds @ x # rs) \<and>
    thread_list (s\<lparr>tr_thrs := (tr_thrs s)(thread_of x \<mapsto> th)\<rparr>) (ds @ x # rs) =
      map (after_call call \<circ> tr_thread_at s0) ds @ th # thread_list s0 rs"
proof -
  have "distinct (ds @ x # rs)" using inv ring_distinct[OF loop_inv_ring[OF inv]] by simp
  then have "thread_of y \<noteq> thread_of x" if "y \<in> set ds \<union> set rs" for y using that by auto
  then have "thread_list (s\<lparr>tr_thrs := (tr_thrs s)(thread_of x \<mapsto> th)\<rparr>) (ds @ x # rs) = thread_list s ds @ th # thread_list s rs"
    by (auto simp: thread_list_def)
  then show ?thesis using inv by (auto simp: loop_inv_def threads_ok_def thread_list_def)
qed

lemma drop_lost_step:
  assumes inv: "loop_inv call s0 xs s ds (x # rs)"
  shows "\<exists>s'. drop_lost call x s = Some s' \<and>
    (if lost call (tr_thread_at s0 x) then loop_inv call s0 xs s' ds rs \<and> tr_lists s' x = None else loop_inv call s0 xs s' (ds @ [x]) rs)"
proof -
  have ok: "threads_ok s (ds @ x # rs)" using inv by (simp add: loop_inv_def)
  have x: "load (tr_thrs s) (thread_of x) = Some (tr_thread_at s0 x)"
    using inv by (auto simp: loop_inv_def threads_ok_def thread_list_def load_def)
  obtain rv errno th where call: "call (tr_thread_at s0 x) = (rv, errno, th)" by (cases "call (tr_thread_at s0 x)") auto
  let ?s = "s\<lparr>tr_thrs := (tr_thrs s)(thread_of x \<mapsto> th)\<rparr>"
  note up = loop_inv_update[OF inv, of th]
  obtain ps where ps: "xs = ps @ x # rs" "ds = filter (\<lambda>x. \<not> lost call (tr_thread_at s0 x)) ps" using inv by (auto simp: loop_inv_def)
  have heads: "tr_threads s = tr_threads s0" using inv by (simp add: loop_inv_def)
  show ?thesis
  proof (cases "lost call (tr_thread_at s0 x)")
    case True
    obtain h where h: "thread_delete (thread_of x) ?s = Some (?s\<lparr>tr_thrs := (tr_thrs ?s)(thread_of x := None), tr_lists := h\<rparr>)"
      "threads_ok (?s\<lparr>tr_thrs := (tr_thrs ?s)(thread_of x := None), tr_lists := h\<rparr>) (ds @ rs)" "h x = None"
      using thread_delete_ok[OF conjunct1[OF up]] by blast
    let ?t = "?s\<lparr>tr_thrs := (tr_thrs ?s)(thread_of x := None), tr_lists := h\<rparr>"
    have d: "distinct (ds @ x # rs)" using ring_distinct[OF loop_inv_ring[OF inv]] by simp
    then have "thread_list ?t (ds @ rs) = thread_list s ds @ thread_list s rs" by (auto simp: thread_list_def)
    moreover have "thread_list s ds = map (after_call call \<circ> tr_thread_at s0) ds" "thread_list s rs = thread_list s0 rs"
      using inv by (auto simp: loop_inv_def thread_list_def)
    ultimately have "loop_inv call s0 xs ?t ds rs"
      using h(2) heads ps True unfolding loop_inv_def by (intro conjI exI[of _ "ps @ [x]"]) auto
    then show ?thesis using True h(1,3) x call by (auto simp: drop_lost_def lost_def Let_def)
  next
    case False
    then have "loop_inv call s0 xs ?s (ds @ [x]) rs"
      using up heads ps call unfolding loop_inv_def by (intro conjI exI[of _ "ps @ [x]"]) (auto simp: after_call_def thread_list_def)
    then show ?thesis using False x call by (auto simp: drop_lost_def lost_def Let_def)
  qed
qed

lemma loop_inv_start: "threads_ok s xs \<Longrightarrow> loop_inv call s xs s [] xs"
  by (simp add: loop_inv_def)

lemma loop_inv_end: "loop_inv call s0 xs s ds [] \<Longrightarrow> threads_ok s ds \<and> ds = filter (\<lambda>x. \<not> lost call (tr_thread_at s0 x)) xs \<and>
    thread_list s ds = map (after_call call) (filter (\<lambda>th. \<not> lost call th) (thread_list s0 xs))"
  by (auto simp: loop_inv_def thread_list_def filter_map comp_def)

section \<open>Properties\<close>

text \<open>A traced process with two threads, 100 and 101.\<close>

definition tracee_threads :: tracer where
  "tracee_threads = \<lparr>tr_lists = [0x900 \<mapsto> \<lparr>lh_next = 0x1020, lh_prev = 0x2020\<rparr>,
       0x1010 \<mapsto> \<lparr>lh_next = 0x1010, lh_prev = 0x1010\<rparr>, 0x1020 \<mapsto> \<lparr>lh_next = 0x2020, lh_prev = 0x900\<rparr>,
       0x2010 \<mapsto> \<lparr>lh_next = 0x2010, lh_prev = 0x2010\<rparr>, 0x2020 \<mapsto> \<lparr>lh_next = 0x900, lh_prev = 0x1020\<rparr>],
     tr_objs = Map.empty, tr_objects = 0x800, tr_bkpts = Map.empty,
     tr_thrs = [0x1000 \<mapsto> \<lparr>th_pid = 100, th_code = 0, th_status = 0\<rparr>, 0x2000 \<mapsto> \<lparr>th_pid = 101, th_code = 0, th_status = 0\<rparr>],
     tr_threads = 0x900, tr_text = Map.empty, tr_regs = Map.empty\<rparr>"

lemma tracee_threads_at: "tr_thread_at tracee_threads 0x1020 = \<lparr>th_pid = 100, th_code = 0, th_status = 0\<rparr>"
  "tr_thread_at tracee_threads 0x2020 = \<lparr>th_pid = 101, th_code = 0, th_status = 0\<rparr>"
  by (simp_all add: tracee_threads_def thread_of_def)

lemma tracee_threads_ok: "threads_ok tracee_threads [0x1020, 0x2020]" "thread_fresh tracee_threads [0x1020, 0x2020] 0x3000"
  by (simp_all add: threads_ok_def tracee_threads_def ring_def nexts_def prevs_def load_def thread_of_def context_chain_def
    thread_fresh_def thread_chain_def)

text \<open>
  The list of threads.  A thread that is added is found under its id unless an older one has the same id, the
  other ids lead to the same threads as before, and deleting it again gives back all the old answers.
\<close>

theorem thread_add_delete_round_trip:
  assumes "threads_ok s xs" "thread_fresh s xs t"
  shows "\<exists>s' s''. thread_add t pid code status s = Some (t, s') \<and> thread_delete t s' = Some s'' \<and>
    (\<forall>k. thread_get_by_pid k s' = (if k = pid \<and> thread_get_by_pid k s = Some NULL then Some t else thread_get_by_pid k s)) \<and>
    (\<forall>k. thread_get_by_pid k s'' = thread_get_by_pid k s) \<and> threads_ok s'' xs"
proof -
  let ?th = "\<lparr>th_pid = pid, th_code = code, th_status = status\<rparr>" and ?x = "thread_chain t"
  obtain h where h: "thread_add t pid code status s = Some (t, s\<lparr>tr_thrs := (tr_thrs s)(t \<mapsto> ?th), tr_lists := h\<rparr>)"
    "ring h (tr_threads s) (xs @ [?x])" using thread_add_ok[OF assms] by blast
  let ?s = "s\<lparr>tr_thrs := (tr_thrs s)(t \<mapsto> ?th), tr_lists := h\<rparr>"
  have ok: "threads_ok ?s (xs @ [?x])" using threads_ok_snoc[OF assms h(2)] .
  then obtain g where g: "thread_delete t ?s = Some (?s\<lparr>tr_thrs := (tr_thrs ?s)(t := None), tr_lists := g\<rparr>)"
    "threads_ok (?s\<lparr>tr_thrs := (tr_thrs ?s)(t := None), tr_lists := g\<rparr>) xs"
    using thread_delete_ok[of ?s xs ?x "[]"] by auto
  let ?t = "?s\<lparr>tr_thrs := (tr_thrs ?s)(t := None), tr_lists := g\<rparr>"
  have other: "thread_of x \<noteq> t" if "x \<in> set xs" for x using assms that by (auto simp: threads_ok_def thread_fresh_def)
  have nz: "thread_of x \<noteq> NULL" if "List.find P xs = Some x" for P x
    using find_SomeD[OF that] assms(1) by (auto simp: threads_ok_def)
  have "List.find (\<lambda>x. th_pid (tr_thread_at ?t x) = k) xs = List.find (\<lambda>x. th_pid (tr_thread_at s x) = k) xs"
    "List.find (\<lambda>x. th_pid (tr_thread_at ?s x) = k) xs = List.find (\<lambda>x. th_pid (tr_thread_at s x) = k) xs" for k
    using other by (auto intro!: find_cong)
  then have "thread_get_by_pid k ?t = thread_get_by_pid k s"
    "thread_get_by_pid k ?s = (if k = pid \<and> thread_get_by_pid k s = Some NULL then Some t else thread_get_by_pid k s)" for k
    unfolding get_by_pid_ok[OF g(2)] get_by_pid_ok[OF ok] get_by_pid_ok[OF assms(1)] find_append
    using nz by (auto split: option.splits)
  then show ?thesis using h(1) g by blast
qed

theorem thread_add_delete_round_trip_witness:
  "\<exists>s' s''. thread_add 0x3000 102 0 0 tracee_threads = Some (0x3000, s') \<and> thread_delete 0x3000 s' = Some s'' \<and>
    (\<forall>k. thread_get_by_pid k s' = (if k = 102 \<and> thread_get_by_pid k tracee_threads = Some NULL then Some 0x3000 else thread_get_by_pid k tracee_threads)) \<and>
    (\<forall>k. thread_get_by_pid k s'' = thread_get_by_pid k tracee_threads) \<and> threads_ok s'' [0x1020, 0x2020]"
  by (rule thread_add_delete_round_trip[OF tracee_threads_ok])

text \<open>
  C29: \<^verbatim>\<open>thread_all_stop\<close> returns 0, and the list keeps, in their order, exactly the threads for which \<^verbatim>\<open>thread_stop\<close> did not
  fail with \<^verbatim>\<open>ECHILD\<close>, as it left them.
\<close>

theorem thread_all_stop_drops_lost:
  assumes "threads_ok s xs"
  shows "\<exists>s'. thread_all_stop stop s = Some (0, s') \<and> threads_ok s' (filter (\<lambda>x. \<not> lost stop (tr_thread_at s x)) xs) \<and>
    thread_list s' (filter (\<lambda>x. \<not> lost stop (tr_thread_at s x)) xs) =
      map (after_call stop) (filter (\<lambda>th. \<not> lost stop th) (thread_list s xs))"
proof -
  have "\<exists>s' ds'. list_for_each_entry_safe tr_lists (drop_lost stop) (tr_threads s) s = Some s' \<and> loop_inv stop s xs s' ds' []"
    by (rule list_for_each_entry_safe_ring[where I = "loop_inv stop s xs", OF loop_inv_ring _ loop_inv_start[OF assms]])
      (assumption, use drop_lost_step in metis)
  then show ?thesis using loop_inv_end by (fastforce simp: thread_all_stop_def)
qed

text \<open>The second of two threads is gone.\<close>

theorem thread_all_stop_drops_lost_witness:
  "\<exists>s'. thread_all_stop (\<lambda>th. if th_pid th = 101 then (-1, ECHILD, th) else (0, 0, th\<lparr>th_status := 0x57F\<rparr>)) tracee_threads = Some (0, s') \<and>
    threads_ok s' [0x1020] \<and> thread_list s' [0x1020] = [\<lparr>th_pid = 100, th_code = 0, th_status = 0x57F\<rparr>]"
  using thread_all_stop_drops_lost[OF tracee_threads_ok(1), of "\<lambda>th. if th_pid th = 101 then (-1, ECHILD, th) else (0, 0, th\<lparr>th_status := 0x57F\<rparr>)"]
  by (simp add: lost_def after_call_def thread_list_def tracee_threads_at)

text \<open>
  C30: \<^verbatim>\<open>thread_all_run\<close> deletes lost threads in a loop that reads the link of the current thread afterwards.  When no
  thread is lost it returns 0 and keeps the list; as soon as one is, it reads memory that it has released.
\<close>

theorem thread_all_run_use_after_free:
  assumes "threads_ok s xs"
  shows "(if \<exists>th \<in> set (thread_list s xs). lost run th then thread_all_run run s = None
    else \<exists>s'. thread_all_run run s = Some (0, s') \<and> threads_ok s' xs \<and> thread_list s' xs = map (after_call run) (thread_list s xs))"
proof (cases "\<exists>th \<in> set (thread_list s xs). lost run th")
  case True
  then have "\<exists>x \<in> set xs. lost run (tr_thread_at s x)" by (auto simp: thread_list_def)
  then obtain as x bs where x: "xs = as @ x # bs" "lost run (tr_thread_at s x)" "\<forall>y \<in> set as. \<not> lost run (tr_thread_at s y)"
    using split_list_first_prop[of xs "\<lambda>x. lost run (tr_thread_at s x)"] by blast
  have "list_each_entry tr_lists (drop_lost run) (tr_threads s) s = None"
  proof (rule list_each_entry_released[where I = "loop_inv run s xs"])
    show "loop_inv run s xs s [] (as @ x # bs)" using loop_inv_start[OF assms] x(1) by simp
    show "tr_lists s' x = None" if "loop_inv run s xs t ds (x # bs)" "drop_lost run x t = Some s'" for t ds s'
      using drop_lost_step[OF that(1)] that(2) x(2) by auto
    show "\<exists>s'. drop_lost run y t = Some s' \<and> loop_inv run s xs s' (ds @ [y]) (rs @ x # bs)"
      if "loop_inv run s xs t ds (y # rs @ x # bs)" "y \<in> set as" for t ds y rs
      using drop_lost_step[OF that(1)] x(3) that(2) by auto
  qed (rule loop_inv_ring)
  then show ?thesis using True by (simp add: thread_all_run_def)
next
  case False
  then have none: "\<not> lost run (tr_thread_at s x)" if "x \<in> set xs" for x using that by (auto simp: thread_list_def)
  have "\<exists>s'. list_each_entry tr_lists (drop_lost run) (tr_threads s) s = Some s' \<and> loop_inv run s xs s' xs []"
  proof (rule list_each_entry_ring[where I = "loop_inv run s xs", OF loop_inv_ring _ loop_inv_start[OF assms]])
    show "\<exists>s'. drop_lost run x t = Some s' \<and> loop_inv run s xs s' (ds @ [x]) rs"
      if "loop_inv run s xs t ds (x # rs)" "x \<in> set xs" for t ds x rs
      using drop_lost_step[OF that(1)] none[OF that(2)] by auto
  qed
  moreover have "filter (\<lambda>th. \<not> lost run th) (thread_list s xs) = thread_list s xs" using False by (auto simp: filter_id_conv)
  ultimately show ?thesis using False loop_inv_end by (fastforce simp: thread_all_run_def)
qed

theorem thread_all_run_use_after_free_witness:
  "thread_all_run (\<lambda>th. if th_pid th = 101 then (-1, ECHILD, th) else (0, 0, th)) tracee_threads = None"
  using thread_all_run_use_after_free[OF tracee_threads_ok(1), of "\<lambda>th. if th_pid th = 101 then (-1, ECHILD, th) else (0, 0, th)"]
  by (simp add: lost_def thread_list_def tracee_threads_at)

end
