(* ===== verification/Tracer_Breakpoints.thy ===== *)
theory Tracer_Breakpoints
  imports Tracer_Threads
begin

text \<open>
  The breakpoints of the tracer, \<^verbatim>\<open>src/src/breakpoint.c\<close>.  A breakpoint is patched into the text of the traced process through
  \<^verbatim>\<open>ptrace\<close>.  The text without breakpoints is the specification: a set of addresses is marked in it, and enabling and
  disabling add to the set and take from it.
\<close>

section \<open>Operations\<close>

definition tr_breakpoint_enable :: "addr \<Rightarrow> tracer \<Rightarrow> tracer option" where
  "tr_breakpoint_enable bp s = do {
     c_assert (bp \<noteq> NULL);
     b \<leftarrow> load (tr_bkpts s) bp;
     if tb_attr b AND BKPT_F_ENABLE \<noteq> 0 then Some s
     else do {
       bs \<leftarrow> modify (tr_bkpts s) bp (\<lambda>b. b\<lparr>ori_instrction := peek_text (tr_text s) (tb_address b)\<rparr>);
       b \<leftarrow> load bs bp;
       let text = poke_text (tr_text s) (tb_address b) (arch_make_breakpoint (ori_instrction b));
       bs \<leftarrow> modify bs bp (\<lambda>b. b\<lparr>tb_attr := tb_attr b OR BKPT_F_ENABLE\<rparr>);
       Some (s\<lparr>tr_bkpts := bs, tr_text := text\<rparr>) } }"

definition tr_breakpoint_disable :: "addr \<Rightarrow> tracer \<Rightarrow> tracer option" where
  "tr_breakpoint_disable bp s = do {
     c_assert (bp \<noteq> NULL);
     b \<leftarrow> load (tr_bkpts s) bp;
     if tb_attr b AND BKPT_F_ENABLE = 0 then Some s
     else do {
       let data = peek_text (tr_text s) (tb_address b);
       instr \<leftarrow> arch_remove_breakpoint data (ori_instrction b);
       let text = poke_text (tr_text s) (tb_address b) instr;
       bs \<leftarrow> modify (tr_bkpts s) bp (\<lambda>b. b\<lparr>tb_attr := tb_attr b AND NOT BKPT_F_ENABLE\<rparr>);
       Some (s\<lparr>tr_bkpts := bs, tr_text := text\<rparr>) } }"

text \<open>\<^verbatim>\<open>bp\<close> is the address that \<^verbatim>\<open>calloc\<close> returns, or the null pointer.\<close>

definition tr_breakpoint_create :: "addr \<Rightarrow> addr \<Rightarrow> u64 \<Rightarrow> u32 \<Rightarrow> tracer \<Rightarrow> (addr \<times> tracer) option" where
  "tr_breakpoint_create bp obj offset attr s = do {
     c_assert (obj \<noteq> NULL);
     c_assert (offset \<noteq> 0);
     ob \<leftarrow> load (tr_objs s) obj;
     if tr_text_start ob + offset > tr_text_end ob then Some (NULL, s)
     else if bp = NULL then Some (NULL, s)
     else do {
       let s = s\<lparr>tr_bkpts := (tr_bkpts s)(bp \<mapsto> \<lparr>tb_address = 0, ori_instrction = 0, tb_attr = 0\<rparr>),
           tr_lists := (tr_lists s)(bkp_chain bp \<mapsto> null_links)\<rparr>;
       s \<leftarrow> (if attr AND BKPT_F_ENABLE \<noteq> 0 then tr_breakpoint_enable bp s else Some s);
       bs \<leftarrow> modify (tr_bkpts s) bp (\<lambda>b. b\<lparr>tb_address := tr_text_start ob + offset, tb_attr := attr\<rparr>);
       h \<leftarrow> list_add_tail (bkp_chain bp) (tr_breakpoint_chain obj) (tr_lists s);
       Some (bp, s\<lparr>tr_bkpts := bs, tr_lists := h\<rparr>) } }"

definition tr_breakpoint_delete :: "addr \<Rightarrow> tracer \<Rightarrow> tracer option" where
  "tr_breakpoint_delete bp s = do {
     s \<leftarrow> tr_breakpoint_disable bp s;
     h \<leftarrow> list_del_poison (bkp_chain bp) (tr_lists s);
     Some (s\<lparr>tr_bkpts := (tr_bkpts s)(bp := None), tr_lists := h(bkp_chain bp := None)\<rparr>) }"

text \<open>
  \<^verbatim>\<open>breakpoint_resume\<close>.  \<^verbatim>\<open>single_step\<close> stands for \<^verbatim>\<open>thread_single_step\<close>: one step of the processor on the text of the process.
\<close>

definition tr_breakpoint_resume ::
  "bool \<Rightarrow> (addr \<Rightarrow> tracer \<Rightarrow> (int \<times> tracer) option) \<Rightarrow> addr \<Rightarrow> addr \<Rightarrow> tracer \<Rightarrow> (int \<times> tracer) option" where
  "tr_breakpoint_resume setregs single_step bp t s = do {
     c_assert (bp \<noteq> NULL);
     c_assert (t \<noteq> NULL);
     b \<leftarrow> load (tr_bkpts s) bp;
     (rv, s) \<leftarrow> arch_set_thread_pc setregs t (tb_address b) s;
     if rv < 0 then Some (-1, s)
     else do {
       s \<leftarrow> tr_breakpoint_disable bp s;
       (rv, s) \<leftarrow> single_step t s;
       if rv < 0 then Some (-1, s)
       else do {
         s \<leftarrow> tr_breakpoint_enable bp s;
         Some (0, s) } } }"

text \<open>\<^verbatim>\<open>breakpoint_find\<close>: the loop over the objects, and inside it the one over the breakpoints of an object.\<close>

definition find_in_object :: "addr \<Rightarrow> addr \<Rightarrow> tracer \<Rightarrow> addr option option" where
  "find_in_object bp_pc obj s =
     list_for_each_entry (tr_lists s) (\<lambda>y. map_option (\<lambda>b. tb_address b = bp_pc) (load (tr_bkpts s) (bkpt_of y))) (tr_breakpoint_chain obj)"

partial_function (option) find_in_objects :: "addr \<Rightarrow> tracer \<Rightarrow> addr \<Rightarrow> addr option" where
  "find_in_objects bp_pc s pos =
     (if pos = tr_objects s then Some NULL
      else do {
        ob \<leftarrow> load (tr_objs s) (tr_object_of pos);
        r \<leftarrow> (if tr_text_start ob > bp_pc \<or> tr_text_end ob < bp_pc then Some None else find_in_object bp_pc (tr_object_of pos) s);
        case r of
          Some y \<Rightarrow> Some (bkpt_of y)
        | None \<Rightarrow> do {
            nxt \<leftarrow> get_next (tr_lists s) pos;
            find_in_objects bp_pc s nxt } })"

definition tr_breakpoint_find :: "addr \<Rightarrow> tracer \<Rightarrow> addr option" where
  "tr_breakpoint_find t s = do {
     curr_pc \<leftarrow> arch_get_thread_pc t s;
     if curr_pc = 0 then Some NULL
     else do {
       let bp_pc = arch_get_breakpoint_pc curr_pc;
       pos \<leftarrow> get_next (tr_lists s) (tr_objects s);
       find_in_objects bp_pc s pos } }"

section \<open>The marked text\<close>

abbreviation enabled :: "tr_breakpoint \<Rightarrow> bool" where
  "enabled b \<equiv> tb_attr b AND BKPT_F_ENABLE \<noteq> 0"

lemma enable_flag: "(attr AND BKPT_F_ENABLE \<noteq> 0) \<longleftrightarrow> bit attr 1"
  using and_exp_eq_0_iff_not_bit[of attr 1] by (simp add: BKPT_F_ENABLE_def)

lemma enable_flag_set [simp]: "(attr OR BKPT_F_ENABLE) AND BKPT_F_ENABLE \<noteq> 0"
  unfolding enable_flag by (simp add: BKPT_F_ENABLE_def bit_or_iff bit_push_bit_iff)

lemma enable_flag_clear [simp]: "(attr AND NOT BKPT_F_ENABLE) AND BKPT_F_ENABLE = 0"
  by (simp add: and.assoc)

lemma enable_flag_nonzero [simp]: "BKPT_F_ENABLE \<noteq> 0"
  by (simp add: BKPT_F_ENABLE_def)

text \<open>The addresses at which a breakpoint is enabled, and a text with \<^verbatim>\<open>int3\<close> at the addresses of a set.\<close>

definition enabled_at :: "tracer \<Rightarrow> addr set" where
  "enabled_at s = {tb_address b | p b. tr_bkpts s p = Some b \<and> enabled b}"

definition overlay :: "text_mem \<Rightarrow> addr set \<Rightarrow> text_mem" where
  "overlay orig A = (\<lambda>x. if x \<in> A \<and> orig x \<noteq> None then Some 0xCC else orig x)"

text \<open>
  The invariant: breakpoints are on mapped text and no two of them on the same address, the text is the original one with the enabled
  breakpoints marked, and each of them remembers the byte it has replaced.
\<close>

definition bkpts_ok :: "text_mem \<Rightarrow> tracer \<Rightarrow> bool" where
  "bkpts_ok orig s \<longleftrightarrow> tr_text s = overlay orig (enabled_at s) \<and>
     (\<forall>p b. tr_bkpts s p = Some b \<longrightarrow> p \<noteq> NULL \<and> word_mapped orig (tb_address b) \<and>
        (enabled b \<longrightarrow> orig (tb_address b) = Some (ucast (ori_instrction b)))) \<and>
     (\<forall>p q b c. tr_bkpts s p = Some b \<and> tr_bkpts s q = Some c \<and> tb_address b = tb_address c \<longrightarrow> p = q)"

lemma overlay_mapped: "word_mapped (overlay orig A) a = word_mapped orig a"
proof -
  have "overlay orig A x = None \<longleftrightarrow> orig x = None" for x by (simp add: overlay_def)
  then show ?thesis unfolding word_mapped_def by simp
qed

lemma overlay_empty: "overlay orig {} = orig"
  by (simp add: overlay_def)

lemma overlay_insert: "orig a \<noteq> None \<Longrightarrow> (overlay orig A)(a \<mapsto> 0xCC) = overlay orig (insert a A)"
  by (auto simp: overlay_def fun_eq_iff)

lemma overlay_remove: "orig a = Some v \<Longrightarrow> (overlay orig A)(a \<mapsto> v) = overlay orig (A - {a})"
  by (auto simp: overlay_def fun_eq_iff)

lemma mapped_first: "word_mapped m a \<Longrightarrow> m a \<noteq> None"
  unfolding word_mapped_def by (drule bspec[of _ _ 0]) auto

lemma enabled_at_text [simp]: "enabled_at (s\<lparr>tr_text := m\<rparr>) = enabled_at s"
  by (simp add: enabled_at_def)

lemma bkpts_okD:
  assumes "bkpts_ok orig s" "tr_bkpts s p = Some b"
  shows "p \<noteq> NULL" "word_mapped orig (tb_address b)" "word_mapped (tr_text s) (tb_address b)" "load (tr_bkpts s) p = Some b"
    "enabled b \<Longrightarrow> orig (tb_address b) = Some (ucast (ori_instrction b))"
  using assms by (auto simp: bkpts_ok_def overlay_mapped load_def)

lemma enabled_at_iff:
  assumes "bkpts_ok orig s" "tr_bkpts s p = Some b"
  shows "tb_address b \<in> enabled_at s \<longleftrightarrow> enabled b"
proof -
  have "c = b" if "tr_bkpts s q = Some c" "tb_address c = tb_address b" for q c
    using assms that unfolding bkpts_ok_def by (metis option.inject)
  then show ?thesis using assms(2) by (auto simp: enabled_at_def)
qed

lemma enabled_at_upd:
  assumes ok: "bkpts_ok orig s" and b: "tr_bkpts s p = Some b" and c: "tb_address c = tb_address b"
  shows "enabled_at (s\<lparr>tr_bkpts := (tr_bkpts s)(p \<mapsto> c)\<rparr>) =
    (if enabled c then insert (tb_address b) (enabled_at s) else enabled_at s - {tb_address b})"
proof -
  have other: "tb_address e \<noteq> tb_address b" if "tr_bkpts s q = Some e" "q \<noteq> p" for q e
    using ok b that unfolding bkpts_ok_def by metis
  have "x \<in> enabled_at (s\<lparr>tr_bkpts := (tr_bkpts s)(p \<mapsto> c)\<rparr>) \<longleftrightarrow>
    x = tb_address b \<and> enabled c \<or> x \<noteq> tb_address b \<and> x \<in> enabled_at s" for x
    using other b c by (auto simp: enabled_at_def split: if_splits) (metis option.inject)+
  then show ?thesis by auto
qed

lemma bkpts_ok_regs [simp]: "bkpts_ok orig (s\<lparr>tr_regs := r\<rparr>) = bkpts_ok orig s" "enabled_at (s\<lparr>tr_regs := r\<rparr>) = enabled_at s"
  by (simp_all add: bkpts_ok_def enabled_at_def)

text \<open>Any change of one breakpoint that keeps its address and remembers the byte keeps the invariant.\<close>

lemma bkpts_ok_upd:
  assumes ok: "bkpts_ok orig s" and b: "tr_bkpts s p = Some b" and c: "tb_address c = tb_address b"
    and byte: "enabled c \<Longrightarrow> orig (tb_address b) = Some (ucast (ori_instrction c))"
    and m: "m = overlay orig (enabled_at (s\<lparr>tr_bkpts := (tr_bkpts s)(p \<mapsto> c), tr_text := m\<rparr>))"
  shows "bkpts_ok orig (s\<lparr>tr_bkpts := (tr_bkpts s)(p \<mapsto> c), tr_text := m\<rparr>)"
proof -
  have "p \<noteq> NULL" "word_mapped orig (tb_address b)" using bkpts_okD[OF ok b] by auto
  moreover have "tb_address e \<noteq> tb_address b" if "tr_bkpts s q = Some e" "q \<noteq> p" for q e
    using ok b that unfolding bkpts_ok_def by metis
  moreover have "q = r" if "tr_bkpts s q = Some d" "tr_bkpts s r = Some e" "tb_address d = tb_address e" for q r d e
    using ok that unfolding bkpts_ok_def by metis
  ultimately show ?thesis
    unfolding bkpts_ok_def using m c byte bkpts_okD[OF ok] by (auto split: if_splits) metis+
qed

lemma enable_ok:
  assumes ok: "bkpts_ok orig s" and b: "tr_bkpts s p = Some b"
  shows "\<exists>c m. tr_breakpoint_enable p s = Some (s\<lparr>tr_bkpts := (tr_bkpts s)(p \<mapsto> c), tr_text := m\<rparr>) \<and>
    tb_address c = tb_address b \<and> bkpts_ok orig (s\<lparr>tr_bkpts := (tr_bkpts s)(p \<mapsto> c), tr_text := m\<rparr>) \<and>
    enabled c \<and> m = overlay orig (insert (tb_address b) (enabled_at s))"
proof (cases "enabled b")
  case True
  moreover have "s\<lparr>tr_bkpts := (tr_bkpts s)(p \<mapsto> b), tr_text := tr_text s\<rparr> = s" using b by (simp add: fun_upd_idem)
  moreover have "insert (tb_address b) (enabled_at s) = enabled_at s" using enabled_at_iff[OF ok b] True by auto
  ultimately show ?thesis
    using bkpts_okD[OF ok b] ok by (intro exI[of _ b] exI[of _ "tr_text s"]) (simp add: tr_breakpoint_enable_def bkpts_ok_def)
next
  case False
  let ?a = "tb_address b" and ?v = "peek_text (tr_text s) (tb_address b)"
  let ?c = "b\<lparr>ori_instrction := ?v, tb_attr := tb_attr b OR BKPT_F_ENABLE\<rparr>"
  let ?m = "overlay orig (insert ?a (enabled_at s))"
  note D = bkpts_okD[OF ok b]
  have tx: "tr_text s = overlay orig (enabled_at s)" using ok by (simp add: bkpts_ok_def)
  have "poke_text (tr_text s) ?a (arch_make_breakpoint ?v) = ?m"
    using set_breakpoint[OF D(3)] overlay_insert mapped_first[OF D(2)] tx by metis
  then have "tr_breakpoint_enable p s = Some (s\<lparr>tr_bkpts := (tr_bkpts s)(p \<mapsto> ?c), tr_text := ?m\<rparr>)"
    using False D(1,4) by (simp add: tr_breakpoint_enable_def modify_def)
  moreover have "orig ?a = Some (ucast ?v)"
    using peek_low[OF D(3)] enabled_at_iff[OF ok b] False tx by (simp add: overlay_def)
  then have "bkpts_ok orig (s\<lparr>tr_bkpts := (tr_bkpts s)(p \<mapsto> ?c), tr_text := ?m\<rparr>)"
    by (intro bkpts_ok_upd[OF ok b]) (simp_all add: enabled_at_upd[OF ok b])
  ultimately show ?thesis by (intro exI[of _ ?c] exI[of _ ?m]) simp
qed

lemma disable_ok:
  assumes ok: "bkpts_ok orig s" and b: "tr_bkpts s p = Some b"
  shows "\<exists>c m. tr_breakpoint_disable p s = Some (s\<lparr>tr_bkpts := (tr_bkpts s)(p \<mapsto> c), tr_text := m\<rparr>) \<and>
    tb_address c = tb_address b \<and> \<not> enabled c \<and> bkpts_ok orig (s\<lparr>tr_bkpts := (tr_bkpts s)(p \<mapsto> c), tr_text := m\<rparr>) \<and>
    m = overlay orig (enabled_at s - {tb_address b})"
proof (cases "enabled b")
  case False
  moreover have "s\<lparr>tr_bkpts := (tr_bkpts s)(p \<mapsto> b), tr_text := tr_text s\<rparr> = s" using b by (simp add: fun_upd_idem)
  moreover have "enabled_at s - {tb_address b} = enabled_at s" using enabled_at_iff[OF ok b] False by auto
  ultimately show ?thesis
    using bkpts_okD[OF ok b] ok by (intro exI[of _ b] exI[of _ "tr_text s"]) (simp add: tr_breakpoint_disable_def bkpts_ok_def)
next
  case True
  let ?a = "tb_address b" and ?c = "b\<lparr>tb_attr := tb_attr b AND NOT BKPT_F_ENABLE\<rparr>"
  let ?m = "overlay orig (enabled_at s - {?a})"
  note D = bkpts_okD[OF ok b]
  have tx: "tr_text s = overlay orig (enabled_at s)" using ok by (simp add: bkpts_ok_def)
  have "tr_text s ?a = Some 0xCC" using enabled_at_iff[OF ok b] True mapped_first[OF D(2)] tx by (simp add: overlay_def)
  from remove_breakpoint[OF D(3) this, of "ori_instrction b"] obtain v where
    "arch_remove_breakpoint (peek_text (tr_text s) ?a) (ori_instrction b) = Some v"
    "poke_text (tr_text s) ?a v = (tr_text s)(?a \<mapsto> ucast (ori_instrction b))" by auto
  moreover have "(tr_text s)(?a \<mapsto> ucast (ori_instrction b)) = ?m" unfolding tx by (rule overlay_remove) (rule D(5)[OF True])
  ultimately have "tr_breakpoint_disable p s = Some (s\<lparr>tr_bkpts := (tr_bkpts s)(p \<mapsto> ?c), tr_text := ?m\<rparr>)"
    using True D(1,4) by (simp add: tr_breakpoint_disable_def modify_def)
  moreover have "bkpts_ok orig (s\<lparr>tr_bkpts := (tr_bkpts s)(p \<mapsto> ?c), tr_text := ?m\<rparr>)"
    by (intro bkpts_ok_upd[OF ok b]) (simp_all add: enabled_at_upd[OF ok b])
  ultimately show ?thesis by (intro exI[of _ ?c] exI[of _ ?m]) simp
qed

section \<open>Sequences of patches\<close>

datatype patch = Enable addr | Disable addr

fun target :: "patch \<Rightarrow> addr" where
  "target (Enable p) = p"
| "target (Disable p) = p"

fun apply_patch :: "patch \<Rightarrow> tracer \<Rightarrow> tracer option" where
  "apply_patch (Enable p) s = tr_breakpoint_enable p s"
| "apply_patch (Disable p) s = tr_breakpoint_disable p s"

fun run_patches :: "patch list \<Rightarrow> tracer \<Rightarrow> tracer option" where
  "run_patches [] s = Some s"
| "run_patches (op # ops) s = Option.bind (apply_patch op s) (run_patches ops)"

text \<open>The specification of a patch: a set of addresses gains or loses the address of the breakpoint.\<close>

fun mark :: "(addr \<Rightarrow> addr) \<Rightarrow> patch \<Rightarrow> addr set \<Rightarrow> addr set" where
  "mark at (Enable p) A = insert (at p) A"
| "mark at (Disable p) A = A - {at p}"

definition address_at :: "tracer \<Rightarrow> addr \<Rightarrow> addr" where
  "address_at s p = tb_address (the (tr_bkpts s p))"

lemma apply_patch_ok:
  assumes "bkpts_ok orig s" "tr_bkpts s (target op) \<noteq> None"
  shows "\<exists>s'. apply_patch op s = Some s' \<and> bkpts_ok orig s' \<and> enabled_at s' = mark (address_at s) op (enabled_at s) \<and>
    address_at s' = address_at s \<and> dom (tr_bkpts s') = dom (tr_bkpts s)"
proof -
  obtain b where b: "tr_bkpts s (target op) = Some b" using assms(2) by blast
  show ?thesis
  proof (cases op)
    case (Enable p)
    then have p: "tr_bkpts s p = Some b" using b by simp
    obtain c m where c: "tr_breakpoint_enable p s = Some (s\<lparr>tr_bkpts := (tr_bkpts s)(p \<mapsto> c), tr_text := m\<rparr>)"
      "tb_address c = tb_address b" "bkpts_ok orig (s\<lparr>tr_bkpts := (tr_bkpts s)(p \<mapsto> c), tr_text := m\<rparr>)"
      "enabled c" using enable_ok[OF assms(1) p] by blast
    then show ?thesis
      using p Enable enabled_at_upd[OF assms(1) p c(2)] by (auto simp: address_at_def fun_eq_iff)
  next
    case (Disable p)
    then have p: "tr_bkpts s p = Some b" using b by simp
    obtain c m where c: "tr_breakpoint_disable p s = Some (s\<lparr>tr_bkpts := (tr_bkpts s)(p \<mapsto> c), tr_text := m\<rparr>)"
      "tb_address c = tb_address b" "bkpts_ok orig (s\<lparr>tr_bkpts := (tr_bkpts s)(p \<mapsto> c), tr_text := m\<rparr>)"
      "\<not> enabled c" using disable_ok[OF assms(1) p] by blast
    then show ?thesis
      using p Disable enabled_at_upd[OF assms(1) p c(2)] by (auto simp: address_at_def fun_eq_iff)
  qed
qed

lemma run_patches_ok:
  assumes "bkpts_ok orig s" "target ` set ops \<subseteq> dom (tr_bkpts s)"
  shows "\<exists>s'. run_patches ops s = Some s' \<and> bkpts_ok orig s' \<and> enabled_at s' = fold (mark (address_at s)) ops (enabled_at s)"
  using assms
proof (induction ops arbitrary: s)
  case (Cons op ops)
  then have "tr_bkpts s (target op) \<noteq> None" by auto
  from apply_patch_ok[OF Cons.prems(1) this] obtain t where t: "apply_patch op s = Some t" "bkpts_ok orig t"
    "enabled_at t = mark (address_at s) op (enabled_at s)" "address_at t = address_at s" "dom (tr_bkpts t) = dom (tr_bkpts s)"
    by blast
  have "target ` set ops \<subseteq> dom (tr_bkpts t)" using Cons.prems(2) t(5) by simp
  from Cons.IH[OF t(2) this] t(1,3,4) show ?case by auto
qed simp

section \<open>Search\<close>

text \<open>The lists of objects and of their breakpoints: \<^verbatim>\<open>bs x\<close> are the entries of the list of the object at entry \<^verbatim>\<open>x\<close>.\<close>

definition chains_ok :: "tracer \<Rightarrow> addr list \<Rightarrow> (addr \<Rightarrow> addr list) \<Rightarrow> bool" where
  "chains_ok s xs bs \<longleftrightarrow> ring (tr_lists s) (tr_objects s) xs \<and>
     (\<forall>x \<in> set xs. tr_object_of x \<noteq> NULL \<and> tr_objs s (tr_object_of x) \<noteq> None \<and>
        ring (tr_lists s) (tr_breakpoint_chain (tr_object_of x)) (bs x) \<and>
        (\<forall>y \<in> set (bs x). bkpt_of y \<noteq> NULL \<and> tr_bkpts s (bkpt_of y) \<noteq> None))"

definition covers :: "tracer \<Rightarrow> addr \<Rightarrow> addr \<Rightarrow> bool" where
  "covers s pc x \<longleftrightarrow> (let ob = the (tr_objs s (tr_object_of x)) in tr_text_start ob \<le> pc \<and> pc \<le> tr_text_end ob)"

lemma find_in_object_ok:
  assumes "ring (tr_lists s) (tr_breakpoint_chain obj) ys" "\<forall>y \<in> set ys. bkpt_of y \<noteq> NULL \<and> tr_bkpts s (bkpt_of y) \<noteq> None"
  shows "find_in_object pc obj s = Some (List.find (\<lambda>y. address_at s (bkpt_of y) = pc) ys)"
  unfolding find_in_object_def using assms by (intro ringlist.search_law) (auto simp: load_def address_at_def)

lemma find_in_objects_ok:
  assumes "chains_ok s (as @ xs) bs"
  shows "find_in_objects pc s (hd (xs @ [tr_objects s])) =
    Some (case List.find (\<lambda>y. address_at s (bkpt_of y) = pc) (concat (map bs (filter (covers s pc) xs))) of None \<Rightarrow> NULL | Some y \<Rightarrow> bkpt_of y)"
  using assms
proof (induction xs arbitrary: as)
  case Nil
  then show ?case by (simp add: find_in_objects.simps)
next
  case (Cons x xs)
  let ?found = "List.find (\<lambda>y. address_at s (bkpt_of y) = pc)"
  have ring: "ring (tr_lists s) (tr_objects s) (as @ x # xs)" using Cons.prems by (simp add: chains_ok_def)
  have nxt: "nexts (tr_lists s) x = Some (hd (xs @ [tr_objects s]))" using ring_next_mid[OF ring] .
  have x: "x \<noteq> tr_objects s" using ring_distinct[OF ring] by auto
  obtain ob where ob: "load (tr_objs s) (tr_object_of x) = Some ob" "tr_objs s (tr_object_of x) = Some ob"
    using Cons.prems by (auto simp: chains_ok_def load_def)
  have inner: "find_in_object pc (tr_object_of x) s = Some (?found (bs x))"
    using Cons.prems by (intro find_in_object_ok) (auto simp: chains_ok_def)
  have IH: "find_in_objects pc s (hd (xs @ [tr_objects s])) =
    Some (case ?found (concat (map bs (filter (covers s pc) xs))) of None \<Rightarrow> NULL | Some y \<Rightarrow> bkpt_of y)"
    using Cons.IH[of "as @ [x]"] Cons.prems by simp
  have "find_in_objects pc s x = Some (case ?found (concat (map bs (filter (covers s pc) (x # xs)))) of None \<Rightarrow> NULL | Some y \<Rightarrow> bkpt_of y)"
    using x ob inner nxt IH
    by (subst find_in_objects.simps) (auto simp: covers_def get_next_nexts find_append not_less not_le split: option.splits)
  then show ?case by simp
qed

section \<open>Creation\<close>

definition bkpt_fresh_at :: "tracer \<Rightarrow> addr \<Rightarrow> bool" where
  "bkpt_fresh_at s bp \<longleftrightarrow> bp \<noteq> NULL \<and> bkp_chain bp \<noteq> NULL \<and> tr_bkpts s bp = None \<and> tr_lists s (bkp_chain bp) = None"

text \<open>\<^verbatim>\<open>breakpoint_create\<close> patches address 0, the address of a breakpoint whose fields are still cleared.\<close>

lemma create_ok:
  assumes ob: "tr_objs s obj = Some ob" "obj \<noteq> NULL" and off: "offset \<noteq> 0" "tr_text_start ob + offset \<le> tr_text_end ob"
    and r: "ring (tr_lists s) (tr_breakpoint_chain obj) ys" and bp: "bkpt_fresh_at s bp"
  shows "\<exists>h. tr_breakpoint_create bp obj offset attr s = Some (bp, s\<lparr>
      tr_bkpts := (tr_bkpts s)(bp \<mapsto> \<lparr>tb_address = tr_text_start ob + offset,
        ori_instrction = if attr AND BKPT_F_ENABLE \<noteq> 0 then peek_text (tr_text s) 0 else 0, tb_attr = attr\<rparr>),
      tr_lists := h,
      tr_text := if attr AND BKPT_F_ENABLE \<noteq> 0 then poke_text (tr_text s) 0 (arch_make_breakpoint (peek_text (tr_text s) 0)) else tr_text s\<rparr>) \<and>
    ring h (tr_breakpoint_chain obj) (ys @ [bkp_chain bp])"
proof -
  let ?h = "(tr_lists s)(bkp_chain bp \<mapsto> null_links)"
  have out: "bkp_chain bp \<notin> footprint (tr_breakpoint_chain obj) ys" using ring_outside[OF r] bp by (auto simp: bkpt_fresh_at_def)
  then have "ring ?h (tr_breakpoint_chain obj) ys" by (intro ring_alloc[OF r]) auto
  moreover have "live ?h (bkp_chain bp)" using bp by (simp add: bkpt_fresh_at_def live_def)
  ultimately obtain h where "list_add_tail (bkp_chain bp) (tr_breakpoint_chain obj) ?h = Some h" "ring h (tr_breakpoint_chain obj) (ys @ [bkp_chain bp])"
    using ringlist.enqueue_law[OF _ _ out] by blast
  moreover have "bp \<noteq> NULL" using bp by (simp add: bkpt_fresh_at_def)
  ultimately show ?thesis
    using ob off
    by (auto simp: tr_breakpoint_create_def tr_breakpoint_enable_def load_def modify_def not_less intro!: exI[of _ h])
qed

lemma delete_ok:
  assumes b: "tr_bkpts s bp = Some b" "bp \<noteq> NULL" and mapped: "word_mapped (tr_text s) (tb_address b)"
    and cc: "enabled b \<Longrightarrow> tr_text s (tb_address b) = Some 0xCC"
    and r: "ring (tr_lists s) (tr_breakpoint_chain obj) (as @ bkp_chain bp # cs)"
  shows "\<exists>s'. tr_breakpoint_delete bp s = Some s' \<and> tr_bkpts s' = (tr_bkpts s)(bp := None) \<and>
    tr_text s' = (if enabled b then (tr_text s)(tb_address b \<mapsto> ucast (ori_instrction b)) else tr_text s) \<and>
    ring (tr_lists s') (tr_breakpoint_chain obj) (as @ cs)"
proof -
  obtain h where h: "list_del_poison (bkp_chain bp) (tr_lists s) = Some h" "ring h (tr_breakpoint_chain obj) (as @ cs)"
    using list_del_poison_ring[OF r] by blast
  have "bkp_chain bp \<notin> footprint (tr_breakpoint_chain obj) (as @ cs)" using ring_distinct[OF r] by auto
  then have "ring (h(bkp_chain bp := None)) (tr_breakpoint_chain obj) (as @ cs)" by (intro ring_alloc[OF h(2)]) auto
  moreover have "\<exists>v. arch_remove_breakpoint (peek_text (tr_text s) (tb_address b)) (ori_instrction b) = Some v \<and>
    poke_text (tr_text s) (tb_address b) v = (tr_text s)(tb_address b \<mapsto> ucast (ori_instrction b))" if "enabled b"
    using remove_breakpoint[OF mapped cc[OF that], of "ori_instrction b"] by auto
  ultimately show ?thesis
    using b h(1) by (auto simp: tr_breakpoint_delete_def tr_breakpoint_disable_def load_def modify_def)
qed

text \<open>Deleting a breakpoint that counts as enabled while its address is not marked.\<close>

lemma delete_unmarked:
  assumes "tr_bkpts s bp = Some b" "enabled b" "tr_text s (tb_address b) \<noteq> Some 0xCC"
  shows "tr_breakpoint_delete bp s = None"
proof -
  have "arch_remove_breakpoint (peek_text (tr_text s) (tb_address b)) v = None" for v
  proof (cases "word_mapped (tr_text s) (tb_address b)")
    case False
    then show ?thesis by (simp add: peek_text_def arch_remove_breakpoint_def)
  qed (use remove_breakpoint_fails assms(3) in blast)
  then show ?thesis using assms(1,2) by (simp add: tr_breakpoint_delete_def tr_breakpoint_disable_def load_def)
qed

section \<open>Properties\<close>

text \<open>
  A traced process: one object with 32 bytes of text at 0x400000, a stopped thread behind the second of two breakpoints on
  neighbouring addresses, and a byte at 0x400010 as its only content that matters.
\<close>

definition tracee_text :: text_mem where
  "tracee_text = (\<lambda>x. if x - 0x400000 < 0x20 then Some 0x90 else None)"

definition sample_tracer :: tracer where
  "sample_tracer = \<lparr>tr_lists = [0x800 \<mapsto> \<lparr>lh_next = 0x5028, lh_prev = 0x5028\<rparr>, 0x5028 \<mapsto> \<lparr>lh_next = 0x800, lh_prev = 0x800\<rparr>,
       0x5018 \<mapsto> \<lparr>lh_next = 0x6010, lh_prev = 0x7010\<rparr>, 0x6010 \<mapsto> \<lparr>lh_next = 0x7010, lh_prev = 0x5018\<rparr>,
       0x7010 \<mapsto> \<lparr>lh_next = 0x5018, lh_prev = 0x6010\<rparr>],
     tr_objs = [0x5000 \<mapsto> \<lparr>tr_file_name = Some ''/bin/app'', tr_text_start = 0x400000, tr_text_end = 0x400020\<rparr>], tr_objects = 0x800,
     tr_bkpts = [0x6000 \<mapsto> \<lparr>tb_address = 0x400010, ori_instrction = 0, tb_attr = 0\<rparr>,
       0x7000 \<mapsto> \<lparr>tb_address = 0x400011, ori_instrction = 0, tb_attr = 0\<rparr>],
     tr_thrs = [0x1000 \<mapsto> \<lparr>th_pid = 100, th_code = 0, th_status = 0\<rparr>],
     tr_threads = 0x900, tr_text = tracee_text, tr_regs = [100 \<mapsto> 0x400012]\<rparr>"

lemma tracee_text_mapped: "word_mapped tracee_text 0x400010" "word_mapped tracee_text 0x400011" "word_mapped tracee_text 0x400018"
  by (simp_all add: word_mapped_def tracee_text_def upt_rec)

lemma sample_fields: "tr_bkpts sample_tracer 0x7000 = Some \<lparr>tb_address = 0x400011, ori_instrction = 0, tb_attr = 0\<rparr>"
  "tr_thrs sample_tracer 0x1000 = Some \<lparr>th_pid = 100, th_code = 0, th_status = 0\<rparr>" "tr_regs sample_tracer = [100 \<mapsto> 0x400012]"
  "tracee_text 0x400011 = Some 0x90"
  by (simp_all add: sample_tracer_def tracee_text_def)

lemma sample_enabled_at: "enabled_at sample_tracer = {}"
  by (auto simp: enabled_at_def sample_tracer_def split: if_splits)

lemma sample_bkpts_ok: "bkpts_ok tracee_text sample_tracer"
proof -
  have "tr_text sample_tracer = overlay tracee_text (enabled_at sample_tracer)"
    unfolding sample_enabled_at by (simp add: sample_tracer_def overlay_def)
  then show ?thesis unfolding bkpts_ok_def by (auto simp: sample_tracer_def tracee_text_mapped split: if_splits)
qed

lemma sample_chains: "chains_ok sample_tracer [0x5028] (\<lambda>_. [0x6010, 0x7010])"
  by (simp add: chains_ok_def sample_tracer_def ring_def nexts_def prevs_def load_def tr_object_of_def bkpt_of_def tr_breakpoint_chain_def)

text \<open>
  C23: breakpoints of the tracer.  Any sequence of enabling and disabling breakpoints on different addresses returns, and
  leaves the text as it was without breakpoints but for an \<^verbatim>\<open>int3\<close> at exactly the addresses that the sequence leaves
  marked; although each operation writes eight bytes, breakpoints on neighbouring addresses do not disturb each other.
\<close>

theorem tracer_patches_refine_marks:
  assumes "bkpts_ok orig s" "target ` set ops \<subseteq> dom (tr_bkpts s)"
  shows "\<exists>s'. run_patches ops s = Some s' \<and> tr_text s' = overlay orig (fold (mark (address_at s)) ops (enabled_at s)) \<and> bkpts_ok orig s'"
proof -
  obtain s' where s': "run_patches ops s = Some s'" "bkpts_ok orig s'" "enabled_at s' = fold (mark (address_at s)) ops (enabled_at s)"
    using run_patches_ok[OF assms] by blast
  moreover have "tr_text s' = overlay orig (enabled_at s')" using s'(2) by (simp add: bkpts_ok_def)
  ultimately show ?thesis by auto
qed

text \<open>Both are enabled, and the first one disabled again.\<close>

theorem tracer_patches_refine_marks_witness:
  "\<exists>s'. run_patches [Enable 0x6000, Enable 0x7000, Disable 0x6000] sample_tracer = Some s' \<and> tr_text s' = overlay tracee_text {0x400011} \<and>
    bkpts_ok tracee_text s'"
proof -
  have "target ` set [Enable 0x6000, Enable 0x7000, Disable 0x6000] \<subseteq> dom (tr_bkpts sample_tracer)" by (simp add: sample_tracer_def)
  moreover have "fold (mark (address_at sample_tracer)) [Enable 0x6000, Enable 0x7000, Disable 0x6000] {} = {0x400011}"
    by (auto simp: sample_tracer_def address_at_def)
  ultimately show ?thesis
    using tracer_patches_refine_marks[OF sample_bkpts_ok] unfolding sample_enabled_at[symmetric] by metis
qed

text \<open>
  C28: two breakpoints of the tracer on one address.  When both are enabled, disabling the first one restores the text, and
  disabling the second one then fails its assertion; in the opposite order both succeed.  Nothing in \<^verbatim>\<open>breakpoint_create\<close> keeps a second
  breakpoint off an address.
\<close>

theorem tracer_same_address_aborts:
  assumes "tr_bkpts s p = Some b" "tr_bkpts s q = Some c" "p \<noteq> q" "p \<noteq> NULL" "q \<noteq> NULL" "tb_address c = tb_address b"
    and "\<not> enabled b" "\<not> enabled c" "word_mapped (tr_text s) (tb_address b)" "tr_text s (tb_address b) \<noteq> Some 0xCC"
  shows "run_patches [Enable p, Enable q, Disable p, Disable q] s = None \<and>
    (\<exists>s'. run_patches [Enable p, Enable q, Disable q, Disable p] s = Some s' \<and> tr_text s' = tr_text s)"
proof -
  let ?a = "tb_address b" and ?m = "tr_text s"
  define v where "v = peek_text ?m ?a"
  define w where "w = peek_text (?m(?a \<mapsto> 0xCC)) ?a"
  let ?b = "b\<lparr>ori_instrction := v, tb_attr := tb_attr b OR BKPT_F_ENABLE\<rparr>"
  let ?c = "c\<lparr>ori_instrction := w, tb_attr := tb_attr c OR BKPT_F_ENABLE\<rparr>"
  let ?cc = "?m(?a \<mapsto> 0xCC)"
  have mapped: "word_mapped ?cc ?a" using word_mapped_upd[OF assms(9)] .
  have v: "?m ?a = Some (ucast v)" unfolding v_def by (rule peek_low[OF assms(9)])
  have w: "ucast w = (0xCC :: u8)" using peek_low[OF mapped] unfolding w_def by simp
  have patch: "poke_text ?m ?a (arch_make_breakpoint v) = ?cc" "poke_text ?cc ?a (arch_make_breakpoint w) = ?cc"
    using set_breakpoint[OF assms(9)] set_breakpoint[OF mapped] unfolding v_def w_def by simp_all
  obtain v' where v': "arch_remove_breakpoint w v = Some v'" "poke_text ?cc ?a v' = ?m"
    using remove_breakpoint[OF mapped, of v] v unfolding w_def by (auto simp: fun_upd_idem_iff)
  obtain w' where w': "arch_remove_breakpoint w w = Some w'" "poke_text ?cc ?a w' = ?cc"
    using remove_breakpoint[OF mapped, of w] w unfolding w_def by auto
  have fails: "arch_remove_breakpoint v w = None" using remove_breakpoint_fails[OF assms(9,10)] unfolding v_def .
  have two: "run_patches (Enable p # Enable q # ops) s =
    run_patches ops (s\<lparr>tr_bkpts := (tr_bkpts s)(p \<mapsto> ?b, q \<mapsto> ?c), tr_text := ?cc\<rparr>)" for ops
    using assms(1-8) patch
    by (simp add: tr_breakpoint_enable_def load_def modify_def v_def[symmetric] w_def[symmetric])
  have one: "run_patches [Disable p, Disable q] (s\<lparr>tr_bkpts := (tr_bkpts s)(p \<mapsto> ?b, q \<mapsto> ?c), tr_text := ?cc\<rparr>) = None"
    using assms(3-6) v' fails by (simp add: tr_breakpoint_disable_def load_def modify_def w_def[symmetric] v_def[symmetric])
  have "\<exists>s'. run_patches [Disable q, Disable p] (s\<lparr>tr_bkpts := (tr_bkpts s)(p \<mapsto> ?b, q \<mapsto> ?c), tr_text := ?cc\<rparr>) = Some s' \<and> tr_text s' = ?m"
    using assms(3-6) v' w' by (simp add: tr_breakpoint_disable_def load_def modify_def w_def[symmetric])
  then show ?thesis using two one by simp
qed

theorem tracer_same_address_aborts_witness:
  "run_patches [Enable 0x6000, Enable 0x7000, Disable 0x6000, Disable 0x7000]
     (sample_tracer\<lparr>tr_bkpts := [0x6000 \<mapsto> \<lparr>tb_address = 0x400010, ori_instrction = 0, tb_attr = 0\<rparr>, 0x7000 \<mapsto> \<lparr>tb_address = 0x400010, ori_instrction = 0, tb_attr = 0\<rparr>]\<rparr>) = None"
  using tracer_same_address_aborts[of "sample_tracer\<lparr>tr_bkpts := [0x6000 \<mapsto> \<lparr>tb_address = 0x400010, ori_instrction = 0, tb_attr = 0\<rparr>, 0x7000 \<mapsto> \<lparr>tb_address = 0x400010, ori_instrction = 0, tb_attr = 0\<rparr>]\<rparr>"
      "0x6000" "\<lparr>tb_address = 0x400010, ori_instrction = 0, tb_attr = 0\<rparr>" "0x7000" "\<lparr>tb_address = 0x400010, ori_instrction = 0, tb_attr = 0\<rparr>"]
    tracee_text_mapped by (simp add: sample_tracer_def) (simp add: tracee_text_def)

text \<open>
  C24: stepping over a breakpoint of the tracer.  \<^verbatim>\<open>exec\<close> is the effect of one instruction on the registers, given the text.  The thread is set
  back to the address of the breakpoint and makes its step on a text in which this breakpoint is not marked, and afterwards the
  breakpoint is marked again; the other breakpoints stay as they are.
\<close>

theorem tracer_resume_steps_over:
  assumes "bkpts_ok orig s" "tr_bkpts s bp = Some b" "tr_thrs s t = Some th" "t \<noteq> NULL" "tr_regs s (th_pid th) = Some pc"
  shows "\<exists>s'. tr_breakpoint_resume True (\<lambda>t s. Some (0, s\<lparr>tr_regs := exec (tr_text s) (tr_regs s)\<rparr>)) bp t s = Some (0, s') \<and>
    tr_regs s' = exec (overlay orig (enabled_at s - {tb_address b})) ((tr_regs s)(th_pid th \<mapsto> tb_address b)) \<and>
    tr_text s' = overlay orig (insert (tb_address b) (enabled_at s)) \<and> bkpts_ok orig s'"
proof -
  let ?s = "s\<lparr>tr_regs := (tr_regs s)(th_pid th \<mapsto> tb_address b)\<rparr>"
  have "bkpts_ok orig ?s" "tr_bkpts ?s bp = Some b" using assms(1,2) by simp_all
  from disable_ok[OF this] obtain c m where c: "tr_breakpoint_disable bp ?s = Some (?s\<lparr>tr_bkpts := (tr_bkpts s)(bp \<mapsto> c), tr_text := m\<rparr>)"
    "tb_address c = tb_address b" "bkpts_ok orig (?s\<lparr>tr_bkpts := (tr_bkpts s)(bp \<mapsto> c), tr_text := m\<rparr>)"
    "m = overlay orig (enabled_at s - {tb_address b})" "\<not> enabled c"
    unfolding bkpts_ok_regs by auto
  let ?t = "?s\<lparr>tr_bkpts := (tr_bkpts s)(bp \<mapsto> c), tr_text := m\<rparr>"
  let ?u = "?t\<lparr>tr_regs := exec m (tr_regs ?t)\<rparr>"
  have "enabled_at ?t = enabled_at (s\<lparr>tr_bkpts := (tr_bkpts s)(bp \<mapsto> c)\<rparr>)" by (simp add: enabled_at_def)
  then have "enabled_at ?t = enabled_at s - {tb_address b}" using enabled_at_upd[OF assms(1,2) c(2)] c(5) by simp
  then have u: "bkpts_ok orig ?u" "tr_bkpts ?u bp = Some c" "enabled_at ?u = enabled_at s - {tb_address b}"
    using c(3) unfolding bkpts_ok_regs by simp_all
  from enable_ok[OF this(1,2)] obtain d m' where d: "tr_breakpoint_enable bp ?u = Some (?u\<lparr>tr_bkpts := (tr_bkpts ?u)(bp \<mapsto> d), tr_text := m'\<rparr>)"
    "bkpts_ok orig (?u\<lparr>tr_bkpts := (tr_bkpts ?u)(bp \<mapsto> d), tr_text := m'\<rparr>)"
    "m' = overlay orig (insert (tb_address c) (enabled_at ?u))" by blast
  have "m' = overlay orig (insert (tb_address b) (enabled_at s))" unfolding d(3) u(3) c(2) by simp
  moreover have "tr_breakpoint_resume True (\<lambda>t s. Some (0, s\<lparr>tr_regs := exec (tr_text s) (tr_regs s)\<rparr>)) bp t s =
      Some (0, ?u\<lparr>tr_bkpts := (tr_bkpts ?u)(bp \<mapsto> d), tr_text := m'\<rparr>)"
    using assms(3-5) bkpts_okD[OF assms(1,2)] c(1) d(1)
    by (simp add: tr_breakpoint_resume_def arch_set_thread_pc_def load_def)
  ultimately show ?thesis using d(2) c(4) by (intro exI[of _ "?u\<lparr>tr_bkpts := (tr_bkpts ?u)(bp \<mapsto> d), tr_text := m'\<rparr>"]) simp
qed

theorem tracer_resume_steps_over_witness:
  "\<exists>s'. tr_breakpoint_resume True (\<lambda>t s. Some (0, s\<lparr>tr_regs := (\<lambda>m r. if m 0x400011 = Some 0x90 then r(100 \<mapsto> 0x400012) else r) (tr_text s) (tr_regs s)\<rparr>))
      0x7000 0x1000 sample_tracer = Some (0, s') \<and>
    tr_regs s' = [100 \<mapsto> 0x400012] \<and> tr_text s' = overlay tracee_text {0x400011} \<and> bkpts_ok tracee_text s'"
  using tracer_resume_steps_over[OF sample_bkpts_ok, of "0x7000" "\<lparr>tb_address = 0x400011, ori_instrction = 0, tb_attr = 0\<rparr>" "0x1000"
      "\<lparr>th_pid = 100, th_code = 0, th_status = 0\<rparr>" "0x400012" "\<lambda>m r. if m 0x400011 = Some 0x90 then r(100 \<mapsto> 0x400012) else r"]
  unfolding sample_enabled_at by (simp add: sample_fields overlay_empty)

text \<open>
  \<^verbatim>\<open>breakpoint_find\<close> of the tracer.  The result is the first breakpoint at the address before the program counter of the
  thread, in the order of the objects whose range contains this address, their ends included, and of their breakpoints; it
  is the null pointer when there is none or when the registers cannot be read.
\<close>

theorem tracer_breakpoint_find_first:
  assumes "chains_ok s xs bs" "tr_thrs s t = Some th" "t \<noteq> NULL"
  shows "tr_breakpoint_find t s = Some (case tr_regs s (th_pid th) of
      None \<Rightarrow> NULL
    | Some pc \<Rightarrow>
        if pc = 0 then NULL
        else (case List.find (\<lambda>y. address_at s (bkpt_of y) = pc - 1) (concat (map bs (filter (covers s (pc - 1)) xs))) of
            None \<Rightarrow> NULL
          | Some y \<Rightarrow> bkpt_of y))"
proof -
  have "nexts (tr_lists s) (tr_objects s) = Some (hd (xs @ [tr_objects s]))" using assms(1) by (intro ring_nextsI) (simp add: chains_ok_def)
  moreover have "arch_get_thread_pc t s = Some (case tr_regs s (th_pid th) of None \<Rightarrow> 0 | Some rip \<Rightarrow> rip)"
    using assms(2,3) by (simp add: arch_get_thread_pc_def load_def)
  ultimately show ?thesis
    using find_in_objects_ok[of s "[]" xs bs] assms(1)
    by (auto simp: tr_breakpoint_find_def arch_get_breakpoint_pc_def get_next_nexts split: option.splits)
qed

theorem tracer_breakpoint_find_first_witness: "tr_breakpoint_find 0x1000 sample_tracer = Some 0x7000"
  using tracer_breakpoint_find_first[OF sample_chains, of "0x1000" "\<lparr>th_pid = 100, th_code = 0, th_status = 0\<rparr>"]
  by (simp add: sample_tracer_def address_at_def bkpt_of_def covers_def tr_object_of_def)

text \<open>
  C26: a breakpoint of the tracer that is created disabled and then enabled puts an \<^verbatim>\<open>int3\<close> at its address, and deleting it
  restores the text, the breakpoints and the list of its object.
\<close>

theorem tracer_create_delete_round_trip:
  assumes "tr_objs s obj = Some ob" "obj \<noteq> NULL" "offset \<noteq> 0" "tr_text_start ob + offset \<le> tr_text_end ob"
    and "ring (tr_lists s) (tr_breakpoint_chain obj) ys" "bkpt_fresh_at s bp" "attr AND BKPT_F_ENABLE = 0"
    and "word_mapped (tr_text s) (tr_text_start ob + offset)"
  shows "\<exists>s1 s2 s3. tr_breakpoint_create bp obj offset attr s = Some (bp, s1) \<and>
    ring (tr_lists s1) (tr_breakpoint_chain obj) (ys @ [bkp_chain bp]) \<and> tr_text s1 = tr_text s \<and>
    tr_breakpoint_enable bp s1 = Some s2 \<and> tr_text s2 = (tr_text s)(tr_text_start ob + offset \<mapsto> 0xCC) \<and>
    tr_breakpoint_delete bp s2 = Some s3 \<and> tr_text s3 = tr_text s \<and> tr_bkpts s3 = tr_bkpts s \<and>
    ring (tr_lists s3) (tr_breakpoint_chain obj) ys"
proof -
  let ?a = "tr_text_start ob + offset"
  let ?v = "peek_text (tr_text s) ?a"
  let ?b = "\<lparr>tb_address = ?a, ori_instrction = 0, tb_attr = attr\<rparr>"
  let ?c = "\<lparr>tb_address = ?a, ori_instrction = ?v, tb_attr = attr OR BKPT_F_ENABLE\<rparr>"
  obtain h where h: "tr_breakpoint_create bp obj offset attr s =
      Some (bp, s\<lparr>tr_bkpts := (tr_bkpts s)(bp \<mapsto> ?b), tr_lists := h, tr_text := tr_text s\<rparr>)" (is "_ = Some (bp, ?s1)")
    "ring h (tr_breakpoint_chain obj) (ys @ [bkp_chain bp])"
    using create_ok[OF assms(1-6), of attr] assms(7) by auto
  let ?s2 = "?s1\<lparr>tr_bkpts := (tr_bkpts s)(bp \<mapsto> ?c), tr_text := (tr_text s)(?a \<mapsto> 0xCC)\<rparr>"
  have bp: "bp \<noteq> NULL" "tr_bkpts s bp = None" using assms(6) by (auto simp: bkpt_fresh_at_def)
  have e: "tr_breakpoint_enable bp ?s1 = Some ?s2"
    using bp assms(7) set_breakpoint[OF assms(8)] by (simp add: tr_breakpoint_enable_def load_def modify_def)
  have v: "tr_text s ?a = Some (ucast ?v)" using peek_low[OF assms(8)] .
  have "\<exists>s'. tr_breakpoint_delete bp ?s2 = Some s' \<and> tr_bkpts s' = (tr_bkpts ?s2)(bp := None) \<and>
    tr_text s' = (if enabled ?c then (tr_text ?s2)(tb_address ?c \<mapsto> ucast (ori_instrction ?c)) else tr_text ?s2) \<and>
    ring (tr_lists s') (tr_breakpoint_chain obj) (ys @ [])"
    by (rule delete_ok) (use bp h(2) word_mapped_upd[OF assms(8)] in simp_all)
  then obtain s3 where "tr_breakpoint_delete bp ?s2 = Some s3" "tr_bkpts s3 = tr_bkpts s" "tr_text s3 = tr_text s"
    "ring (tr_lists s3) (tr_breakpoint_chain obj) ys"
    using bp(2) v by (auto simp: fun_upd_idem)
  then show ?thesis using h e by (intro exI[of _ ?s1] exI[of _ ?s2] exI[of _ s3]) simp
qed

lemma sample_object: "tr_objs sample_tracer 0x5000 = Some \<lparr>tr_file_name = Some ''/bin/app'', tr_text_start = 0x400000, tr_text_end = 0x400020\<rparr>"
  "ring (tr_lists sample_tracer) (tr_breakpoint_chain 0x5000) [0x6010, 0x7010]" "bkpt_fresh_at sample_tracer 0x8000"
  "tr_text sample_tracer = tracee_text" "\<not> word_mapped tracee_text 0" "tracee_text 0x400018 = Some 0x90"
proof -
  have "tracee_text 0 = None" by (simp add: tracee_text_def)
  then show "\<not> word_mapped tracee_text 0" using mapped_first by blast
qed (simp_all add: sample_tracer_def tr_breakpoint_chain_def bkpt_fresh_at_def bkp_chain_def ring_def nexts_def prevs_def load_def tracee_text_def)

theorem tracer_create_delete_round_trip_witness:
  "\<exists>s1 s2 s3. tr_breakpoint_create 0x8000 0x5000 0x18 BKPT_F_ENTER_CTX sample_tracer = Some (0x8000, s1) \<and>
    ring (tr_lists s1) (tr_breakpoint_chain 0x5000) ([0x6010, 0x7010] @ [bkp_chain 0x8000]) \<and> tr_text s1 = tracee_text \<and>
    tr_breakpoint_enable 0x8000 s1 = Some s2 \<and> tr_text s2 = tracee_text(0x400018 \<mapsto> 0xCC) \<and>
    tr_breakpoint_delete 0x8000 s2 = Some s3 \<and> tr_text s3 = tracee_text \<and> tr_bkpts s3 = tr_bkpts sample_tracer \<and>
    ring (tr_lists s3) (tr_breakpoint_chain 0x5000) [0x6010, 0x7010]"
  using tracer_create_delete_round_trip[OF sample_object(1) _ _ _ sample_object(2,3), of "0x18" BKPT_F_ENTER_CTX] tracee_text_mapped(3)
  by (simp add: sample_object(4) BKPT_F_ENTER_CTX_def BKPT_F_ENABLE_def)

text \<open>
  C27: creating an enabled breakpoint in the tracer.  \<^verbatim>\<open>breakpoint_create\<close> enables the breakpoint before it sets its address: the
  breakpoint instruction is written to address 0, and what was read there, -1 when nothing is mapped, is kept as the original
  instruction; nothing is written where the breakpoint should be.  The breakpoint is in the list of the object with its address, and it
  counts as enabled: enabling it does nothing, and deleting it fails the assertion of \<^verbatim>\<open>arch_remove_breakpoint\<close>.
\<close>

theorem tracer_create_enabled_patches_zero:
  assumes "tr_objs s obj = Some ob" "obj \<noteq> NULL" "offset \<noteq> 0" "tr_text_start ob + offset \<le> tr_text_end ob"
    and "ring (tr_lists s) (tr_breakpoint_chain obj) ys" "bkpt_fresh_at s bp" "attr AND BKPT_F_ENABLE \<noteq> 0"
    and "tr_text_start ob + offset \<noteq> 0" "tr_text s (tr_text_start ob + offset) \<noteq> Some 0xCC"
  shows "\<exists>s'. tr_breakpoint_create bp obj offset attr s = Some (bp, s') \<and>
    tr_text s' = (if word_mapped (tr_text s) 0 then (tr_text s)(0 \<mapsto> 0xCC) else tr_text s) \<and>
    tr_bkpts s' = (tr_bkpts s)(bp \<mapsto> \<lparr>tb_address = tr_text_start ob + offset,
      ori_instrction = if word_mapped (tr_text s) 0 then peek_text (tr_text s) 0 else -1, tb_attr = attr\<rparr>) \<and>
    ring (tr_lists s') (tr_breakpoint_chain obj) (ys @ [bkp_chain bp]) \<and>
    tr_breakpoint_enable bp s' = Some s' \<and> tr_breakpoint_delete bp s' = None"
proof -
  let ?a = "tr_text_start ob + offset"
  let ?b = "\<lparr>tb_address = ?a, ori_instrction = peek_text (tr_text s) 0, tb_attr = attr\<rparr>"
  let ?t = "if word_mapped (tr_text s) 0 then (tr_text s)(0 \<mapsto> 0xCC) else tr_text s"
  have t: "poke_text (tr_text s) 0 (arch_make_breakpoint (peek_text (tr_text s) 0)) = ?t"
    using set_breakpoint[of "tr_text s" 0] by (simp add: poke_text_def)
  have p: "peek_text (tr_text s) 0 = (if word_mapped (tr_text s) 0 then peek_text (tr_text s) 0 else -1)" by (simp add: peek_text_def)
  obtain h where h: "tr_breakpoint_create bp obj offset attr s =
      Some (bp, s\<lparr>tr_bkpts := (tr_bkpts s)(bp \<mapsto> ?b), tr_lists := h, tr_text := ?t\<rparr>)" (is "_ = Some (bp, ?s)")
    "ring h (tr_breakpoint_chain obj) (ys @ [bkp_chain bp])"
    using create_ok[OF assms(1-6), of attr] assms(7) unfolding t by auto
  have bp: "bp \<noteq> NULL" using assms(6) by (simp add: bkpt_fresh_at_def)
  have "tr_breakpoint_delete bp ?s = None" by (rule delete_unmarked[where b = ?b]) (use assms(7-9) in simp_all)
  moreover have "tr_breakpoint_enable bp ?s = Some ?s" using bp assms(7) by (simp add: tr_breakpoint_enable_def load_def)
  ultimately show ?thesis using h p by (intro exI[of _ ?s]) auto
qed

text \<open>A process that has nothing at address 0, and one that has nothing but zeros there.\<close>

theorem tracer_create_enabled_patches_zero_witness:
  "(\<exists>s'. tr_breakpoint_create 0x8000 0x5000 0x18 (BKPT_F_ENTER_CTX OR BKPT_F_ENABLE) sample_tracer = Some (0x8000, s') \<and>
      tr_text s' = tracee_text \<and> tr_bkpts s' 0x8000 = Some \<lparr>tb_address = 0x400018, ori_instrction = -1, tb_attr = 3\<rparr> \<and>
      tr_breakpoint_enable 0x8000 s' = Some s' \<and> tr_breakpoint_delete 0x8000 s' = None) \<and>
   (\<exists>s'. tr_breakpoint_create 0x8000 0x5000 0x18 (BKPT_F_ENTER_CTX OR BKPT_F_ENABLE) (sample_tracer\<lparr>tr_text := \<lambda>_. Some 0\<rparr>) = Some (0x8000, s') \<and>
      tr_text s' = (\<lambda>_. Some 0)(0 \<mapsto> 0xCC) \<and> tr_bkpts s' 0x8000 = Some \<lparr>tb_address = 0x400018, ori_instrction = 0, tb_attr = 3\<rparr> \<and>
      tr_breakpoint_enable 0x8000 s' = Some s' \<and> tr_breakpoint_delete 0x8000 s' = None)"
proof
  let ?s = "sample_tracer\<lparr>tr_text := \<lambda>_. Some 0\<rparr>" and ?attr = "BKPT_F_ENTER_CTX OR BKPT_F_ENABLE"
  have attr: "?attr = 3" "?attr AND BKPT_F_ENABLE \<noteq> 0" by (simp_all add: BKPT_F_ENTER_CTX_def BKPT_F_ENABLE_def)
  show "\<exists>s'. tr_breakpoint_create 0x8000 0x5000 0x18 ?attr sample_tracer = Some (0x8000, s') \<and>
      tr_text s' = tracee_text \<and> tr_bkpts s' 0x8000 = Some \<lparr>tb_address = 0x400018, ori_instrction = -1, tb_attr = 3\<rparr> \<and>
      tr_breakpoint_enable 0x8000 s' = Some s' \<and> tr_breakpoint_delete 0x8000 s' = None"
    using tracer_create_enabled_patches_zero[OF sample_object(1) _ _ _ sample_object(2,3) attr(2), of "0x18"] sample_object(5,6)
    unfolding attr(1) by (auto simp: sample_object(4))
  have "tr_objs ?s 0x5000 = Some \<lparr>tr_file_name = Some ''/bin/app'', tr_text_start = 0x400000, tr_text_end = 0x400020\<rparr>"
    "ring (tr_lists ?s) (tr_breakpoint_chain 0x5000) [0x6010, 0x7010]" "bkpt_fresh_at ?s 0x8000"
    using sample_object(1-3) by (simp_all add: bkpt_fresh_at_def)
  moreover have "word_mapped (\<lambda>_. Some 0) 0" "peek_text (\<lambda>_. Some 0) 0 = 0" by (simp_all add: word_mapped_def peek_text_def le_word_def)
  ultimately show "\<exists>s'. tr_breakpoint_create 0x8000 0x5000 0x18 ?attr ?s = Some (0x8000, s') \<and>
      tr_text s' = (\<lambda>_. Some 0)(0 \<mapsto> 0xCC) \<and> tr_bkpts s' 0x8000 = Some \<lparr>tb_address = 0x400018, ori_instrction = 0, tb_attr = 3\<rparr> \<and>
      tr_breakpoint_enable 0x8000 s' = Some s' \<and> tr_breakpoint_delete 0x8000 s' = None"
    using tracer_create_enabled_patches_zero[of ?s "0x5000" _ "0x18" "[0x6010, 0x7010]" "0x8000", OF _ _ _ _ _ _ attr(2)]
    unfolding attr(1) by auto
qed

end
