(* ===== verification/Tracer_Objects.thy ===== *)
theory Tracer_Objects
  imports Tracer_Breakpoints Objects
begin

text \<open>
  The objects of the traced process, \<^verbatim>\<open>src/src/object.c\<close>, and the start of the tracer in \<^verbatim>\<open>src/src/atrace.c\<close>.  The functions that read the
  fields of a line of the memory map and the one that reads the whole file have the same text as in \<^verbatim>\<open>signal_test/object.c\<close>
  and are shared with it.  Other than there, executable regions without a file are taken into the list, and a failed
  allocation is an error that the caller sees.
\<close>

section \<open>Operations\<close>

definition REGN_ATTR_EXECUTE :: u8 where "REGN_ATTR_EXECUTE = push_bit 1 1"

definition tr_find_object :: "(tr_object \<Rightarrow> bool option) \<Rightarrow> tracer \<Rightarrow> addr option option" where
  "tr_find_object test s =
     list_for_each_entry (tr_lists s) (\<lambda>x. Option.bind (load (tr_objs s) (tr_object_of x)) test) (tr_objects s)"

text \<open>Lines 254 to 272 of \<^verbatim>\<open>object_parse_mmap\<close>, for an allocation that succeeds.\<close>

definition tr_object_append :: "addr \<Rightarrow> addr \<Rightarrow> addr \<Rightarrow> u32 \<Rightarrow> string option \<Rightarrow> tracer \<Rightarrow> tracer option" where
  "tr_object_append obj start ende inode file s = do {
     let s = s\<lparr>tr_objs := (tr_objs s)(obj \<mapsto> \<lparr>tr_file_name = None, tr_text_start = 0, tr_text_end = 0\<rparr>),
         tr_lists := (tr_lists s)(tr_breakpoint_chain obj \<mapsto> null_links, tr_object_chain obj \<mapsto> null_links)\<rparr>;
     os \<leftarrow> modify (tr_objs s) obj (\<lambda>ob. ob\<lparr>tr_text_start := start, tr_text_end := ende\<rparr>);
     h \<leftarrow> INIT_LIST_HEAD (tr_breakpoint_chain obj) (tr_lists s);
     h \<leftarrow> INIT_LIST_HEAD (tr_object_chain obj) h;
     os \<leftarrow> modify os obj (\<lambda>ob. ob\<lparr>tr_file_name := if inode \<noteq> 0 then file else Some ''<pseudo file>''\<rparr>);
     h \<leftarrow> list_add_tail (tr_object_chain obj) (tr_objects s) h;
     Some (s\<lparr>tr_objs := os, tr_lists := h\<rparr>) }"

partial_function (option) tr_object_parse_mmap ::
  "(string \<Rightarrow> bool) \<Rightarrow> addr list \<Rightarrow> string \<Rightarrow> tracer \<Rightarrow> (int \<times> tracer) option" where
  "tr_object_parse_mmap dup callocs mmap s =
     (if mmap = [] then Some (0, s)
      else do {
        r \<leftarrow> parse_line dup mmap;
        case r of
          None \<Rightarrow> Some (-1, s)
        | Some (mmap, start, ende, attr, inode, file) \<Rightarrow>
            if attr AND REGN_ATTR_EXECUTE = 0 then tr_object_parse_mmap dup callocs mmap s
            else do {
              exist \<leftarrow> tr_find_object (\<lambda>ob. Some (tr_text_start ob = start \<and> tr_text_end ob = ende)) s;
              if exist \<noteq> None then tr_object_parse_mmap dup callocs mmap s
              else do {
                let obj = (case callocs of [] \<Rightarrow> NULL | obj # _ \<Rightarrow> obj);
                if obj = NULL then Some (-2, s)
                else do {
                  s \<leftarrow> tr_object_append obj start ende inode file s;
                  tr_object_parse_mmap dup (tl callocs) mmap s } } } })"

definition tr_object_load ::
  "bool \<Rightarrow> (string option \<times> bool) list \<Rightarrow> (string \<Rightarrow> bool) \<Rightarrow> addr list \<Rightarrow> tracer \<Rightarrow> (int \<times> tracer) option" where
  "tr_object_load opened reads dup callocs s = do {
     maps \<leftarrow> object_get_mmap opened reads;
     case maps of
       None \<Rightarrow> Some (-1, s)
     | Some mmap \<Rightarrow> do {
         (rv, s) \<leftarrow> tr_object_parse_mmap dup callocs mmap s;
         Some (if rv \<noteq> 0 then -1 else 0, s) } }"

text \<open>
  \<^verbatim>\<open>object_get_exe\<close>.  \<^verbatim>\<open>junk\<close> is the content of the 4096 bytes that \<^verbatim>\<open>malloc\<close> returns; \<^verbatim>\<open>readlink\<close> writes the path to their front and no
  terminating null character.
\<close>

definition object_get_exe :: "bool \<Rightarrow> string \<Rightarrow> string option \<Rightarrow> bool \<Rightarrow> string option option" where
  "object_get_exe malloc_ok junk link strdup_ok =
     (if \<not> malloc_ok then Some None
      else (case link of
          None \<Rightarrow> Some None
        | Some path \<Rightarrow>
            let buf = take 4096 path @ drop (length path) junk in
            if CHR 0x00 \<notin> set buf then None
            else Some (if strdup_ok then Some (takeWhile (\<lambda>c. c \<noteq> CHR 0x00) buf) else None)))"

definition object_get_exe_entry_point :: "u8 list option \<Rightarrow> addr" where
  "object_get_exe_entry_point header =
     (case header of
        None \<Rightarrow> 0
      | Some ehdr \<Rightarrow>
          if ehdr ! 0 \<noteq> 0x7F \<or> ehdr ! 1 \<noteq> 0x45 \<or> ehdr ! 2 \<noteq> 0x4C \<or> ehdr ! 3 \<noteq> 0x46 then 0
          else le32 (drop 24 ehdr))"

definition tr_object_get_by_file :: "string \<Rightarrow> tracer \<Rightarrow> addr option" where
  "tr_object_get_by_file filename s = do {
     r \<leftarrow> tr_find_object (\<lambda>ob. map_option (\<lambda>f. filename = f) (tr_file_name ob)) s;
     Some (case r of None \<Rightarrow> NULL | Some x \<Rightarrow> tr_object_of x) }"

text \<open>
  The first part of \<^verbatim>\<open>run_profiler\<close>, up to the breakpoint on the entry point.  \<^verbatim>\<open>Inl\<close> is a call of \<^verbatim>\<open>exit\<close> with the status, and
  \<^verbatim>\<open>Inr\<close> the breakpoint.  The result of \<^verbatim>\<open>object_load\<close> is not looked at.
\<close>

definition profiler_start ::
  "bool \<Rightarrow> (string option \<times> bool) list \<Rightarrow> (string \<Rightarrow> bool) \<Rightarrow> addr list \<Rightarrow> bool \<Rightarrow> string \<Rightarrow> string option \<Rightarrow> bool \<Rightarrow>
    u8 list option \<Rightarrow> addr \<Rightarrow> tracer \<Rightarrow> ((int + addr) \<times> tracer) option" where
  "profiler_start opened reads dup callocs malloc_ok junk link strdup_ok header bp s = do {
     (_, s) \<leftarrow> tr_object_load opened reads dup callocs s;
     exe_path \<leftarrow> object_get_exe malloc_ok junk link strdup_ok;
     case exe_path of
       None \<Rightarrow> Some (Inl 1, s)
     | Some path \<Rightarrow> do {
         let entry_point = object_get_exe_entry_point header;
         profilee_obj \<leftarrow> tr_object_get_by_file path s;
         if profilee_obj = NULL then Some (Inl 1, s)
         else do {
           (bp, s) \<leftarrow> tr_breakpoint_create bp profilee_obj entry_point (BKPT_F_ENTER_CTX OR BKPT_F_ENABLE) s;
           Some (if bp = NULL then Inl 1 else Inr bp, s) } } }"

section \<open>The list of objects\<close>

text \<open>The entries of the list, and lists of breakpoints that share no list head with it.\<close>

definition tr_objects_ok :: "tracer \<Rightarrow> addr list \<Rightarrow> bool" where
  "tr_objects_ok s xs \<longleftrightarrow> ring (tr_lists s) (tr_objects s) xs \<and>
     (\<forall>x \<in> set xs. tr_object_of x \<noteq> NULL \<and> tr_objs s (tr_object_of x) \<noteq> None \<and>
        (\<exists>ys. ring (tr_lists s) (tr_breakpoint_chain (tr_object_of x)) ys \<and>
           footprint (tr_breakpoint_chain (tr_object_of x)) ys \<inter> footprint (tr_objects s) xs = {}))"

abbreviation tr_object_at :: "tracer \<Rightarrow> addr \<Rightarrow> tr_object" where
  "tr_object_at s x \<equiv> the (tr_objs s (tr_object_of x))"

definition tr_object_list :: "tracer \<Rightarrow> addr list \<Rightarrow> tr_object list" where
  "tr_object_list s xs = map (tr_object_at s) xs"

definition tr_object_fresh :: "tracer \<Rightarrow> addr \<Rightarrow> bool" where
  "tr_object_fresh s p \<longleftrightarrow> p \<noteq> NULL \<and> tr_object_chain p \<noteq> NULL \<and> tr_breakpoint_chain p \<noteq> NULL \<and>
     tr_objs s p = None \<and> tr_lists s (tr_object_chain p) = None \<and> tr_lists s (tr_breakpoint_chain p) = None"

definition tr_supply_ok :: "tracer \<Rightarrow> addr list \<Rightarrow> bool" where
  "tr_supply_ok s ps \<longleftrightarrow> (\<forall>p \<in> set ps. tr_object_fresh s p) \<and> distinct ps \<and>
     (\<forall>p \<in> set ps. \<forall>q \<in> set ps. tr_object_chain p \<noteq> tr_breakpoint_chain q)"

text \<open>The effect of a line on the objects: executable regions whose range is new are appended.\<close>

definition tr_region_object :: "region \<Rightarrow> tr_object" where
  "tr_region_object r = \<lparr>tr_file_name = Some (if atoi (rg_inode r) \<noteq> 0 then rg_path r else ''<pseudo file>''),
     tr_text_start = rg_start r, tr_text_end = rg_end r\<rparr>"

definition tr_load_region :: "region \<Rightarrow> tr_object list \<Rightarrow> tr_object list" where
  "tr_load_region r obs =
     (if region_attr r AND REGN_ATTR_EXECUTE = 0 \<or> (\<exists>ob \<in> set obs. tr_text_start ob = rg_start r \<and> tr_text_end ob = rg_end r)
      then obs else obs @ [tr_region_object r])"

lemma tr_find_object_ok:
  assumes "tr_objects_ok s xs" "\<And>x. x \<in> set xs \<Longrightarrow> test (tr_object_at s x) = Some (P (tr_object_at s x))"
  shows "tr_find_object test s = Some (List.find (\<lambda>x. P (tr_object_at s x)) xs)"
  unfolding tr_find_object_def using assms by (intro ringlist.search_law) (fastforce simp: tr_objects_ok_def load_def)+

lemma tr_object_append_ok:
  assumes ok: "tr_objects_ok s xs" and p: "tr_object_fresh s p"
  shows "\<exists>h. tr_object_append p a b inode f s =
      Some (s\<lparr>tr_objs := (tr_objs s)(p \<mapsto> \<lparr>tr_file_name = if inode \<noteq> 0 then f else Some ''<pseudo file>'', tr_text_start = a, tr_text_end = b\<rparr>), tr_lists := h\<rparr>) \<and>
    ring h (tr_objects s) (xs @ [tr_object_chain p]) \<and> ring h (tr_breakpoint_chain p) [] \<and>
    (\<forall>q. q \<notin> insert (tr_breakpoint_chain p) (footprint (tr_objects s) (xs @ [tr_object_chain p])) \<longrightarrow> h q = tr_lists s q)"
proof -
  let ?b = "tr_breakpoint_chain p" and ?c = "tr_object_chain p"
  have ring: "ring (tr_lists s) (tr_objects s) xs" using ok by (simp add: tr_objects_ok_def)
  have out: "?b \<notin> footprint (tr_objects s) xs" "?c \<notin> footprint (tr_objects s) xs"
    using ring_outside[OF ring] p by (auto simp: tr_object_fresh_def)
  obtain h1 h2 where h: "INIT_LIST_HEAD ?b ((tr_lists s)(?b \<mapsto> null_links, ?c \<mapsto> null_links)) = Some h1"
    "INIT_LIST_HEAD ?c h1 = Some h2" "ring h2 ?b []" "ring h2 ?c []" "\<forall>q. q \<notin> {?b, ?c} \<longrightarrow> h2 q = tr_lists s q"
    using init_two[of ?b ?c "tr_lists s"] p by (auto simp: tr_object_fresh_def)
  have "h2 q = tr_lists s q" if "q \<in> set (tr_objects s # xs)" for q using h(5) out that by (metis insertE list.simps(15) singletonD)
  then have "ring h2 (tr_objects s) xs" by (rule ring_cong[OF ring])
  then obtain h3 where h3: "list_add_tail ?c (tr_objects s) h2 = Some h3" "ring h3 (tr_objects s) (xs @ [?c])"
    "relinked h2 (footprint (tr_objects s) (xs @ [?c])) h3"
    using ringlist.enqueue_law[OF _ _ out(2)] ring_live[OF h(4)] by blast
  have "ring h3 ?b []" using ring_relinked[OF h(3) h3(3)] out by auto
  moreover have "h3 q = tr_lists s q" if "q \<notin> insert ?b (footprint (tr_objects s) (xs @ [?c]))" for q
    using that h(5) h3(3) by (auto simp: relinked_def)
  ultimately show ?thesis using h(1,2) h3(1,2) p by (auto simp: tr_object_append_def tr_object_fresh_def modify_def)
qed

lemma tr_objects_ok_chain:
  assumes "tr_objects_ok s xs" "x \<in> set xs"
  shows "\<exists>ys. ring (tr_lists s) (tr_breakpoint_chain (tr_object_of x)) ys \<and>
    footprint (tr_breakpoint_chain (tr_object_of x)) ys \<inter> footprint (tr_objects s) xs = {}"
  using bspec[OF conjunct2[OF assms(1)[unfolded tr_objects_ok_def]] assms(2)] by (elim conjE)

text \<open>The state after an object has been appended.\<close>

lemma tr_objects_ok_snoc:
  assumes ok: "tr_objects_ok s xs" and p: "tr_object_fresh s p"
    and h: "ring h (tr_objects s) (xs @ [tr_object_chain p])" "ring h (tr_breakpoint_chain p) []"
    and frame: "\<forall>q. q \<notin> insert (tr_breakpoint_chain p) (footprint (tr_objects s) (xs @ [tr_object_chain p])) \<longrightarrow> h q = tr_lists s q"
  shows "tr_objects_ok (s\<lparr>tr_objs := (tr_objs s)(p \<mapsto> ob), tr_lists := h\<rparr>) (xs @ [tr_object_chain p])"
proof -
  have ring: "ring (tr_lists s) (tr_objects s) xs" using ok by (simp add: tr_objects_ok_def)
  have none: "tr_lists s (tr_object_chain p) = None" "tr_lists s (tr_breakpoint_chain p) = None" "p \<noteq> NULL"
    using p by (auto simp: tr_object_fresh_def)
  have old: "\<exists>ys. ring h (tr_breakpoint_chain (tr_object_of x)) ys \<and>
      footprint (tr_breakpoint_chain (tr_object_of x)) ys \<inter> footprint (tr_objects s) (xs @ [tr_object_chain p]) = {}" if x: "x \<in> set xs" for x
  proof -
    obtain ys where ys: "ring (tr_lists s) (tr_breakpoint_chain (tr_object_of x)) ys"
      "footprint (tr_breakpoint_chain (tr_object_of x)) ys \<inter> footprint (tr_objects s) xs = {}"
      using tr_objects_ok_chain[OF ok x] by (elim exE conjE)
    note out = ring_outside[OF ys(1) none(1)] ring_outside[OF ys(1) none(2)]
    have apart: "footprint (tr_breakpoint_chain (tr_object_of x)) ys \<inter> footprint (tr_objects s) (xs @ [tr_object_chain p]) = {}"
      using ys(2) out(1) by auto
    have "h q = tr_lists s q" if "q \<in> set (tr_breakpoint_chain (tr_object_of x) # ys)" for q
    proof -
      have q: "q \<in> footprint (tr_breakpoint_chain (tr_object_of x)) ys" using that by simp
      then have "q \<notin> footprint (tr_objects s) (xs @ [tr_object_chain p])" using apart by (simp only: disjoint_iff not_False_eq_True)
      moreover have "q \<noteq> tr_breakpoint_chain p" using q out(2) by (metis (no_types))
      ultimately show ?thesis using frame by simp
    qed
    then show ?thesis using ring_cong[OF ys(1)] apart by blast
  qed
  have new: "\<exists>ys. ring h (tr_breakpoint_chain p) ys \<and> footprint (tr_breakpoint_chain p) ys \<inter> footprint (tr_objects s) (xs @ [tr_object_chain p]) = {}"
    using h(2) ring_outside[OF ring none(2)] by (intro exI[of _ "[]"]) auto
  show ?thesis unfolding tr_objects_ok_def
  proof (intro conjI ballI)
    fix x assume x: "x \<in> set (xs @ [tr_object_chain p])"
    show "tr_object_of x \<noteq> NULL" using x ok none(3) by (auto simp: tr_objects_ok_def)
    show "tr_objs (s\<lparr>tr_objs := (tr_objs s)(p \<mapsto> ob), tr_lists := h\<rparr>) (tr_object_of x) \<noteq> None"
      using x ok by (auto simp: tr_objects_ok_def)
    show "\<exists>ys. ring (tr_lists (s\<lparr>tr_objs := (tr_objs s)(p \<mapsto> ob), tr_lists := h\<rparr>)) (tr_breakpoint_chain (tr_object_of x)) ys \<and>
        footprint (tr_breakpoint_chain (tr_object_of x)) ys \<inter>
        footprint (tr_objects (s\<lparr>tr_objs := (tr_objs s)(p \<mapsto> ob), tr_lists := h\<rparr>)) (xs @ [tr_object_chain p]) = {}"
      using x old new by auto
  qed (use h(1) in simp)
qed

lemma tr_supply_after:
  assumes s: "tr_supply_ok s (p # ps)" and ok: "tr_objects_ok s xs"
    and frame: "\<forall>q. q \<notin> insert (tr_breakpoint_chain p) (footprint (tr_objects s) (xs @ [tr_object_chain p])) \<longrightarrow> h q = tr_lists s q"
  shows "tr_supply_ok (s\<lparr>tr_objs := (tr_objs s)(p \<mapsto> ob), tr_lists := h\<rparr>) ps"
proof -
  have ring: "ring (tr_lists s) (tr_objects s) xs" using ok by (simp add: tr_objects_ok_def)
  have "tr_object_fresh (s\<lparr>tr_objs := (tr_objs s)(p \<mapsto> ob), tr_lists := h\<rparr>) q" if q: "q \<in> set ps" for q
  proof -
    have f: "tr_object_fresh s q" "q \<noteq> p" "tr_object_chain q \<noteq> tr_breakpoint_chain p" "tr_object_chain p \<noteq> tr_breakpoint_chain q"
      using s q by (auto simp: tr_supply_ok_def)
    have "tr_lists s (tr_object_chain q) = None" "tr_lists s (tr_breakpoint_chain q) = None" using f(1) by (auto simp: tr_object_fresh_def)
    from this[THEN ring_outside[OF ring]] f have "tr_object_chain q \<notin> insert (tr_breakpoint_chain p) (footprint (tr_objects s) (xs @ [tr_object_chain p]))"
      "tr_breakpoint_chain q \<notin> insert (tr_breakpoint_chain p) (footprint (tr_objects s) (xs @ [tr_object_chain p]))" by auto
    then have "h (tr_object_chain q) = tr_lists s (tr_object_chain q)" "h (tr_breakpoint_chain q) = tr_lists s (tr_breakpoint_chain q)"
      using frame by blast+
    then show ?thesis using f by (simp add: tr_object_fresh_def)
  qed
  then show ?thesis using s by (auto simp: tr_supply_ok_def)
qed

section \<open>Loading a memory map\<close>

lemma tr_parse_skip:
  assumes ok: "tr_objects_ok s xs" and r: "region_ok r" and same: "tr_load_region r (tr_object_list s xs) = tr_object_list s xs"
  shows "tr_object_parse_mmap (\<lambda>_. True) ps (print_region r @ rest) s = tr_object_parse_mmap (\<lambda>_. True) ps rest s"
proof -
  let ?P = "\<lambda>ob. tr_text_start ob = rg_start r \<and> tr_text_end ob = rg_end r"
  have ne: "print_region r \<noteq> []" by (simp add: print_region_def)
  note line = parse_line_print[OF r, of "\<lambda>_. True" rest]
  have find: "tr_find_object (\<lambda>ob. Some (?P ob)) s = Some (List.find (\<lambda>x. ?P (tr_object_at s x)) xs)"
    by (rule tr_find_object_ok[OF ok]) simp
  show ?thesis
  proof (cases "\<exists>ob \<in> set (tr_object_list s xs). ?P ob")
    case True
    then obtain x where "List.find (\<lambda>x. ?P (tr_object_at s x)) xs = Some x"
      using find_exists[of xs "\<lambda>x. ?P (tr_object_at s x)"] by (auto simp: tr_object_list_def)
    then show ?thesis using ne by (subst tr_object_parse_mmap.simps) (simp add: line find)
  next
    case False
    then have "region_attr r AND REGN_ATTR_EXECUTE = 0" using same by (auto simp: tr_load_region_def split: if_splits)
    then show ?thesis using ne by (subst tr_object_parse_mmap.simps) (simp add: line)
  qed
qed

lemma tr_parse_append:
  assumes ok: "tr_objects_ok s xs" and r: "region_ok r"
    and new: "tr_load_region r (tr_object_list s xs) \<noteq> tr_object_list s xs" and avail: "tr_supply_ok s (p # ps)"
  shows "\<exists>s' x. tr_object_parse_mmap (\<lambda>_. True) (p # ps) (print_region r @ rest) s = tr_object_parse_mmap (\<lambda>_. True) ps rest s' \<and>
    tr_objects_ok s' (xs @ [x]) \<and> tr_supply_ok s' ps \<and> tr_object_list s' (xs @ [x]) = tr_load_region r (tr_object_list s xs)"
proof -
  let ?P = "\<lambda>ob. tr_text_start ob = rg_start r \<and> tr_text_end ob = rg_end r" and ?ob = "tr_region_object r"
  have ne: "print_region r \<noteq> []" by (simp add: print_region_def)
  note line = parse_line_print[OF r, of "\<lambda>_. True" rest]
  have find: "tr_find_object (\<lambda>ob. Some (?P ob)) s = Some (List.find (\<lambda>x. ?P (tr_object_at s x)) xs)"
    by (rule tr_find_object_ok[OF ok]) simp
  have new: "region_attr r AND REGN_ATTR_EXECUTE \<noteq> 0" "\<forall>ob \<in> set (tr_object_list s xs). \<not> ?P ob"
    using new by (auto simp: tr_load_region_def split: if_splits)
  have p: "tr_object_fresh s p" "p \<noteq> NULL" using avail by (simp_all add: tr_supply_ok_def tr_object_fresh_def)
  have ob: "\<lparr>tr_file_name = if atoi (rg_inode r) \<noteq> 0 then if atoi (rg_inode r) \<noteq> 0 then Some (rg_path r) else None else Some ''<pseudo file>'',
    tr_text_start = rg_start r, tr_text_end = rg_end r\<rparr> = ?ob" by (simp add: tr_region_object_def)
  obtain h where h: "tr_object_append p (rg_start r) (rg_end r) (atoi (rg_inode r))
        (if atoi (rg_inode r) \<noteq> 0 then Some (rg_path r) else None) s =
      Some (s\<lparr>tr_objs := (tr_objs s)(p \<mapsto> ?ob), tr_lists := h\<rparr>)" (is "_ = Some ?s")
    "ring h (tr_objects s) (xs @ [tr_object_chain p])" "ring h (tr_breakpoint_chain p) []"
    "\<forall>q. q \<notin> insert (tr_breakpoint_chain p) (footprint (tr_objects s) (xs @ [tr_object_chain p])) \<longrightarrow> h q = tr_lists s q"
    using tr_object_append_ok[OF ok p(1), of "rg_start r" "rg_end r" "atoi (rg_inode r)" "if atoi (rg_inode r) \<noteq> 0 then Some (rg_path r) else None"]
    unfolding ob by blast
  have "List.find (\<lambda>x. ?P (tr_object_at s x)) xs = None" using new(2) by (auto simp: tr_object_list_def find_None_iff)
  then have "tr_object_parse_mmap (\<lambda>_. True) (p # ps) (print_region r @ rest) s = tr_object_parse_mmap (\<lambda>_. True) ps rest ?s"
    using new(1) ne h(1) p(2) by (subst tr_object_parse_mmap.simps) (simp add: line find Let_def)
  moreover have "tr_object_of x \<noteq> p" if "x \<in> set xs" for x using ok p(1) that by (auto simp: tr_objects_ok_def tr_object_fresh_def)
  then have "tr_object_list ?s (xs @ [tr_object_chain p]) = tr_object_list s xs @ [?ob]" by (auto simp: tr_object_list_def)
  moreover have "tr_load_region r (tr_object_list s xs) = tr_object_list s xs @ [?ob]" using new unfolding tr_load_region_def by auto
  ultimately show ?thesis
    using tr_objects_ok_snoc[OF ok p(1) h(2-4), of ?ob] tr_supply_after[OF avail ok h(4), of ?ob]
    by (intro exI[of _ ?s] exI[of _ "tr_object_chain p"]) simp
qed

interpretation tm: map_loading "tr_object_parse_mmap (\<lambda>_. True)" tr_objects_ok tr_supply_ok tr_object_list tr_load_region
proof (unfold_locales, goal_cases)
  case 1 then show ?case by (subst tr_object_parse_mmap.simps) simp
next
  case 2 then show ?case by (rule tr_parse_skip)
next
  case 3 then show ?case by (rule tr_parse_append)
next
  case 4 then show ?case by (auto simp: tr_load_region_def)
next
  case (5 r obs obs')
  have "\<exists>ob \<in> set (tr_load_region r obs). tr_text_start ob = rg_start r \<and> tr_text_end ob = rg_end r" if "region_attr r AND REGN_ATTR_EXECUTE \<noteq> 0"
    using that by (auto simp: tr_load_region_def tr_region_object_def)
  then show ?case using 5 unfolding tr_load_region_def by (auto split: if_splits)
qed

section \<open>Properties\<close>

lemma sample_tracer_objects: "tr_objects_ok sample_tracer [0x5028]" "tr_supply_ok sample_tracer [0x9000]"
proof -
  have r: "ring (tr_lists sample_tracer) (tr_breakpoint_chain (tr_object_of 0x5028)) [0x6010, 0x7010]"
    using sample_object(2) by (simp add: tr_object_of_def)
  have "footprint (tr_breakpoint_chain (tr_object_of 0x5028)) [0x6010, 0x7010] \<inter> footprint (tr_objects sample_tracer) [0x5028] = {}"
    by (simp add: sample_tracer_def tr_breakpoint_chain_def tr_object_of_def)
  moreover have "ring (tr_lists sample_tracer) (tr_objects sample_tracer) [0x5028]" using sample_chains by (simp add: chains_ok_def)
  ultimately show "tr_objects_ok sample_tracer [0x5028]"
    unfolding tr_objects_ok_def using r sample_object(1) by (auto simp: tr_object_of_def intro!: exI[of _ "[0x6010, 0x7010]"])
qed (simp add: tr_supply_ok_def tr_object_fresh_def sample_tracer_def tr_object_chain_def tr_breakpoint_chain_def)

definition sample_pseudo :: region where
  "sample_pseudo = \<lparr>rg_digits = 12, rg_start = 0x7FFF00000000, rg_end = 0x7FFF00002000, rg_perms = ''r-xp'', rg_offset = ''00000000'',
     rg_dev = ''00:00'', rg_inode = ''0'', rg_pad = 3, rg_path = ''[vdso]''\<rparr>"

lemma sample_pseudo_ok: "region_ok sample_pseudo"
  "tr_load_region sample_pseudo (tr_object_list sample_tracer [0x5028]) = tr_object_list sample_tracer [0x5028] @
    [\<lparr>tr_file_name = Some ''<pseudo file>'', tr_text_start = 0x7FFF00000000, tr_text_end = 0x7FFF00002000\<rparr>]"
proof -
  have "region_attr sample_pseudo AND REGN_ATTR_EXECUTE \<noteq> 0"
    by (simp add: sample_pseudo_def region_attr_def attr_char_def REGN_ATTR_EXECUTE_def OBJ_ATTR_FLAG_PRIVATE_def OBJ_ATTR_FLAG_EXECUTE_def
      OBJ_ATTR_FLAG_READ_def OBJ_ATTR_FLAG_WRITE_def)
  moreover have "tr_object_list sample_tracer [0x5028] = [\<lparr>tr_file_name = Some ''/bin/app'', tr_text_start = 0x400000, tr_text_end = 0x400020\<rparr>]"
    using sample_object(1) by (simp add: tr_object_list_def tr_object_of_def)
  moreover have "tr_region_object sample_pseudo = \<lparr>tr_file_name = Some ''<pseudo file>'', tr_text_start = 0x7FFF00000000, tr_text_end = 0x7FFF00002000\<rparr>"
    by (simp add: tr_region_object_def sample_pseudo_def atoi_def c_isspace_def c_isdigit_def)
  moreover have "rg_start sample_pseudo = 0x7FFF00000000" by (simp add: sample_pseudo_def)
  ultimately show "tr_load_region sample_pseudo (tr_object_list sample_tracer [0x5028]) = tr_object_list sample_tracer [0x5028] @
    [\<lparr>tr_file_name = Some ''<pseudo file>'', tr_text_start = 0x7FFF00000000, tr_text_end = 0x7FFF00002000\<rparr>]"
    by (simp add: tr_load_region_def)
qed (simp add: region_ok_def sample_pseudo_def)

text \<open>
  \<^verbatim>\<open>object_load\<close> of the tracer.  However the kernel splits the text of the memory map into chunks, the function returns 0 and appends, in
  order, an object for each executable region whose range is new, under the path of its file or the name of a pseudo
  file; loading the same map again needs no memory and changes nothing.
\<close>

theorem tracer_object_load:
  assumes "tr_objects_ok s xs" "tr_supply_ok s ps" "length rs \<le> length ps" "\<forall>r \<in> set rs. region_ok r"
    and "\<forall>c \<in> set chunks. c \<noteq> []" "concat chunks = concat (map print_region rs)"
  shows "\<exists>s' ys. tr_object_load True (map (\<lambda>c. (Some c, True)) chunks @ [(Some [], True)]) (\<lambda>_. True) ps s = Some (0, s') \<and>
    tr_objects_ok s' (xs @ ys) \<and> tr_object_list s' (xs @ ys) = fold tr_load_region rs (tr_object_list s xs) \<and>
    tr_object_load True (map (\<lambda>c. (Some c, True)) chunks @ [(Some [], True)]) (\<lambda>_. True) [] s' = Some (0, s')"
proof -
  have "object_get_mmap True (map (\<lambda>c. (Some c, True)) chunks @ [(Some [], True)]) = Some (Some (concat (map print_region rs)))"
    using assms(5,6) by (simp add: object_get_mmap_def read_loop_chunks)
  moreover obtain s' ys where s': "tr_object_parse_mmap (\<lambda>_. True) ps (concat (map print_region rs)) s = Some (0, s')"
    "tr_objects_ok s' (xs @ ys)" "tr_object_list s' (xs @ ys) = fold tr_load_region rs (tr_object_list s xs)"
    using tm.parse_text[OF assms(1-4)] by (elim exE conjE)
  moreover have "tr_object_parse_mmap (\<lambda>_. True) [] (concat (map print_region rs)) s' = Some (0, s')"
    using tm.parse_again[OF assms(1-4) s'(1)] .
  ultimately show ?thesis by (intro exI[of _ s'] exI[of _ ys]) (simp add: tr_object_load_def)
qed

theorem tracer_object_load_witness:
  "\<exists>s' ys. tr_object_load True (map (\<lambda>c. (Some c, True)) [print_region sample_pseudo] @ [(Some [], True)]) (\<lambda>_. True) [0x9000] sample_tracer = Some (0, s') \<and>
    tr_objects_ok s' ([0x5028] @ ys) \<and> tr_object_list s' ([0x5028] @ ys) = tr_object_list sample_tracer [0x5028] @
      [\<lparr>tr_file_name = Some ''<pseudo file>'', tr_text_start = 0x7FFF00000000, tr_text_end = 0x7FFF00002000\<rparr>] \<and>
    tr_object_load True (map (\<lambda>c. (Some c, True)) [print_region sample_pseudo] @ [(Some [], True)]) (\<lambda>_. True) [] s' = Some (0, s')"
proof -
  have "\<forall>c \<in> set [print_region sample_pseudo]. c \<noteq> []" by (simp add: print_region_def)
  from tracer_object_load[OF sample_tracer_objects, of "[sample_pseudo]" "[print_region sample_pseudo]", OF _ _ this]
  show ?thesis using sample_pseudo_ok by simp
qed

text \<open>
  \<^verbatim>\<open>object_get_exe\<close> of the tracer.  The path that it returns is the target of the link followed by whatever the buffer holds
  behind it, up to its first null character; it reads behind the buffer when there is none.
\<close>

theorem tracer_exe_path_unterminated:
  assumes "length junk = 4096" "length path < 4096" "CHR 0x00 \<notin> set path"
  shows "object_get_exe True junk (Some path) True =
    (if CHR 0x00 \<in> set (drop (length path) junk)
     then Some (Some (path @ takeWhile (\<lambda>c. c \<noteq> CHR 0x00) (drop (length path) junk))) else None)"
  using assms by (auto simp: object_get_exe_def Let_def takeWhile_append)

theorem tracer_exe_path_unterminated_witness:
  "object_get_exe True (replicate 10 CHR ''x'' @ replicate 4086 CHR 0x00) (Some ''/bin/app'') True = Some (Some ''/bin/appxx'')"
  using tracer_exe_path_unterminated[of "replicate 10 CHR ''x'' @ replicate 4086 CHR 0x00" "''/bin/app''"]
  by (simp add: takeWhile_append takeWhile_replicate numeral_2_eq_2)

text \<open>Loading the objects leaves the process and the breakpoints alone, whatever the map says.\<close>

lemma tr_object_append_only: "tr_object_append obj a b inode f s = Some s' \<Longrightarrow> tr_text s' = tr_text s \<and> tr_bkpts s' = tr_bkpts s"
  by (auto simp: tr_object_append_def Let_def bind_eq_Some_conv)

lemma tr_object_parse_mmap_only:
  assumes "tr_object_parse_mmap dup callocs mmap s = Some r"
  shows "tr_text (snd r) = tr_text s \<and> tr_bkpts (snd r) = tr_bkpts s"
proof (rule tr_object_parse_mmap.raw_induct[OF _ assms, of "\<lambda>_ _ _ s r. tr_text (snd r) = tr_text s \<and> tr_bkpts (snd r) = tr_bkpts s"], goal_cases)
  case (1 parse dup callocs mmap s r)
  note IH = 1(1) and run = 1(2)
  show ?case
  proof (cases "mmap = []")
    case True
    with run show ?thesis by auto
  next
    case False
    with run obtain line where line: "parse_line dup mmap = Some line" by (auto simp: bind_eq_Some_conv)
    show ?thesis
    proof (cases line)
      case None
      with run False line show ?thesis by auto
    next
      case (Some fields)
      obtain rest start ende attr inode fname where fields: "fields = (rest, start, ende, attr, inode, fname)" by (cases fields)
      note run = run[simplified False line Some fields if_False bind.bind_lunit option.case prod.case]
      show ?thesis
      proof (cases "attr AND REGN_ATTR_EXECUTE = 0")
        case True
        with run IH show ?thesis by simp
      next
        case False
        with run obtain exist where exist: "tr_find_object (\<lambda>ob. Some (tr_text_start ob = start \<and> tr_text_end ob = ende)) s = Some exist"
          by (auto simp: bind_eq_Some_conv)
        with run False show ?thesis
          by (cases "exist = None"; cases callocs)
            (auto simp: Let_def bind_eq_Some_conv dest!: tr_object_append_only IH split: if_split_asm)
      qed
    qed
  qed
qed

lemma tr_object_load_only: "tr_object_load opened reads dup callocs s = Some (rv, s') \<Longrightarrow> tr_text s' = tr_text s \<and> tr_bkpts s' = tr_bkpts s"
  by (auto simp: tr_object_load_def bind_eq_Some_conv dest!: tr_object_parse_mmap_only split: option.splits)

text \<open>
  C25: the start of the tracer.  Whatever loading the objects did, once the program is found among them and its entry point is within
  its range, the tracer creates the breakpoint and goes on: the breakpoint has the address of the entry point, counts as enabled and
  is in the list of the program, with the -1 that reading the text at address 0 returned as its original instruction.  The text
  of the process is what it was at the start, so the process never stops at its entry point.  Deleting the
  breakpoint, which is what the tracer does later, fails an assertion.
\<close>

theorem profiler_never_stops_at_entry:
  assumes "tr_object_load opened reads dup callocs s = Some (rv, s1)" "object_get_exe malloc_ok junk link strdup_ok = Some (Some path)"
    and "tr_objects_ok s1 xs" "\<forall>ob \<in> set (tr_object_list s1 xs). tr_file_name ob \<noteq> None"
    and "List.find (\<lambda>x. tr_file_name (tr_object_at s1 x) = Some path) xs = Some x"
    and "object_get_exe_entry_point header \<noteq> 0" "tr_text_start (tr_object_at s1 x) + object_get_exe_entry_point header \<le> tr_text_end (tr_object_at s1 x)"
    and "bkpt_fresh_at s1 bp" "\<not> word_mapped (tr_text s) 0"
    and "tr_text s (tr_text_start (tr_object_at s1 x) + object_get_exe_entry_point header) \<noteq> Some 0xCC"
  shows "\<exists>s2 ys. profiler_start opened reads dup callocs malloc_ok junk link strdup_ok header bp s = Some (Inr bp, s2) \<and>
    tr_bkpts s2 = (tr_bkpts s)(bp \<mapsto> \<lparr>tb_address = tr_text_start (tr_object_at s1 x) + object_get_exe_entry_point header,
      ori_instrction = -1, tb_attr = BKPT_F_ENTER_CTX OR BKPT_F_ENABLE\<rparr>) \<and>
    ring (tr_lists s1) (tr_breakpoint_chain (tr_object_of x)) ys \<and>
    ring (tr_lists s2) (tr_breakpoint_chain (tr_object_of x)) (ys @ [bkp_chain bp]) \<and>
    tr_text s2 = tr_text s \<and> tr_breakpoint_delete bp s2 = None"
proof -
  let ?e = "object_get_exe_entry_point header" and ?ob = "tr_object_at s1 x" and ?attr = "BKPT_F_ENTER_CTX OR BKPT_F_ENABLE"
  let ?a = "tr_text_start ?ob + ?e"
  let ?b = "\<lparr>tb_address = ?a, ori_instrction = -1, tb_attr = ?attr\<rparr>"
  note same = tr_object_load_only[OF assms(1)]
  have x: "x \<in> set xs" using find_SomeD[OF assms(5)] by simp
  then have obj: "tr_objs s1 (tr_object_of x) = Some ?ob" "tr_object_of x \<noteq> NULL" using assms(3) by (auto simp: tr_objects_ok_def)
  obtain ys where ys: "ring (tr_lists s1) (tr_breakpoint_chain (tr_object_of x)) ys" using tr_objects_ok_chain[OF assms(3) x] by (elim exE conjE)
  have "tr_find_object (\<lambda>ob. map_option (\<lambda>f. path = f) (tr_file_name ob)) s1 =
    Some (List.find (\<lambda>x. tr_file_name (tr_object_at s1 x) = Some path) xs)"
    by (rule tr_find_object_ok[OF assms(3)]) (use assms(4) in \<open>auto simp: tr_object_list_def\<close>)
  then have find: "tr_object_get_by_file path s1 = Some (tr_object_of x)" using assms(5) by (simp add: tr_object_get_by_file_def)
  obtain h where h: "tr_breakpoint_create bp (tr_object_of x) ?e ?attr s1 =
      Some (bp, s1\<lparr>tr_bkpts := (tr_bkpts s1)(bp \<mapsto> ?b), tr_lists := h, tr_text := tr_text s1\<rparr>)" (is "_ = Some (bp, ?s2)")
    "ring h (tr_breakpoint_chain (tr_object_of x)) (ys @ [bkp_chain bp])"
    using create_ok[OF obj assms(6,7) ys assms(8), of ?attr] assms(9) same by (auto simp: poke_text_def peek_text_def)
  have bp: "bp \<noteq> NULL" using assms(8) by (simp add: bkpt_fresh_at_def)
  then have "tr_breakpoint_delete bp ?s2 = None"
    using delete_unmarked[of ?s2 bp ?b] assms(10) same by simp
  moreover have "profiler_start opened reads dup callocs malloc_ok junk link strdup_ok header bp s = Some (Inr bp, ?s2)"
    using assms(1,2) find obj(2) h(1) bp by (simp add: profiler_start_def Let_def)
  ultimately show ?thesis using ys h(2) same by (intro exI[of _ ?s2] exI[of _ ys]) simp
qed

text \<open>A program with its entry point at offset 0x18; the memory map cannot be opened and the objects stay the known ones.\<close>

theorem profiler_never_stops_at_entry_witness:
  "\<exists>s2. profiler_start False [] (\<lambda>_. True) [] True (replicate 4096 CHR 0x00) (Some ''/bin/app'') True
      (Some ([0x7F, 0x45, 0x4C, 0x46] @ replicate 20 0 @ [0x18] @ replicate 27 0)) 0x8000 sample_tracer = Some (Inr 0x8000, s2) \<and>
    tr_bkpts s2 0x8000 = Some \<lparr>tb_address = 0x400018, ori_instrction = -1, tb_attr = BKPT_F_ENTER_CTX OR BKPT_F_ENABLE\<rparr> \<and>
    tr_text s2 = tracee_text \<and> tr_breakpoint_delete 0x8000 s2 = None"
proof -
  let ?hdr = "Some ([0x7F, 0x45, 0x4C, 0x46] @ replicate 20 0 @ [0x18] @ replicate 27 0)"
  have load: "tr_object_load False [] (\<lambda>_. True) [] sample_tracer = Some (-1, sample_tracer)"
    by (simp add: tr_object_load_def object_get_mmap_def)
  have exe: "object_get_exe True (replicate 4096 CHR 0x00) (Some ''/bin/app'') True = Some (Some ''/bin/app'')"
    by (simp add: object_get_exe_def Let_def takeWhile_append)
  have entry: "object_get_exe_entry_point ?hdr = 0x18" by (simp add: object_get_exe_entry_point_def le32_def nth_append)
  have at: "tr_object_at sample_tracer 0x5028 = \<lparr>tr_file_name = Some ''/bin/app'', tr_text_start = 0x400000, tr_text_end = 0x400020\<rparr>"
    using sample_object(1) by (simp add: tr_object_of_def)
  show ?thesis
    using profiler_never_stops_at_entry[OF load exe sample_tracer_objects(1), of "0x5028" ?hdr "0x8000"] sample_object(3-6)
    unfolding entry by (auto simp: at tr_object_list_def)
qed

end
