(* ===== verification/Error_Code.thy ===== *)
theory Error_Code
  imports Prelude
begin

text \<open>
  The error codes of the tracer, \<^verbatim>\<open>include/error.h\<close> and \<^verbatim>\<open>src/error.c\<close>.  A code is a negative 32-bit number: bit 31 is
  set, bits 27 to 30 hold the number of a module, and the lower 27 bits the number of the error in its module.  The tables
  of messages, one for each module, are declared \<^verbatim>\<open>extern\<close> and defined nowhere in the repository: they
  are the parameter \<^verbatim>\<open>desc\<close>.
\<close>

section \<open>Codes\<close>

definition MODULE_SIZE :: nat where "MODULE_SIZE = 4"
definition ERR_DATA_SIZE :: nat where "ERR_DATA_SIZE = 32"

datatype modules = MODULE_SYSTEM | MODULE_THREAD | MODULE_BREAKPOINT | MODULE_CONTEXT | MODULE_OBJECT

text \<open>The values of the enumerators.\<close>

fun enum_value :: "modules \<Rightarrow> u32" where
  "enum_value MODULE_SYSTEM = 0"
| "enum_value MODULE_THREAD = 1"
| "enum_value MODULE_BREAKPOINT = 2"
| "enum_value MODULE_CONTEXT = 3"
| "enum_value MODULE_OBJECT = 4"

definition GEN_ERR_CODE :: "u32 \<Rightarrow> u32 \<Rightarrow> u32" where
  "GEN_ERR_CODE module code =
     push_bit (ERR_DATA_SIZE - 1) 1 OR
     push_bit (ERR_DATA_SIZE - MODULE_SIZE - 1) (module AND (push_bit MODULE_SIZE 1 - 1)) OR
     ((if sint code > 0 then code else - code) AND (push_bit (ERR_DATA_SIZE - MODULE_SIZE - 1) 1 - 1))"

definition HBIPC_MSG_NO_RESOURCE :: u32 where "HBIPC_MSG_NO_RESOURCE = GEN_ERR_CODE (enum_value MODULE_SYSTEM) 1"
definition HBIPC_MSG_INVAILD_PARAMETER :: u32 where "HBIPC_MSG_INVAILD_PARAMETER = GEN_ERR_CODE (enum_value MODULE_SYSTEM) 2"
definition HBIPC_MSG_ALREADY_RUNNING :: u32 where "HBIPC_MSG_ALREADY_RUNNING = GEN_ERR_CODE (enum_value MODULE_SYSTEM) 3"
definition HBIPC_MSG_INIT_FAILED :: u32 where "HBIPC_MSG_INIT_FAILED = GEN_ERR_CODE (enum_value MODULE_SYSTEM) 4"
definition HBIPC_MSG_UNKNOW_HOOK :: u32 where "HBIPC_MSG_UNKNOW_HOOK = GEN_ERR_CODE (enum_value MODULE_SYSTEM) 5"
definition HBIPC_MSG_LOAD_DYN_FAILED :: u32 where "HBIPC_MSG_LOAD_DYN_FAILED = GEN_ERR_CODE (enum_value MODULE_SYSTEM) 6"

section \<open>Messages\<close>

definition module_code_table :: "modules option list" where
  "module_code_table =
     [Some MODULE_SYSTEM, Some MODULE_THREAD, Some MODULE_BREAKPOINT, Some MODULE_CONTEXT, Some MODULE_OBJECT, None]"

text \<open>Reading behind the end of one of the tables, or through the null pointer at the end of the table of modules, is \<^verbatim>\<open>None\<close>.\<close>

definition error_to_msg :: "(modules \<Rightarrow> string list) \<Rightarrow> u32 \<Rightarrow> string option" where
  "error_to_msg desc errcode =
     (if errcode = 0 then Some ''''
      else let index = unat (signed_drop_bit (ERR_DATA_SIZE - MODULE_SIZE - 1) errcode AND (push_bit MODULE_SIZE 1 - 1)) in
        if index \<ge> length module_code_table then None
        else (case module_code_table ! index of
            None \<Rightarrow> None
          | Some m \<Rightarrow>
              let index = unat (errcode AND (push_bit (ERR_DATA_SIZE - MODULE_SIZE - 1) 1 - 1)) in
              if index < length (desc m) then Some (desc m ! index) else None))"

section \<open>Fields of a code\<close>

lemma field_sizes: "ERR_DATA_SIZE - 1 = 31" "ERR_DATA_SIZE - MODULE_SIZE - 1 = 27"
  "push_bit MODULE_SIZE 1 - 1 = (mask 4 :: u32)" "push_bit 27 1 - 1 = (mask 27 :: u32)"
  by (simp_all add: MODULE_SIZE_def ERR_DATA_SIZE_def push_bit_eq_mult mask_eq_exp_minus_1)

lemma bit_code:
  "bit (GEN_ERR_CODE module code) n \<longleftrightarrow>
     n = 31 \<or> 27 \<le> n \<and> n < 31 \<and> bit module (n - 27) \<or> n < 27 \<and> bit (if sint code > 0 then code else - code) n"
proof -
  have "bit (push_bit 31 1 :: u32) n \<longleftrightarrow> n = 31" by (simp only: bit_push_bit_iff bit_1_iff) auto
  then show ?thesis
    unfolding GEN_ERR_CODE_def field_sizes
    by (auto simp: bit_or_iff bit_and_iff bit_push_bit_iff bit_mask_iff dest: bit_imp_le_length simp del: push_bit_numeral push_bit_of_1)
qed

lemma code_not_zero: "GEN_ERR_CODE module code \<noteq> 0"
proof
  assume "GEN_ERR_CODE module code = 0"
  then have "\<not> bit (GEN_ERR_CODE module code) 31" by simp
  then show False by (simp add: bit_code)
qed

lemma module_field: "signed_drop_bit 27 (GEN_ERR_CODE module code) AND mask 4 = module AND mask 4"
  by (rule bit_word_eqI) (auto simp: bit_and_iff bit_mask_iff bit_signed_drop_bit_iff bit_code min_def)

lemma number_field: "GEN_ERR_CODE module code AND mask 27 = (if sint code > 0 then code else - code) AND mask 27"
  by (rule bit_word_eqI) (auto simp: bit_and_iff bit_mask_iff bit_code)

lemma abs_code:
  fixes code :: u32
  assumes "\<bar>sint code\<bar> < 2 ^ 31"
  shows "unat (if sint code > 0 then code else - code) = nat \<bar>sint code\<bar>"
proof -
  have "(if sint code > 0 then code else - code) = word_of_int \<bar>sint code\<bar>"
    by (cases "sint code > 0") (auto simp: wi_hom_neg[symmetric])
  moreover have "unat (word_of_int \<bar>sint code\<bar> :: u32) = nat \<bar>sint code\<bar>"
    using assms by (simp add: unat_eq_nat_uint uint_word_of_int take_bit_int_eq_self)
  ultimately show ?thesis by simp
qed

lemma mask_unat: "unat (w :: u32) < 2 ^ n \<Longrightarrow> unat (w AND mask n) = unat w"
  by (simp flip: take_bit_eq_mask add: unsigned_take_bit_eq take_bit_nat_eq_self)

section \<open>Properties\<close>

text \<open>
  C32: error codes and messages.  The code of an error is negative, and \<^verbatim>\<open>error_to_msg\<close> finds the entry of the table of its
  module under the absolute value of its number, of up to 27 bits; a module number from 5 to 15 makes it read outside
  the table of modules.
\<close>

theorem error_message_round_trip:
  assumes "\<bar>sint code\<bar> < 2 ^ 27" "nat \<bar>sint code\<bar> < length (desc m)" "4 < module" "module < 16"
  shows "sint (GEN_ERR_CODE (enum_value m) code) < 0 \<and>
    error_to_msg desc (GEN_ERR_CODE (enum_value m) code) = Some (desc m ! nat \<bar>sint code\<bar>) \<and>
    error_to_msg desc (GEN_ERR_CODE module code) = None"
proof (intro conjI)
  let ?a = "if sint code > 0 then code else - code"
  have a: "unat ?a = nat \<bar>sint code\<bar>" by (rule abs_code) (use assms(1) in simp)
  have n: "unat (GEN_ERR_CODE k code AND mask 27) = nat \<bar>sint code\<bar>" for k
    unfolding number_field using mask_unat[of ?a 27] a assms(1) by simp
  have e: "unat (enum_value m AND mask 4) < 5" "module_code_table ! unat (enum_value m AND mask 4) = Some m"
    by (cases m; simp add: module_code_table_def mask_eq_exp_minus_1)+
  have len: "length module_code_table = 6" by (simp add: module_code_table_def)
  show "sint (GEN_ERR_CODE (enum_value m) code) < 0" by (simp add: bit_last_iff[symmetric] bit_code)
  show "error_to_msg desc (GEN_ERR_CODE (enum_value m) code) = Some (desc m ! nat \<bar>sint code\<bar>)"
    using e assms(2) unfolding error_to_msg_def field_sizes len module_field Let_def n by (simp add: code_not_zero)
  have "unat module < 16" "4 < unat module" using assms(3,4) by (simp_all add: word_less_nat_alt)
  then have "unat (module AND mask 4) = unat module" "unat module = 5 \<or> 6 \<le> unat module" using mask_unat[of module 4] by auto
  then show "error_to_msg desc (GEN_ERR_CODE module code) = None"
    unfolding error_to_msg_def field_sizes len module_field Let_def by (auto simp: code_not_zero module_code_table_def)
qed

text \<open>The code of \<^verbatim>\<open>HBIPC_MSG_INVAILD_PARAMETER\<close>, with a table of three messages for each module.\<close>

theorem error_message_round_trip_witness:
  "sint HBIPC_MSG_INVAILD_PARAMETER < 0 \<and> error_to_msg (\<lambda>_. [''ok'', ''no resource'', ''invalid'']) HBIPC_MSG_INVAILD_PARAMETER = Some ''invalid'' \<and>
    error_to_msg (\<lambda>_. [''ok'', ''no resource'', ''invalid'']) (GEN_ERR_CODE 9 2) = None"
  using error_message_round_trip[of 2 "\<lambda>_. [''ok'', ''no resource'', ''invalid'']" MODULE_SYSTEM 9]
  by (simp add: HBIPC_MSG_INVAILD_PARAMETER_def)

end
