(* ===== verification/Spec2Isabelle.thy ===== *)
theory Spec2Isabelle
  imports Rb_Properties Rb_Test_Main Whole_Process Delay_Test Unload Tracer_Objects Error_Code
begin

text \<open>
  Verification of atrace: the hook library and the tracer.

  \<^bold>\<open>The program.\<close>  \<^verbatim>\<open>src/signal_test/\<close> is a shared library that is preloaded into a process on AArch64.  Its constructor
  (\<^verbatim>\<open>hook_main.c\<close>) reads the memory map of the process (\<^verbatim>\<open>object.c\<close>), puts breakpoints on the entry point of the program
  and on a function of it (\<^verbatim>\<open>breakpoint.c\<close>), and installs a handler for the signal that a \<^verbatim>\<open>brk\<close> raises.  A breakpoint
  replaces an instruction by a \<^verbatim>\<open>brk\<close>; the instruction itself is copied into a slot of executable memory, followed by
  another \<^verbatim>\<open>brk\<close>.  The handler sends a thread that meets the first \<^verbatim>\<open>brk\<close> to the slot, and from the second one behind
  the instruction.  Breakpoints are found by their two addresses in a red-black tree (\<^verbatim>\<open>rbtree.c\<close>, \<^verbatim>\<open>rbtree.h\<close>), threads
  by their id in a hash table (\<^verbatim>\<open>thread.c\<close>); objects, slot sets, threads and the breakpoints of an object are on
  lists (\<^verbatim>\<open>list.h\<close>).

  \<^verbatim>\<open>src/src/\<close> and \<^verbatim>\<open>src/include/\<close> hold an earlier tracer for x86-64 that controls another process through \<^verbatim>\<open>ptrace\<close>.  It keeps lists of the
  objects of the process (\<^verbatim>\<open>object.c\<close>), of the breakpoints of each object (\<^verbatim>\<open>breakpoint.c\<close>, \<^verbatim>\<open>arch-x86/breakpoint.c\<close>) and of its
  threads (\<^verbatim>\<open>thread.c\<close>, \<^verbatim>\<open>arch-x86/thread.c\<close>); a breakpoint is an \<^verbatim>\<open>int3\<close> in the text of the process, and is stepped over by taking
  it out for one instruction.  \<^verbatim>\<open>atrace.c\<close> puts a breakpoint on the entry point and runs an event loop.

  \<^bold>\<open>The model.\<close>  Pointers are 64-bit words; each kind of structure has its own heap, a partial map from addresses,
  and a structure embedded in another one is an object of its own heap at the address of the field, so that
  \<^verbatim>\<open>container_of\<close> is the subtraction it is in C.  A function is a function of the state; the result \<^verbatim>\<open>None\<close> stands for the
  end of the process by a failed assertion, an \<^verbatim>\<open>abort\<close>, an invalid access or a lock that is taken twice, and for a loop that
  does not end: loops are \<^verbatim>\<open>partial_function\<close>s or have a measure, and every theorem about a loop states that it returns.
  The results of system calls and of \<^verbatim>\<open>calloc\<close>, \<^verbatim>\<open>mmap\<close>, \<^verbatim>\<open>mprotect\<close>, \<^verbatim>\<open>strndup\<close>, \<^verbatim>\<open>read\<close> and \<^verbatim>\<open>readlink\<close> are
  parameters, with what they promise as hypotheses; so is the effect of an instruction of the processor.
  Locks are booleans in the state.  A handler runs as one step; the interleaving of threads is that of
  their steps.

  \<^bold>\<open>The theories.\<close>

  \<^item> \<^verbatim>\<open>Prelude\<close>: heaps, locks and assertions.  \<^verbatim>\<open>Simulation\<close> and \<^verbatim>\<open>Key_Index\<close>: the contracts of a simulation
    between step relations and of tables under keys, as locales.

  \<^item> \<^verbatim>\<open>Intrusive_List\<close> (\<^verbatim>\<open>list.h\<close>): rings of list heads; the contract of rings is a locale, interpreted on the
    functions of the header, and every client uses its laws.

  \<^item> \<^verbatim>\<open>Rb_Node\<close> (packed nodes), \<^verbatim>\<open>Rb_Spec\<close> (functional red-black trees with a focus, their balance), \<^verbatim>\<open>Rb_Tree\<close>
    (rotations, insertion), \<^verbatim>\<open>Rb_Erase\<close>, \<^verbatim>\<open>Rb_Walk\<close> (search, iteration, replacement, augmentation), \<^verbatim>\<open>Rb_Index\<close> (keyed trees)
    and \<^verbatim>\<open>Rb_Properties\<close>: the pointer code refines the functional trees, which keep the red-black invariants.
    \<^verbatim>\<open>Rb_Test\<close> and \<^verbatim>\<open>Rb_Test_Main\<close>: the test program \<^verbatim>\<open>rbtest.c\<close>, its tree as an instance of the contract of tables whose elements can be inserted
    again (\<^verbatim>\<open>malloc\<close> may hand out a released block), and what it prints.  \<^verbatim>\<open>Delay_Test\<close>: the test program \<^verbatim>\<open>test_main.c\<close>, whose threads measure the delay of an instruction.

  \<^item> \<^verbatim>\<open>Bp_Table\<close>: the table of breakpoints, an instance of the same contract: an entry can be inserted again after its deletion.
    \<^verbatim>\<open>Thread_Map\<close> (\<^verbatim>\<open>thread.c\<close>): the table of threads, an instance of the contract without deletion.

  \<^item> \<^verbatim>\<open>Memory\<close>: instruction words and write permissions.  \<^verbatim>\<open>Slot_Set\<close>: the bitmaps of instruction slots.

  \<^item> \<^verbatim>\<open>Maps_Parser\<close> and \<^verbatim>\<open>Objects\<close> (\<^verbatim>\<open>object.c\<close>): the parser of \<^verbatim>\<open>/proc/self/maps\<close>, the list of objects, the entry point
    of the program and the protection of the text.

  \<^item> \<^verbatim>\<open>Breakpoint\<close> and \<^verbatim>\<open>Registration\<close> (\<^verbatim>\<open>breakpoint.c\<close>): the functions on breakpoints, all branches of
    \<^verbatim>\<open>breakpoint_add\<close>, and the invariant that joins lists, slots, memory and table.  \<^verbatim>\<open>Unload\<close>: \<^verbatim>\<open>object_unload\<close> of \<^verbatim>\<open>object.c\<close>.

  \<^item> \<^verbatim>\<open>Hook\<close> (\<^verbatim>\<open>hook_main.c\<close>): handlers and constructor.  \<^verbatim>\<open>Hook_Machine\<close>: the processor under the hooks and its
    simulation by the processor without them.  \<^verbatim>\<open>Hooking\<close>: hooking an address keeps the invariant and all hooks.
    \<^verbatim>\<open>Hook_Properties\<close>: the properties of the whole, with an example of a process.  \<^verbatim>\<open>Startup\<close>: the memory map is read again
    while hooks are in place, and the traps at the entry point.  \<^verbatim>\<open>Heap_Typing\<close>: no operation changes the type of an address or releases
    one, with rules in the style of weakest preconditions.  \<^verbatim>\<open>Constructor\<close>: \<^verbatim>\<open>lib_init\<close> leads from a fresh process to two hooks.
    \<^verbatim>\<open>Whole_Process\<close>: a process from the constructor on.

  \<^item> \<^verbatim>\<open>Map_Loading\<close>: what the two versions of \<^verbatim>\<open>object_parse_mmap\<close> have in common, as a locale, interpreted in \<^verbatim>\<open>Objects\<close> and
    \<^verbatim>\<open>Tracer_Objects\<close>.  \<^verbatim>\<open>List_Loops\<close>: the loop macros of \<^verbatim>\<open>include/list.h\<close> around a body that changes the state, forwards and
    backwards, plain and safe against removal, with one rule for all plain and one for all safe ones.

  \<^item> \<^verbatim>\<open>Tracer_Text\<close> (\<^verbatim>\<open>arch-x86/breakpoint.c\<close>): words of bytes as \<^verbatim>\<open>ptrace\<close> reads and writes them.  \<^verbatim>\<open>Tracer_State\<close>: the state of the tracer.
    \<^verbatim>\<open>Tracer_Threads\<close> (\<^verbatim>\<open>thread.c\<close>), \<^verbatim>\<open>Tracer_Breakpoints\<close> (\<^verbatim>\<open>breakpoint.c\<close>), \<^verbatim>\<open>Tracer_Objects\<close> (\<^verbatim>\<open>object.c\<close> and the start of \<^verbatim>\<open>atrace.c\<close>):
    its operations; \<^verbatim>\<open>Error_Code\<close> (\<^verbatim>\<open>error.h\<close>, \<^verbatim>\<open>error.c\<close>): its error codes.

  \<^bold>\<open>What is shown.\<close>  The main result is that hooks are transparent: whatever the interleaving, a run of the patched
  program is a run of the program without hooks, and no assertion of the handler fails, provided the displaced
  instructions do the same at any address.  It rests on the invariant that hooking an address establishes, and this on
  the refinement of the tree and of the two tables to finite maps, of the lists to sequences and of the bitmaps to
  sets of slots.  Reading the memory map again keeps every hook, and the two traps at the entry point lead to a state from which the
  hooks are transparent.  The constructor brings a fresh process into a state in which all this applies, so that the process as a whole does
  what the program does on the memory it had before the library was loaded.  The typing of the heaps, which holds without any
  invariant, tells what hooking an address and the handler take from \<^verbatim>\<open>calloc\<close>, at most a slot set and a thread besides the breakpoint, and that blocks that
  have not been handed out stay free.  Further results are the round trips of the parser, of slots and of enabling, the results of all
  error branches, and the behaviour on inputs on which the code fails: slots outside their page, the
  deletion of threads, breakpoints without a slot and entry points above 32 bits.

  For the tracer, the text of the process is refined to the original text with a set of marked addresses: any sequence of
  enabling, disabling and stepping over breakpoints keeps this view, although each access moves eight bytes and
  neighbouring breakpoints overlap.  Search, the list of threads, the loops over it and the loading of the memory map
  are refined to sequences.  The breakpoint on the entry point is shown never to be written, since it is
  enabled before its address is set; further results are the failure with two breakpoints on one address and the use of
  released memory when a thread is lost while all are resumed.

  \<^bold>\<open>Not modelled.\<close>  Output (\<^verbatim>\<open>printf\<close>, \<^verbatim>\<open>perror\<close>, \<^verbatim>\<open>utils.c\<close>) outside \<^verbatim>\<open>rbtest.c\<close>, the flush of the instruction cache, and \<^verbatim>\<open>free\<close> of blocks that nothing
  refers to.  A string copied by \<^verbatim>\<open>strndup\<close> is its text and has no address; whether each copy succeeds is a parameter, a function of
  the text, so that a copy that is made and lost shows only in what happens when it fails.  \<^verbatim>\<open>object_del\<close>, which \<^verbatim>\<open>object_unload\<close> calls, is declared and not defined; it is a parameter.  Relaxed memory and the
  concurrency inside a handler are outside the model: the locks are taken and released in each step.
  \<^verbatim>\<open>src/test/\<close> holds two stand-alone experiments with \<^verbatim>\<open>ptrace\<close> and threads.  Of the tracer, \<^verbatim>\<open>thread_wait\<close>, \<^verbatim>\<open>thread_stop\<close>, \<^verbatim>\<open>thread_run\<close> and
  \<^verbatim>\<open>thread_single_step\<close> (\<^verbatim>\<open>src/src/thread.c\<close>) and the event loop of \<^verbatim>\<open>src/src/atrace.c\<close> use variables and fields that are not
  declared, so that they have no meaning to model; where another function calls them they are parameters.
\<close>

end
